(* ===== verification/Mos_Prelude.thy ===== *)
theory Mos_Prelude
  imports Main "HOL-Library.Word" "HOL-Library.Multiset" "HOL-Library.Monad_Syntax"
begin

section \<open>Prelude: types, result discipline and list lemmas shared by all components\<close>

text \<open>
  Machine types, the discipline for operations that can panic, and the generic lemmas on
  lists, rings and words that several components use.

  An operation that can panic (an index out of range, a failed \<open>assert!\<close>, the
  dereference of a null \<open>CURRENT_TCB_PTR\<close>, the read of an uninitialised cell, the
  explicit \<open>panic!\<close> of the scheduler) has a result of type \<open>'a option\<close>: \<open>None\<close> is
  the panic, after which the firmware's panic handler loops for ever. Results that the
  code returns to its caller as \<open>Err\<close> or \<open>None\<close> are values inside the
  \<open>Some\<close>. The build turns \<open>overflow-checks\<close> off, so machine arithmetic wraps.
\<close>

unbundle bit_operations_syntax

type_synonym u8 = "8 word"
type_synonym u16 = "16 word"
type_synonym u32 = "32 word"
type_synonym u64 = "64 word"

named_theorems kernel_simps \<open>unfolding rules for the kernel's operations\<close>
named_theorems frame_simps \<open>what an operation leaves unchanged\<close>

subsection \<open>Total correctness of an operation that may panic\<close>

text \<open>\<open>returns P m\<close>: the operation \<open>m\<close> does not panic and its result satisfies \<open>P\<close>.\<close>

definition returns :: "('a \<Rightarrow> bool) \<Rightarrow> 'a option \<Rightarrow> bool" where
  "returns P m = (case m of None \<Rightarrow> False | Some x \<Rightarrow> P x)"

lemma returns_Some [simp]: "returns P (Some x) = P x"
  by (simp add: returns_def)

lemma returns_None [simp]: "\<not> returns P None"
  by (simp add: returns_def)

lemma returns_bind [simp]: "returns P (m \<bind> f) = returns (\<lambda>x. returns P (f x)) m"
  by (cases m) auto

lemma returns_if [simp]:
  "returns P (if b then m else n) = (if b then returns P m else returns P n)"
  by simp

lemma returns_mono: "returns P m \<Longrightarrow> (\<And>x. P x \<Longrightarrow> Q x) \<Longrightarrow> returns Q m"
  by (cases m) auto

lemma returns_iff: "returns P m \<longleftrightarrow> (\<exists>x. m = Some x \<and> P x)"
  by (cases m) auto

lemma returnsE: "returns P m \<Longrightarrow> (\<And>x. m = Some x \<Longrightarrow> P x \<Longrightarrow> R) \<Longrightarrow> R"
  by (auto simp: returns_iff)

lemma returns_pairE:
  "returns (\<lambda>(x, y). P x y) m \<Longrightarrow> (\<And>x y. m = Some (x, y) \<Longrightarrow> P x y \<Longrightarrow> R) \<Longrightarrow> R"
  by (auto simp: returns_iff)

lemma returnsD: "returns P m \<Longrightarrow> m = Some x \<Longrightarrow> P x"
  by simp

lemma returns_conj: "returns (\<lambda>x. P x \<and> Q x) m \<longleftrightarrow> returns P m \<and> returns Q m"
  by (cases m) auto

subsection \<open>Signed 32-bit arithmetic\<close>

text \<open>An \<open>i32\<close> is an \<open>int\<close> in range; \<open>wrap_i32\<close> is what a wrapping operation keeps.\<close>

definition wrap_i32 :: "int \<Rightarrow> int" where
  "wrap_i32 x = (x + 2147483648) mod 4294967296 - 2147483648"

lemma wrap_i32_id [simp]: "- 2147483648 \<le> x \<Longrightarrow> x < 2147483648 \<Longrightarrow> wrap_i32 x = x"
  by (simp add: wrap_i32_def)

lemma wrap_i32_range: "- 2147483648 \<le> wrap_i32 x \<and> wrap_i32 x < 2147483648"
proof -
  have "0 \<le> (x + 2147483648) mod 4294967296" "(x + 2147483648) mod 4294967296 < 4294967296"
    by auto
  then show ?thesis by (simp add: wrap_i32_def)
qed

text \<open>The sign of a 32-bit difference orders the words of a window of half the range.\<close>

lemma sint_neg_iff: "sint (w :: u32) < 0 \<longleftrightarrow> 2147483648 \<le> unat w"
proof -
  have "sint w < 0 \<longleftrightarrow> bit w 31"
    using bit_last_iff [of w] by simp
  also have "bit w 31 \<longleftrightarrow> bit (unat w) 31" by (simp add: bit_unsigned_iff)
  also have "\<dots> \<longleftrightarrow> odd (unat w div 2147483648)"
    by (simp add: bit_iff_odd)
  also have "\<dots> \<longleftrightarrow> 2147483648 \<le> unat w"
  proof -
    have "unat w < 4294967296" using unsigned_less [of w] by simp
    then have "unat w div 2147483648 < 2" by auto
    then have "unat w div 2147483648 = 0 \<or> unat w div 2147483648 = 1" by linarith
    then show ?thesis by (auto simp: div_eq_0_iff)
  qed
  finally show ?thesis .
qed

lemma sint_diff_window:
  assumes "unat (x - base) < 2147483648" "unat (y - base) < 2147483648"
  shows "sint (x - y :: u32) < 0 \<longleftrightarrow> unat (x - base) < unat (y - base)"
proof -
  have e: "x - y = (x - base) - (y - base)" by simp
  have "unat (x - y) = (if unat (y - base) \<le> unat (x - base) then unat (x - base) - unat (y - base)
      else unat (x - base) + 4294967296 - unat (y - base))"
    unfolding e unat_sub_if_size by (simp add: word_size)
  with assms show ?thesis unfolding sint_neg_iff by auto
qed

subsection \<open>Single bits of a word\<close>

text \<open>The simplifier turns \<open>push_bit n 1\<close>, the code's \<open>1 << n\<close>, into \<open>2 ^ n\<close>.\<close>

lemma and_pow2_eq_0_iff [simp]: "(w AND 2 ^ n = 0) = (\<not> bit (w :: 'a :: len word) n)"
  using bit_iff_and_push_bit_not_eq_0 [of w n] by simp

lemma bit_or_pow2:
  "n < LENGTH('a) \<Longrightarrow> bit (w OR 2 ^ n) m = (bit (w :: 'a :: len word) m \<or> m = n)"
  by (auto simp: bit_simps)

lemma bit_and_not_pow2 [simp]:
  "bit (w AND NOT (2 ^ n)) m = (bit (w :: 'a :: len word) m \<and> m \<noteq> n)"
  by (auto simp: bit_simps dest: bit_imp_le_length)

text \<open>Bounded quantifiers over task identifiers, for concrete states.\<close>

lemma all_less_16:
  "(\<forall>t < (16 :: nat). P t) = (P 0 \<and> P 1 \<and> P 2 \<and> P 3 \<and> P 4 \<and> P 5 \<and> P 6 \<and> P 7
     \<and> P 8 \<and> P 9 \<and> P 10 \<and> P 11 \<and> P 12 \<and> P 13 \<and> P 14 \<and> P 15)"
  by (simp add: numeral_eq_Suc All_less_Suc) blast

subsection \<open>Insertion before the first element that satisfies a predicate\<close>

definition insert_before :: "('a \<Rightarrow> bool) \<Rightarrow> 'a \<Rightarrow> 'a list \<Rightarrow> 'a list" where
  "insert_before p x xs = takeWhile (\<lambda>y. \<not> p y) xs @ x # dropWhile (\<lambda>y. \<not> p y) xs"

lemma insert_before_Nil [simp]: "insert_before p x [] = [x]"
  by (simp add: insert_before_def)

lemma insert_before_Cons [simp]:
  "insert_before p x (y # ys) = (if p y then x # y # ys else y # insert_before p x ys)"
  by (simp add: insert_before_def)

lemma set_insert_before [simp]: "set (insert_before p x xs) = insert x (set xs)"
  by (induction xs) auto

lemma length_insert_before [simp]: "length (insert_before p x xs) = Suc (length xs)"
  by (induction xs) auto

lemma mset_insert_before [simp]: "mset (insert_before p x xs) = add_mset x (mset xs)"
  by (induction xs) auto

lemma distinct_insert_before [simp]:
  "distinct (insert_before p x xs) = (x \<notin> set xs \<and> distinct xs)"
  by (induction xs) auto

lemma insert_before_not_Nil [simp]: "insert_before p x xs \<noteq> []"
  by (simp add: insert_before_def)

lemma insert_before_cong:
  "(\<And>y. y \<in> set xs \<Longrightarrow> p y = q y) \<Longrightarrow> insert_before p x xs = insert_before q x xs"
  by (induction xs) auto

lemma sorted_insert_before:
  "sorted (map f xs) \<Longrightarrow> sorted (map f (insert_before (\<lambda>y. f x < f y) x xs))"
  by (induction xs) (auto simp: not_less order.strict_implies_order intro: order.trans)

lemma remove1_insert_before:
  "x \<notin> set xs \<Longrightarrow> remove1 x (insert_before p x xs) = xs"
  by (induction xs) auto

text \<open>A stable insertion: behind every element of the same key, before every larger one.\<close>

lemma insert_before_split:
  assumes "sorted (map f xs)"
  shows "insert_before (\<lambda>y. f x < f y) x xs
       = filter (\<lambda>y. f y \<le> f x) xs @ x # filter (\<lambda>y. f x < f y) xs"
  using assms
proof (induction xs)
  case Nil
  show ?case by simp
next
  case (Cons y ys)
  show ?case
  proof (cases "f x < f y")
    case True
    with Cons.prems have "\<forall>z\<in>set ys. f x < f z" by auto
    with True show ?thesis by (auto simp: filter_empty_conv filter_id_conv not_le)
  next
    case False
    with Cons show ?thesis by (simp add: not_less)
  qed
qed

lemma sorted_map_remove1: "sorted (map f xs) \<Longrightarrow> sorted (map f (remove1 x xs))"
  by (induction xs) (auto dest: notin_set_remove1 simp: set_remove1_subset subset_eq
      intro: set_remove1_subset [THEN subsetD])

lemma sorted_map_cong:
  "(\<And>x. x \<in> set xs \<Longrightarrow> f x = g x) \<Longrightarrow> sorted (map f xs) = sorted (map g xs)"
  by (metis map_cong)

lemma length_distinct_lessThan:
  "distinct xs \<Longrightarrow> set xs \<subseteq> {..<n} \<Longrightarrow> length xs \<le> n"
  by (metis card_lessThan card_mono distinct_card finite_lessThan)

lemma length_distinct_lessThan_strict:
  "distinct xs \<Longrightarrow> set xs \<subseteq> {..<n} \<Longrightarrow> x < n \<Longrightarrow> x \<notin> set xs \<Longrightarrow> length xs < n"
  using length_distinct_lessThan [of "x # xs" n] by auto

subsection \<open>The live part of a ring\<close>

text \<open>\<open>ring_contents buf head n\<close>: the \<open>n\<close> cells from \<open>head\<close> on, in order, around the end.\<close>

definition ring_contents :: "'a list \<Rightarrow> nat \<Rightarrow> nat \<Rightarrow> 'a list" where
  "ring_contents buf head n = map (\<lambda>i. buf ! ((head + i) mod length buf)) [0..<n]"

lemma ring_contents_0 [simp]: "ring_contents buf head 0 = []"
  by (simp add: ring_contents_def)

lemma length_ring_contents [simp]: "length (ring_contents buf head n) = n"
  by (simp add: ring_contents_def)

lemma ring_contents_nth:
  "i < n \<Longrightarrow> ring_contents buf head n ! i = buf ! ((head + i) mod length buf)"
  by (simp add: ring_contents_def)

lemma ring_index_le:
  assumes "j < N" "i \<le> j" "(h + i) mod N = (h + j) mod (N :: nat)"
  shows "i = j"
proof -
  have "N dvd (h + j) - (h + i)"
    using assms(2,3) by (metis mod_eq_dvd_iff_nat nat_add_left_cancel_le)
  then have "N dvd j - i" by simp
  moreover have "j - i < N" using assms(1) by simp
  ultimately have "j - i = 0" using nat_dvd_not_less by blast
  with assms(2) show ?thesis by simp
qed

lemma ring_index_inj:
  assumes "i < N" "j < N" "(h + i) mod N = (h + j) mod (N :: nat)"
  shows "i = j"
  using assms ring_index_le [of j N i h] ring_index_le [of i N j h] by (cases "i \<le> j") auto

lemma ring_contents_push:
  assumes "n < length buf"
  shows "ring_contents (buf[(head + n) mod length buf := x]) head (Suc n)
       = ring_contents buf head n @ [x]"
proof (rule nth_equalityI)
  fix i assume "i < length (ring_contents (buf[(head + n) mod length buf := x]) head (Suc n))"
  then have i: "i \<le> n" by simp
  from assms have pos: "0 < length buf" by linarith
  show "ring_contents (buf[(head + n) mod length buf := x]) head (Suc n) ! i
      = (ring_contents buf head n @ [x]) ! i"
  proof (cases "i = n")
    case True
    with pos show ?thesis by (simp add: ring_contents_nth nth_append)
  next
    case False
    with i have "i < n" by simp
    have "(head + i) mod length buf \<noteq> (head + n) mod length buf"
      using ring_index_inj [of i "length buf" n head] assms \<open>i < n\<close> by auto
    with \<open>i < n\<close> show ?thesis by (simp add: ring_contents_nth nth_append)
  qed
qed simp

lemma ring_contents_pop:
  assumes "0 < n" "head < length buf"
  shows "ring_contents buf head n
       = buf ! head # ring_contents buf ((head + 1) mod length buf) (n - 1)"
proof (rule nth_equalityI)
  fix i assume "i < length (ring_contents buf head n)"
  then have "i < n" by simp
  with assms show "ring_contents buf head n ! i
      = (buf ! head # ring_contents buf ((head + 1) mod length buf) (n - 1)) ! i"
    by (cases i) (auto simp: ring_contents_nth mod_simps)
qed (use assms in simp)

lemma ring_tail_push:
  "((head + n) mod N + 1) mod N = (head + Suc n) mod (N :: nat)"
  by (simp add: mod_simps)

lemma ring_tail_pop:
  assumes "0 < n"
  shows "((head + 1) mod N + (n - 1)) mod N = (head + n) mod (N :: nat)"
proof -
  have "((head + 1) mod N + (n - 1)) mod N = (head + 1 + (n - 1)) mod N"
    by (rule mod_add_left_eq)
  also have "head + 1 + (n - 1) = head + n" using assms by simp
  finally show ?thesis .
qed

end
