(* ===== verification/Mos_Text.thy ===== *)
theory Mos_Text
  imports Mos_Prelude
begin

section \<open>Text: what the code uses of \<open>core::str\<close> and \<open>core::fmt\<close>\<close>

text \<open>
  A \<open>str\<close> is its bytes, as a HOL \<open>string\<close> (a \<open>char\<close> is a byte); \<open>to_bytes\<close> and \<open>of_bytes\<close> convert to
  the code's \<open>u8\<close> arrays. Validity of UTF-8, the trimming of Unicode white space, padding to a width
  in characters and decimal numbers follow the standard library.
\<close>

definition to_byte :: "char \<Rightarrow> u8" where
  "to_byte c = of_nat (of_char c)"

definition of_byte :: "u8 \<Rightarrow> char" where
  "of_byte b = char_of (unat b)"

definition to_bytes :: "string \<Rightarrow> u8 list" where
  "to_bytes s = map to_byte s"

definition of_bytes :: "u8 list \<Rightarrow> string" where
  "of_bytes bs = map of_byte bs"

lemma unat_to_byte: "unat (to_byte c) = of_char c"
  by (simp add: to_byte_def unat_of_nat take_bit_nat_eq_self)

lemma to_byte_of_byte [simp]: "to_byte (of_byte b) = b"
proof -
  have "unat b < 256" using unsigned_less [of b, where 'a = nat] by simp
  then have "of_char (char_of (unat b) :: char) = unat b" by simp
  then show ?thesis by (simp add: to_byte_def of_byte_def)
qed

lemma of_byte_to_byte [simp]: "of_byte (to_byte c) = c"
  by (simp add: of_byte_def unat_to_byte)

lemma of_bytes_to_bytes [simp]: "of_bytes (to_bytes s) = s"
  by (simp add: of_bytes_def to_bytes_def o_def)

lemma to_bytes_of_bytes [simp]: "to_bytes (of_bytes bs) = bs"
  by (simp add: of_bytes_def to_bytes_def o_def)

lemma length_to_bytes [simp]: "length (to_bytes s) = length s"
  by (simp add: to_bytes_def)

lemma length_of_bytes [simp]: "length (of_bytes bs) = length bs"
  by (simp add: of_bytes_def)

subsection \<open>UTF-8\<close>

definition cont :: "u8 \<Rightarrow> bool" where
  "cont b \<longleftrightarrow> 0x80 \<le> b \<and> b \<le> 0xBF"

text \<open>The well-formed byte sequences: no overlong forms, no surrogates, nothing beyond U+10FFFF.\<close>

fun utf8_valid :: "u8 list \<Rightarrow> bool" where
  "utf8_valid [] = True"
| "utf8_valid (a # bs) =
     (if a \<le> 0x7F then utf8_valid bs
      else (case bs of
        b # bs2 \<Rightarrow>
          if 0xC2 \<le> a \<and> a \<le> 0xDF then cont b \<and> utf8_valid bs2
          else (case bs2 of
            c # bs3 \<Rightarrow>
              if 0xE0 \<le> a \<and> a \<le> 0xEF
              then cont b \<and> cont c \<and> (a = 0xE0 \<longrightarrow> 0xA0 \<le> b) \<and> (a = 0xED \<longrightarrow> b \<le> 0x9F) \<and> utf8_valid bs3
              else (case bs3 of
                d # bs4 \<Rightarrow>
                  0xF0 \<le> a \<and> a \<le> 0xF4 \<and> cont b \<and> cont c \<and> cont d
                  \<and> (a = 0xF0 \<longrightarrow> 0x90 \<le> b) \<and> (a = 0xF4 \<longrightarrow> b \<le> 0x8F) \<and> utf8_valid bs4
              | [] \<Rightarrow> False)
          | [] \<Rightarrow> False)
      | [] \<Rightarrow> False))"

lemma utf8_valid_ascii: "\<forall>b \<in> set bs. b \<le> 0x7F \<Longrightarrow> utf8_valid bs"
  by (induction bs) simp_all

text \<open>\<open>str::from_utf8\<close>.\<close>

definition from_utf8 :: "u8 list \<Rightarrow> string option" where
  "from_utf8 bs = (if utf8_valid bs then Some (of_bytes bs) else None)"

subsection \<open>White space\<close>

text \<open>The length of the white-space character that a string starts with, 0 if there is none: the
  characters with the Unicode property \<open>White_Space\<close>, in UTF-8.\<close>

definition ws_ascii :: "char \<Rightarrow> bool" where
  "ws_ascii c \<longleftrightarrow> c = CHR '' '' \<or> c \<in> {CHR 0x09, CHR 0x0A, CHR 0x0B, CHR 0x0C, CHR 0x0D}"

definition ws_two :: "char \<Rightarrow> char \<Rightarrow> bool" where
  "ws_two a b \<longleftrightarrow> a = CHR 0xC2 \<and> b \<in> {CHR 0x85, CHR 0xA0}"

definition ws_three :: "char \<Rightarrow> char \<Rightarrow> char \<Rightarrow> bool" where
  "ws_three a b c \<longleftrightarrow> (a, b, c) \<in> {(CHR 0xE1, CHR 0x9A, CHR 0x80), (CHR 0xE2, CHR 0x81, CHR 0x9F),
     (CHR 0xE3, CHR 0x80, CHR 0x80)}
     \<or> a = CHR 0xE2 \<and> b = CHR 0x80 \<and> (c \<in> {CHR 0xA8, CHR 0xA9, CHR 0xAF}
         \<or> (128 :: nat) \<le> of_char c \<and> of_char c \<le> (138 :: nat))"

fun trim_start :: "string \<Rightarrow> string" where
  "trim_start [] = []"
| "trim_start (a # s) =
     (if ws_ascii a then trim_start s
      else (case s of
          b # s2 \<Rightarrow>
            if ws_two a b then trim_start s2
            else (case s2 of c # s3 \<Rightarrow> if ws_three a b c then trim_start s3 else a # s | [] \<Rightarrow> a # s)
        | [] \<Rightarrow> a # s))"

text \<open>From the back, on the reversed string.\<close>

fun trim_rev :: "string \<Rightarrow> string" where
  "trim_rev [] = []"
| "trim_rev (a # s) =
     (if ws_ascii a then trim_rev s
      else (case s of
          b # s2 \<Rightarrow>
            if ws_two b a then trim_rev s2
            else (case s2 of c # s3 \<Rightarrow> if ws_three c b a then trim_rev s3 else a # s | [] \<Rightarrow> a # s)
        | [] \<Rightarrow> a # s))"

definition trim_end :: "string \<Rightarrow> string" where
  "trim_end s = rev (trim_rev (rev s))"

definition trim :: "string \<Rightarrow> string" where
  "trim s = trim_end (trim_start s)"

definition trim_end_matches :: "char \<Rightarrow> string \<Rightarrow> string" where
  "trim_end_matches c s = rev (dropWhile (\<lambda>d. d = c) (rev s))"

definition starts_with :: "string \<Rightarrow> string \<Rightarrow> bool" where
  "starts_with s p \<longleftrightarrow> take (length p) s = p"

subsection \<open>Formatting\<close>

definition char_count :: "string \<Rightarrow> nat" where
  "char_count s = length (filter (\<lambda>c. \<not> cont (to_byte c)) s)"

definition pad_left :: "nat \<Rightarrow> string \<Rightarrow> string" where
  "pad_left n s = replicate (n - char_count s) CHR '' '' @ s"

definition pad_right :: "nat \<Rightarrow> string \<Rightarrow> string" where
  "pad_right n s = s @ replicate (n - char_count s) CHR '' ''"

definition zero_pad :: "nat \<Rightarrow> string \<Rightarrow> string" where
  "zero_pad n s = replicate (n - char_count s) CHR ''0'' @ s"

fun decimal :: "nat \<Rightarrow> string" where
  "decimal n = (if n < 10 then [char_of (48 + n)] else decimal (n div 10) @ [char_of (48 + n mod 10)])"

declare decimal.simps [simp del]

text \<open>\<open>{:08x}\<close> and \<open>{:04x}\<close>: lower-case hexadecimal digits, padded with zeros.\<close>

definition hex_digit :: "nat \<Rightarrow> char" where
  "hex_digit d = char_of (if d < 10 then 48 + d else 87 + d)"

fun hexadecimal :: "nat \<Rightarrow> string" where
  "hexadecimal n = (if n < 16 then [hex_digit n] else hexadecimal (n div 16) @ [hex_digit (n mod 16)])"

declare hexadecimal.simps [simp del]

definition hex_word :: "nat \<Rightarrow> 'a :: len word \<Rightarrow> string" where
  "hex_word width w = zero_pad width (hexadecimal (unat w))"

text \<open>Text that starts and ends with graphic ASCII is left alone by trimming.\<close>

definition plain_char :: "char \<Rightarrow> bool" where
  "plain_char c \<longleftrightarrow> (32 :: nat) < of_char c \<and> of_char c < (127 :: nat)"

lemma plain_char_not_ws:
  assumes "plain_char a"
  shows "\<not> ws_ascii a" "\<not> ws_two a b" "\<not> ws_two b a" "\<not> ws_three a b c" "\<not> ws_three c b a"
  using assms by (auto simp: plain_char_def ws_ascii_def ws_two_def ws_three_def)

lemma trim_start_stop [simp]: "plain_char a \<Longrightarrow> trim_start (a # s) = a # s"
  by (auto simp: plain_char_not_ws split: list.splits)

lemma trim_rev_stop [simp]: "plain_char a \<Longrightarrow> trim_rev (a # s) = a # s"
  by (auto simp: plain_char_not_ws split: list.splits)

lemma trim_start_space [simp]: "trim_start (CHR '' '' # s) = trim_start s"
  by (simp add: ws_ascii_def trim_start.simps(2))

declare trim_start.simps(2) [simp del] trim_rev.simps(2) [simp del]

lemma trim_id:
  assumes "s = [] \<or> plain_char (hd s) \<and> plain_char (last s)"
  shows "trim s = s"
proof (cases s)
  case (Cons a s')
  with assms have "plain_char a" by simp
  then have "trim_start s = s" using Cons trim_start_stop by simp
  moreover obtain u b where b: "s = u @ [b]" using Cons by (metis append_butlast_last_id list.distinct(1))
  then have "trim_end s = s" using assms by (simp add: trim_end_def)
  ultimately show ?thesis by (simp add: trim_def)
qed (simp add: trim_def trim_end_def)

subsection \<open>Characters\<close>

text \<open>\<open>str::chars\<close>: the code points of a string's bytes.\<close>

definition low6 :: "u8 \<Rightarrow> nat" where
  "low6 b = unat b mod 64"

fun code_points :: "u8 list \<Rightarrow> nat list" where
  "code_points [] = []"
| "code_points (a # bs) =
     (if a < 0x80 then unat a # code_points bs
      else (case bs of
          b # bs2 \<Rightarrow>
            if a < 0xE0 then ((unat a mod 32) * 64 + low6 b) # code_points bs2
            else (case bs2 of
                c # bs3 \<Rightarrow>
                  if a < 0xF0 then ((unat a mod 16) * 4096 + low6 b * 64 + low6 c) # code_points bs3
                  else (case bs3 of
                      d # bs4 \<Rightarrow> ((unat a mod 8) * 262144 + low6 b * 4096 + low6 c * 64 + low6 d) # code_points bs4
                    | [] \<Rightarrow> [])
              | [] \<Rightarrow> [])
        | [] \<Rightarrow> []))"

definition chars_of :: "string \<Rightarrow> nat list" where
  "chars_of s = code_points (to_bytes s)"

declare code_points.simps(2) [simp del]

lemma length_code_points: "length (code_points bs) \<le> length bs"
proof (induction "length bs" arbitrary: bs rule: less_induct)
  case less
  show ?case
  proof (cases bs)
    case (Cons a as)
    have IH: "length (code_points cs) \<le> n" if "length cs \<le> length as" "length cs \<le> n" for cs n
      using less [of cs] that Cons by simp
    have "length (code_points (a # as)) \<le> length (a # as)"
      by (subst code_points.simps) (auto split: list.split intro!: IH)
    then show ?thesis using Cons by simp
  qed simp
qed

lemma length_chars_of: "length (chars_of s) \<le> length s"
  using length_code_points [of "to_bytes s"] by (simp add: chars_of_def)

end
