(* ===== verification/Mos_Build.thy ===== *)
theory Mos_Build
  imports Mos_Text
begin

section \<open>The build script of the board crate\<close>

text \<open>
  \<open>boards/esp32c6/build.rs\<close>, which runs on the host in two roles. Cargo calls it without arguments and reads
  the linker flags from its output; one of them names the script itself as the error handler of the
  linker. The linker then calls it with the kind of an error and its subject, and the script prints a hint.
  The output is the list of lines on each stream, \<open>process::exit\<close> ends the run with a code, and \<open>None\<close> is a panic.
  The arguments are UTF-8 strings and the streams are open; the path of the executable is an argument.
\<close>

record streams =
  out_lines :: "string list"
  err_lines :: "string list"

datatype ending = Returns | Exits int

definition silent :: streams where
  "silent = \<lparr>out_lines = [], err_lines = []\<rparr>"

definition println_out :: "string \<Rightarrow> streams \<Rightarrow> streams" where
  "println_out l o' = o'\<lparr>out_lines := out_lines o' @ [l]\<rparr>"

definition println_err :: "string \<Rightarrow> streams \<Rightarrow> streams" where
  "println_err l o' = o'\<lparr>err_lines := err_lines o' @ [l]\<rparr>"

text \<open>Each hint stands between two empty lines.\<close>

definition hint :: "string \<Rightarrow> streams \<Rightarrow> streams" where
  "hint l o' = println_err [] (println_err l (println_err [] o'))"

definition undefined_symbol :: "string \<Rightarrow> streams \<Rightarrow> streams" where
  "undefined_symbol what o' =
     (if starts_with what ''_defmt_'' then
        hint ''defmt not found - make sure defmt.x is added as a linker script and you have included use defmt_rtt as _;'' o'
      else if what = ''_stack_start'' then hint ''Is the linker script linkall.x missing?'' o'
      else if starts_with what ''esp_rtos_'' then
        hint ''esp-radio has no scheduler enabled. Make sure you have initialized esp-rtos or provided an external scheduler.'' o'
      else if what = ''embedded_test_linker_file_not_added_to_rustflags'' then
        hint ''embedded-test not found - make sure embedded-test.x is added as a linker script for tests'' o'
      else if what \<in> set [''free'', ''malloc'', ''calloc'', ''get_free_internal_heap_size'', ''malloc_internal'',
           ''realloc_internal'', ''calloc_internal'', ''free_internal''] then
        hint ''Did you forget the esp-alloc dependency or didn't enable the compat feature on it?'' o'
      else o')"

definition linker_be_nice :: "string list \<Rightarrow> string option \<Rightarrow> streams \<Rightarrow> (ending \<times> streams) option" where
  "linker_be_nice args current_exe o' =
     (if 1 < length args then
        (if 2 < length args then
           (let kind = args ! 1; what = args ! 2 in
            if kind = ''undefined-symbol'' then Some (Exits 0, undefined_symbol what o') else Some (Exits 1, o'))
         else None)
      else (case current_exe of
          None \<Rightarrow> None
        | Some path \<Rightarrow> Some (Returns, println_out (''cargo:rustc-link-arg=--error-handling-script='' @ path) o')))"

definition build_main :: "string list \<Rightarrow> string option \<Rightarrow> streams \<Rightarrow> (ending \<times> streams) option" where
  "build_main args current_exe o' = do {
     (e, o') \<leftarrow> linker_be_nice args current_exe o';
     (case e of
        Exits n \<Rightarrow> Some (Exits n, o')
      | Returns \<Rightarrow> Some (Returns, println_out ''cargo:rustc-link-arg=-Tlinkall.x'' o')) }"

subsection \<open>The two roles\<close>

text \<open>The flags for cargo: the run ends normally, and the error handler named in them is the script itself.\<close>

lemma build_for_cargo:
  "build_main [exe] (Some path) silent
     = Some (Returns, \<lparr>out_lines = [''cargo:rustc-link-arg=--error-handling-script='' @ path, ''cargo:rustc-link-arg=-Tlinkall.x''],
         err_lines = []\<rparr>)"
  by (simp add: build_main_def linker_be_nice_def println_out_def silent_def)

text \<open>As an error handler the script tells cargo nothing, prints at most one hint, and accepts one kind of error only.\<close>

lemma build_for_linker:
  assumes "2 < length args"
  shows "returns (\<lambda>(e, o'). out_lines o' = [] \<and> e = Exits (if args ! 1 = ''undefined-symbol'' then 0 else 1)
      \<and> (err_lines o' = [] \<or> args ! 1 = ''undefined-symbol'' \<and> (\<exists>l. err_lines o' = [[], l, []])))
    (build_main args current_exe silent)"
  using assms by (simp add: build_main_def linker_be_nice_def undefined_symbol_def hint_def println_err_def silent_def Let_def)

text \<open>Called with the kind alone the script panics: it reads \<open>args[2]\<close> after a check for \<open>args[1]\<close>.\<close>

lemma build_needs_subject: "build_main [exe, kind] current_exe o' = None"
  by (simp add: build_main_def linker_be_nice_def)

lemma build_examples:
  "build_main [''b'', ''undefined-symbol'', ''esp_rtos_yield''] None silent
     = Some (Exits 0, \<lparr>out_lines = [], err_lines = [[],
         ''esp-radio has no scheduler enabled. Make sure you have initialized esp-rtos or provided an external scheduler.'', []]\<rparr>)"
  "build_main [''b'', ''missing-lib'', ''m''] None silent = Some (Exits 1, silent)"
  by (simp_all add: build_main_def linker_be_nice_def undefined_symbol_def hint_def println_err_def silent_def Let_def starts_with_def)

end
