(* ===== verification/Mos_Bitmap.thy ===== *)
theory Mos_Bitmap
  imports Mos_Prelude
begin

section \<open>Bitmaps\<close>

text \<open>
  \<open>core/src/data_type/bitmap.rs\<close>: \<open>BitMap<N, W>\<close>, \<open>N\<close> bits in \<open>W\<close> 32-bit words,
  position \<open>p\<close> in word \<open>p / 32\<close> at bit \<open>31 - p % 32\<close>, so that \<open>leading_zeros\<close>
  finds the lowest position. The two const generics are arguments: \<open>N\<close> of the operations
  that test it, \<open>W\<close> as the length of the word array. An index outside the array panics.
  The abstract value is the predicate \<open>bitmap_test\<close>, and the scans are proved to find the
  least position that is clear, or set.
\<close>

record bitmap = data :: "u32 list"

definition bitmap_new :: "nat \<Rightarrow> bitmap" where
  "bitmap_new W = \<lparr>data = replicate W 0\<rparr>"

definition bitmap_set :: "nat \<Rightarrow> nat \<Rightarrow> bitmap \<Rightarrow> bitmap option" where
  "bitmap_set N pos b =
     (if pos < N then
        let index = pos div 32; bt = 31 - (pos mod 32)
        in if index < length (data b)
           then Some (b\<lparr>data := (data b)[index := data b ! index OR push_bit bt 1]\<rparr>)
           else None
      else Some b)"

definition bitmap_reset :: "nat \<Rightarrow> nat \<Rightarrow> bitmap \<Rightarrow> bitmap option" where
  "bitmap_reset N pos b =
     (if pos < N then
        let index = pos div 32; bt = 31 - (pos mod 32)
        in if index < length (data b)
           then Some (b\<lparr>data := (data b)[index := data b ! index AND NOT (push_bit bt 1)]\<rparr>)
           else None
      else Some b)"

definition bitmap_test :: "nat \<Rightarrow> nat \<Rightarrow> bitmap \<Rightarrow> bool option" where
  "bitmap_test N pos b =
     (if pos < N then
        let index = pos div 32; bt = 31 - (pos mod 32)
        in if index < length (data b)
           then Some (data b ! index AND push_bit bt 1 \<noteq> 0)
           else None
      else Some False)"

text \<open>\<open>u32::leading_zeros\<close>: the number of clear bits above the highest set one.\<close>

fun leading_zeros_from :: "nat \<Rightarrow> u32 \<Rightarrow> nat" where
  "leading_zeros_from 0 w = 0"
| "leading_zeros_from (Suc n) w = (if bit w n then 0 else Suc (leading_zeros_from n w))"

definition leading_zeros :: "u32 \<Rightarrow> nat" where
  "leading_zeros w = leading_zeros_from 32 w"

definition count_ones_u32 :: "u32 \<Rightarrow> nat" where
  "count_ones_u32 w = length (filter (bit w) [0..<32])"

text \<open>The scan loops \<open>for i in 0..W\<close> of \<open>first_zero\<close> and \<open>first_one\<close>, from index \<open>i\<close> on.\<close>

fun first_zero_from :: "nat \<Rightarrow> nat \<Rightarrow> u32 list \<Rightarrow> nat option" where
  "first_zero_from N i [] = None"
| "first_zero_from N i (w # ws) =
     (if w \<noteq> NOT 0 then
        let pos = i * 32 + leading_zeros (NOT w)
        in if pos < N then Some pos else first_zero_from N (Suc i) ws
      else first_zero_from N (Suc i) ws)"

definition bitmap_first_zero :: "nat \<Rightarrow> bitmap \<Rightarrow> nat option" where
  "bitmap_first_zero N b = first_zero_from N 0 (data b)"

fun first_one_from :: "nat \<Rightarrow> nat \<Rightarrow> u32 list \<Rightarrow> nat option" where
  "first_one_from N i [] = None"
| "first_one_from N i (w # ws) =
     (if w \<noteq> 0 then
        let pos = i * 32 + leading_zeros w
        in if pos < N then Some pos else first_one_from N (Suc i) ws
      else first_one_from N (Suc i) ws)"

definition bitmap_first_one :: "nat \<Rightarrow> bitmap \<Rightarrow> nat option" where
  "bitmap_first_one N b = first_one_from N 0 (data b)"

definition bitmap_count_ones :: "bitmap \<Rightarrow> nat" where
  "bitmap_count_ones b = fold (\<lambda>w total. total + count_ones_u32 w) (data b) 0"

text \<open>\<open>N - self.count_ones()\<close> in \<open>usize\<close>, which wraps when more than \<open>N\<close> bits are set.\<close>

definition bitmap_count_zeros :: "nat \<Rightarrow> bitmap \<Rightarrow> nat" where
  "bitmap_count_zeros N b =
     (if bitmap_count_ones b \<le> N then N - bitmap_count_ones b
      else 2 ^ 32 + N - bitmap_count_ones b)"

subsection \<open>The invariant of \<open>bitmap_type!(N)\<close> and single bits\<close>

text \<open>\<open>bitmap_type!(n)\<close> fixes \<open>W = (n + 31) / 32\<close>; no bit beyond position \<open>N\<close> is ever set.\<close>

definition bitmap_pos :: "u32 list \<Rightarrow> nat \<Rightarrow> bool" where
  "bitmap_pos ws pos = bit (ws ! (pos div 32)) (31 - pos mod 32)"

definition bitmap_inv :: "nat \<Rightarrow> bitmap \<Rightarrow> bool" where
  "bitmap_inv N b \<longleftrightarrow> length (data b) = (N + 31) div 32
     \<and> (\<forall>pos < 32 * length (data b). bitmap_pos (data b) pos \<longrightarrow> pos < N)"

lemma bitmap_index_ok: "pos < N \<Longrightarrow> pos div 32 < (N + 31) div (32 :: nat)"
  by linarith

lemma bit_index_eq:
  "(p div 32 = q div 32 \<and> 31 - p mod 32 = 31 - q mod (32 :: nat)) = (p = q)"
proof
  assume h: "p div 32 = q div 32 \<and> 31 - p mod 32 = 31 - q mod (32 :: nat)"
  have "p mod 32 < 32" "q mod 32 < 32" by simp_all
  with h have "p mod 32 = q mod 32" by linarith
  with h show "p = q" by (metis div_mult_mod_eq)
qed simp

lemma bitmap_pos_update:
  assumes "p div 32 < length ws" "q div 32 < length ws"
  shows "bitmap_pos (ws[p div 32 := ws ! (p div 32) OR push_bit (31 - p mod 32) 1]) q
           = (bitmap_pos ws q \<or> q = p)"
    and "bitmap_pos (ws[p div 32 := ws ! (p div 32) AND NOT (push_bit (31 - p mod 32) 1)]) q
           = (bitmap_pos ws q \<and> q \<noteq> p)"
  using assms bit_index_eq [of p q]
  by (auto simp: bitmap_pos_def nth_list_update bit_or_pow2)

lemma bitmap_test_inv:
  "bitmap_inv N b \<Longrightarrow> bitmap_test N pos b = Some (pos < N \<and> bitmap_pos (data b) pos)"
  using bitmap_index_ok [of pos N] by (simp add: bitmap_test_def bitmap_inv_def bitmap_pos_def Let_def)

lemma bitmap_inv_new: "bitmap_inv N (bitmap_new ((N + 31) div 32))"
proof -
  have "\<not> bitmap_pos (replicate ((N + 31) div 32) 0) pos" if "pos < 32 * ((N + 31) div 32)" for pos
    using that by (simp add: bitmap_pos_def less_mult_imp_div_less mult.commute)
  then show ?thesis by (auto simp: bitmap_inv_def bitmap_new_def)
qed

lemma bitmap_inv_length: "bitmap_inv N b \<Longrightarrow> length (data b) = (N + 31) div 32"
  by (simp add: bitmap_inv_def)

lemma bitmap_inv_update:
  assumes inv: "bitmap_inv N b" and p: "p < N"
  shows "bitmap_inv N (b\<lparr>data := (data b)[p div 32 := data b ! (p div 32) OR push_bit (31 - p mod 32) 1]\<rparr>)"
    and "bitmap_inv N (b\<lparr>data := (data b)[p div 32 := data b ! (p div 32) AND NOT (push_bit (31 - p mod 32) 1)]\<rparr>)"
proof -
  have len: "p div 32 < length (data b)"
    using inv p bitmap_index_ok by (simp add: bitmap_inv_def)
  have q: "q div 32 < length (data b)" if "q < 32 * length (data b)" for q
    using that by (simp add: less_mult_imp_div_less mult.commute)
  show "bitmap_inv N (b\<lparr>data := (data b)[p div 32 := data b ! (p div 32) OR push_bit (31 - p mod 32) 1]\<rparr>)"
    using inv p bitmap_pos_update(1) [OF len q]
    by (auto simp: bitmap_inv_def simp del: push_bit_eq_mult push_bit_of_1)
  show "bitmap_inv N (b\<lparr>data := (data b)[p div 32 := data b ! (p div 32) AND NOT (push_bit (31 - p mod 32) 1)]\<rparr>)"
    using inv p bitmap_pos_update(2) [OF len q]
    by (auto simp: bitmap_inv_def simp del: push_bit_eq_mult push_bit_of_1)
qed

lemma bitmap_set_spec:
  assumes "bitmap_inv N b"
  shows "returns (\<lambda>b'. bitmap_inv N b'
           \<and> (\<forall>q. bitmap_test N q b' = Some (q < N \<and> (q = p \<or> bitmap_test N q b = Some True))))
         (bitmap_set N p b)"
proof (cases "p < N")
  case True
  have len: "r div 32 < length (data b)" if "r < N" for r
    using assms that bitmap_index_ok by (simp add: bitmap_inv_def)
  show ?thesis
    using True len [OF True] bitmap_inv_update(1) [OF assms True]
      bitmap_pos_update(1) [OF len [OF True] len] assms
    by (auto simp: bitmap_set_def Let_def bitmap_test_inv
        simp del: push_bit_eq_mult push_bit_of_1)
qed (use assms in \<open>auto simp: bitmap_set_def bitmap_test_inv\<close>)

lemma bitmap_reset_spec:
  assumes "bitmap_inv N b"
  shows "returns (\<lambda>b'. bitmap_inv N b'
           \<and> (\<forall>q. bitmap_test N q b' = Some (q \<noteq> p \<and> bitmap_test N q b = Some True)))
         (bitmap_reset N p b)"
proof (cases "p < N")
  case True
  have len: "r div 32 < length (data b)" if "r < N" for r
    using assms that bitmap_index_ok by (simp add: bitmap_inv_def)
  show ?thesis
    using True len [OF True] bitmap_inv_update(2) [OF assms True]
      bitmap_pos_update(2) [OF len [OF True] len] assms
    by (auto simp: bitmap_reset_def Let_def bitmap_test_inv
        simp del: push_bit_eq_mult push_bit_of_1)
qed (use assms in \<open>auto simp: bitmap_reset_def bitmap_test_inv\<close>)

subsection \<open>The scans\<close>

lemma leading_zeros_from_spec:
  "leading_zeros_from n w \<le> n
   \<and> (\<forall>j < leading_zeros_from n w. \<not> bit w (n - 1 - j))
   \<and> (leading_zeros_from n w < n \<longrightarrow> bit w (n - 1 - leading_zeros_from n w))"
proof (induction n)
  case 0
  show ?case by simp
next
  case (Suc n)
  have "\<not> bit w (n - j)" if "\<not> bit w n" "j < Suc (leading_zeros_from n w)" for j
    using that Suc by (cases j) auto
  with Suc show ?case by auto
qed

lemma leading_zeros_less: "w \<noteq> 0 \<Longrightarrow> leading_zeros w < 32"
proof (rule ccontr)
  assume "w \<noteq> 0" "\<not> leading_zeros w < 32"
  with leading_zeros_from_spec [of 32 w] have z: "\<forall>j<32. \<not> bit w (31 - j)"
    by (auto simp: leading_zeros_def)
  have "\<not> bit w i" for i
    using z [rule_format, of "31 - i"] bit_imp_le_length [of w i] by (cases "i < 32") auto
  then have "w = 0" by (simp add: bit_eq_iff)
  with \<open>w \<noteq> 0\<close> show False by simp
qed

lemma bitmap_pos_Cons:
  "bitmap_pos (w # ws) q = (if q < 32 then bit w (31 - q) else bitmap_pos ws (q - 32))"
proof (cases "q < 32")
  case False
  then have "q div 32 = Suc ((q - 32) div 32)" "q mod 32 = (q - 32) mod 32"
    by (simp_all add: le_div_geq le_mod_geq)
  with False show ?thesis by (simp add: bitmap_pos_def)
qed (simp add: bitmap_pos_def)

definition least_pos :: "nat \<Rightarrow> nat \<Rightarrow> (nat \<Rightarrow> bool) \<Rightarrow> nat \<Rightarrow> nat option \<Rightarrow> bool" where
  "least_pos N i P len r = (case r of
     None \<Rightarrow> \<forall>q < len. i + q < N \<longrightarrow> \<not> P q
   | Some p \<Rightarrow> \<exists>q < len. p = i + q \<and> p < N \<and> P q \<and> (\<forall>r < q. \<not> P r))"

lemma first_one_from_spec:
  "least_pos N (32 * i) (bitmap_pos ws) (32 * length ws) (first_one_from N i ws)"
proof (induction ws arbitrary: i)
  case Nil
  show ?case by (simp add: least_pos_def)
next
  case (Cons w ws)
  let ?z = "leading_zeros w"
  have z: "\<forall>j < ?z. \<not> bit w (31 - j)" "?z < 32 \<longrightarrow> bit w (31 - ?z)"
    using leading_zeros_from_spec [of 32 w] by (auto simp: leading_zeros_def)
  show ?case
  proof (cases "w \<noteq> 0 \<and> i * 32 + ?z < N")
    case True
    then have "?z < 32" using leading_zeros_less by simp
    with True z show ?thesis
      by (auto simp: least_pos_def Let_def bitmap_pos_Cons mult.commute intro!: exI [of _ ?z])
  next
    case False
    then have step: "first_one_from N i (w # ws) = first_one_from N (Suc i) ws"
      by (auto simp: Let_def)
    have none: "\<not> (32 * i + q < N \<and> bit w (31 - q))" if "q < 32" for q
      using that False z(1) by (cases "q < ?z") auto
    show ?thesis
    proof (cases "first_one_from N (Suc i) ws")
      case None
      with Cons.IH [of "Suc i"] none step show ?thesis
        by (auto simp: least_pos_def bitmap_pos_Cons add.assoc dest!: spec [of _ "_ - 32"])
    next
      case (Some p)
      with Cons.IH [of "Suc i"] obtain q where q: "q < 32 * length ws" "p = 32 * Suc i + q"
        "p < N" "bitmap_pos ws q" "\<forall>r < q. \<not> bitmap_pos ws r"
        by (auto simp: least_pos_def)
      have "\<not> bitmap_pos (w # ws) r" if "r < q + 32" for r
        using that q none [of r] by (auto simp: bitmap_pos_Cons)
      with q step Some show ?thesis
        by (auto simp: least_pos_def bitmap_pos_Cons intro!: exI [of _ "q + 32"])
    qed
  qed
qed

lemma first_zero_from_eq: "first_zero_from N i ws = first_one_from N i (map (\<lambda>w. NOT w) ws)"
proof -
  have "(w \<noteq> NOT 0) = (NOT w \<noteq> 0)" for w :: u32
    by (metis bit.double_compl)
  then show ?thesis by (induction ws arbitrary: i) (auto simp: Let_def)
qed

lemma bitmap_pos_map_NOT:
  "q < 32 * length ws \<Longrightarrow> bitmap_pos (map (\<lambda>w. NOT w) ws) q = (\<not> bitmap_pos ws q)"
  by (auto simp: bitmap_pos_def less_mult_imp_div_less mult.commute bit_not_iff)

lemma bitmap_len_ge: "bitmap_inv N b \<Longrightarrow> q < N \<Longrightarrow> q < 32 * length (data b)"
  by (auto simp: bitmap_inv_def)

subsection \<open>Counting\<close>

lemma count_ones_u32_pos:
  "count_ones_u32 w = length (filter (\<lambda>q. bit w (31 - q)) [0..<32])"
proof -
  have "[0..<32] = rev (map (\<lambda>q. 31 - q) [0..<32])" by (simp add: upt_rec)
  then have "count_ones_u32 w = length (filter (bit w) (rev (map (\<lambda>q. 31 - q) [0..<32])))"
    unfolding count_ones_u32_def by (rule arg_cong)
  then show ?thesis by (simp add: filter_map comp_def rev_filter [symmetric])
qed

lemma upt_shift: "[m..<m + n] = map (\<lambda>q. q + m) [0..<n]"
  by (simp add: map_add_upt add.commute)

lemma count_positions_Cons:
  "length (filter (bitmap_pos (w # ws)) [0..<32 * length (w # ws)])
   = count_ones_u32 w + length (filter (bitmap_pos ws) [0..<32 * length ws])"
proof -
  have "[0..<32 * length (w # ws)] = [0..<32] @ map (\<lambda>q. q + 32) [0..<32 * length ws]"
    using upt_add_eq_append [of 0 32 "32 * length ws"] by (simp add: upt_shift add.commute)
  then have "length (filter (bitmap_pos (w # ws)) [0..<32 * length (w # ws)])
      = length (filter (bitmap_pos (w # ws)) [0..<32])
        + length (filter (\<lambda>q. bitmap_pos (w # ws) (q + 32)) [0..<32 * length ws])"
    by (simp only: filter_append length_append filter_map length_map comp_def)
  moreover have "filter (bitmap_pos (w # ws)) [0..<32] = filter (\<lambda>q. bit w (31 - q)) [0..<32]"
    by (rule filter_cong) (auto simp: bitmap_pos_Cons)
  moreover have "filter (\<lambda>q. bitmap_pos (w # ws) (q + 32)) [0..<32 * length ws]
      = filter (bitmap_pos ws) [0..<32 * length ws]"
    by (rule filter_cong) (auto simp: bitmap_pos_Cons)
  ultimately show ?thesis by (simp add: count_ones_u32_pos)
qed

lemma fold_count: "fold (\<lambda>w total. total + f w) ws (n :: nat) = n + fold (\<lambda>w total. total + f w) ws 0"
proof (induction ws arbitrary: n)
  case (Cons w ws)
  show ?case using Cons [of "n + f w"] Cons [of "0 + f w"] by simp
qed simp

lemma bitmap_count_ones_positions:
  "bitmap_count_ones b = length (filter (bitmap_pos (data b)) [0..<32 * length (data b)])"
proof -
  have "fold (\<lambda>w total. total + count_ones_u32 w) ws 0
      = length (filter (bitmap_pos ws) [0..<32 * length ws])" for ws
  proof (induction ws)
    case (Cons w ws)
    then show ?case
      unfolding count_positions_Cons
      using fold_count [of count_ones_u32 ws "count_ones_u32 w"] by simp
  qed simp
  then show ?thesis by (simp add: bitmap_count_ones_def)
qed

lemma bitmap_count_ones_inv:
  assumes "bitmap_inv N b"
  shows "bitmap_count_ones b = length (filter (bitmap_pos (data b)) [0..<N])"
proof -
  have "[0..<32 * length (data b)] = [0..<N] @ [N..<32 * length (data b)]"
    using upt_add_eq_append [of 0 N "32 * length (data b) - N"] assms
    by (simp add: bitmap_inv_def)
  moreover have "filter (bitmap_pos (data b)) [N..<32 * length (data b)] = []"
    using assms by (auto simp: bitmap_inv_def filter_empty_conv)
  ultimately show ?thesis by (simp add: bitmap_count_ones_positions)
qed

subsection \<open>Properties\<close>

text \<open>\<open>first_zero\<close> of a bitmap finds the least clear position below \<open>N\<close>, and returns
  \<open>None\<close> exactly when all \<open>N\<close> positions are set.\<close>

theorem bitmap_first_zero_least:
  assumes "bitmap_inv N b"
  shows "case bitmap_first_zero N b of
           None \<Rightarrow> \<forall>q < N. bitmap_test N q b = Some True
         | Some p \<Rightarrow> p < N \<and> bitmap_test N p b = Some False
             \<and> (\<forall>q < p. bitmap_test N q b = Some True)"
proof -
  let ?ws = "data b"
  have least: "least_pos N 0 (bitmap_pos (map (\<lambda>w. NOT w) ?ws)) (32 * length ?ws) (bitmap_first_zero N b)"
    using first_one_from_spec [of N 0 "map (\<lambda>w. NOT w) ?ws"]
    by (simp add: bitmap_first_zero_def first_zero_from_eq)
  have len: "q < 32 * length ?ws" if "q < N" for q
    using that assms by (rule bitmap_len_ge [rotated])
  show ?thesis
    using least len
    by (cases "bitmap_first_zero N b")
      (auto simp: least_pos_def bitmap_test_inv [OF assms] bitmap_pos_map_NOT)
qed

lemma bitmap_first_zero_least_witness:
  "bitmap_inv 34 \<lparr>data = [NOT 0, 0]\<rparr> \<and> bitmap_first_zero 34 \<lparr>data = [NOT 0, 0]\<rparr> = Some 32
   \<and> bitmap_test 34 32 \<lparr>data = [NOT 0, 0]\<rparr> = Some False"
proof -
  let ?b = "\<lparr>data = [NOT 0, 0]\<rparr>"
  have "bit (([NOT 0, 0] :: u32 list) ! (q div 32)) (31 - q mod 32) \<longrightarrow> q < 34" if "q < 64" for q
  proof (cases "q < 32")
    case False
    with that have "q div 32 = 1" by linarith
    then show ?thesis by simp
  qed simp
  then have inv: "bitmap_inv 34 ?b"
    by (simp add: bitmap_inv_def bitmap_pos_def)
  have f: "bitmap_first_zero 34 ?b = Some 32"
    by (simp add: bitmap_first_zero_def leading_zeros_def numeral_eq_Suc)
  show ?thesis using bitmap_first_zero_least [OF inv] inv f by simp
qed

text \<open>Over any bitmap of \<open>bitmap_type!(N)\<close> the counts of set and clear positions add up
  to \<open>N\<close>, and \<open>count_ones\<close> counts exactly the positions that \<open>test\<close> reports.\<close>

theorem bitmap_counts:
  assumes "bitmap_inv N b"
  shows "bitmap_count_ones b = length (filter (\<lambda>q. bitmap_test N q b = Some True) [0..<N])
       \<and> bitmap_count_ones b + bitmap_count_zeros N b = N"
proof -
  have "filter (\<lambda>q. bitmap_test N q b = Some True) [0..<N] = filter (bitmap_pos (data b)) [0..<N]"
    by (rule filter_cong) (auto simp: bitmap_test_inv [OF assms])
  moreover have "length (filter (bitmap_pos (data b)) [0..<N]) \<le> N"
    using length_filter_le [of "bitmap_pos (data b)" "[0..<N]"] by simp
  ultimately show ?thesis
    by (simp add: bitmap_count_ones_inv [OF assms] bitmap_count_zeros_def)
qed

lemma bitmap_counts_witness:
  "bitmap_count_ones (bitmap_new 2) + bitmap_count_zeros 40 (bitmap_new 2) = 40"
  using bitmap_counts [OF bitmap_inv_new [of 40]] by simp

end
