(* ===== verification/Mos_Ring.thy ===== *)
theory Mos_Ring
  imports Mos_Prelude
begin

section \<open>The bounded FIFO interface\<close>

text \<open>
  Four components keep a fixed-size ring with a head, a tail and a length: the queue of
  \<open>core/src/data_type/queue.rs\<close>, the buffer of a message queue in
  \<open>core/src/kernel/ipc.rs\<close>, the character ring of the LCD and the input ring of the shell.
  The locale \<open>bounded_fifo\<close> is the contract they share: a push appends unless the ring is
  full, when it drops the new element; a pop takes the oldest element. Each component
  interprets it on its own definitions, and the lemmas on sequences of pushes and pops are
  proved here once. A cell that was never written is \<open>Uninit\<close>, and reading it is undefined
  behaviour, \<open>None\<close> in the model.
\<close>

datatype 'a cell = Uninit | Init 'a

fun assume_init :: "'a cell \<Rightarrow> 'a option" where
  "assume_init Uninit = None"
| "assume_init (Init x) = Some x"

text \<open>The bounds-checked indexing of a Rust array.\<close>

definition array_get :: "'a list \<Rightarrow> nat \<Rightarrow> 'a option" where
  "array_get xs i = (if i < length xs then Some (xs ! i) else None)"

definition array_set :: "'a list \<Rightarrow> nat \<Rightarrow> 'a \<Rightarrow> 'a list option" where
  "array_set xs i x = (if i < length xs then Some (xs[i := x]) else None)"

fun push_list :: "('a \<Rightarrow> 'q \<Rightarrow> 'q option) \<Rightarrow> 'a list \<Rightarrow> 'q \<Rightarrow> 'q option" where
  "push_list push [] q = Some q"
| "push_list push (x # xs) q = do { q' \<leftarrow> push x q; push_list push xs q' }"

fun pop_list :: "('q \<Rightarrow> ('a option \<times> 'q) option) \<Rightarrow> nat \<Rightarrow> 'q \<Rightarrow> ('a list \<times> 'q) option" where
  "pop_list pop 0 q = Some ([], q)"
| "pop_list pop (Suc n) q = do {
     (r, q') \<leftarrow> pop q;
     (case r of None \<Rightarrow> Some ([], q')
      | Some x \<Rightarrow> do { (xs, q'') \<leftarrow> pop_list pop n q'; Some (x # xs, q'') }) }"

locale bounded_fifo =
  fixes cap :: "'q \<Rightarrow> nat"
    and contents :: "'q \<Rightarrow> 'a list"
    and inv :: "'q \<Rightarrow> bool"
    and push :: "'a \<Rightarrow> 'q \<Rightarrow> 'q option"
    and pop :: "'q \<Rightarrow> ('a option \<times> 'q) option"
  assumes length_le_cap: "inv q \<Longrightarrow> length (contents q) \<le> cap q"
    and push_law: "inv q \<Longrightarrow> returns (\<lambda>q'. inv q' \<and> cap q' = cap q
          \<and> contents q' = (if length (contents q) < cap q then contents q @ [x] else contents q))
        (push x q)"
    and pop_empty: "inv q \<Longrightarrow> contents q = [] \<Longrightarrow> pop q = Some (None, q)"
    and pop_law: "inv q \<Longrightarrow> contents q = x # xs \<Longrightarrow>
        returns (\<lambda>(r, q'). r = Some x \<and> inv q' \<and> cap q' = cap q \<and> contents q' = xs) (pop q)"
begin

text \<open>A run of pushes keeps what fits, in order, and drops the newest elements.\<close>

lemma push_list_contents:
  "inv q \<Longrightarrow> returns (\<lambda>q'. inv q' \<and> cap q' = cap q
      \<and> contents q' = contents q @ take (cap q - length (contents q)) xs) (push_list push xs q)"
proof (induction xs arbitrary: q)
  case Nil
  then show ?case by simp
next
  case (Cons x xs)
  from push_law [OF Cons.prems, of x] obtain q' where q': "push x q = Some q'" "inv q'" "cap q' = cap q"
    "contents q' = (if length (contents q) < cap q then contents q @ [x] else contents q)"
    by (auto simp: returns_iff)
  have "contents q' @ take (cap q' - length (contents q')) xs
      = contents q @ take (cap q - length (contents q)) (x # xs)"
    using q' length_le_cap [OF Cons.prems] by (auto simp: take_Cons')
  with Cons.IH [OF q'(2)] q' show ?case by simp
qed

text \<open>A run of pops takes the oldest elements in the order of their arrival.\<close>

lemma pop_list_contents:
  "inv q \<Longrightarrow> returns (\<lambda>(ys, q'). ys = take n (contents q) \<and> inv q' \<and> cap q' = cap q
      \<and> contents q' = drop n (contents q)) (pop_list pop n q)"
proof (induction n arbitrary: q)
  case 0
  then show ?case by simp
next
  case (Suc n)
  show ?case
  proof (cases "contents q")
    case Nil
    with Suc.prems show ?thesis by (simp add: pop_empty)
  next
    case (Cons x xs)
    from pop_law [OF Suc.prems Cons] obtain q' where q': "pop q = Some (Some x, q')" "inv q'"
      "cap q' = cap q" "contents q' = xs"
      by (auto simp: returns_iff)
    with Suc.IH [OF q'(2)] Cons show ?thesis by (auto simp: returns_iff)
  qed
qed

lemma fifo_roundtrip:
  assumes "inv q" "contents q = []" "length xs \<le> cap q"
  shows "returns (\<lambda>(ys, q'). ys = xs \<and> inv q' \<and> contents q' = [])
           (do { q' \<leftarrow> push_list push xs q; pop_list pop (length xs) q' })"
proof -
  obtain q1 where q1: "push_list push xs q = Some q1" "inv q1" "contents q1 = xs"
    using push_list_contents [OF assms(1), of xs] assms by (auto simp: returns_iff)
  with pop_list_contents [OF q1(2), of "length xs"] show ?thesis by (auto simp: returns_iff)
qed

end

end
