(* ===== verification/Mos_Queue.thy ===== *)
theory Mos_Queue
  imports Mos_Ring
begin

section \<open>The ring queue\<close>

text \<open>
  \<open>core/src/data_type/queue.rs\<close>: \<open>Queue<T, N>\<close>, an array of \<open>MaybeUninit\<close> cells with head,
  tail and length. The capacity \<open>N\<close> is the length of the array. The abstract value of a queue
  is the list \<open>queue_list\<close> of its elements, oldest first.
\<close>

record 'a queue =
  qdata :: "'a cell list"
  qhead :: nat
  qtail :: nat
  qlen :: nat

definition queue_new :: "nat \<Rightarrow> 'a queue" where
  "queue_new N = \<lparr>qdata = replicate N Uninit, qhead = 0, qtail = 0, qlen = 0\<rparr>"

definition queue_capacity :: "'a queue \<Rightarrow> nat" where
  "queue_capacity q = length (qdata q)"

definition queue_size :: "'a queue \<Rightarrow> nat" where
  "queue_size q = qlen q"

definition queue_full :: "'a queue \<Rightarrow> bool" where
  "queue_full q = (queue_capacity q \<le> qlen q)"

definition queue_empty :: "'a queue \<Rightarrow> bool" where
  "queue_empty q = (qlen q = 0)"

definition queue_clear :: "'a queue \<Rightarrow> 'a queue" where
  "queue_clear q = q\<lparr>qhead := 0, qtail := 0, qlen := 0\<rparr>"

text \<open>The outer option is the panic or the read of an uninitialised cell.\<close>

definition queue_front :: "'a queue \<Rightarrow> 'a option option" where
  "queue_front q =
     (if queue_empty q then Some None
      else do { c \<leftarrow> array_get (qdata q) (qhead q); x \<leftarrow> assume_init c; Some (Some x) })"

definition queue_back :: "'a queue \<Rightarrow> 'a option option" where
  "queue_back q =
     (if queue_empty q then Some None
      else do {
        let idx = (if qtail q = 0 then queue_capacity q - 1 else qtail q - 1);
        c \<leftarrow> array_get (qdata q) idx; x \<leftarrow> assume_init c; Some (Some x) })"

definition queue_push :: "'a \<Rightarrow> 'a queue \<Rightarrow> (bool \<times> 'a queue) option" where
  "queue_push v q =
     (if queue_full q then Some (False, q)
      else do {
        d \<leftarrow> array_set (qdata q) (qtail q) (Init v);
        Some (True, q\<lparr>qdata := d, qtail := (qtail q + 1) mod queue_capacity q, qlen := qlen q + 1\<rparr>) })"

definition queue_pop :: "'a queue \<Rightarrow> bool \<times> 'a queue" where
  "queue_pop q =
     (if queue_empty q then (False, q)
      else (True, q\<lparr>qhead := (qhead q + 1) mod queue_capacity q, qlen := qlen q - 1\<rparr>))"

definition queue_serve :: "'a queue \<Rightarrow> ('a option \<times> 'a queue) option" where
  "queue_serve q =
     (if queue_empty q then Some (None, q)
      else do {
        c \<leftarrow> array_get (qdata q) (qhead q);
        v \<leftarrow> assume_init c;
        Some (Some v, q\<lparr>qhead := (qhead q + 1) mod queue_capacity q, qlen := qlen q - 1\<rparr>) })"

text \<open>\<open>iter\<close> calls \<open>f\<close> on each element; the callback's effect is a state \<open>'s\<close>.\<close>

fun queue_iter_from :: "('a \<Rightarrow> 's \<Rightarrow> 's) \<Rightarrow> 'a queue \<Rightarrow> nat \<Rightarrow> nat \<Rightarrow> 's \<Rightarrow> 's option" where
  "queue_iter_from f q i 0 s = Some s"
| "queue_iter_from f q i (Suc n) s = do {
     c \<leftarrow> array_get (qdata q) i;
     x \<leftarrow> assume_init c;
     queue_iter_from f q ((i + 1) mod queue_capacity q) n (f x s) }"

definition queue_iter :: "('a \<Rightarrow> 's \<Rightarrow> 's) \<Rightarrow> 'a queue \<Rightarrow> 's \<Rightarrow> 's option" where
  "queue_iter f q s = (if queue_empty q then Some s else queue_iter_from f q (qhead q) (qlen q) s)"

subsection \<open>Invariant and abstraction\<close>

text \<open>The tail is the head advanced by the length, and every live cell is initialised.\<close>

definition queue_inv :: "'a queue \<Rightarrow> bool" where
  "queue_inv q \<longleftrightarrow> qlen q \<le> length (qdata q)
     \<and> (length (qdata q) = 0 \<longrightarrow> qhead q = 0 \<and> qtail q = 0)
     \<and> (0 < length (qdata q) \<longrightarrow> qhead q < length (qdata q)
          \<and> qtail q = (qhead q + qlen q) mod length (qdata q))
     \<and> Uninit \<notin> set (ring_contents (qdata q) (qhead q) (qlen q))"

definition queue_list :: "'a queue \<Rightarrow> 'a list" where
  "queue_list q = map (the \<circ> assume_init) (ring_contents (qdata q) (qhead q) (qlen q))"

lemma length_queue_list [simp]: "length (queue_list q) = qlen q"
  by (simp add: queue_list_def)

lemma queue_inv_new: "queue_inv (queue_new N)" "queue_list (queue_new N) = []"
  by (simp_all add: queue_inv_def queue_new_def queue_list_def)

lemma queue_inv_clear: "queue_inv q \<Longrightarrow> queue_inv (queue_clear q) \<and> queue_list (queue_clear q) = []"
  by (auto simp: queue_inv_def queue_clear_def queue_list_def)

lemma queue_push_law:
  assumes "queue_inv q"
  shows "returns (\<lambda>(ok, q'). queue_inv q' \<and> queue_capacity q' = queue_capacity q
           \<and> ok = (length (queue_list q) < queue_capacity q)
           \<and> queue_list q' = (if ok then queue_list q @ [x] else queue_list q)) (queue_push x q)"
proof (cases "queue_full q")
  case True
  with assms show ?thesis by (simp add: queue_push_def queue_full_def)
next
  case False
  then have room: "qlen q < length (qdata q)" by (simp add: queue_full_def queue_capacity_def)
  then have pos: "0 < length (qdata q)" by linarith
  with assms have h: "qhead q < length (qdata q)" "qtail q = (qhead q + qlen q) mod length (qdata q)"
    by (simp_all add: queue_inv_def)
  have ring: "ring_contents ((qdata q)[qtail q := Init x]) (qhead q) (Suc (qlen q))
      = ring_contents (qdata q) (qhead q) (qlen q) @ [Init x]"
    using ring_contents_push [OF room] h(2) by simp
  show ?thesis
    using False room pos h ring assms
    by (auto simp: queue_push_def array_set_def queue_inv_def queue_list_def queue_capacity_def mod_simps)
qed

lemma queue_front_cell:
  assumes "queue_inv q" "queue_list q = x # xs"
  shows "array_get (qdata q) (qhead q) = Some (Init x)" and "qlen q \<noteq> 0"
    and "qhead q < length (qdata q)"
    and "map (the \<circ> assume_init) (ring_contents (qdata q) ((qhead q + 1) mod length (qdata q)) (qlen q - 1)) = xs"
proof -
  from assms(2) show n: "qlen q \<noteq> 0" by (metis length_Cons length_queue_list nat.distinct(1))
  with assms(1) show h: "qhead q < length (qdata q)" by (auto simp: queue_inv_def)
  from n h have c: "ring_contents (qdata q) (qhead q) (qlen q)
      = qdata q ! qhead q # ring_contents (qdata q) ((qhead q + 1) mod length (qdata q)) (qlen q - 1)"
    by (intro ring_contents_pop) auto
  with assms have "qdata q ! qhead q \<noteq> Uninit" "the (assume_init (qdata q ! qhead q)) = x"
    by (auto simp: queue_inv_def queue_list_def)
  with h show "array_get (qdata q) (qhead q) = Some (Init x)"
    by (cases "qdata q ! qhead q") (auto simp: array_get_def)
  from c assms(2)
  show "map (the \<circ> assume_init) (ring_contents (qdata q) ((qhead q + 1) mod length (qdata q)) (qlen q - 1)) = xs"
    by (simp add: queue_list_def)
qed

lemma queue_advance:
  assumes "queue_inv q" "queue_list q = x # xs"
  defines "q' \<equiv> q\<lparr>qhead := (qhead q + 1) mod queue_capacity q, qlen := qlen q - 1\<rparr>"
  shows "queue_inv q'" and "queue_list q' = xs" and "queue_capacity q' = queue_capacity q"
proof -
  note c = queue_front_cell [OF assms(1,2)]
  from c(3) have pos: "0 < length (qdata q)" by linarith
  have split: "ring_contents (qdata q) (qhead q) (qlen q)
      = qdata q ! qhead q # ring_contents (qdata q) ((qhead q + 1) mod length (qdata q)) (qlen q - 1)"
    using c by (intro ring_contents_pop) auto
  have "qtail q = ((qhead q + 1) mod length (qdata q) + (qlen q - 1)) mod length (qdata q)"
    using c(2) assms(1) pos ring_tail_pop [of "qlen q" "qhead q" "length (qdata q)"]
    by (simp add: queue_inv_def)
  with assms(1) pos split show "queue_inv q'"
    by (auto simp: queue_inv_def q'_def queue_capacity_def)
  from c(4) show "queue_list q' = xs" by (simp add: queue_list_def q'_def queue_capacity_def)
  show "queue_capacity q' = queue_capacity q" by (simp add: q'_def queue_capacity_def)
qed

interpretation queue: bounded_fifo queue_capacity queue_list queue_inv
  "\<lambda>x q. map_option snd (queue_push x q)" queue_serve
proof (unfold_locales, goal_cases)
  case (1 q)
  then show ?case by (simp add: queue_inv_def queue_capacity_def)
next
  case (2 q x)
  then show ?case using queue_push_law [of q x] by (auto simp: returns_iff)
next
  case (3 q)
  then have "qlen q = 0" by (metis length_queue_list list.size(3))
  then show ?case by (simp add: queue_serve_def queue_empty_def)
next
  case (4 q x xs)
  then show ?case
    using queue_front_cell [OF 4] queue_advance [OF 4] by (simp add: queue_serve_def queue_empty_def)
qed

subsection \<open>Properties\<close>

text \<open>Pushing a batch that fits into an empty queue and serving as many elements gives the
  batch back in order, whatever the position of the ring.\<close>

theorem queue_fifo_roundtrip:
  assumes "queue_inv q" and "queue_list q = []" and "length xs \<le> queue_capacity q"
  shows "returns (\<lambda>(ys, q'). ys = xs \<and> queue_inv q' \<and> queue_list q' = [])
           (do { q' \<leftarrow> push_list (\<lambda>x q. map_option snd (queue_push x q)) xs q;
                 pop_list queue_serve (length xs) q' })"
  using assms by (rule queue.fifo_roundtrip)

lemma queue_fifo_roundtrip_witness:
  "returns (\<lambda>(ys, q'). ys = [1, 2, 3 :: u8] \<and> queue_inv q' \<and> queue_list q' = [])
     (do { q' \<leftarrow> push_list (\<lambda>x q. map_option snd (queue_push x q)) [1, 2, 3] (queue_new 3);
           pop_list queue_serve (length [1, 2, 3 :: u8]) q' })"
  by (rule queue_fifo_roundtrip) (simp_all add: queue_inv_new, simp add: queue_capacity_def queue_new_def)

lemma queue_back_cell:
  assumes inv: "queue_inv q" and ne: "queue_list q \<noteq> []"
  shows "queue_back q = Some (Some (last (queue_list q)))"
proof -
  let ?N = "length (qdata q)"
  from ne have n: "0 < qlen q" by (metis length_greater_0_conv length_queue_list)
  with inv have pos: "0 < ?N" by (auto simp: queue_inv_def)
  with inv n have len: "qlen q \<le> ?N" and tl: "qtail q = (qhead q + qlen q) mod ?N"
    by (simp_all add: queue_inv_def)
  define idx where "idx = (qhead q + (qlen q - 1)) mod ?N"
  have "(idx + 1) mod ?N = qtail q"
    using n tl by (simp add: idx_def mod_simps)
  moreover have "idx < ?N" using pos by (simp add: idx_def)
  ultimately have idx: "(if qtail q = 0 then ?N - 1 else qtail q - 1) = idx"
    by (cases "idx + 1 = ?N") auto
  have last: "last (ring_contents (qdata q) (qhead q) (qlen q)) = qdata q ! idx"
    using n by (subst last_conv_nth) (auto simp: ring_contents_nth idx_def simp flip: length_0_conv)
  have ne': "ring_contents (qdata q) (qhead q) (qlen q) \<noteq> []"
    using n by (auto simp flip: length_0_conv)
  with inv last have "qdata q ! idx \<noteq> Uninit"
    by (metis last_in_set queue_inv_def)
  with last ne' n idx \<open>idx < ?N\<close> show ?thesis
    by (cases "qdata q ! idx")
      (auto simp: queue_back_def queue_empty_def queue_capacity_def array_get_def queue_list_def last_map)
qed

lemma queue_iter_from_fold:
  "queue_inv q \<Longrightarrow>
   queue_iter_from f q (qhead q) (qlen q) s = Some (fold f (queue_list q) s)"
proof (induction "queue_list q" arbitrary: q s)
  case Nil
  then have "qlen q = 0" by (metis length_queue_list list.size(3))
  with Nil show ?case by simp
next
  case (Cons x xs q)
  let ?q' = "q\<lparr>qhead := (qhead q + 1) mod queue_capacity q, qlen := qlen q - 1\<rparr>"
  note adv = queue_advance [OF Cons.prems Cons.hyps(2) [symmetric]]
  note c = queue_front_cell [OF Cons.prems Cons.hyps(2) [symmetric]]
  have "queue_iter_from f (q\<lparr>qhead := h, qlen := l\<rparr>) i n t = queue_iter_from f q i n t" for h l i n t
    by (induction n arbitrary: i t) (simp_all add: queue_capacity_def)
  note same = this
  have "queue_iter_from f q ((qhead q + 1) mod queue_capacity q) (qlen q - 1) (f x s)
      = Some (fold f xs (f x s))"
    using Cons.hyps(1) [OF adv(2) [symmetric] adv(1), of "f x s"] adv(2) by (simp add: same)
  moreover obtain n where "qlen q = Suc n" using c(2) by (cases "qlen q") auto
  ultimately show ?case using c(1) Cons.hyps(2) [symmetric] by simp
qed

text \<open>On a well-formed queue every reading operation agrees with the abstract list and none
  reads an uninitialised cell: \<open>front\<close> is its first element, \<open>back\<close> its last, \<open>pop\<close> and
  \<open>serve\<close> remove the first, and \<open>iter\<close> visits all of them in order.\<close>

theorem queue_reads_abstract:
  assumes "queue_inv q"
  shows "queue_front q = Some (case queue_list q of [] \<Rightarrow> None | x # _ \<Rightarrow> Some x)
       \<and> queue_back q = Some (if queue_list q = [] then None else Some (last (queue_list q)))
       \<and> fst (queue_pop q) = (queue_list q \<noteq> [])
       \<and> queue_list (snd (queue_pop q)) = tl (queue_list q)
       \<and> queue_iter f q s = Some (fold f (queue_list q) s)"
proof (cases "queue_list q")
  case Nil
  then have "qlen q = 0" by (metis length_queue_list list.size(3))
  with Nil show ?thesis
    by (simp add: queue_front_def queue_back_def queue_pop_def queue_iter_def queue_empty_def)
next
  case (Cons x xs)
  note c = queue_front_cell [OF assms Cons] and adv = queue_advance [OF assms Cons]
  have "queue_back q = Some (Some (last (queue_list q)))"
    using Cons by (intro queue_back_cell [OF assms]) simp
  moreover have "queue_iter f q s = Some (fold f (queue_list q) s)"
    using c(2) queue_iter_from_fold [OF assms] by (simp add: queue_iter_def queue_empty_def)
  ultimately show ?thesis
    using Cons c adv by (simp add: queue_front_def queue_pop_def queue_empty_def)
qed

lemma queue_reads_abstract_witness:
  "queue_front (queue_new 4 :: nat queue) = Some None \<and> queue_iter (#) (queue_new 4 :: nat queue) [] = Some []"
  using queue_reads_abstract [OF queue_inv_new(1), of 4 "(#)" "[] :: nat list"]
  by (simp add: queue_inv_new)

end
