(* ===== verification/Mos_Buffer.thy ===== *)
theory Mos_Buffer
  imports Mos_Ring
begin

section \<open>The linear buffer\<close>

text \<open>
  \<open>core/src/data_type/buffer.rs\<close>: \<open>Buffer<T, N>\<close>, an array \<open>raw\<close> of which the first \<open>len\<close>
  cells are live; \<open>RxBuf\<close> is its instance at bytes. \<open>new\<close> zeroes the memory, so the model takes
  the element whose bytes are all zero as an argument. The abstract value is the live prefix.
\<close>

record 'a buffer =
  raw :: "'a list"
  blen :: nat

definition buffer_new :: "'a \<Rightarrow> nat \<Rightarrow> 'a buffer" where
  "buffer_new zero N = \<lparr>raw = replicate N zero, blen = 0\<rparr>"

definition buffer_max_size :: "'a buffer \<Rightarrow> nat" where
  "buffer_max_size b = length (raw b)"

definition buffer_full :: "'a buffer \<Rightarrow> bool" where
  "buffer_full b = (buffer_max_size b \<le> blen b)"

definition buffer_empty :: "'a buffer \<Rightarrow> bool" where
  "buffer_empty b = (blen b = 0)"

definition buffer_push :: "'a \<Rightarrow> 'a buffer \<Rightarrow> 'a buffer option" where
  "buffer_push x b =
     (if \<not> buffer_full b
      then do { r \<leftarrow> array_set (raw b) (blen b) x; Some (b\<lparr>raw := r, blen := blen b + 1\<rparr>) }
      else Some b)"

definition buffer_back :: "'a buffer \<Rightarrow> 'a option option" where
  "buffer_back b =
     (if buffer_empty b then Some None
      else do { x \<leftarrow> array_get (raw b) (blen b - 1); Some (Some x) })"

definition buffer_pop :: "'a buffer \<Rightarrow> 'a buffer" where
  "buffer_pop b = (if \<not> buffer_empty b then b\<lparr>blen := blen b - 1\<rparr> else b)"

definition buffer_clear :: "'a buffer \<Rightarrow> 'a buffer" where
  "buffer_clear b = b\<lparr>blen := 0\<rparr>"

text \<open>\<open>&self.raw[..self.len]\<close> panics when \<open>len\<close> is beyond the array.\<close>

definition buffer_as_slice :: "'a buffer \<Rightarrow> 'a list option" where
  "buffer_as_slice b = (if blen b \<le> length (raw b) then Some (take (blen b) (raw b)) else None)"

definition buffer_inv :: "'a buffer \<Rightarrow> bool" where
  "buffer_inv b \<longleftrightarrow> blen b \<le> length (raw b)"

definition buffer_list :: "'a buffer \<Rightarrow> 'a list" where
  "buffer_list b = take (blen b) (raw b)"

lemma buffer_inv_new: "buffer_inv (buffer_new z N)" "buffer_list (buffer_new z N) = []"
  by (simp_all add: buffer_inv_def buffer_list_def buffer_new_def)

lemma buffer_max_size_new [simp]: "buffer_max_size (buffer_new z N) = N"
  by (simp add: buffer_max_size_def buffer_new_def)

lemma buffer_push_spec:
  "buffer_inv b \<Longrightarrow> returns (\<lambda>b'. buffer_inv b' \<and> buffer_max_size b' = buffer_max_size b
      \<and> buffer_list b' = (if buffer_full b then buffer_list b else buffer_list b @ [x])) (buffer_push x b)"
  by (auto simp: buffer_push_def buffer_inv_def buffer_list_def buffer_full_def buffer_max_size_def
      array_set_def take_Suc_conv_app_nth)

text \<open>The linear buffer is a bounded stack: on a well-formed buffer \<open>push\<close> appends
  or, when full, does nothing; \<open>pop\<close> drops the last element; \<open>back\<close> and \<open>as_slice\<close>
  read the live prefix without panicking; and each operation keeps the buffer well formed.\<close>

theorem buffer_is_bounded_stack:
  assumes "buffer_inv b"
  shows "returns (\<lambda>b'. buffer_inv b' \<and> buffer_list b' =
            (if length (buffer_list b) < buffer_max_size b then buffer_list b @ [x] else buffer_list b))
           (buffer_push x b)
       \<and> buffer_inv (buffer_pop b) \<and> buffer_list (buffer_pop b) = butlast (buffer_list b)
       \<and> buffer_inv (buffer_clear b) \<and> buffer_list (buffer_clear b) = []
       \<and> buffer_as_slice b = Some (buffer_list b)
       \<and> buffer_back b = Some (if buffer_list b = [] then None else Some (last (buffer_list b)))"
proof -
  have len: "length (buffer_list b) = blen b"
    using assms by (simp add: buffer_list_def buffer_inv_def)
  have bk: "buffer_back b = Some (if buffer_list b = [] then None else Some (last (buffer_list b)))"
  proof (cases "blen b = 0")
    case False
    then have "buffer_list b \<noteq> []" using len by auto
    then have "last (buffer_list b) = raw b ! (blen b - 1)"
      using False by (simp add: last_conv_nth len) (simp add: buffer_list_def)
    with False \<open>buffer_list b \<noteq> []\<close> assms show ?thesis
      by (simp add: buffer_back_def buffer_empty_def array_get_def buffer_inv_def)
  qed (simp add: buffer_back_def buffer_empty_def buffer_list_def)
  show ?thesis
    using assms len bk buffer_push_spec [OF assms, of x]
    by (auto simp: buffer_pop_def buffer_clear_def buffer_as_slice_def buffer_inv_def buffer_empty_def
        buffer_full_def not_le buffer_list_def butlast_take elim!: returns_mono)
qed

lemma buffer_is_bounded_stack_witness:
  "buffer_as_slice (buffer_new (0 :: u8) 8) = Some []
   \<and> returns (\<lambda>b'. buffer_list b' = [7]) (buffer_push 7 (buffer_new (0 :: u8) 8))"
  using buffer_is_bounded_stack [OF buffer_inv_new(1) [of "0 :: u8" 8], of 7]
  by (auto simp: buffer_inv_new elim!: returns_mono)

end
