(* ===== verification/Mos_Config.thy ===== *)
theory Mos_Config
  imports Mos_Prelude
begin

section \<open>Kernel configuration\<close>

text \<open>
  The constants of \<open>core/src/config.rs\<close> that the model uses. Each is a simplification rule,
  so that bounds such as \<open>t < TASK_MAX\<close> compute. Sizes are \<open>nat\<close> (the code's \<open>usize\<close>),
  priorities are bytes, ticks are 32-bit words.
\<close>

definition SYSTICK_HZ :: u32 where [simp]: "SYSTICK_HZ = 1000"
definition TASK_MAX :: nat where [simp]: "TASK_MAX = 16"
definition PAGE_SIZE :: nat where [simp]: "PAGE_SIZE = 1024"
definition PAGE_SIZE_WORDS :: nat where [simp]: "PAGE_SIZE_WORDS = PAGE_SIZE div 4"
definition TIME_SLICE :: u32 where [simp]: "TIME_SLICE = 50"
definition TASK_CLOSURE_SIZE :: nat where [simp]: "TASK_CLOSURE_SIZE = 32"

text \<open>Priority 0 is the highest.\<close>

definition PRI_MAX :: u8 where [simp]: "PRI_MAX = 0"
definition PRI_MIN :: u8 where [simp]: "PRI_MIN = 127"
definition PRI_INV :: u8 where [simp]: "PRI_INV = 255"

definition SHELL_BUF_SIZE :: nat where [simp]: "SHELL_BUF_SIZE = 32"
definition USER_NAME_SIZE :: nat where [simp]: "USER_NAME_SIZE = 8"
definition ASYNC_POOL_MAX :: nat where [simp]: "ASYNC_POOL_MAX = 16"
definition ASYNC_FRAME_SIZE :: nat where [simp]: "ASYNC_FRAME_SIZE = 64"

end
