(* ===== verification/Mos_List.thy ===== *)
theory Mos_List
  imports Mos_Config
begin

section \<open>Task lists\<close>

text \<open>
  \<open>core/src/kernel/list.rs\<close>: \<open>TaskList\<close> wraps a \<open>heapless::Vec<usize, TASK_MAX>\<close>, a vector
  of at most \<open>TASK_MAX\<close> task identifiers. The list is the sequence of its elements; the
  capacity test that \<open>Vec::push\<close> makes and the \<open>is_full\<close> test of \<open>insert_in_order\<close> are
  written out, with \<open>Inl tid\<close> for the rejected element. The closure of \<open>insert_in_order\<close>
  reads the task control blocks and may panic, so it returns an \<open>option\<close>.
\<close>

type_synonym task_list = "nat list"

definition tl_new :: task_list where
  "tl_new = []"

definition tl_push_back :: "nat \<Rightarrow> task_list \<Rightarrow> (nat + unit) \<times> task_list" where
  "tl_push_back tid tids =
     (if length tids < TASK_MAX then (Inr (), tids @ [tid]) else (Inl tid, tids))"

text \<open>\<open>position\<close> finds the first occurrence, which \<open>Vec::remove\<close> takes out.\<close>

fun tl_remove :: "nat \<Rightarrow> task_list \<Rightarrow> task_list" where
  "tl_remove tid [] = []"
| "tl_remove tid (x # xs) = (if x = tid then xs else x # tl_remove tid xs)"

definition tl_pop_front :: "task_list \<Rightarrow> nat option \<times> task_list" where
  "tl_pop_front tids = (case tids of [] \<Rightarrow> (None, []) | x # xs \<Rightarrow> (Some x, xs))"

definition tl_front :: "task_list \<Rightarrow> nat option" where
  "tl_front tids = (case tids of [] \<Rightarrow> None | x # _ \<Rightarrow> Some x)"

definition tl_is_empty :: "task_list \<Rightarrow> bool" where
  "tl_is_empty tids = (tids = [])"

definition tl_len :: "task_list \<Rightarrow> nat" where
  "tl_len tids = length tids"

text \<open>\<open>iter().any(|&t| t == tid)\<close>\<close>

definition tl_contains :: "nat \<Rightarrow> task_list \<Rightarrow> bool" where
  "tl_contains tid tids = list_ex (\<lambda>t. t = tid) tids"

text \<open>The scan of \<open>insert_in_order\<close>: the first index whose element satisfies \<open>is_before\<close>.\<close>

fun insert_pos :: "(nat \<Rightarrow> bool option) \<Rightarrow> nat \<Rightarrow> task_list \<Rightarrow> nat option" where
  "insert_pos is_before i [] = Some i"
| "insert_pos is_before i (t # ts) = do {
     b \<leftarrow> is_before t;
     if b then Some i else insert_pos is_before (Suc i) ts }"

definition insert_in_order ::
    "nat \<Rightarrow> (nat \<Rightarrow> bool option) \<Rightarrow> task_list \<Rightarrow> ((nat + unit) \<times> task_list) option" where
  "insert_in_order tid is_before tids =
     (if TASK_MAX \<le> length tids then Some (Inl tid, tids)
      else do {
        pos \<leftarrow> insert_pos is_before 0 tids;
        Some (Inr (), take pos tids @ tid # drop pos tids) })"

subsection \<open>The lists as sequences\<close>

lemma tl_remove_remove1 [simp]: "tl_remove tid tids = remove1 tid tids"
  by (induction tids) auto

lemma tl_contains_iff [simp]: "tl_contains tid tids = (tid \<in> set tids)"
  by (auto simp: tl_contains_def list_ex_iff)

lemma tl_pop_front_simps [simp]:
  "tl_pop_front [] = (None, [])" "tl_pop_front (x # xs) = (Some x, xs)"
  by (simp_all add: tl_pop_front_def)

lemma tl_front_simps [simp]: "tl_front [] = None" "tl_front (x # xs) = Some x"
  by (simp_all add: tl_front_def)

lemma tl_front_eq_Some: "tl_front tids = Some t \<longleftrightarrow> (\<exists>ts. tids = t # ts)"
  by (cases tids) auto

lemma insert_pos_before:
  assumes "\<And>t. t \<in> set tids \<Longrightarrow> is_before t = Some (p t)"
  shows "insert_pos is_before i tids = Some (i + length (takeWhile (\<lambda>t. \<not> p t) tids))"
  using assms by (induction tids arbitrary: i) auto

lemma take_drop_insert_before:
  "take (length (takeWhile (\<lambda>t. \<not> p t) xs)) xs @ x # drop (length (takeWhile (\<lambda>t. \<not> p t) xs)) xs
   = insert_before p x xs"
  by (simp add: insert_before_def takeWhile_eq_take [symmetric] dropWhile_eq_drop [symmetric])

text \<open>
  When the closure does not panic on the elements and there is room, the result is the stable
  insertion of the prelude.
\<close>

lemma insert_in_order_before:
  assumes "\<And>t. t \<in> set tids \<Longrightarrow> is_before t = Some (p t)" and "length tids < TASK_MAX"
  shows "insert_in_order tid is_before tids = Some (Inr (), insert_before p tid tids)"
  using assms insert_pos_before [of tids is_before p 0]
  by (simp add: insert_in_order_def take_drop_insert_before)

text \<open>\<open>insert_in_order\<close> on a list sorted by a key, with a strict comparison of keys as its
  closure, keeps the list sorted and is stable: the new task goes behind every task of the same
  key and before every task of a larger one, so tasks of one priority are served in the order of
  their arrival.\<close>

theorem insert_in_order_stable:
  fixes key :: "nat \<Rightarrow> 'k :: linorder"
  assumes "sorted (map key tids)" and "length tids < TASK_MAX"
  shows "returns (\<lambda>(r, tids'). r = Inr () \<and> sorted (map key tids')
           \<and> tids' = filter (\<lambda>t. key t \<le> key tid) tids @ tid # filter (\<lambda>t. key tid < key t) tids)
         (insert_in_order tid (\<lambda>t. Some (key tid < key t)) tids)"
  using insert_in_order_before [of tids "\<lambda>t. Some (key tid < key t)" "\<lambda>t. key tid < key t" tid] assms
    sorted_insert_before [OF assms(1), of tid] insert_before_split [OF assms(1), of tid]
  by simp

lemma insert_in_order_stable_witness:
  "insert_in_order 4 (\<lambda>t. Some ((4 :: nat) div 2 < t div 2)) [1, 2, 5, 6] = Some (Inr (), [1, 2, 5, 4, 6])"
  using insert_in_order_stable [of "\<lambda>t. t div 2" "[1, 2, 5, 6]" 4]
  by (auto simp: returns_iff)

end
