(* ===== verification/Mos_Tcb.thy ===== *)
theory Mos_Tcb
  imports Mos_List Mos_Ring
begin

section \<open>Task control blocks and initial stack frames\<close>

text \<open>
  \<open>core/src/kernel/tcb.rs\<close>. The \<open>Tcb\<close> struct is a record; addresses are 32-bit words, the
  inline closure storage is a byte array, and the invoker is the address of the type-erased
  \<open>invoke_closure\<close> instance. \<open>CURRENT_TCB_PTR\<close> only ever holds null or the address of an
  element of \<open>TCBS\<close>, so the kernel state of \<open>Mos_Global\<close> keeps that element's index.
\<close>

datatype task_status = Terminated | Ready | Running | Blocked

text \<open>\<open>impl Display for TaskStatus\<close>: the text that is padded and printed.\<close>

fun status_text :: "task_status \<Rightarrow> string" where
  "status_text Ready = ''Ready''"
| "status_text Running = ''Running''"
| "status_text Blocked = ''Blocked''"
| "status_text Terminated = ''Dead''"

record tcb =
  sp :: u32
  tcb_tid :: nat
  status :: task_status
  priority :: u8
  sub_priority :: u8
  time_slice :: u32
  wake_point :: u32
  tname :: string
  stack_bottom :: u32
  closure_storage :: "u8 list"
  closure_invoker :: "u32 option"
  thread_sema :: u32
  heap_stack_base :: u32

definition tcb_empty :: "nat \<Rightarrow> tcb" where
  "tcb_empty tid = \<lparr>sp = 0, tcb_tid = tid, status = Terminated, priority = PRI_MIN,
     sub_priority = PRI_INV, time_slice = TIME_SLICE, wake_point = 0, tname = '''',
     stack_bottom = 0, closure_storage = replicate TASK_CLOSURE_SIZE 0,
     closure_invoker = None, thread_sema = 0, heap_stack_base = 0\<rparr>"

lemma tcb_empty_simps [simp]:
  "tcb_tid (tcb_empty t) = t" "status (tcb_empty t) = Terminated"
  "priority (tcb_empty t) = PRI_MIN" "sub_priority (tcb_empty t) = PRI_INV"
  "wake_point (tcb_empty t) = 0" "time_slice (tcb_empty t) = TIME_SLICE"
  "tname (tcb_empty t) = ''''" "closure_invoker (tcb_empty t) = None"
  by (simp_all add: tcb_empty_def)

definition is_sleeping :: "tcb \<Rightarrow> bool" where
  "is_sleeping t = (wake_point t \<noteq> 0 \<and> status t = Blocked)"

subsection \<open>The initial context frame\<close>

text \<open>\<open>CONTEXT_WORDS\<close> of \<open>core/src/arch/riscv.rs\<close>: 30 registers, \<open>mepc\<close> and \<open>mstatus\<close>.\<close>

definition CONTEXT_WORDS :: nat where [simp]: "CONTEXT_WORDS = 32"

text \<open>
  \<open>init_stack_frame\<close> fills the last \<open>CONTEXT_WORDS\<close> words of the stack and returns the address
  of the first of them; \<open>base\<close> is the address of \<open>stack[0]\<close>. The \<open>assert!\<close> panics on a stack
  that is too small.
\<close>

fun zero_frame :: "nat \<Rightarrow> nat \<Rightarrow> u32 list \<Rightarrow> u32 list" where
  "zero_frame frame_base 0 stack = stack"
| "zero_frame frame_base (Suc i) stack = (zero_frame frame_base i stack)[frame_base + i := 0]"

definition init_stack_frame :: "u32 \<Rightarrow> u32 list \<Rightarrow> u32 \<Rightarrow> u32 \<Rightarrow> u32 \<Rightarrow> (u32 \<times> u32 list) option" where
  "init_stack_frame base stack entry argv exit_fn =
     (let stack_len = length stack in
      if CONTEXT_WORDS < stack_len then
        let frame_base = stack_len - CONTEXT_WORDS;
            stack = zero_frame frame_base CONTEXT_WORDS stack;
            stack = stack[frame_base + 0 := entry];
            stack = stack[frame_base + 1 := exit_fn];
            stack = stack[frame_base + 9 := argv];
            stack = stack[frame_base + 31 := 0x1888]
        in Some (base + of_nat (4 * frame_base), stack)
      else None)"

text \<open>The variant for C function pointers; its body is the same code over addresses.\<close>

definition init_stack_frame_raw :: "u32 \<Rightarrow> u32 list \<Rightarrow> u32 \<Rightarrow> u32 \<Rightarrow> u32 \<Rightarrow> (u32 \<times> u32 list) option" where
  "init_stack_frame_raw base stack entry_addr argv exit_addr =
     (let stack_len = length stack in
      if CONTEXT_WORDS < stack_len then
        let frame_base = stack_len - CONTEXT_WORDS;
            stack = zero_frame frame_base CONTEXT_WORDS stack;
            stack = stack[frame_base + 0 := entry_addr];
            stack = stack[frame_base + 1 := exit_addr];
            stack = stack[frame_base + 9 := argv];
            stack = stack[frame_base + 31 := 0x1888]
        in Some (base + of_nat (4 * frame_base), stack)
      else None)"

lemma length_zero_frame [simp]: "length (zero_frame f n stack) = length stack"
  by (induction n) auto

lemma zero_frame_nth:
  "i < length stack \<Longrightarrow>
   zero_frame f n stack ! i = (if f \<le> i \<and> i < f + n then 0 else stack ! i)"
proof (induction n)
  case (Suc n)
  then show ?case by (cases "i = f + n") auto
qed auto

lemma init_stack_frame_raw_eq: "init_stack_frame_raw = init_stack_frame"
  by (intro ext) (simp add: init_stack_frame_def init_stack_frame_raw_def)

text \<open>What the context restore finds: \<open>mepc\<close>, \<open>ra\<close>, \<open>a0\<close> and \<open>mstatus\<close> at the offsets of
  the frame layout, zero everywhere else in the frame, the rest of the stack untouched.\<close>

definition frame_word :: "u32 \<Rightarrow> u32 \<Rightarrow> u32 \<Rightarrow> nat \<Rightarrow> u32" where
  "frame_word entry argv exit_fn j =
     (if j = 0 then entry else if j = 1 then exit_fn else if j = 9 then argv
      else if j = 31 then 0x1888 else 0)"

lemma init_stack_frame_spec:
  "(if CONTEXT_WORDS < length stack
    then returns (\<lambda>(sp, stack'). sp = base + of_nat (4 * (length stack - CONTEXT_WORDS))
           \<and> length stack' = length stack
           \<and> take (length stack - CONTEXT_WORDS) stack' = take (length stack - CONTEXT_WORDS) stack
           \<and> drop (length stack - CONTEXT_WORDS) stack' = map (frame_word entry argv exit_fn) [0..<CONTEXT_WORDS])
         (init_stack_frame base stack entry argv exit_fn)
    else init_stack_frame base stack entry argv exit_fn = None)
   \<and> init_stack_frame_raw base stack entry argv exit_fn = init_stack_frame base stack entry argv exit_fn"
proof (cases "CONTEXT_WORDS < length stack")
  case True
  define f where "f = length stack - CONTEXT_WORDS"
  define z where "z = zero_frame f CONTEXT_WORDS stack"
  let ?s = "z[f + 0 := entry, f + 1 := exit_fn, f + 9 := argv, f + 31 := 0x1888]"
  have len: "length stack = f + 32" using True by (simp add: f_def)
  have res: "init_stack_frame base stack entry argv exit_fn = Some (base + of_nat (4 * f), ?s)"
    using True by (simp add: init_stack_frame_def Let_def f_def z_def)
  have word: "?s ! i = (if i < f then stack ! i else frame_word entry argv exit_fn (i - f))"
    if "i < f + 32" for i
    using that by (auto simp: z_def zero_frame_nth len nth_list_update frame_word_def)
  have zn: "z ! i = stack ! i" if "i < f" for i
    using that by (simp add: z_def zero_frame_nth len)
  have "length ?s = f + 32" by (simp add: z_def len)
  moreover from this have "take f ?s = take f stack"
    by (intro nth_equalityI) (auto simp: zn len)
  moreover have "?s ! (f + i) = frame_word entry argv exit_fn i" if "i < 32" for i
    using word [of "f + i"] that by simp
  then have "drop f ?s = map (frame_word entry argv exit_fn) [0..<32]"
    using \<open>length ?s = f + 32\<close> by (intro nth_equalityI) auto
  ultimately show ?thesis
    using True res len by (simp add: f_def [symmetric] init_stack_frame_raw_eq)
next
  case False
  then show ?thesis by (simp add: init_stack_frame_def init_stack_frame_raw_eq Let_def)
qed

text \<open>The frame a new task starts from: on a stack of more than \<open>CONTEXT_WORDS\<close> words
  \<open>init_stack_frame\<close> succeeds, returns the address of the frame at the top of the stack, puts
  the entry point in the \<open>mepc\<close> slot, the exit stub in \<open>ra\<close>, the argument in \<open>a0\<close> and
  \<open>0x1888\<close> in \<open>mstatus\<close>, zeroes every other word of the frame and no word below it; on a
  smaller stack the assertion panics. \<open>init_stack_frame_raw\<close> does the same.\<close>

theorem init_stack_frame_layout:
  "(if CONTEXT_WORDS < length stack
    then returns (\<lambda>(sp, stack'). sp = base + of_nat (4 * (length stack - CONTEXT_WORDS))
           \<and> length stack' = length stack
           \<and> take (length stack - CONTEXT_WORDS) stack' = take (length stack - CONTEXT_WORDS) stack
           \<and> drop (length stack - CONTEXT_WORDS) stack' = map (frame_word entry argv exit_fn) [0..<CONTEXT_WORDS])
         (init_stack_frame base stack entry argv exit_fn)
    else init_stack_frame base stack entry argv exit_fn = None)
   \<and> init_stack_frame_raw base stack entry argv exit_fn = init_stack_frame base stack entry argv exit_fn"
  by (rule init_stack_frame_spec)

end
