(* ===== verification/Mos_Global.thy ===== *)
theory Mos_Global
  imports Mos_Tcb
begin

section \<open>The kernel's global state\<close>

text \<open>
  \<open>core/src/kernel/global.rs\<close>, with the statics of \<open>tcb.rs\<close> (\<open>CURRENT_TCB_PTR\<close>, here the index of
  the task it points to) and \<open>sched.rs\<close> (\<open>SCHED_READY\<close>). The record holds the whole kernel
  state; every operation maps a state to a state, and \<open>critical_section::with\<close> is what makes
  such a step atomic. \<open>TCBS\<close> and \<open>STACKS\<close> are arrays of \<open>TASK_MAX\<close> elements: \<open>tcb_at\<close> and
  \<open>modify_tcb\<close> write out the bounds check of \<open>TCBS[tid]\<close>. \<open>STACKS_BASE\<close> is the address the linker
  gives \<open>STACKS\<close>; \<open>HEAP_STACKS\<close> lists the leaked heap stacks of \<open>create_raw\<close> with their addresses.
\<close>

record kernel =
  TCBS :: "nat \<Rightarrow> tcb"
  STACKS :: "nat \<Rightarrow> u32 list"
  READY_LIST :: task_list
  BLOCKED_LIST :: task_list
  SLEEPING_LIST :: task_list
  OS_TICKS :: u32
  USER_NAME :: "u8 list"
  TID_BITMAP :: u32
  CURRENT_TCB :: "nat option"
  SCHED_READY :: bool
  STACKS_BASE :: u32
  HEAP_STACKS :: "(u32 \<times> u32 list) list"

text \<open>The initial values of the statics; the user name is \<open>b"neo\0\0\0\0\0"\<close>.\<close>

definition kernel_boot :: "u32 \<Rightarrow> kernel" where
  "kernel_boot base = \<lparr>TCBS = (\<lambda>_. tcb_empty 0), STACKS = (\<lambda>_. replicate PAGE_SIZE_WORDS 0),
     READY_LIST = tl_new, BLOCKED_LIST = tl_new, SLEEPING_LIST = tl_new, OS_TICKS = 0,
     USER_NAME = [0x6E, 0x65, 0x6F, 0, 0, 0, 0, 0], TID_BITMAP = 0, CURRENT_TCB = None,
     SCHED_READY = False, STACKS_BASE = base, HEAP_STACKS = []\<rparr>"

definition tcb_at :: "kernel \<Rightarrow> nat \<Rightarrow> tcb option" where
  "tcb_at k tid = (if tid < TASK_MAX then Some (TCBS k tid) else None)"

definition modify_tcb :: "nat \<Rightarrow> (tcb \<Rightarrow> tcb) \<Rightarrow> kernel \<Rightarrow> kernel option" where
  "modify_tcb tid f k =
     (if tid < TASK_MAX then Some (k\<lparr>TCBS := (TCBS k)(tid := f (TCBS k tid))\<rparr>) else None)"

text \<open>\<open>(*CURRENT_TCB_PTR).tid\<close>; dereferencing the null pointer is undefined behaviour.\<close>

definition current_tcb :: "kernel \<Rightarrow> tcb option" where
  "current_tcb k = do { c \<leftarrow> CURRENT_TCB k; tcb_at k c }"

definition current_tid :: "kernel \<Rightarrow> nat option" where
  "current_tid k = do { t \<leftarrow> current_tcb k; Some (tcb_tid t) }"

definition os_ticks :: "kernel \<Rightarrow> u32" where
  "os_ticks k = OS_TICKS k"

definition set_os_ticks :: "u32 \<Rightarrow> kernel \<Rightarrow> kernel" where
  "set_os_ticks val k = k\<lparr>OS_TICKS := val\<rparr>"

fun alloc_scan :: "nat list \<Rightarrow> u32 \<Rightarrow> nat option" where
  "alloc_scan [] bm = None"
| "alloc_scan (tid # tids) bm =
     (if bm AND push_bit tid 1 = 0 then Some tid else alloc_scan tids bm)"

definition alloc_tid :: "kernel \<Rightarrow> nat option \<times> kernel" where
  "alloc_tid k = (case alloc_scan [0..<TASK_MAX] (TID_BITMAP k) of
     None \<Rightarrow> (None, k)
   | Some tid \<Rightarrow> (Some tid, k\<lparr>TID_BITMAP := TID_BITMAP k OR push_bit tid 1,
                            TCBS := (TCBS k)(tid := tcb_empty tid)\<rparr>))"

definition free_tid :: "nat \<Rightarrow> kernel \<Rightarrow> kernel" where
  "free_tid tid k =
     (if tid < TASK_MAX
      then k\<lparr>TID_BITMAP := TID_BITMAP k AND NOT (push_bit tid 1),
              TCBS := (TCBS k)(tid := (TCBS k tid)\<lparr>status := Terminated\<rparr>)\<rparr>
      else k)"

text \<open>
  The statement \<open>let _ = LIST.insert_in_order(tid, |t| p < TCBS[t].priority)\<close>, on any list of
  tasks: the rejection of a full list is discarded.
\<close>

definition insert_by_priority :: "kernel \<Rightarrow> nat \<Rightarrow> u8 \<Rightarrow> task_list \<Rightarrow> task_list option" where
  "insert_by_priority k tid p tids = do {
     (r, tids') \<leftarrow> insert_in_order tid (\<lambda>t. do { c \<leftarrow> tcb_at k t; Some (p < priority c) }) tids;
     Some tids' }"

definition ready_insert :: "nat \<Rightarrow> u8 \<Rightarrow> kernel \<Rightarrow> kernel option" where
  "ready_insert tid p k = do {
     rl \<leftarrow> insert_by_priority k tid p (READY_LIST k);
     Some (k\<lparr>READY_LIST := rl\<rparr>) }"

definition sleep_insert :: "nat \<Rightarrow> u32 \<Rightarrow> kernel \<Rightarrow> kernel option" where
  "sleep_insert tid wake_time k = do {
     (r, sl) \<leftarrow> insert_in_order tid (\<lambda>t. do { c \<leftarrow> tcb_at k t; Some (wake_time < wake_point c) })
                 (SLEEPING_LIST k);
     Some (k\<lparr>SLEEPING_LIST := sl\<rparr>) }"

definition ready_remove :: "nat \<Rightarrow> kernel \<Rightarrow> kernel" where
  "ready_remove tid k = k\<lparr>READY_LIST := tl_remove tid (READY_LIST k)\<rparr>"

subsection \<open>Basic facts\<close>

lemma tcb_at_simp [simp]: "t < TASK_MAX \<Longrightarrow> tcb_at k t = Some (TCBS k t)"
  by (simp add: tcb_at_def)

lemma modify_tcb_simp [simp]:
  "t < TASK_MAX \<Longrightarrow> modify_tcb t f k = Some (k\<lparr>TCBS := (TCBS k)(t := f (TCBS k t))\<rparr>)"
  by (simp add: modify_tcb_def)

lemma insert_by_priority_before:
  assumes "set tids \<subseteq> {..<TASK_MAX}" and "length tids < TASK_MAX"
  shows "insert_by_priority k tid p tids
       = Some (insert_before (\<lambda>t. p < priority (TCBS k t)) tid tids)"
  using assms insert_in_order_before [of tids "\<lambda>t. do { c \<leftarrow> tcb_at k t; Some (p < priority c) }"
      "\<lambda>t. p < priority (TCBS k t)" tid]
  by (auto simp: insert_by_priority_def subset_eq tcb_at_def)

lemma ready_insert_before:
  assumes "set (READY_LIST k) \<subseteq> {..<TASK_MAX}" and "length (READY_LIST k) < TASK_MAX"
  shows "ready_insert tid p k
       = Some (k\<lparr>READY_LIST := insert_before (\<lambda>t. p < priority (TCBS k t)) tid (READY_LIST k)\<rparr>)"
  using insert_by_priority_before [OF assms] by (simp add: ready_insert_def)

lemma sleep_insert_before:
  assumes "set (SLEEPING_LIST k) \<subseteq> {..<TASK_MAX}" and "length (SLEEPING_LIST k) < TASK_MAX"
  shows "sleep_insert tid w k
       = Some (k\<lparr>SLEEPING_LIST := insert_before (\<lambda>t. w < wake_point (TCBS k t)) tid (SLEEPING_LIST k)\<rparr>)"
  using assms insert_in_order_before [of "SLEEPING_LIST k"
      "\<lambda>t. do { c \<leftarrow> tcb_at k t; Some (w < wake_point c) }" "\<lambda>t. w < wake_point (TCBS k t)" tid]
  by (auto simp: sleep_insert_def subset_eq tcb_at_def)

lemma ready_insert_frame:
  "ready_insert tid p k = Some k' \<Longrightarrow>
   \<exists>rl. k' = k\<lparr>READY_LIST := rl\<rparr>"
  by (auto simp: ready_insert_def split: Option.bind_splits)

lemma modify_tcb_frame:
  "modify_tcb tid f k = Some k' \<Longrightarrow> tid < TASK_MAX \<and> k' = k\<lparr>TCBS := (TCBS k)(tid := f (TCBS k tid))\<rparr>"
  by (auto simp: modify_tcb_def split: if_splits)

subsection \<open>The invariant of the kernel state\<close>

text \<open>
  The three lists hold valid task identifiers and no task twice, in one list or across them; a
  task is in the ready list exactly when it is \<open>Ready\<close> or \<open>Running\<close>; the tasks of the blocked
  and sleeping lists are \<open>Blocked\<close> (a task that waits for a semaphore, a mutex or a condition
  variable is \<open>Blocked\<close> and in none of them).
\<close>

definition wf_lists :: "kernel \<Rightarrow> bool" where
  "wf_lists k \<longleftrightarrow>
     distinct (READY_LIST k @ BLOCKED_LIST k @ SLEEPING_LIST k)
     \<and> set (READY_LIST k) \<union> set (BLOCKED_LIST k) \<union> set (SLEEPING_LIST k) \<subseteq> {..<TASK_MAX}
     \<and> (\<forall>t < TASK_MAX. t \<in> set (READY_LIST k) \<longleftrightarrow> status (TCBS k t) = Ready \<or> status (TCBS k t) = Running)
     \<and> (\<forall>t \<in> set (BLOCKED_LIST k) \<union> set (SLEEPING_LIST k). status (TCBS k t) = Blocked)"

text \<open>The identifier bitmap marks exactly the live tasks, and a live task knows its index.\<close>

definition wf_ids :: "kernel \<Rightarrow> bool" where
  "wf_ids k \<longleftrightarrow>
     (\<forall>t < TASK_MAX. bit (TID_BITMAP k) t \<longleftrightarrow> status (TCBS k t) \<noteq> Terminated)
     \<and> (\<forall>t < TASK_MAX. status (TCBS k t) \<noteq> Terminated \<longrightarrow> tcb_tid (TCBS k t) = t)"

text \<open>The current pointer is valid, and no other task is marked \<open>Running\<close>.\<close>

definition wf_current :: "kernel \<Rightarrow> bool" where
  "wf_current k \<longleftrightarrow>
     (\<forall>c. CURRENT_TCB k = Some c \<longrightarrow> c < TASK_MAX \<and> tcb_tid (TCBS k c) = c)
     \<and> (\<forall>t < TASK_MAX. status (TCBS k t) = Running \<longrightarrow> CURRENT_TCB k = Some t)"

definition wf_kernel :: "kernel \<Rightarrow> bool" where
  "wf_kernel k \<longleftrightarrow> wf_lists k \<and> wf_ids k \<and> wf_current k"

definition ready_sorted :: "kernel \<Rightarrow> bool" where
  "ready_sorted k \<longleftrightarrow> sorted (map (\<lambda>t. priority (TCBS k t)) (READY_LIST k))"

text \<open>Between two kernel calls the scheduler runs a task that is in the ready list.\<close>

definition current_ready :: "kernel \<Rightarrow> bool" where
  "current_ready k \<longleftrightarrow> (CURRENT_TCB k \<noteq> None \<longleftrightarrow> SCHED_READY k)
     \<and> (\<forall>c. CURRENT_TCB k = Some c \<longrightarrow> c \<in> set (READY_LIST k))"

definition kernel_inv :: "kernel \<Rightarrow> bool" where
  "kernel_inv k \<longleftrightarrow> wf_kernel k \<and> ready_sorted k \<and> current_ready k"

text \<open>The invariants only read the lists, the bitmap, the current task and four fields of a task.\<close>

lemma kernel_inv_cong:
  assumes "READY_LIST k' = READY_LIST k" "BLOCKED_LIST k' = BLOCKED_LIST k"
    "SLEEPING_LIST k' = SLEEPING_LIST k" "CURRENT_TCB k' = CURRENT_TCB k"
    "TID_BITMAP k' = TID_BITMAP k" "SCHED_READY k' = SCHED_READY k"
    "\<And>t. status (TCBS k' t) = status (TCBS k t)" "\<And>t. tcb_tid (TCBS k' t) = tcb_tid (TCBS k t)"
    "\<And>t. priority (TCBS k' t) = priority (TCBS k t)"
  shows "kernel_inv k' = kernel_inv k" and "wf_kernel k' = wf_kernel k"
  by (simp_all only: kernel_inv_def wf_kernel_def wf_lists_def wf_ids_def wf_current_def
      ready_sorted_def current_ready_def assms)

lemma wf_kernel_ready_range: "wf_kernel k \<Longrightarrow> set (READY_LIST k) \<subseteq> {..<TASK_MAX}"
  and wf_kernel_sleeping_range: "wf_kernel k \<Longrightarrow> set (SLEEPING_LIST k) \<subseteq> {..<TASK_MAX}"
  and wf_kernel_blocked_range: "wf_kernel k \<Longrightarrow> set (BLOCKED_LIST k) \<subseteq> {..<TASK_MAX}"
  by (auto simp: wf_kernel_def wf_lists_def)

lemma wf_kernel_lengths:
  assumes "wf_kernel k"
  shows "t < TASK_MAX \<Longrightarrow> t \<notin> set (READY_LIST k) \<Longrightarrow> length (READY_LIST k) < TASK_MAX"
    and "t < TASK_MAX \<Longrightarrow> t \<notin> set (BLOCKED_LIST k) \<Longrightarrow> length (BLOCKED_LIST k) < TASK_MAX"
    and "t < TASK_MAX \<Longrightarrow> t \<notin> set (SLEEPING_LIST k) \<Longrightarrow> length (SLEEPING_LIST k) < TASK_MAX"
  using assms
  by (auto intro!: length_distinct_lessThan_strict simp: wf_kernel_def wf_lists_def simp del: TASK_MAX_def)

lemma wf_kernel_ready_iff:
  "wf_kernel k \<Longrightarrow> t < TASK_MAX \<Longrightarrow>
   t \<in> set (READY_LIST k) \<longleftrightarrow> status (TCBS k t) = Ready \<or> status (TCBS k t) = Running"
  by (simp add: wf_kernel_def wf_lists_def)

lemma wf_kernel_parked:
  "wf_kernel k \<Longrightarrow> t \<in> set (BLOCKED_LIST k) \<or> t \<in> set (SLEEPING_LIST k) \<Longrightarrow> status (TCBS k t) = Blocked"
  by (auto simp: wf_kernel_def wf_lists_def)

lemma wf_kernel_current:
  "wf_kernel k \<Longrightarrow> CURRENT_TCB k = Some c \<Longrightarrow> c < TASK_MAX \<and> tcb_tid (TCBS k c) = c"
  by (simp add: wf_kernel_def wf_current_def)

lemma current_tcb_simp:
  "wf_kernel k \<Longrightarrow> CURRENT_TCB k = Some c \<Longrightarrow> current_tcb k = Some (TCBS k c)"
  by (auto simp: current_tcb_def dest: wf_kernel_current)

lemma current_tid_simp:
  "wf_kernel k \<Longrightarrow> CURRENT_TCB k = Some c \<Longrightarrow> current_tid k = Some c"
  by (auto simp: current_tid_def current_tcb_simp dest: wf_kernel_current)

lemma kernel_inv_boot: "kernel_inv (kernel_boot base)"
  by (simp add: kernel_inv_def wf_kernel_def wf_lists_def wf_ids_def wf_current_def ready_sorted_def
      current_ready_def kernel_boot_def tl_new_def)

subsection \<open>Allocation of task identifiers\<close>

lemma alloc_scan_spec:
  "case alloc_scan tids bm of
     None \<Rightarrow> \<forall>t \<in> set tids. bit bm t
   | Some t \<Rightarrow> t \<in> set tids \<and> \<not> bit bm t"
  by (induction tids) (auto split: option.splits)

lemma alloc_scan_least:
  "alloc_scan [m..<n] bm = Some t \<Longrightarrow> m \<le> s \<Longrightarrow> s < t \<Longrightarrow> bit bm s"
proof (induction "n - m" arbitrary: m)
  case (Suc d)
  show ?case
  proof (cases "s = m")
    case True
    with Suc show ?thesis by (auto simp: upt_conv_Cons split: if_splits)
  next
    case False
    with Suc have "alloc_scan [Suc m..<n] bm = Some t \<and> Suc m \<le> s"
      by (auto simp: upt_conv_Cons split: if_splits)
    with Suc.hyps show ?thesis using Suc.hyps(1) [of "Suc m"] Suc.prems by auto
  qed
qed simp

text \<open>\<open>alloc_tid\<close> returns the least identifier whose bit is clear, marks it and hands out a
  fresh control block with that index; it returns \<open>None\<close>, changing nothing, exactly when all
  \<open>TASK_MAX\<close> identifiers are taken. \<open>free_tid\<close> makes an allocated identifier available again.\<close>

theorem alloc_tid_least_free:
  "case alloc_tid k of
     (None, k') \<Rightarrow> k' = k \<and> card {t \<in> {..<TASK_MAX}. bit (TID_BITMAP k) t} = TASK_MAX
   | (Some t, k') \<Rightarrow> t < TASK_MAX \<and> \<not> bit (TID_BITMAP k) t
       \<and> {s. s < t \<and> \<not> bit (TID_BITMAP k) s} = {}
       \<and> (\<lambda>s. bit (TID_BITMAP k') s) = (\<lambda>s. bit (TID_BITMAP k) s \<or> s = t)
       \<and> TCBS k' = (TCBS k)(t := tcb_empty t)
       \<and> TID_BITMAP (free_tid t k') = TID_BITMAP k"
proof (cases "alloc_scan [0..<TASK_MAX] (TID_BITMAP k)")
  case None
  then have "{t \<in> {..<TASK_MAX}. bit (TID_BITMAP k) t} = {..<TASK_MAX}"
    using alloc_scan_spec [of "[0..<TASK_MAX]" "TID_BITMAP k"] by auto
  then have "card {t \<in> {..<TASK_MAX}. bit (TID_BITMAP k) t} = TASK_MAX" by simp
  with None show ?thesis by (simp add: alloc_tid_def)
next
  case (Some t)
  then have t: "t < TASK_MAX" "\<not> bit (TID_BITMAP k) t"
    using alloc_scan_spec [of "[0..<TASK_MAX]" "TID_BITMAP k"] by auto
  have "{s. s < t \<and> \<not> bit (TID_BITMAP k) s} = {}"
    using alloc_scan_least [OF Some] by auto
  moreover have "(\<lambda>s. bit (TID_BITMAP k OR push_bit t 1) s) = (\<lambda>s. bit (TID_BITMAP k) s \<or> s = t)"
    using t by (intro ext) (simp add: bit_or_pow2)
  moreover have "(TID_BITMAP k OR push_bit t 1) AND NOT (push_bit t 1) = TID_BITMAP k"
    using t by (intro bit_word_eqI) (auto simp: bit_or_pow2)
  ultimately show ?thesis using Some t by (simp add: alloc_tid_def free_tid_def)
qed

end
