(* ===== verification/Mos_Sched.thy ===== *)
theory Mos_Sched
  imports Mos_Global
begin

section \<open>The scheduler\<close>

text \<open>
  \<open>core/src/kernel/sched.rs\<close> and the context switch of \<open>core/src/arch/riscv.rs\<close> at the level of
  the kernel state: \<open>wake_up_sleepers\<close>, \<open>next_tcb\<close>, \<open>systick_tick\<close> and \<open>yield_task\<close>, whose
  \<open>ecall\<close> reaches \<open>next_tcb\<close> through the trap handler once \<open>SCHED_READY\<close> is set. The loop over the
  sleeping list is kept as written and proved equal to a filter and a fold, on which the properties
  of the scheduler rest: no panic while some task can run, the invariant, and that the task switched
  to is a ready task of the highest priority.
\<close>

function wake_up_from :: "u32 \<Rightarrow> nat \<Rightarrow> kernel \<Rightarrow> kernel option" where
  "wake_up_from now i k =
     (if i < tl_len (SLEEPING_LIST k) then do {
        let tid = SLEEPING_LIST k ! i;
        t \<leftarrow> tcb_at k tid;
        (if wake_point t \<le> now then do {
           k1 \<leftarrow> modify_tcb tid (\<lambda>t. t\<lparr>status := Ready, wake_point := 0\<rparr>)
                  (k\<lparr>SLEEPING_LIST := tl_remove tid (SLEEPING_LIST k)\<rparr>);
           t1 \<leftarrow> tcb_at k1 tid;
           k2 \<leftarrow> ready_insert tid (priority t1) k1;
           wake_up_from now i k2 }
         else wake_up_from now (i + 1) k) }
      else Some k)"
  by pat_completeness auto
termination
proof (relation "measure (\<lambda>(now, i, k). length (SLEEPING_LIST k) - i)", goal_cases)
  case (2 now i k tid t k1 t1 k2)
  then have "tid \<in> set (SLEEPING_LIST k)" by (simp add: tl_len_def)
  moreover have "SLEEPING_LIST k2 = remove1 tid (SLEEPING_LIST k)"
    using 2 by (auto dest!: modify_tcb_frame ready_insert_frame)
  ultimately show ?case using 2(1) by (auto simp: length_remove1 tl_len_def)
qed (auto simp: tl_len_def)

declare wake_up_from.simps [simp del]

definition wake_up_sleepers :: "kernel \<Rightarrow> kernel option" where
  "wake_up_sleepers k = wake_up_from (os_ticks k) 0 k"

text \<open>\<open>next_tcb\<close>: \<open>None\<close> is the panic "System halted: No ready task".\<close>

definition next_tcb :: "kernel \<Rightarrow> kernel option" where
  "next_tcb k0 = do {
     k \<leftarrow> wake_up_sleepers k0;
     cr_tid \<leftarrow> current_tid k;
     t \<leftarrow> tcb_at k cr_tid;
     k \<leftarrow> (if status t = Terminated \<or> status t = Blocked
           then Some (ready_remove cr_tid k)
           else if time_slice t = 0 \<or> status t = Running
           then do {
             k \<leftarrow> modify_tcb cr_tid (\<lambda>t. t\<lparr>time_slice := TIME_SLICE, status := Ready\<rparr>) k;
             let k = ready_remove cr_tid k;
             t \<leftarrow> tcb_at k cr_tid;
             ready_insert cr_tid (priority t) k }
           else Some k);
     (case tl_front (READY_LIST k) of
        None \<Rightarrow> None
      | Some st_tid \<Rightarrow>
          if st_tid \<noteq> cr_tid then do {
            t \<leftarrow> tcb_at k cr_tid;
            k \<leftarrow> (if status t = Running then modify_tcb cr_tid (\<lambda>t. t\<lparr>status := Ready\<rparr>) k else Some k);
            k \<leftarrow> modify_tcb st_tid (\<lambda>t. t\<lparr>status := Running\<rparr>) k;
            Some (k\<lparr>CURRENT_TCB := Some st_tid\<rparr>) }
          else Some k) }"

text \<open>\<open>systick_tick\<close> returns 1 when the trap handler has to call \<open>next_tcb\<close>.\<close>

definition systick_tick :: "kernel \<Rightarrow> (u32 \<times> kernel) option" where
  "systick_tick k =
     (if \<not> SCHED_READY k then Some (0, k)
      else do {
        let k = set_os_ticks (os_ticks k + 1) k;
        cr_tid \<leftarrow> current_tid k;
        t \<leftarrow> tcb_at k cr_tid;
        k \<leftarrow> (if 0 < time_slice t
              then modify_tcb cr_tid (\<lambda>t. t\<lparr>time_slice := time_slice t - 1\<rparr>) k else Some k);
        t \<leftarrow> tcb_at k cr_tid;
        Some (if time_slice t = 0 \<or> \<not> tl_is_empty (SLEEPING_LIST k) then 1 else 0, k) })"

text \<open>
  \<open>yield_task\<close> is an \<open>ecall\<close>: the trap dispatch returns 1 for it, and the assembly then calls
  \<open>next_tcb\<close> if \<open>SCHED_READY\<close> is set.
\<close>

definition yield_task :: "kernel \<Rightarrow> kernel option" where
  "yield_task k = (if SCHED_READY k then next_tcb k else Some k)"

text \<open>A timer interrupt that is not late: \<open>systick_tick\<close>, then the switch it asks for.\<close>

definition systick_interrupt :: "kernel \<Rightarrow> kernel option" where
  "systick_interrupt k = do {
     (r, k) \<leftarrow> systick_tick k;
     if SCHED_READY k \<and> r \<noteq> 0 then next_tcb k else Some k }"

subsection \<open>The wake-up loop as a filter and a fold\<close>

abbreviation pri :: "kernel \<Rightarrow> nat \<Rightarrow> u8" where
  "pri k t \<equiv> priority (TCBS k t)"

definition expired :: "kernel \<Rightarrow> nat \<Rightarrow> bool" where
  "expired k t = (wake_point (TCBS k t) \<le> OS_TICKS k)"

definition wake_tcb :: "tcb \<Rightarrow> tcb" where
  "wake_tcb t = t\<lparr>status := Ready, wake_point := 0\<rparr>"

definition insert_all :: "(nat \<Rightarrow> u8) \<Rightarrow> task_list \<Rightarrow> task_list \<Rightarrow> task_list" where
  "insert_all key ts = fold (\<lambda>t. insert_before (\<lambda>s. key t < key s) t) ts"

text \<open>The closed form: who is woken, in which order they join the ready list.\<close>

definition wake_list :: "kernel \<Rightarrow> task_list \<Rightarrow> kernel" where
  "wake_list k ts =
     k\<lparr>READY_LIST := insert_all (pri k) (filter (expired k) ts) (READY_LIST k),
       TCBS := (\<lambda>t. if t \<in> set ts \<and> expired k t then wake_tcb (TCBS k t) else TCBS k t)\<rparr>"

lemma wake_tcb_simps [simp]:
  "status (wake_tcb t) = Ready" "wake_point (wake_tcb t) = 0" "priority (wake_tcb t) = priority t"
  "tcb_tid (wake_tcb t) = tcb_tid t" "time_slice (wake_tcb t) = time_slice t"
  "sub_priority (wake_tcb t) = sub_priority t"
  by (simp_all add: wake_tcb_def)

lemma insert_all_Nil [simp]: "insert_all key [] l = l"
  by (simp add: insert_all_def)

lemma insert_all_Cons [simp]:
  "insert_all key (t # ts) l = insert_all key ts (insert_before (\<lambda>s. key t < key s) t l)"
  by (simp add: insert_all_def)

lemma set_insert_all [simp]: "set (insert_all key ts l) = set ts \<union> set l"
  by (induction ts arbitrary: l) auto

lemma distinct_insert_all: "distinct (ts @ l) \<Longrightarrow> distinct (insert_all key ts l)"
  by (induction ts arbitrary: l) auto

lemma sorted_insert_all: "sorted (map key l) \<Longrightarrow> sorted (map key (insert_all key ts l))"
  by (induction ts arbitrary: l) (auto simp: sorted_insert_before)

lemma distinct_remove1_nth:
  "distinct xs \<Longrightarrow> i < length xs \<Longrightarrow> remove1 (xs ! i) xs = take i xs @ drop (Suc i) xs"
proof (induction xs arbitrary: i)
  case (Cons x xs)
  then show ?case by (cases i) auto
qed simp

lemma wake_up_from_closed:
  assumes "distinct (READY_LIST k @ SLEEPING_LIST k)"
    and "set (READY_LIST k) \<union> set (SLEEPING_LIST k) \<subseteq> {..<TASK_MAX}"
    and "now = OS_TICKS k"
  shows "wake_up_from now i k = Some ((wake_list k (drop i (SLEEPING_LIST k)))
      \<lparr>SLEEPING_LIST := take i (SLEEPING_LIST k) @ filter (\<lambda>t. \<not> expired k t) (drop i (SLEEPING_LIST k))\<rparr>)"
  using assms
proof (induction now i k rule: wake_up_from.induct)
  case (1 now i k)
  let ?S = "SLEEPING_LIST k" and ?tid = "SLEEPING_LIST k ! i"
  show ?case
  proof (cases "i < length ?S")
    case False
    then show ?thesis by (simp add: wake_up_from.simps [of now i k] tl_len_def wake_list_def)
  next
    case i: True
    then have drop: "drop i ?S = ?tid # drop (Suc i) ?S"
      by (simp add: Cons_nth_drop_Suc)
    have tid: "?tid < TASK_MAX" using 1(4) i nth_mem by blast
    have new: "?tid \<notin> set (READY_LIST k)" using 1(3) i nth_mem by fastforce
    show ?thesis
    proof (cases "expired k ?tid")
      case False
      then have "wake_up_from now i k = wake_up_from now (Suc i) k"
        using i tid 1(5) by (simp add: wake_up_from.simps [of "OS_TICKS k" i k] tl_len_def expired_def Let_def)
      moreover have "take (Suc i) ?S = take i ?S @ [?tid]"
        using i by (simp add: take_Suc_conv_app_nth)
      ultimately show ?thesis
        using "1.IH"(2) [OF _ refl] 1(3-5) i tid False drop
        by (auto simp: tl_len_def expired_def wake_list_def intro!: kernel.equality)
    next
      case True
      let ?k1 = "k\<lparr>SLEEPING_LIST := remove1 ?tid ?S, TCBS := (TCBS k)(?tid := wake_tcb (TCBS k ?tid))\<rparr>"
      let ?k2 = "?k1\<lparr>READY_LIST := insert_before (\<lambda>s. pri k ?tid < pri k s) ?tid (READY_LIST k)\<rparr>"
      have len: "length (READY_LIST k) < TASK_MAX"
        using 1(3,4) tid new by (intro length_distinct_lessThan_strict) auto
      have same: "priority (((TCBS k)(?tid := wake_tcb (TCBS k ?tid))) s) = pri k s" for s by simp
      have ins: "ready_insert ?tid (pri k ?tid) ?k1 = Some ?k2"
        using ready_insert_before [of ?k1 ?tid "pri k ?tid"] 1(4) len by (simp add: same del: fun_upd_apply)
      have rm: "remove1 ?tid ?S = take i ?S @ drop (Suc i) ?S"
        using 1(3) i by (intro distinct_remove1_nth) auto
      have step: "wake_up_from now i k = wake_up_from now i ?k2"
        using i tid True 1(5) ins
        by (simp add: wake_up_from.simps [of "OS_TICKS k" i k] tl_len_def expired_def wake_tcb_def Let_def)
      let ?ts = "drop (Suc i) ?S"
      have pri: "(\<lambda>t. priority (if t = ?tid then wake_tcb (TCBS k ?tid) else TCBS k t)) = pri k"
        by (simp add: fun_eq_iff)
      have notin: "?tid \<notin> set ?ts"
        using 1(3) drop by (metis append_take_drop_id distinct.simps(2) distinct_append)
      then have exp: "expired ?k2 t = expired k t" if "t \<in> set ?ts" for t
        using that by (auto simp: expired_def)
      have filt: "filter (expired ?k2) ?ts = filter (expired k) ?ts"
        "filter (\<lambda>t. \<not> expired ?k2 t) ?ts = filter (\<lambda>t. \<not> expired k t) ?ts"
        by (auto intro!: filter_cong simp del: fun_upd_apply simp: exp)
      have tk: "take i (SLEEPING_LIST ?k2) = take i ?S" "drop i (SLEEPING_LIST ?k2) = ?ts"
        using i by (simp_all add: rm)
      have "distinct ?S" using 1(3) by simp
      then have "set (SLEEPING_LIST ?k2) = set ?S - {?tid}" by (simp add: set_remove1_eq)
      with \<open>distinct ?S\<close> have inv2: "distinct (READY_LIST ?k2 @ SLEEPING_LIST ?k2)"
        "set (READY_LIST ?k2) \<union> set (SLEEPING_LIST ?k2) \<subseteq> {..<TASK_MAX}"
        using 1(3,4) new tid by (auto simp del: fun_upd_apply)
      have "wake_up_from now i ?k2 = Some ((wake_list ?k2 (drop i (SLEEPING_LIST ?k2)))
          \<lparr>SLEEPING_LIST := take i (SLEEPING_LIST ?k2)
             @ filter (\<lambda>t. \<not> expired ?k2 t) (drop i (SLEEPING_LIST ?k2))\<rparr>)"
      proof (rule "1.IH"(1) [of ?tid "TCBS k ?tid" ?k1 "wake_tcb (TCBS k ?tid)" ?k2])
        show "ready_insert ?tid (priority (wake_tcb (TCBS k ?tid))) ?k1 = Some ?k2"
          using ins by simp
      qed (use i tid True inv2 1(5) in \<open>simp_all add: tl_len_def expired_def wake_tcb_def\<close>)
      then have ih: "wake_up_from now i ?k2 = Some ((wake_list ?k2 ?ts)
          \<lparr>SLEEPING_LIST := take i ?S @ filter (\<lambda>t. \<not> expired k t) ?ts\<rparr>)"
        unfolding tk filt .
      show ?thesis
        unfolding step ih using notin True exp
        by (auto simp: drop wake_list_def pri filt [simplified] fun_eq_iff intro!: kernel.equality)
    qed
  qed
qed

definition woken :: "kernel \<Rightarrow> kernel" where
  "woken k = (wake_list k (SLEEPING_LIST k))
     \<lparr>SLEEPING_LIST := filter (\<lambda>t. \<not> expired k t) (SLEEPING_LIST k)\<rparr>"

lemma woken_fields [simp]:
  "READY_LIST (woken k) = insert_all (pri k) (filter (expired k) (SLEEPING_LIST k)) (READY_LIST k)"
  "BLOCKED_LIST (woken k) = BLOCKED_LIST k"
  "SLEEPING_LIST (woken k) = filter (\<lambda>t. \<not> expired k t) (SLEEPING_LIST k)"
  "CURRENT_TCB (woken k) = CURRENT_TCB k" "SCHED_READY (woken k) = SCHED_READY k"
  "OS_TICKS (woken k) = OS_TICKS k" "TID_BITMAP (woken k) = TID_BITMAP k"
  "TCBS (woken k) t = (if t \<in> set (SLEEPING_LIST k) \<and> expired k t then wake_tcb (TCBS k t) else TCBS k t)"
  by (simp_all add: woken_def wake_list_def)

lemma pri_woken [simp]: "pri (woken k) t = pri k t"
  by simp

lemma wake_up_sleepers_closed:
  assumes "wf_kernel k"
  shows "wake_up_sleepers k = Some (woken k)"
proof -
  have "distinct (READY_LIST k @ SLEEPING_LIST k)"
    "set (READY_LIST k) \<union> set (SLEEPING_LIST k) \<subseteq> {..<TASK_MAX}"
    using assms by (auto simp: wf_kernel_def wf_lists_def)
  from wake_up_from_closed [OF this refl, of 0] show ?thesis
    by (simp add: wake_up_sleepers_def os_ticks_def woken_def)
qed

lemma wf_lists_woken:
  assumes "wf_lists k"
  shows "wf_lists (woken k)"
  unfolding wf_lists_def
proof (intro conjI allI impI ballI)
  let ?E = "filter (expired k) (SLEEPING_LIST k)" and ?R = "READY_LIST k"
  from assms have d: "distinct (?R @ BLOCKED_LIST k @ SLEEPING_LIST k)" by (simp add: wf_lists_def)
  then have "distinct (insert_all (pri k) ?E ?R)" by (intro distinct_insert_all) auto
  with d show "distinct (READY_LIST (woken k) @ BLOCKED_LIST (woken k) @ SLEEPING_LIST (woken k))"
    by auto
  show "set (READY_LIST (woken k)) \<union> set (BLOCKED_LIST (woken k)) \<union> set (SLEEPING_LIST (woken k))
      \<subseteq> {..<TASK_MAX}"
    using assms unfolding wf_lists_def by (simp del: TASK_MAX_def) blast
next
  fix t assume "t < TASK_MAX"
  with assms have iff: "t \<in> set (READY_LIST k) \<longleftrightarrow> status (TCBS k t) = Ready \<or> status (TCBS k t) = Running"
    unfolding wf_lists_def by blast
  then show "(t \<in> set (READY_LIST (woken k)))
      = (status (TCBS (woken k) t) = Ready \<or> status (TCBS (woken k) t) = Running)"
    by (cases "t \<in> set (SLEEPING_LIST k) \<and> expired k t") (simp_all, blast)
next
  fix t assume t: "t \<in> set (BLOCKED_LIST (woken k)) \<union> set (SLEEPING_LIST (woken k))"
  then have "t \<in> set (BLOCKED_LIST k) \<union> set (SLEEPING_LIST k)" by auto
  with assms have "status (TCBS k t) = Blocked" unfolding wf_lists_def by blast
  moreover have "\<not> (t \<in> set (SLEEPING_LIST k) \<and> expired k t)"
    using t assms by (auto simp: wf_lists_def)
  ultimately show "status (TCBS (woken k) t) = Blocked" by simp
qed

lemma wf_kernel_woken:
  assumes "wf_kernel k"
  shows "wf_kernel (woken k)"
proof -
  have S: "status (TCBS k t) = Blocked \<and> t < TASK_MAX" if "t \<in> set (SLEEPING_LIST k)" for t
    using that assms wf_kernel_parked wf_kernel_sleeping_range by blast
  have alive: "(status (TCBS (woken k) t) = Terminated) = (status (TCBS k t) = Terminated)"
    and running: "(status (TCBS (woken k) t) = Running) = (status (TCBS k t) = Running)"
    and tid: "tcb_tid (TCBS (woken k) t) = tcb_tid (TCBS k t)" for t
    using S by auto
  from assms have wf: "wf_lists k" "wf_ids k" "wf_current k" by (simp_all add: wf_kernel_def)
  have "wf_ids (woken k)" using wf(2) unfolding wf_ids_def alive tid woken_fields(7) .
  moreover have "wf_current (woken k)" using wf(3) unfolding wf_current_def running tid woken_fields(4) .
  ultimately show ?thesis using wf_lists_woken [OF wf(1)] by (simp add: wf_kernel_def)
qed

lemma ready_sorted_woken: "ready_sorted k \<Longrightarrow> ready_sorted (woken k)"
proof -
  have "(\<lambda>t. pri (woken k) t) = pri k" by (simp add: fun_eq_iff)
  then show "ready_sorted k \<Longrightarrow> ready_sorted (woken k)"
    unfolding ready_sorted_def by (simp add: sorted_insert_all del: woken_fields(8))
qed

subsection \<open>\<open>next_tcb\<close> in closed form\<close>

text \<open>The current task goes behind the ready tasks of its own priority, with a new time slice.\<close>

definition requeue :: "nat \<Rightarrow> kernel \<Rightarrow> kernel" where
  "requeue c k = k\<lparr>TCBS := (TCBS k)(c := (TCBS k c)\<lparr>time_slice := TIME_SLICE, status := Ready\<rparr>),
     READY_LIST := insert_before (\<lambda>s. pri k c < pri k s) c (remove1 c (READY_LIST k))\<rparr>"

text \<open>The state in which the next task is picked.\<close>

definition settled :: "nat \<Rightarrow> kernel \<Rightarrow> kernel" where
  "settled c k =
     (let k1 = woken k in
      if status (TCBS k1 c) = Ready \<and> time_slice (TCBS k1 c) = 0 \<or> status (TCBS k1 c) = Running
      then requeue c k1 else k1)"

definition switch_to :: "nat \<Rightarrow> nat \<Rightarrow> kernel \<Rightarrow> kernel" where
  "switch_to c h k =
     (if h = c then k
      else k\<lparr>TCBS := (TCBS k)(h := (TCBS k h)\<lparr>status := Running\<rparr>), CURRENT_TCB := Some h\<rparr>)"

lemma wf_kernel_requeue:
  assumes wf: "wf_kernel k" and c: "CURRENT_TCB k = Some c" "c \<in> set (READY_LIST k)"
  shows "wf_kernel (requeue c k)" and "status (TCBS (requeue c k) c) = Ready"
    and "set (READY_LIST (requeue c k)) = set (READY_LIST k)"
proof -
  from wf have d: "distinct (READY_LIST k)" by (simp add: wf_kernel_def wf_lists_def)
  with c have s: "set (insert_before p c (remove1 c (READY_LIST k))) = set (READY_LIST k)"
    "distinct (insert_before p c (remove1 c (READY_LIST k)))" for p
    by (auto simp: set_remove1_eq)
  from wf c have st: "status (TCBS k c) \<noteq> Terminated" "c < TASK_MAX"
    "c \<notin> set (BLOCKED_LIST k)" "c \<notin> set (SLEEPING_LIST k)"
    using wf_kernel_current wf_kernel_ready_iff wf_kernel_parked by fastforce+
  have "wf_lists (requeue c k)"
    using wf c s st unfolding wf_kernel_def wf_lists_def requeue_def
    by (simp del: TASK_MAX_def distinct_insert_before set_insert_before) blast
  moreover have "wf_ids (requeue c k)"
    using wf st unfolding wf_kernel_def wf_ids_def requeue_def by (simp del: TASK_MAX_def)
  moreover have "wf_current (requeue c k)"
    using wf c unfolding wf_kernel_def wf_current_def requeue_def by (simp del: TASK_MAX_def)
  ultimately show "wf_kernel (requeue c k)" by (simp add: wf_kernel_def)
  show "status (TCBS (requeue c k) c) = Ready" by (simp add: requeue_def)
  show "set (READY_LIST (requeue c k)) = set (READY_LIST k)"
    by (simp add: requeue_def s del: set_insert_before)
qed

lemma requeue_insert:
  assumes "c < TASK_MAX" "set (READY_LIST k) \<subseteq> {..<TASK_MAX}" "distinct (READY_LIST k)"
  shows "ready_insert c (pri k c)
      (k\<lparr>TCBS := (TCBS k)(c := (TCBS k c)\<lparr>time_slice := TIME_SLICE, status := Ready\<rparr>),
         READY_LIST := remove1 c (READY_LIST k)\<rparr>) = Some (requeue c k)"
proof -
  let ?k' = "k\<lparr>TCBS := (TCBS k)(c := (TCBS k c)\<lparr>time_slice := TIME_SLICE, status := Ready\<rparr>),
        READY_LIST := remove1 c (READY_LIST k)\<rparr>"
  have "set (READY_LIST ?k') \<subseteq> {..<TASK_MAX}" using assms(2,3) by (auto simp: set_remove1_eq)
  moreover have "length (READY_LIST ?k') < TASK_MAX"
    using assms by (intro length_distinct_lessThan_strict [of _ _ c]) (auto simp: set_remove1_eq)
  moreover have "(\<lambda>t. pri k c < pri ?k' t) = (\<lambda>t. pri k c < pri k t)" by (simp add: fun_eq_iff)
  ultimately show ?thesis
    using ready_insert_before [of ?k' c "pri k c"] by (simp add: requeue_def del: fun_upd_apply)
qed

lemma ready_sorted_requeue:
  assumes "ready_sorted k"
  shows "ready_sorted (requeue c k)"
proof -
  have "(\<lambda>t. pri (requeue c k) t) = pri k" by (simp add: fun_eq_iff requeue_def)
  then show ?thesis
    using sorted_insert_before [OF sorted_map_remove1, of "pri k" "READY_LIST k" c c] assms
    unfolding ready_sorted_def by (simp add: requeue_def)
qed

lemma settled_wf:
  assumes wf: "wf_kernel k" and c: "CURRENT_TCB k = Some c"
  shows "wf_kernel (settled c k)" "CURRENT_TCB (settled c k) = Some c"
    "status (TCBS (settled c k) c) \<noteq> Running"
    "set (READY_LIST (settled c k)) = set (READY_LIST (woken k))"
    "ready_sorted k \<Longrightarrow> ready_sorted (settled c k)"
    "SCHED_READY (settled c k) = SCHED_READY k"
proof -
  let ?k1 = "woken k"
  have wf1: "wf_kernel ?k1" and c1: "CURRENT_TCB ?k1 = Some c"
    using wf c by (simp_all add: wf_kernel_woken)
  then have cm: "c < TASK_MAX" using wf_kernel_current by blast
  have run: "c \<in> set (READY_LIST ?k1)" if "status (TCBS ?k1 c) = Ready \<or> status (TCBS ?k1 c) = Running"
    using that wf_kernel_ready_iff [OF wf1 cm] by blast
  let ?b = "status (TCBS ?k1 c) = Ready \<and> time_slice (TCBS ?k1 c) = 0 \<or> status (TCBS ?k1 c) = Running"
  have eq: "settled c k = (if ?b then requeue c ?k1 else ?k1)"
    by (simp only: settled_def Let_def)
  note rq = wf_kernel_requeue [OF wf1 c1 run]
  show "wf_kernel (settled c k)" unfolding eq using rq wf1 by (auto simp del: woken_fields)
  show "CURRENT_TCB (settled c k) = Some c" unfolding eq using c1 by (simp add: requeue_def)
  show "status (TCBS (settled c k) c) \<noteq> Running" unfolding eq using rq by (auto simp del: woken_fields)
  show "set (READY_LIST (settled c k)) = set (READY_LIST (woken k))"
    unfolding eq using rq by (auto simp del: woken_fields)
  show "ready_sorted (settled c k)" if "ready_sorted k"
    unfolding eq using ready_sorted_woken [OF that] ready_sorted_requeue by simp
  show "SCHED_READY (settled c k) = SCHED_READY k" unfolding eq by (simp add: requeue_def)
qed

lemma next_tcb_closed:
  assumes wf: "wf_kernel k" and c: "CURRENT_TCB k = Some c"
  shows "next_tcb k = (case READY_LIST (settled c k) of [] \<Rightarrow> None
     | h # _ \<Rightarrow> Some (switch_to c h (settled c k)))"
proof -
  let ?k1 = "woken k"
  have wf1: "wf_kernel ?k1" and c1: "CURRENT_TCB ?k1 = Some c"
    using wf c by (simp_all add: wf_kernel_woken)
  then have cm: "c < TASK_MAX" using wf_kernel_current by blast
  note iff = wf_kernel_ready_iff [OF wf1 cm]
  have rng: "set (READY_LIST ?k1) \<subseteq> {..<TASK_MAX}" and dst: "distinct (READY_LIST ?k1)"
    using wf1 by (auto simp: wf_kernel_def wf_lists_def)
  define mid where "mid = (if status (TCBS ?k1 c) = Terminated \<or> status (TCBS ?k1 c) = Blocked
           then Some (ready_remove c ?k1)
           else if time_slice (TCBS ?k1 c) = 0 \<or> status (TCBS ?k1 c) = Running
           then do {
             k \<leftarrow> modify_tcb c (\<lambda>t. t\<lparr>time_slice := TIME_SLICE, status := Ready\<rparr>) ?k1;
             let k = ready_remove c k;
             t \<leftarrow> tcb_at k c;
             ready_insert c (priority t) k }
           else Some ?k1)"
  have mid: "mid = Some (settled c k)"
  proof (cases "status (TCBS ?k1 c) = Terminated \<or> status (TCBS ?k1 c) = Blocked")
    case True
    then have "c \<notin> set (READY_LIST ?k1)" using iff by auto
    then have "remove1 c (READY_LIST ?k1) = READY_LIST ?k1" by (simp add: remove1_idem)
    with True show ?thesis
      by (auto simp: mid_def ready_remove_def settled_def Let_def simp del: woken_fields)
  next
    case False
    then have rdy: "status (TCBS ?k1 c) = Ready \<or> status (TCBS ?k1 c) = Running"
      by (cases "status (TCBS ?k1 c)") auto
    show ?thesis
    proof (cases "time_slice (TCBS ?k1 c) = 0 \<or> status (TCBS ?k1 c) = Running")
      case slot: True
      have "ready_insert c (pri ?k1 c) (?k1\<lparr>TCBS := (TCBS ?k1)(c := (TCBS ?k1 c)\<lparr>time_slice := TIME_SLICE, status := Ready\<rparr>),
        READY_LIST := remove1 c (READY_LIST ?k1)\<rparr>) = Some (requeue c ?k1)"
        using cm rng dst by (rule requeue_insert)
      with False slot rdy cm show ?thesis
        by (auto simp: mid_def settled_def Let_def ready_remove_def simp del: woken_fields pri_woken)
    qed (use False rdy in \<open>auto simp: mid_def settled_def Let_def simp del: woken_fields\<close>)
  qed
  note st = settled_wf [OF wf c]
  have rng2: "set (READY_LIST (settled c k)) \<subseteq> {..<TASK_MAX}"
    using wf_kernel_ready_range [OF st(1)] .
  have "next_tcb k = do { k \<leftarrow> mid;
     (case tl_front (READY_LIST k) of None \<Rightarrow> None
      | Some st_tid \<Rightarrow>
          if st_tid \<noteq> c then do {
            t \<leftarrow> tcb_at k c;
            k \<leftarrow> (if status t = Running then modify_tcb c (\<lambda>t. t\<lparr>status := Ready\<rparr>) k else Some k);
            k \<leftarrow> modify_tcb st_tid (\<lambda>t. t\<lparr>status := Running\<rparr>) k;
            Some (k\<lparr>CURRENT_TCB := Some st_tid\<rparr>) }
          else Some k) }"
    using cm by (simp add: next_tcb_def mid_def wake_up_sleepers_closed [OF wf]
        current_tid_simp [OF wf1 c1] del: woken_fields)
  also have "\<dots> = (case READY_LIST (settled c k) of [] \<Rightarrow> None
     | h # _ \<Rightarrow> Some (switch_to c h (settled c k)))"
    using mid st(3) rng2 cm by (auto simp: switch_to_def split: list.split)
  finally show ?thesis .
qed

lemma switch_to_fields [simp]:
  "READY_LIST (switch_to c h k) = READY_LIST k" "BLOCKED_LIST (switch_to c h k) = BLOCKED_LIST k"
  "SLEEPING_LIST (switch_to c h k) = SLEEPING_LIST k" "SCHED_READY (switch_to c h k) = SCHED_READY k"
  "OS_TICKS (switch_to c h k) = OS_TICKS k" "TID_BITMAP (switch_to c h k) = TID_BITMAP k"
  "TCBS (switch_to c h k) t =
     (if t = h \<and> h \<noteq> c then (TCBS k t)\<lparr>status := Running\<rparr> else TCBS k t)"
  by (simp_all add: switch_to_def)

lemma switch_to_current: "CURRENT_TCB k = Some c \<Longrightarrow> CURRENT_TCB (switch_to c h k) = Some h"
  by (simp add: switch_to_def)

lemma wf_kernel_switch:
  assumes wf: "wf_kernel k" and c: "CURRENT_TCB k = Some c" "status (TCBS k c) \<noteq> Running"
    and h: "h \<in> set (READY_LIST k)"
  shows "wf_kernel (switch_to c h k)"
proof (cases "h = c")
  case True
  with wf show ?thesis by (simp add: switch_to_def)
next
  case False
  from wf have wfs: "wf_lists k" "wf_ids k" "wf_current k" by (simp_all add: wf_kernel_def)
  from wf h have hm: "h < TASK_MAX" using wf_kernel_ready_range by blast
  then have st: "status (TCBS k h) = Ready \<or> status (TCBS k h) = Running"
    using wf h wf_kernel_ready_iff by blast
  have nr: "status (TCBS k t) \<noteq> Running" if "t < TASK_MAX" for t
    using that wfs(3) c unfolding wf_current_def by (metis option.inject)
  have parked: "t \<noteq> h" if "t \<in> set (BLOCKED_LIST k) \<union> set (SLEEPING_LIST k)" for t
    using that wfs(1) h by (auto simp: wf_lists_def)
  have "wf_lists (switch_to c h k)"
    using wfs(1) h st parked unfolding wf_lists_def by (auto simp del: TASK_MAX_def)
  moreover have "wf_ids (switch_to c h k)"
    using wfs(2) st hm unfolding wf_ids_def by (auto simp del: TASK_MAX_def)
  moreover have "tcb_tid (TCBS k h) = h" using wfs(2) hm st unfolding wf_ids_def by fastforce
  then have "wf_current (switch_to c h k)"
    using False hm nr unfolding wf_current_def by (auto simp: switch_to_def simp del: TASK_MAX_def)
  ultimately show ?thesis by (simp add: wf_kernel_def)
qed

lemma ready_sorted_switch: "ready_sorted k \<Longrightarrow> ready_sorted (switch_to c h k)"
proof -
  have "pri (switch_to c h k) = pri k" by (simp add: fun_eq_iff)
  then show "ready_sorted k \<Longrightarrow> ready_sorted (switch_to c h k)"
    unfolding ready_sorted_def by (simp del: switch_to_fields(7))
qed

text \<open>
  One context switch from any well-formed state with something to run: the successor state is
  described by what it keeps and by the task it runs.
\<close>

lemma next_tcb_step:
  assumes wf: "wf_kernel k" and c: "CURRENT_TCB k = Some c" and rdy: "SCHED_READY k"
    and ne: "READY_LIST (woken k) \<noteq> []"
  obtains h k' where "next_tcb k = Some k'" "k' = switch_to c h (settled c k)"
    "CURRENT_TCB k' = Some h" "h = hd (READY_LIST k')"
    "READY_LIST k' = READY_LIST (settled c k)" "READY_LIST k' \<noteq> []"
    "wf_kernel k'" "current_ready k'" "ready_sorted k \<Longrightarrow> ready_sorted k'"
proof -
  note st = settled_wf [OF wf c]
  from ne st(4) obtain h hs where hs: "READY_LIST (settled c k) = h # hs"
    by (metis list.exhaust set_empty)
  let ?k' = "switch_to c h (settled c k)"
  have "next_tcb k = Some ?k'" using next_tcb_closed [OF wf c] hs by simp
  moreover have "CURRENT_TCB ?k' = Some h" using switch_to_current [OF st(2)] .
  moreover have "wf_kernel ?k'" using wf_kernel_switch [OF st(1-3)] hs by simp
  moreover have "current_ready ?k'"
    using switch_to_current [OF st(2)] hs rdy st(6) by (simp add: current_ready_def)
  moreover have "ready_sorted ?k'" if "ready_sorted k" using ready_sorted_switch [OF st(5) [OF that]] .
  ultimately show thesis using that [of ?k' h] hs by simp
qed

lemma next_tcb_inv:
  assumes "wf_kernel k" "ready_sorted k" "CURRENT_TCB k = Some c" "SCHED_READY k" "READY_LIST (woken k) \<noteq> []"
  shows "returns kernel_inv (next_tcb k)"
  using next_tcb_step [OF assms(1,3-5)] assms(2) by (metis kernel_inv_def returns_Some)

lemma kernel_inv_woken_ready:
  "kernel_inv k \<Longrightarrow> CURRENT_TCB k = Some c \<Longrightarrow> READY_LIST (woken k) \<noteq> []"
  by (auto simp: kernel_inv_def current_ready_def simp flip: set_empty)

subsection \<open>Properties of the context switch\<close>

text \<open>C5. The wake-up loop, with its index that stays put after a removal, wakes exactly the
  sleepers whose wake point has been reached, in list order, each inserted by priority, and
  leaves the others asleep in order: it never panics on a well-formed kernel state.\<close>

theorem wake_up_sleepers_exact:
  assumes "wf_kernel k"
  shows "returns (\<lambda>k'. wf_kernel k'
       \<and> SLEEPING_LIST k' = filter (\<lambda>t. \<not> wake_point (TCBS k t) \<le> OS_TICKS k) (SLEEPING_LIST k)
       \<and> READY_LIST k' = fold (\<lambda>t. insert_before (\<lambda>s. priority (TCBS k t) < priority (TCBS k s)) t)
            (filter (\<lambda>t. wake_point (TCBS k t) \<le> OS_TICKS k) (SLEEPING_LIST k)) (READY_LIST k)
       \<and> TCBS k' = (\<lambda>t. if t \<in> set (SLEEPING_LIST k) \<and> wake_point (TCBS k t) \<le> OS_TICKS k
                     then (TCBS k t)\<lparr>status := Ready, wake_point := 0\<rparr> else TCBS k t))
     (wake_up_sleepers k)"
  using wf_kernel_woken [OF assms]
  by (simp add: wake_up_sleepers_closed [OF assms] expired_def [abs_def] insert_all_def wake_tcb_def
      fun_eq_iff)

text \<open>A concrete state: task 0 runs, task 1 waits at the same priority, task 2 sleeps until tick 5.\<close>

definition demo_kernel :: kernel where
  "demo_kernel = (kernel_boot 0)\<lparr>
     TCBS := (\<lambda>t. if t = 0 then (tcb_empty 0)\<lparr>status := Running, priority := 3\<rparr>
              else if t = 1 then (tcb_empty 1)\<lparr>status := Ready, priority := 3\<rparr>
              else if t = 2 then (tcb_empty 2)\<lparr>status := Blocked, priority := 1, wake_point := 5\<rparr>
              else tcb_empty 0),
     READY_LIST := [0, 1], SLEEPING_LIST := [2], TID_BITMAP := 7, CURRENT_TCB := Some 0,
     SCHED_READY := True\<rparr>"

lemma kernel_inv_demo: "kernel_inv demo_kernel"
  by (auto simp: kernel_inv_def wf_kernel_def wf_lists_def wf_ids_def wf_current_def ready_sorted_def
      current_ready_def demo_kernel_def kernel_boot_def tl_new_def all_less_16)

lemma demo_current [simp]: "CURRENT_TCB demo_kernel = Some 0" "SCHED_READY demo_kernel"
  by (simp_all add: demo_kernel_def)

lemma demo_wf: "wf_kernel demo_kernel" "ready_sorted demo_kernel" "current_ready demo_kernel"
  using kernel_inv_demo by (simp_all add: kernel_inv_def)

lemma wake_up_sleepers_exact_witness:
  "wf_kernel (demo_kernel\<lparr>OS_TICKS := 5\<rparr>)
   \<and> returns (\<lambda>k'. SLEEPING_LIST k' = [] \<and> READY_LIST k' = [2, 0, 1])
       (wake_up_sleepers (demo_kernel\<lparr>OS_TICKS := 5\<rparr>))"
proof -
  have wf: "wf_kernel (demo_kernel\<lparr>OS_TICKS := 5\<rparr>)"
    using demo_wf(1) by (simp add: wf_kernel_def wf_lists_def wf_ids_def wf_current_def)
  show ?thesis
    using wf wake_up_sleepers_exact [OF wf]
    by (auto simp: demo_kernel_def kernel_boot_def tl_new_def elim!: returns_mono)
qed

text \<open>C3. Priority scheduling: from a kernel state that satisfies the invariant but for the
  current task, which may have blocked or exited, \<open>next_tcb\<close> either finds no ready task and no
  expired sleeper, when it panics, or it returns a state that satisfies the invariant, in which all
  expired sleepers have become ready and the task it runs is ready, is at the front of the ready
  list, and has a priority at least as high as that of every ready task.\<close>

theorem next_tcb_highest_priority:
  assumes "wf_kernel k" and "ready_sorted k" and "CURRENT_TCB k = Some c" and "SCHED_READY k"
  defines "woke \<equiv> {t \<in> set (SLEEPING_LIST k). wake_point (TCBS k t) \<le> OS_TICKS k}"
  shows "if set (READY_LIST k) \<union> woke = {} then next_tcb k = None
         else returns (\<lambda>k'. kernel_inv k'
           \<and> set (READY_LIST k') = set (READY_LIST k) \<union> woke
           \<and> set (SLEEPING_LIST k') = set (SLEEPING_LIST k) - woke
           \<and> (\<exists>h. CURRENT_TCB k' = Some h \<and> tl_front (READY_LIST k') = Some h
                \<and> (\<forall>t \<in> set (READY_LIST k'). priority (TCBS k' h) \<le> priority (TCBS k' t))))
         (next_tcb k)"
proof -
  note st = settled_wf [OF assms(1,3)]
  have woke: "woke = {t \<in> set (SLEEPING_LIST k). expired k t}" by (simp add: woke_def expired_def)
  have rl: "set (READY_LIST (woken k)) = set (READY_LIST k) \<union> woke" by (auto simp: woke)
  have sl: "SLEEPING_LIST (settled c k) = SLEEPING_LIST (woken k)"
    by (simp add: settled_def Let_def requeue_def)
  show ?thesis
  proof (cases "set (READY_LIST k) \<union> woke = {}")
    case True
    then have "READY_LIST (settled c k) = []" using st(4) rl by (metis set_empty)
    with True show ?thesis using next_tcb_closed [OF assms(1,3)] by simp
  next
    case False
    then have ne: "READY_LIST (woken k) \<noteq> []" using rl by (metis set_empty)
    obtain h k' where k': "next_tcb k = Some k'" "k' = switch_to c h (settled c k)"
      "CURRENT_TCB k' = Some h" "h = hd (READY_LIST k')"
      "READY_LIST k' = READY_LIST (settled c k)" "READY_LIST k' \<noteq> []"
      "wf_kernel k'" "current_ready k'" "ready_sorted k'"
      using next_tcb_step [OF assms(1,3,4) ne] assms(2) by metis
    from k'(4,6) obtain hs where hs: "READY_LIST k' = h # hs" by (cases "READY_LIST k'") auto
    with k'(9) have "\<forall>t \<in> set (READY_LIST k'). priority (TCBS k' h) \<le> priority (TCBS k' t)"
      by (simp add: ready_sorted_def)
    moreover have eq: "set (READY_LIST k') = set (READY_LIST k) \<union> woke"
      using k'(5) st(4) rl by simp
    moreover have "set (SLEEPING_LIST k') = set (SLEEPING_LIST k) - woke"
      unfolding k'(2) switch_to_fields sl woke by auto
    ultimately show ?thesis using False k'(1,3,7-9) hs by (simp add: kernel_inv_def flip: eq)
  qed
qed

lemma next_tcb_highest_priority_witness:
  "wf_kernel demo_kernel \<and> returns (\<lambda>k'. kernel_inv k' \<and> set (READY_LIST k') = {0, 1}) (next_tcb demo_kernel)"
proof -
  have "set (READY_LIST demo_kernel) = {0, 1}"
    and "{t \<in> set (SLEEPING_LIST demo_kernel). wake_point (TCBS demo_kernel t) \<le> OS_TICKS demo_kernel} = {}"
    by (auto simp: demo_kernel_def kernel_boot_def)
  with next_tcb_highest_priority [OF demo_wf(1,2) demo_current] demo_wf(1) show ?thesis
    by (auto elim!: returns_mono)
qed

lemma requeue_behind:
  assumes "ready_sorted k" "distinct (READY_LIST k)" "t \<in> set (READY_LIST k)" "t \<noteq> c" "pri k t \<le> pri k c"
  shows "hd (READY_LIST (requeue c k)) \<noteq> c"
proof -
  let ?l = "remove1 c (READY_LIST k)"
  have "insert_before (\<lambda>s. pri k c < pri k s) c ?l
      = filter (\<lambda>s. pri k s \<le> pri k c) ?l @ c # filter (\<lambda>s. pri k c < pri k s) ?l"
    using assms(1) by (intro insert_before_split sorted_map_remove1) (simp add: ready_sorted_def)
  moreover have "t \<in> set (filter (\<lambda>s. pri k s \<le> pri k c) ?l)" using assms by simp
  then obtain y ys where y: "filter (\<lambda>s. pri k s \<le> pri k c) ?l = y # ys"
    by (cases "filter (\<lambda>s. pri k s \<le> pri k c) ?l") auto
  then have "y \<in> set ?l" by (metis filter_is_subset list.set_intros(1) subsetD)
  then have "y \<noteq> c" using assms(2) by auto
  ultimately show ?thesis using y by (simp add: requeue_def)
qed

lemma next_tcb_requeues:
  assumes "kernel_inv k" and "CURRENT_TCB k = Some c"
    and "status (TCBS k c) = Running \<or> time_slice (TCBS k c) = 0"
    and "t \<in> set (READY_LIST k)" and "t \<noteq> c" and "priority (TCBS k t) \<le> priority (TCBS k c)"
  shows "returns (\<lambda>k'. kernel_inv k' \<and> (\<exists>h. CURRENT_TCB k' = Some h \<and> h \<noteq> c
           \<and> priority (TCBS k' h) \<le> priority (TCBS k' c))
           \<and> c \<in> set (READY_LIST k') \<and> status (TCBS k' c) = Ready \<and> time_slice (TCBS k' c) = TIME_SLICE)
         (next_tcb k)"
proof -
  from assms(1) have wf: "wf_kernel k" and srt: "ready_sorted k" and cr: "current_ready k"
    by (simp_all add: kernel_inv_def)
  from cr assms(2) have c: "c \<in> set (READY_LIST k)" "SCHED_READY k" by (auto simp: current_ready_def)
  have ne: "READY_LIST (woken k) \<noteq> []" using kernel_inv_woken_ready [OF assms(1,2)] .
  obtain h k' where k': "next_tcb k = Some k'" "k' = switch_to c h (settled c k)"
    "CURRENT_TCB k' = Some h" "h = hd (READY_LIST k')" "READY_LIST k' = READY_LIST (settled c k)"
    "READY_LIST k' \<noteq> []" "wf_kernel k'" "current_ready k'" "ready_sorted k'"
    using next_tcb_step [OF wf assms(2) c(2) ne] srt by metis
  from wf have d: "distinct (READY_LIST k @ SLEEPING_LIST k)" by (auto simp: wf_kernel_def wf_lists_def)
  have cw: "TCBS (woken k) c = TCBS k c" using d c(1) by auto
  have "c < TASK_MAX" using wf_kernel_current [OF wf assms(2)] by simp
  with wf c have "status (TCBS k c) = Ready \<or> status (TCBS k c) = Running"
    using wf_kernel_ready_iff by blast
  with assms(3) cw have st: "settled c k = requeue c (woken k)"
    by (auto simp: settled_def Let_def simp del: woken_fields)
  have dw: "distinct (READY_LIST (woken k))"
    using wf_kernel_woken [OF wf] by (simp add: wf_kernel_def wf_lists_def del: woken_fields)
  have hc: "h \<noteq> c"
    using requeue_behind [OF ready_sorted_woken [OF srt] dw, of t c] assms(4-6) k'(4,5) st by simp
  have cin: "c \<in> set (READY_LIST k')" using k'(5) st by (simp add: requeue_def)
  from k'(4,6) obtain hs where hs: "READY_LIST k' = h # hs" by (cases "READY_LIST k'") auto
  with k'(9) cin have "pri k' h \<le> pri k' c" by (auto simp: ready_sorted_def)
  moreover have "TCBS k' c = (TCBS k c)\<lparr>time_slice := TIME_SLICE, status := Ready\<rparr>"
    using hc cw unfolding k'(2) st by (simp add: requeue_def del: woken_fields)
  ultimately show ?thesis using k'(1,3,7-9) hc cin by (simp add: kernel_inv_def)
qed

text \<open>Round robin among equals: when the current task is \<open>Running\<close>, or \<open>Ready\<close> with its
  time slice used up, it is put behind every ready task of its own priority, so \<open>next_tcb\<close> switches
  away from it as soon as another ready task has the same or a higher priority.\<close>

theorem next_tcb_round_robin:
  assumes "kernel_inv k" and "CURRENT_TCB k = Some c"
    and "status (TCBS k c) = Running \<or> time_slice (TCBS k c) = 0"
    and "t \<in> set (READY_LIST k)" and "t \<noteq> c" and "priority (TCBS k t) \<le> priority (TCBS k c)"
  shows "returns (\<lambda>k'. kernel_inv k' \<and> (\<exists>h. CURRENT_TCB k' = Some h \<and> h \<noteq> c
           \<and> priority (TCBS k' h) \<le> priority (TCBS k' c))
           \<and> c \<in> set (READY_LIST k') \<and> status (TCBS k' c) = Ready \<and> time_slice (TCBS k' c) = TIME_SLICE)
         (next_tcb k)"
  by (rule next_tcb_requeues [OF assms])

lemma next_tcb_round_robin_witness:
  "kernel_inv demo_kernel \<and> returns (\<lambda>k'. \<exists>h. CURRENT_TCB k' = Some h \<and> h \<noteq> 0) (next_tcb demo_kernel)"
  using next_tcb_round_robin [OF kernel_inv_demo demo_current(1), of 1] kernel_inv_demo
  by (auto simp: demo_kernel_def kernel_boot_def tl_new_def elim!: returns_mono)

text \<open>A task that \<open>next_tcb\<close> selects again keeps the status \<open>Ready\<close> (the code sets \<open>Running\<close>
  only when it switches), and as long as its time slice lasts a further \<open>yield_task\<close> then changes
  nothing: it keeps running although another ready task has the same priority.\<close>

theorem yield_of_reselected_task_is_noop:
  assumes "kernel_inv k" and "CURRENT_TCB k = Some c" and "status (TCBS k c) = Ready"
    and "time_slice (TCBS k c) \<noteq> 0" and "tl_front (READY_LIST k) = Some c"
    and "filter (\<lambda>t. wake_point (TCBS k t) \<le> OS_TICKS k) (SLEEPING_LIST k) = []"
  shows "yield_task k = Some k"
proof -
  from assms(1) have wf: "wf_kernel k" and "current_ready k" by (simp_all add: kernel_inv_def)
  with assms(2) have rdy: "SCHED_READY k" by (auto simp: current_ready_def)
  have none: "\<forall>t \<in> set (SLEEPING_LIST k). \<not> expired k t"
    using assms(6) by (auto simp: filter_empty_conv expired_def)
  then have "filter (expired k) (SLEEPING_LIST k) = []"
    and "filter (\<lambda>t. \<not> expired k t) (SLEEPING_LIST k) = SLEEPING_LIST k"
    and "(\<lambda>t. if t \<in> set (SLEEPING_LIST k) \<and> expired k t then wake_tcb (TCBS k t) else TCBS k t) = TCBS k"
    by (auto simp: filter_empty_conv filter_id_conv fun_eq_iff)
  then have "woken k = k" by (simp add: woken_def wake_list_def)
  then have "settled c k = k" using assms(3,4) by (simp add: settled_def)
  moreover obtain rest where "READY_LIST k = c # rest"
    using assms(5) by (auto simp: tl_front_eq_Some)
  ultimately show ?thesis
    using next_tcb_closed [OF wf assms(2)] rdy by (simp add: yield_task_def switch_to_def)
qed

definition reselected_kernel :: kernel where
  "reselected_kernel = demo_kernel\<lparr>TCBS := (TCBS demo_kernel)(0 := (TCBS demo_kernel 0)\<lparr>status := Ready\<rparr>)\<rparr>"

lemma yield_of_reselected_task_is_noop_witness:
  "yield_task reselected_kernel = Some reselected_kernel \<and> READY_LIST reselected_kernel = [0, 1]
   \<and> priority (TCBS reselected_kernel 0) = priority (TCBS reselected_kernel 1)"
proof -
  have "kernel_inv reselected_kernel"
    by (auto simp: kernel_inv_def wf_kernel_def wf_lists_def wf_ids_def wf_current_def ready_sorted_def
        current_ready_def reselected_kernel_def demo_kernel_def kernel_boot_def tl_new_def all_less_16)
  then have "yield_task reselected_kernel = Some reselected_kernel"
    by (rule yield_of_reselected_task_is_noop [of _ 0])
      (simp_all add: reselected_kernel_def demo_kernel_def kernel_boot_def)
  then show ?thesis by (simp add: reselected_kernel_def demo_kernel_def)
qed

subsection \<open>What a context switch leaves unchanged\<close>

lemma settled_frame [simp]:
  "pri (settled c k) t = pri k t" "wake_point (TCBS (settled c k) t) = wake_point (TCBS (woken k) t)"
  "sub_priority (TCBS (settled c k) t) = sub_priority (TCBS k t)"
  "tcb_tid (TCBS (settled c k) t) = tcb_tid (TCBS k t)"
  "BLOCKED_LIST (settled c k) = BLOCKED_LIST k"
  "SLEEPING_LIST (settled c k) = filter (\<lambda>t. \<not> expired k t) (SLEEPING_LIST k)"
  "OS_TICKS (settled c k) = OS_TICKS k" "SCHED_READY (settled c k) = SCHED_READY k"
  "TID_BITMAP (settled c k) = TID_BITMAP k"
  by (auto simp: settled_def requeue_def Let_def)

lemma settled_status:
  "status (TCBS (woken k) t) \<noteq> Running \<Longrightarrow> status (TCBS (settled c k) t) = status (TCBS (woken k) t)"
  by (auto simp: settled_def requeue_def Let_def simp del: woken_fields)

text \<open>The frame of \<open>next_tcb\<close>, as one predicate that the other components use.\<close>

definition sched_frame :: "kernel \<Rightarrow> kernel \<Rightarrow> bool" where
  "sched_frame k k' \<longleftrightarrow>
     (\<forall>t. pri k' t = pri k t \<and> sub_priority (TCBS k' t) = sub_priority (TCBS k t)
        \<and> tcb_tid (TCBS k' t) = tcb_tid (TCBS k t))
     \<and> BLOCKED_LIST k' = BLOCKED_LIST k
     \<and> SLEEPING_LIST k' = filter (\<lambda>t. \<not> expired k t) (SLEEPING_LIST k)
     \<and> set (READY_LIST k') = set (READY_LIST k) \<union> {t \<in> set (SLEEPING_LIST k). expired k t}
     \<and> OS_TICKS k' = OS_TICKS k \<and> SCHED_READY k' = SCHED_READY k \<and> TID_BITMAP k' = TID_BITMAP k
     \<and> (\<forall>t. \<not> (t \<in> set (SLEEPING_LIST k) \<and> expired k t) \<longrightarrow>
          wake_point (TCBS k' t) = wake_point (TCBS k t)
          \<and> (status (TCBS k t) = Blocked \<or> status (TCBS k t) = Terminated
             \<longrightarrow> t \<notin> set (READY_LIST k) \<longrightarrow> status (TCBS k' t) = status (TCBS k t)))"

lemma next_tcb_frame:
  assumes wf: "wf_kernel k" and c: "CURRENT_TCB k = Some c" and n: "next_tcb k = Some k'"
  shows "sched_frame k k'"
proof -
  from n obtain h hs where hs: "READY_LIST (settled c k) = h # hs" "k' = switch_to c h (settled c k)"
    using next_tcb_closed [OF wf c] by (auto split: list.splits)
  have rl: "set (READY_LIST (settled c k)) = set (READY_LIST (woken k))"
    by (rule settled_wf(4) [OF wf c])
  have "status (TCBS k' t) = status (TCBS k t)"
    if "\<not> (t \<in> set (SLEEPING_LIST k) \<and> expired k t)" "t \<notin> set (READY_LIST k)"
      "status (TCBS k t) = Blocked \<or> status (TCBS k t) = Terminated" for t
  proof -
    from that rl have "t \<notin> set (READY_LIST (settled c k))" by auto
    then have "t \<noteq> h" using hs by auto
    moreover have "status (TCBS (settled c k) t) = status (TCBS k t)"
      using settled_status [of k t c] that by auto
    ultimately show ?thesis using hs(2) by simp
  qed
  then show ?thesis
    using rl unfolding sched_frame_def hs(2) by auto
qed

lemma sched_frameD:
  assumes "sched_frame k k'"
  shows "pri k' t = pri k t" "sub_priority (TCBS k' t) = sub_priority (TCBS k t)"
    "BLOCKED_LIST k' = BLOCKED_LIST k" "OS_TICKS k' = OS_TICKS k"
    "SLEEPING_LIST k' = filter (\<lambda>t. \<not> expired k t) (SLEEPING_LIST k)"
    "set (READY_LIST k') = set (READY_LIST k) \<union> {t \<in> set (SLEEPING_LIST k). expired k t}"
    "SCHED_READY k' = SCHED_READY k" "TID_BITMAP k' = TID_BITMAP k"
    "\<not> (t \<in> set (SLEEPING_LIST k) \<and> expired k t) \<Longrightarrow> wake_point (TCBS k' t) = wake_point (TCBS k t)"
  using assms unfolding sched_frame_def by blast+

subsection \<open>The tick\<close>

definition ticked :: "nat \<Rightarrow> kernel \<Rightarrow> kernel" where
  "ticked c k = k\<lparr>OS_TICKS := OS_TICKS k + 1,
     TCBS := (TCBS k)(c := (TCBS k c)\<lparr>time_slice :=
        (if 0 < time_slice (TCBS k c) then time_slice (TCBS k c) - 1 else time_slice (TCBS k c))\<rparr>)\<rparr>"

lemma ticked_fields [simp]:
  "READY_LIST (ticked c k) = READY_LIST k" "BLOCKED_LIST (ticked c k) = BLOCKED_LIST k"
  "SLEEPING_LIST (ticked c k) = SLEEPING_LIST k" "CURRENT_TCB (ticked c k) = CURRENT_TCB k"
  "OS_TICKS (ticked c k) = OS_TICKS k + 1" "TID_BITMAP (ticked c k) = TID_BITMAP k"
  "SCHED_READY (ticked c k) = SCHED_READY k"
  "status (TCBS (ticked c k) t) = status (TCBS k t)" "pri (ticked c k) t = pri k t"
  "tcb_tid (TCBS (ticked c k) t) = tcb_tid (TCBS k t)"
  "wake_point (TCBS (ticked c k) t) = wake_point (TCBS k t)"
  "time_slice (TCBS (ticked c k) t) =
     (if t = c \<and> 0 < time_slice (TCBS k c) then time_slice (TCBS k c) - 1 else time_slice (TCBS k t))"
  by (auto simp: ticked_def)

lemma kernel_inv_ticked: "kernel_inv k \<Longrightarrow> kernel_inv (ticked c k)"
  by (subst kernel_inv_cong [of _ k]) auto

lemma systick_tick_closed:
  assumes "wf_kernel k" "CURRENT_TCB k = Some c" "SCHED_READY k"
  shows "systick_tick k = Some (if time_slice (TCBS (ticked c k) c) = 0 \<or> SLEEPING_LIST k \<noteq> [] then 1 else 0,
           ticked c k)"
proof -
  have c: "c < TASK_MAX" "tcb_tid (TCBS k c) = c" using wf_kernel_current [OF assms(1,2)] by auto
  let ?k1 = "set_os_ticks (os_ticks k + 1) k"
  have "current_tid ?k1 = Some c" using c assms(2)
    by (simp add: current_tid_def current_tcb_def set_os_ticks_def)
  then show ?thesis
    using c assms(3)
    by (cases "0 < time_slice (TCBS k c)")
      (auto simp: systick_tick_def set_os_ticks_def os_ticks_def ticked_def tl_is_empty_def Let_def)
qed

lemma systick_interrupt_step:
  assumes inv: "kernel_inv k" and c: "CURRENT_TCB k = Some c"
  obtains k' where "systick_interrupt k = Some k'" "kernel_inv k'" "OS_TICKS k' = OS_TICKS k + 1"
    "CURRENT_TCB k' \<noteq> None"
    "SLEEPING_LIST k' = filter (\<lambda>t. \<not> wake_point (TCBS k t) \<le> OS_TICKS k + 1) (SLEEPING_LIST k)"
    "set (READY_LIST k') = set (READY_LIST k)
       \<union> {t \<in> set (SLEEPING_LIST k). wake_point (TCBS k t) \<le> OS_TICKS k + 1}"
    "\<forall>t \<in> set (SLEEPING_LIST k'). wake_point (TCBS k' t) = wake_point (TCBS k t)"
proof -
  from inv have wf: "wf_kernel k" and cr: "current_ready k" by (simp_all add: kernel_inv_def)
  with c have rdy: "SCHED_READY k" by (auto simp: current_ready_def)
  let ?k1 = "ticked c k"
  have inv1: "kernel_inv ?k1" using inv by (rule kernel_inv_ticked)
  then have wf1: "wf_kernel ?k1" "ready_sorted ?k1" by (simp_all add: kernel_inv_def)
  have c1: "CURRENT_TCB ?k1 = Some c" "SCHED_READY ?k1" using c rdy by simp_all
  have exp: "expired ?k1 t = (wake_point (TCBS k t) \<le> OS_TICKS k + 1)" for t
    by (simp add: expired_def)
  show thesis
  proof (cases "time_slice (TCBS ?k1 c) = 0 \<or> SLEEPING_LIST k \<noteq> []")
    case False
    then have "systick_interrupt k = Some ?k1"
      using systick_tick_closed [OF wf c rdy] by (simp add: systick_interrupt_def)
    then show ?thesis using False inv1 c by (intro that [of ?k1]) auto
  next
    case True
    then have eq: "systick_interrupt k = next_tcb ?k1"
      using systick_tick_closed [OF wf c rdy] rdy by (simp add: systick_interrupt_def)
    have "returns kernel_inv (next_tcb ?k1)"
      using next_tcb_inv [OF wf1 c1] kernel_inv_woken_ready [OF inv1 c1(1)] by simp
    then obtain k' where k': "next_tcb ?k1 = Some k'" "kernel_inv k'" by (auto simp: returns_iff)
    note fr = sched_frameD [OF next_tcb_frame [OF wf1(1) c1(1) k'(1)]]
    have "CURRENT_TCB k' \<noteq> None" using k'(2) fr(7) rdy by (auto simp: kernel_inv_def current_ready_def)
    moreover have "wake_point (TCBS k' t) = wake_point (TCBS k t)" if "t \<in> set (SLEEPING_LIST k')" for t
      using fr(9) [of t] that fr(5) by auto
    ultimately show ?thesis using eq k' fr(4-6) by (intro that [of k']) (auto simp: exp)
  qed
qed

fun run_ticks :: "nat \<Rightarrow> kernel \<Rightarrow> kernel option" where
  "run_ticks 0 k = Some k"
| "run_ticks (Suc n) k = do { k' \<leftarrow> systick_interrupt k; run_ticks n k' }"

lemma run_ticks_wake:
  assumes "kernel_inv k" "CURRENT_TCB k \<noteq> None" "t \<in> set (SLEEPING_LIST k)"
    and "unat (OS_TICKS k) < unat (wake_point (TCBS k t))"
  shows "returns (\<lambda>k'. kernel_inv k' \<and> t \<in> set (READY_LIST k')) (run_ticks
            (unat (wake_point (TCBS k t)) - unat (OS_TICKS k)) k)"
    and "m < unat (wake_point (TCBS k t)) - unat (OS_TICKS k) \<Longrightarrow>
         returns (\<lambda>k'. kernel_inv k' \<and> t \<in> set (SLEEPING_LIST k')) (run_ticks m k)"
proof -
  have main: "returns (\<lambda>k'. kernel_inv k' \<and> CURRENT_TCB k' \<noteq> None \<and> t \<in> set (SLEEPING_LIST k')
       \<and> OS_TICKS k' = OS_TICKS k + of_nat m \<and> wake_point (TCBS k' t) = wake_point (TCBS k t)) (run_ticks m k)"
    if "kernel_inv k" "CURRENT_TCB k \<noteq> None" "t \<in> set (SLEEPING_LIST k)"
      "unat (OS_TICKS k) + m < unat (wake_point (TCBS k t))" for m k
    using that
  proof (induction m arbitrary: k)
    case (Suc m)
    then obtain c where c: "CURRENT_TCB k = Some c" by auto
    obtain k' where k': "systick_interrupt k = Some k'" "kernel_inv k'" "OS_TICKS k' = OS_TICKS k + 1"
      "CURRENT_TCB k' \<noteq> None"
      "SLEEPING_LIST k' = filter (\<lambda>t. \<not> wake_point (TCBS k t) \<le> OS_TICKS k + 1) (SLEEPING_LIST k)"
      "set (READY_LIST k') = set (READY_LIST k)
         \<union> {t \<in> set (SLEEPING_LIST k). wake_point (TCBS k t) \<le> OS_TICKS k + 1}"
      "\<forall>t \<in> set (SLEEPING_LIST k'). wake_point (TCBS k' t) = wake_point (TCBS k t)"
      by (rule systick_interrupt_step [OF Suc.prems(1) c])
    have "unat (OS_TICKS k) + 1 < 2 ^ 32"
      using Suc.prems(4) unsigned_less [of "wake_point (TCBS k t)", where 'a = nat] by simp
    then have u: "unat (OS_TICKS k + 1) = unat (OS_TICKS k) + 1"
      by (simp add: unat_word_ariths)
    then have "\<not> wake_point (TCBS k t) \<le> OS_TICKS k + 1"
      using Suc.prems(4) by (simp add: word_le_nat_alt)
    then have t: "t \<in> set (SLEEPING_LIST k')" using k'(5) Suc.prems(3) by simp
    have "returns (\<lambda>k''. kernel_inv k'' \<and> CURRENT_TCB k'' \<noteq> None \<and> t \<in> set (SLEEPING_LIST k'')
       \<and> OS_TICKS k'' = OS_TICKS k' + of_nat m \<and> wake_point (TCBS k'' t) = wake_point (TCBS k' t)) (run_ticks m k')"
      using Suc.prems(4) k'(3) bspec [OF k'(7) t] t u by (intro Suc.IH k'(2,4)) auto
    then show ?case using k'(1,3) bspec [OF k'(7) t] by (auto simp: algebra_simps elim!: returns_mono)
  qed simp
  show "returns (\<lambda>k'. kernel_inv k' \<and> t \<in> set (SLEEPING_LIST k')) (run_ticks m k)"
    if "m < unat (wake_point (TCBS k t)) - unat (OS_TICKS k)"
  proof -
    from that have "unat (OS_TICKS k) + m < unat (wake_point (TCBS k t))" by linarith
    from main [OF assms(1-3) this] show ?thesis by (rule returns_mono) simp
  qed
  from assms(4) obtain n where n: "unat (wake_point (TCBS k t)) - unat (OS_TICKS k) = Suc n"
    "unat (OS_TICKS k) + n + 1 = unat (wake_point (TCBS k t))"
    by (intro that [of "unat (wake_point (TCBS k t)) - unat (OS_TICKS k) - 1"]) simp_all
  have run_Suc: "run_ticks (Suc m) k = run_ticks m k \<bind> systick_interrupt" for m k
  proof (induction m arbitrary: k)
    case 0
    show ?case by (cases "systick_interrupt k") simp_all
  next
    case (Suc m)
    show ?case
    proof (cases "systick_interrupt k")
      case (Some a)
      then have "run_ticks (Suc (Suc m)) k = run_ticks (Suc m) a" by simp
      also have "\<dots> = run_ticks m a \<bind> systick_interrupt" by (rule Suc)
      also have "\<dots> = run_ticks (Suc m) k \<bind> systick_interrupt" using Some by simp
      finally show ?thesis .
    qed simp
  qed
  obtain k1 where k1: "run_ticks n k = Some k1" "kernel_inv k1" "CURRENT_TCB k1 \<noteq> None"
    "t \<in> set (SLEEPING_LIST k1)" "OS_TICKS k1 = OS_TICKS k + of_nat n"
    "wake_point (TCBS k1 t) = wake_point (TCBS k t)"
    using main [of k n] assms n by (auto simp: returns_iff)
  then obtain c where c: "CURRENT_TCB k1 = Some c" by auto
  have "OS_TICKS k1 + 1 = wake_point (TCBS k t)"
  proof -
    have "OS_TICKS k1 + 1 = of_nat (unat (OS_TICKS k) + n + 1)"
      unfolding k1(5) of_nat_add by simp
    then show ?thesis unfolding n(2) by simp
  qed
  then have le: "wake_point (TCBS k1 t) \<le> OS_TICKS k1 + 1" using k1(6) by simp
  obtain k2 where k2: "systick_interrupt k1 = Some k2" "kernel_inv k2" "OS_TICKS k2 = OS_TICKS k1 + 1"
    "CURRENT_TCB k2 \<noteq> None"
    "SLEEPING_LIST k2 = filter (\<lambda>t. \<not> wake_point (TCBS k1 t) \<le> OS_TICKS k1 + 1) (SLEEPING_LIST k1)"
    "set (READY_LIST k2) = set (READY_LIST k1)
       \<union> {t \<in> set (SLEEPING_LIST k1). wake_point (TCBS k1 t) \<le> OS_TICKS k1 + 1}"
    "\<forall>t \<in> set (SLEEPING_LIST k2). wake_point (TCBS k2 t) = wake_point (TCBS k1 t)"
    by (rule systick_interrupt_step [OF k1(2) c])
  show "returns (\<lambda>k'. kernel_inv k' \<and> t \<in> set (READY_LIST k')) (run_ticks
            (unat (wake_point (TCBS k t)) - unat (OS_TICKS k)) k)"
    unfolding n(1) run_Suc using k1(1,4) k2(1,2,6) le by simp
qed

end
