(* ===== verification/Mos_Task.thy ===== *)
theory Mos_Task
  imports Mos_Sched
begin

section \<open>The task life cycle\<close>

text \<open>
  \<open>core/src/kernel/task.rs\<close> and \<open>Scheduler::launch\<close> of \<open>sched.rs\<close>. Every operation runs in one
  critical section, so it is one step from kernel state to kernel state; where the code yields, the
  switch of \<open>next_tcb\<close> is part of the step. Addresses of code are words: \<open>closure_trampoline\<close> and
  \<open>task_exit_stub\<close> are what the linker gives them, a closure is the bytes that are moved into the
  control block with the address of its \<open>invoke_closure\<close> instance.
\<close>

text \<open>The linked addresses of the two entry points.\<close>

record code_addrs =
  closure_trampoline_addr :: u32
  task_exit_stub_addr :: u32

subsection \<open>Operations\<close>

text \<open>The current task's priority, for \<open>(*CURRENT_TCB_PTR).priority\<close>.\<close>

definition current_priority :: "kernel \<Rightarrow> u8 option" where
  "current_priority k = do { t \<leftarrow> current_tcb k; Some (priority t) }"

text \<open>
  \<open>Task::create\<close>. The two \<open>const\<close> assertions reject the program at compile time when the closure
  is larger than the storage; here such a call has no result. \<open>Inl\<close> is the returned error.
\<close>

definition task_create ::
    "code_addrs \<Rightarrow> u8 list \<Rightarrow> u32 \<Rightarrow> u8 \<Rightarrow> string \<Rightarrow> kernel \<Rightarrow> ((string + nat) \<times> kernel) option" where
  "task_create ca f invoke_closure pr name k =
     (if TASK_CLOSURE_SIZE < length f then None
      else (case alloc_tid k of
        (None, k) \<Rightarrow> Some (Inl ''Task pool is full'', k)
      | (Some tid, k) \<Rightarrow> do {
          t \<leftarrow> tcb_at k tid;
          k \<leftarrow> modify_tcb tid (\<lambda>t. t\<lparr>closure_storage := f @ drop (length f) (closure_storage t),
                                  closure_invoker := Some invoke_closure\<rparr>) k;
          let stack_addr = STACKS_BASE k + of_nat (PAGE_SIZE * tid);
          (sp', stack) \<leftarrow> init_stack_frame stack_addr (STACKS k tid)
                            (closure_trampoline_addr ca) 0 (task_exit_stub_addr ca);
          let k = k\<lparr>STACKS := (STACKS k)(tid := stack)\<rparr>;
          k \<leftarrow> modify_tcb tid (\<lambda>t. t\<lparr>sp := sp', status := Ready, priority := pr,
                                  time_slice := TIME_SLICE, tname := name, stack_bottom := stack_addr\<rparr>) k;
          k \<leftarrow> ready_insert tid pr k;
          k \<leftarrow> (if SCHED_READY k \<and> CURRENT_TCB k \<noteq> None
                then do {
                  current_pri \<leftarrow> current_priority k;
                  if pr < current_pri then yield_task k else Some k }
                else Some k);
          Some (Inr tid, k) }))"

text \<open>
  \<open>Task::create_raw\<close>: the stack comes from the heap (\<open>addr\<close> is the address the allocator returns;
  \<open>vec![]\<close> aborts when it cannot, which is the allocator's business) and is leaked before the
  identifier is allocated. The caller is not preempted. The result is the control block's index.
\<close>

definition task_create_raw ::
    "code_addrs \<Rightarrow> u32 \<Rightarrow> u32 \<Rightarrow> u32 \<Rightarrow> u8 \<Rightarrow> string \<Rightarrow> nat \<Rightarrow> kernel \<Rightarrow> ((string + nat) \<times> kernel) option" where
  "task_create_raw ca addr entry param pr name stack_size k =
     (let stack_words = stack_size div 4;
          stack_buf = replicate stack_words 0;
          k = k\<lparr>HEAP_STACKS := HEAP_STACKS k @ [(addr, stack_buf)]\<rparr>
      in case alloc_tid k of
        (None, k) \<Rightarrow> Some (Inl ''Task pool is full'', k)
      | (Some tid, k) \<Rightarrow> do {
          (sp', stack) \<leftarrow> init_stack_frame_raw addr stack_buf entry param (task_exit_stub_addr ca);
          let k = k\<lparr>HEAP_STACKS := butlast (HEAP_STACKS k) @ [(addr, stack)]\<rparr>;
          k \<leftarrow> modify_tcb tid (\<lambda>t. t\<lparr>sp := sp', status := Ready, priority := pr,
                                  time_slice := TIME_SLICE, tname := name, stack_bottom := addr,
                                  heap_stack_base := addr\<rparr>) k;
          k \<leftarrow> ready_insert tid pr k;
          Some (Inr tid, k) })"

fun find_tid_from :: "string \<Rightarrow> nat list \<Rightarrow> kernel \<Rightarrow> nat option" where
  "find_tid_from name [] k = None"
| "find_tid_from name (tid # tids) k =
     (if status (TCBS k tid) \<noteq> Terminated \<and> tname (TCBS k tid) = name then Some tid
      else find_tid_from name tids k)"

definition task_find_tid :: "string \<Rightarrow> kernel \<Rightarrow> nat option" where
  "task_find_tid name k = find_tid_from name [0..<TASK_MAX] k"

definition task_exit_current :: "kernel \<Rightarrow> kernel option" where
  "task_exit_current k = do {
     cr_tid \<leftarrow> current_tid k;
     yield_task (free_tid cr_tid (ready_remove cr_tid k)) }"

text \<open>
  \<open>closure_trampoline\<close>, the entry of a created task: \<open>take\<close> the invoker and run it on the stored
  bytes. The result is the call that is made, if any.
\<close>

definition closure_trampoline :: "kernel \<Rightarrow> ((u32 \<times> u8 list) option \<times> kernel) option" where
  "closure_trampoline k = do {
     c \<leftarrow> CURRENT_TCB k;
     t \<leftarrow> tcb_at k c;
     k \<leftarrow> modify_tcb c (\<lambda>t. t\<lparr>closure_invoker := None\<rparr>) k;
     Some (map_option (\<lambda>invoker. (invoker, closure_storage t)) (closure_invoker t), k) }"

definition task_block :: "nat \<Rightarrow> kernel \<Rightarrow> kernel option" where
  "task_block tid k = do {
     t \<leftarrow> tcb_at k tid;
     (case status t of
        Ready \<Rightarrow> do {
          k \<leftarrow> modify_tcb tid (\<lambda>t. t\<lparr>status := Blocked\<rparr>) k;
          let k = ready_remove tid k;
          yield_task (k\<lparr>BLOCKED_LIST := snd (tl_push_back tid (BLOCKED_LIST k))\<rparr>) }
      | Running \<Rightarrow> do {
          k \<leftarrow> modify_tcb tid (\<lambda>t. t\<lparr>status := Blocked\<rparr>) k;
          let k = ready_remove tid k;
          yield_task (k\<lparr>BLOCKED_LIST := snd (tl_push_back tid (BLOCKED_LIST k))\<rparr>) }
      | _ \<Rightarrow> Some k) }"

definition task_resume :: "nat \<Rightarrow> kernel \<Rightarrow> kernel option" where
  "task_resume tid k = do {
     t \<leftarrow> tcb_at k tid;
     if status t \<noteq> Blocked then Some k
     else if \<not> tl_contains tid (BLOCKED_LIST k) then Some k
     else do {
       let k = k\<lparr>BLOCKED_LIST := tl_remove tid (BLOCKED_LIST k)\<rparr>;
       k \<leftarrow> modify_tcb tid (\<lambda>t. t\<lparr>status := Ready\<rparr>) k;
       t \<leftarrow> tcb_at k tid;
       k \<leftarrow> ready_insert tid (priority t) k;
       if CURRENT_TCB k \<noteq> None then do {
         current_pri \<leftarrow> current_priority k;
         if priority t < current_pri then yield_task k else Some k }
       else Some k } }"

definition task_terminate :: "nat \<Rightarrow> kernel \<Rightarrow> kernel option" where
  "task_terminate tid k = do {
     t \<leftarrow> tcb_at k tid;
     if status t = Terminated then Some k
     else
       let k = ready_remove tid k;
           k = k\<lparr>SLEEPING_LIST := tl_remove tid (SLEEPING_LIST k)\<rparr>;
           k = k\<lparr>BLOCKED_LIST := tl_remove tid (BLOCKED_LIST k)\<rparr>;
           k = free_tid tid k
       in yield_task k }"

definition task_delay :: "u32 \<Rightarrow> kernel \<Rightarrow> kernel option" where
  "task_delay ticks k =
     (if ticks = 0 then Some k
      else do {
        cr_tid \<leftarrow> current_tid k;
        let wake_time = os_ticks k + ticks;
        k \<leftarrow> modify_tcb cr_tid (\<lambda>t. t\<lparr>wake_point := wake_time, status := Blocked\<rparr>) k;
        let k = ready_remove cr_tid k;
        k \<leftarrow> sleep_insert cr_tid wake_time k;
        yield_task k })"

text \<open>
  \<open>Scheduler::launch\<close> up to the jump into the first task (\<open>install_trap_handler\<close> and
  \<open>start_first_task\<close> do not touch the kernel state): \<open>expect\<close> panics when the idle task cannot be
  created, the \<open>assert!\<close> when nothing is ready.
\<close>

definition sched_launch :: "code_addrs \<Rightarrow> u8 list \<Rightarrow> u32 \<Rightarrow> kernel \<Rightarrow> kernel option" where
  "sched_launch ca idle_task idle_invoker k = do {
     (r, k) \<leftarrow> task_create ca idle_task idle_invoker PRI_MIN ''idle'' k;
     case r of Inl e \<Rightarrow> None
     | Inr idle \<Rightarrow>
       if tl_is_empty (READY_LIST k) then None
       else do {
         first_tid \<leftarrow> tl_front (READY_LIST k);
         k \<leftarrow> modify_tcb first_tid (\<lambda>t. t\<lparr>status := Running\<rparr>) k;
         Some (k\<lparr>CURRENT_TCB := Some first_tid, SCHED_READY := True\<rparr>) } }"

subsection \<open>Moving one task between the lists\<close>

text \<open>
  All operations change one task at a time; this is the one place where the well-formedness of the
  whole state is re-established.
\<close>

lemma wf_kernel_move:
  assumes wf: "wf_kernel k" and t: "t < TASK_MAX"
    and dist: "distinct (READY_LIST k' @ BLOCKED_LIST k' @ SLEEPING_LIST k')"
    and rl: "\<And>s. s \<noteq> t \<Longrightarrow> s \<in> set (READY_LIST k') \<longleftrightarrow> s \<in> set (READY_LIST k)"
    and bl: "\<And>s. s \<noteq> t \<Longrightarrow> s \<in> set (BLOCKED_LIST k') \<longleftrightarrow> s \<in> set (BLOCKED_LIST k)"
    and sl: "\<And>s. s \<noteq> t \<Longrightarrow> s \<in> set (SLEEPING_LIST k') \<longleftrightarrow> s \<in> set (SLEEPING_LIST k)"
    and st: "\<And>s. s \<noteq> t \<Longrightarrow> status (TCBS k' s) = status (TCBS k s)"
    and id: "\<And>s. s \<noteq> t \<Longrightarrow> tcb_tid (TCBS k' s) = tcb_tid (TCBS k s)"
    and bm: "\<And>s. s \<noteq> t \<Longrightarrow> bit (TID_BITMAP k') s = bit (TID_BITMAP k) s"
    and cur: "CURRENT_TCB k' = CURRENT_TCB k"
    and t_ready: "t \<in> set (READY_LIST k') \<longleftrightarrow> status (TCBS k' t) = Ready \<or> status (TCBS k' t) = Running"
    and t_parked: "t \<in> set (BLOCKED_LIST k') \<or> t \<in> set (SLEEPING_LIST k') \<Longrightarrow> status (TCBS k' t) = Blocked"
    and t_bit: "bit (TID_BITMAP k') t \<longleftrightarrow> status (TCBS k' t) \<noteq> Terminated"
    and t_id: "status (TCBS k' t) \<noteq> Terminated \<or> CURRENT_TCB k = Some t \<Longrightarrow> tcb_tid (TCBS k' t) = t"
    and t_run: "status (TCBS k' t) = Running \<Longrightarrow> CURRENT_TCB k = Some t"
  shows "wf_kernel k'"
proof -
  from wf have W: "wf_lists k" "wf_ids k" "wf_current k" by (simp_all add: wf_kernel_def)
  have "set (READY_LIST k') \<union> set (BLOCKED_LIST k') \<union> set (SLEEPING_LIST k') \<subseteq> {..<TASK_MAX}"
  proof
    fix s assume s: "s \<in> set (READY_LIST k') \<union> set (BLOCKED_LIST k') \<union> set (SLEEPING_LIST k')"
    show "s \<in> {..<TASK_MAX}"
    proof (cases "s = t")
      case False
      with s rl bl sl W(1) show ?thesis unfolding wf_lists_def by blast
    qed (use t in blast)
  qed
  moreover have "s \<in> set (READY_LIST k') \<longleftrightarrow> status (TCBS k' s) = Ready \<or> status (TCBS k' s) = Running"
    if "s < TASK_MAX" for s
    using that t_ready rl [of s] st [of s] W(1) unfolding wf_lists_def by (cases "s = t") auto
  moreover have "status (TCBS k' s) = Blocked" if "s \<in> set (BLOCKED_LIST k') \<union> set (SLEEPING_LIST k')" for s
    using that t_parked bl [of s] sl [of s] st [of s] W(1) unfolding wf_lists_def by (cases "s = t") auto
  ultimately have "wf_lists k'" using dist unfolding wf_lists_def by blast
  moreover have "wf_ids k'"
    using W(2) t_bit t_id bm id st unfolding wf_ids_def by metis
  moreover have "wf_current k'"
    using W(3) t_id t_run id st t unfolding wf_current_def cur by metis
  ultimately show ?thesis by (simp add: wf_kernel_def)
qed

lemma wf_kernel_distinct:
  "wf_kernel k \<Longrightarrow> distinct (READY_LIST k)" "wf_kernel k \<Longrightarrow> distinct (BLOCKED_LIST k)"
  "wf_kernel k \<Longrightarrow> distinct (SLEEPING_LIST k)"
  by (simp_all add: wf_kernel_def wf_lists_def)

lemma wf_kernel_disjoint:
  "wf_kernel k \<Longrightarrow> t \<in> set (READY_LIST k) \<Longrightarrow> t \<notin> set (BLOCKED_LIST k) \<and> t \<notin> set (SLEEPING_LIST k)"
  "wf_kernel k \<Longrightarrow> t \<in> set (BLOCKED_LIST k) \<Longrightarrow> t \<notin> set (SLEEPING_LIST k)"
  by (auto simp: wf_kernel_def wf_lists_def)

lemma wf_kernel_tid: "wf_kernel k \<Longrightarrow> t < TASK_MAX \<Longrightarrow> status (TCBS k t) \<noteq> Terminated \<Longrightarrow> tcb_tid (TCBS k t) = t"
  and wf_kernel_bit: "wf_kernel k \<Longrightarrow> t < TASK_MAX \<Longrightarrow> bit (TID_BITMAP k) t \<longleftrightarrow> status (TCBS k t) \<noteq> Terminated"
  by (simp_all add: wf_kernel_def wf_ids_def)

lemma wf_kernel_running: "wf_kernel k \<Longrightarrow> t < TASK_MAX \<Longrightarrow> status (TCBS k t) = Running \<Longrightarrow> CURRENT_TCB k = Some t"
  unfolding wf_kernel_def wf_current_def by blast

text \<open>What a task that is \<open>Blocked\<close> and in no list becomes when something wakes it.\<close>

definition make_ready :: "nat \<Rightarrow> kernel \<Rightarrow> kernel" where
  "make_ready t k = k\<lparr>TCBS := (TCBS k)(t := (TCBS k t)\<lparr>status := Ready\<rparr>),
     READY_LIST := insert_before (\<lambda>s. pri k t < pri k s) t (READY_LIST k)\<rparr>"

text \<open>What a ready task becomes when it starts to wait.\<close>

definition make_blocked :: "nat \<Rightarrow> kernel \<Rightarrow> kernel" where
  "make_blocked t k = k\<lparr>TCBS := (TCBS k)(t := (TCBS k t)\<lparr>status := Blocked\<rparr>),
     READY_LIST := remove1 t (READY_LIST k)\<rparr>"

lemma make_ready_fields [simp]:
  "BLOCKED_LIST (make_ready t k) = BLOCKED_LIST k" "SLEEPING_LIST (make_ready t k) = SLEEPING_LIST k"
  "CURRENT_TCB (make_ready t k) = CURRENT_TCB k" "SCHED_READY (make_ready t k) = SCHED_READY k"
  "OS_TICKS (make_ready t k) = OS_TICKS k" "TID_BITMAP (make_ready t k) = TID_BITMAP k"
  "set (READY_LIST (make_ready t k)) = insert t (set (READY_LIST k))"
  "TCBS (make_ready t k) s = (if s = t then (TCBS k t)\<lparr>status := Ready\<rparr> else TCBS k s)"
  by (simp_all add: make_ready_def)

lemma make_blocked_fields [simp]:
  "BLOCKED_LIST (make_blocked t k) = BLOCKED_LIST k" "SLEEPING_LIST (make_blocked t k) = SLEEPING_LIST k"
  "CURRENT_TCB (make_blocked t k) = CURRENT_TCB k" "SCHED_READY (make_blocked t k) = SCHED_READY k"
  "OS_TICKS (make_blocked t k) = OS_TICKS k" "TID_BITMAP (make_blocked t k) = TID_BITMAP k"
  "READY_LIST (make_blocked t k) = remove1 t (READY_LIST k)"
  "TCBS (make_blocked t k) s = (if s = t then (TCBS k t)\<lparr>status := Blocked\<rparr> else TCBS k s)"
  by (simp_all add: make_blocked_def)

lemma ready_sorted_cong:
  assumes "READY_LIST k' = READY_LIST k" "\<And>t. t \<in> set (READY_LIST k) \<Longrightarrow> pri k' t = pri k t"
  shows "ready_sorted k' = ready_sorted k"
  unfolding ready_sorted_def assms(1) by (rule sorted_map_cong) (use assms(2) in blast)

lemma ready_sorted_make_ready: "ready_sorted k \<Longrightarrow> ready_sorted (make_ready t k)"
proof -
  have "(\<lambda>s. pri (make_ready t k) s) = pri k" by (simp add: fun_eq_iff)
  then show "ready_sorted k \<Longrightarrow> ready_sorted (make_ready t k)"
    unfolding ready_sorted_def
    using sorted_insert_before [of "pri k" "READY_LIST k" t] by (simp add: make_ready_def)
qed

lemma ready_sorted_make_blocked: "ready_sorted k \<Longrightarrow> ready_sorted (make_blocked t k)"
proof -
  have "(\<lambda>s. pri (make_blocked t k) s) = pri k" by (simp add: fun_eq_iff)
  then show "ready_sorted k \<Longrightarrow> ready_sorted (make_blocked t k)"
    unfolding ready_sorted_def by (simp add: sorted_map_remove1)
qed

lemma wf_kernel_make_ready:
  assumes wf: "wf_kernel k" and t: "t < TASK_MAX" "status (TCBS k t) = Blocked"
    "t \<notin> set (BLOCKED_LIST k)" "t \<notin> set (SLEEPING_LIST k)"
  shows "wf_kernel (make_ready t k)"
proof -
  have "t \<notin> set (READY_LIST k)" using wf_kernel_ready_iff [OF wf t(1)] t(2) by simp
  then have "distinct (READY_LIST (make_ready t k) @ BLOCKED_LIST (make_ready t k) @ SLEEPING_LIST (make_ready t k))"
    using wf t(3,4) by (simp add: wf_kernel_def wf_lists_def) (simp add: make_ready_def)
  then show ?thesis
    by (rule wf_kernel_move [OF wf t(1)]) (use wf t in \<open>simp_all add: wf_kernel_tid wf_kernel_bit del: TASK_MAX_def\<close>)
qed

lemma wf_kernel_make_blocked:
  assumes wf: "wf_kernel k" and t: "t < TASK_MAX" "status (TCBS k t) \<noteq> Terminated"
    "t \<notin> set (BLOCKED_LIST k)" "t \<notin> set (SLEEPING_LIST k)"
  shows "wf_kernel (make_blocked t k)"
proof -
  have d: "distinct (READY_LIST (make_blocked t k) @ BLOCKED_LIST (make_blocked t k) @ SLEEPING_LIST (make_blocked t k))"
    using wf t(3,4) by (auto simp add: wf_kernel_def wf_lists_def dest: notin_set_remove1)
  show ?thesis
    by (rule wf_kernel_move [OF wf t(1) d])
      (use wf t in \<open>simp_all add: wf_kernel_tid wf_kernel_bit wf_kernel_distinct set_remove1_eq del: TASK_MAX_def\<close>)
qed

lemma ready_insert_make_ready:
  assumes wf: "wf_kernel k" and t: "t < TASK_MAX" "t \<notin> set (READY_LIST k)"
    and "k1 = k\<lparr>TCBS := (TCBS k)(t := (TCBS k t)\<lparr>status := Ready\<rparr>)\<rparr>"
  shows "ready_insert t (pri k t) k1 = Some (make_ready t k)"
proof -
  have "(\<lambda>s. pri k t < pri k1 s) = (\<lambda>s. pri k t < pri k s)" by (simp add: assms(4) fun_eq_iff)
  with ready_insert_before [of k1 t "pri k t"] show ?thesis
    using wf_kernel_ready_range [OF wf] wf_kernel_lengths(1) [OF wf t]
    by (simp add: assms(4) make_ready_def del: fun_upd_apply)
qed

subsection \<open>The contract of a rescheduling point\<close>

text \<open>
  What an operation may leave behind when it calls \<open>yield_task\<close>: the current task may have blocked
  or exited, but something is ready to run.
\<close>

definition mid_inv :: "kernel \<Rightarrow> bool" where
  "mid_inv k \<longleftrightarrow> wf_kernel k \<and> ready_sorted k \<and> (CURRENT_TCB k \<noteq> None \<longleftrightarrow> SCHED_READY k)
     \<and> (SCHED_READY k \<longrightarrow> READY_LIST k \<noteq> [])"

text \<open>A context switch touches no stack and none of the fields that describe the task itself.\<close>

definition task_identity :: "tcb \<Rightarrow> u32 \<times> string \<times> u32 \<times> u8 list \<times> u32 option \<times> u32 \<times> u32" where
  "task_identity t = (sp t, tname t, stack_bottom t, closure_storage t, closure_invoker t,
     thread_sema t, heap_stack_base t)"

definition memory_frame :: "kernel \<Rightarrow> kernel \<Rightarrow> bool" where
  "memory_frame k k' \<longleftrightarrow> STACKS k' = STACKS k \<and> HEAP_STACKS k' = HEAP_STACKS k
     \<and> STACKS_BASE k' = STACKS_BASE k \<and> USER_NAME k' = USER_NAME k
     \<and> (\<forall>t. task_identity (TCBS k' t) = task_identity (TCBS k t))"

definition yield_frame :: "kernel \<Rightarrow> kernel \<Rightarrow> bool" where
  "yield_frame k k' \<longleftrightarrow> k' = k \<or> sched_frame k k' \<and> memory_frame k k'"

lemma yield_frame_refl [simp]: "yield_frame k k"
  by (simp add: yield_frame_def)

text \<open>
  The interface between the operations that wake or block tasks and the scheduler: \<open>yield\<close> returns
  from every state that satisfies \<open>mid\<close>, re-establishes the invariant and changes no more than the
  frame allows. An operation on top of it needs no knowledge of \<open>next_tcb\<close>.
\<close>

locale rescheduler =
  fixes yield :: "'s \<Rightarrow> 's option" and inv mid :: "'s \<Rightarrow> bool" and frame :: "'s \<Rightarrow> 's \<Rightarrow> bool"
  assumes inv_mid: "inv k \<Longrightarrow> mid k"
    and yield_ok: "mid k \<Longrightarrow> returns (\<lambda>k'. inv k' \<and> frame k k') (yield k)"
    and frame_refl: "frame k k"
begin

lemma yield_mono: "mid k \<Longrightarrow> (\<And>k'. inv k' \<Longrightarrow> frame k k' \<Longrightarrow> P k') \<Longrightarrow> returns P (yield k)"
  using yield_ok [of k] by (auto elim!: returns_mono)

lemma yield_if:
  assumes "mid k" and "\<not> b \<Longrightarrow> inv k" and "\<And>k'. inv k' \<Longrightarrow> frame k k' \<Longrightarrow> P k'"
  shows "returns P (if b then yield k else Some k)"
  using assms yield_mono frame_refl by simp

fun yields :: "nat \<Rightarrow> 's \<Rightarrow> 's option" where
  "yields 0 k = Some k"
| "yields (Suc n) k = yield k \<bind> yields n"

text \<open>A task that yields in a loop never brings the system down.\<close>

lemma yields_return: "inv k \<Longrightarrow> returns inv (yields n k)"
proof (induction n arbitrary: k)
  case (Suc n)
  then show ?case by (auto intro!: yield_mono [OF inv_mid])
qed simp

end

lemma memory_frame_trans: "memory_frame a b \<Longrightarrow> memory_frame b c \<Longrightarrow> memory_frame a c"
  by (simp add: memory_frame_def)

lemma memory_frame_woken: "memory_frame k (woken k)"
  by (auto simp: memory_frame_def woken_def wake_list_def wake_tcb_def task_identity_def)

lemma memory_frame_settled: "memory_frame k (settled c k)"
proof -
  have "memory_frame (woken k) (requeue c (woken k))"
    by (auto simp: memory_frame_def requeue_def task_identity_def)
  with memory_frame_woken [of k] memory_frame_trans show ?thesis
    by (auto simp: settled_def Let_def)
qed

lemma memory_frame_next_tcb:
  assumes "wf_kernel k" "CURRENT_TCB k = Some c" "next_tcb k = Some k'"
  shows "memory_frame k k'"
proof -
  have "memory_frame (settled c k) (switch_to c h (settled c k))" for h
    by (auto simp: memory_frame_def switch_to_def task_identity_def)
  with next_tcb_closed [OF assms(1,2)] assms(3) memory_frame_settled [of k c] memory_frame_trans
  show ?thesis by (auto split: list.splits)
qed

lemma woken_not_Nil: "READY_LIST k \<noteq> [] \<Longrightarrow> READY_LIST (woken k) \<noteq> []"
  by (simp flip: set_empty)

lemma kernel_inv_mid: "kernel_inv k \<Longrightarrow> mid_inv k"
  by (auto simp: kernel_inv_def mid_inv_def current_ready_def)

lemma yield_task_mid:
  assumes "mid_inv k"
  shows "returns (\<lambda>k'. kernel_inv k' \<and> yield_frame k k') (yield_task k)"
proof (cases "SCHED_READY k")
  case False
  with assms show ?thesis
    by (simp add: yield_task_def mid_inv_def kernel_inv_def current_ready_def yield_frame_def)
next
  case True
  with assms obtain c where c: "CURRENT_TCB k = Some c" "wf_kernel k" "ready_sorted k" "READY_LIST k \<noteq> []"
    by (auto simp: mid_inv_def)
  have "returns kernel_inv (next_tcb k)"
    using next_tcb_inv [OF c(2,3,1) True] woken_not_Nil [OF c(4)] by blast
  then obtain k' where "next_tcb k = Some k'" "kernel_inv k'" by (auto simp: returns_iff)
  with next_tcb_frame [OF c(2,1)] memory_frame_next_tcb [OF c(2,1)] show ?thesis
    by (simp add: yield_task_def True yield_frame_def)
qed

interpretation sched: rescheduler yield_task kernel_inv mid_inv yield_frame
  by unfold_locales (simp_all add: kernel_inv_mid yield_task_mid)

text \<open>
  The part of the contract that does not depend on the order of the ready list: whoever disturbs that
  order (an unlock that lowers a priority in place) still leaves a kernel that cannot panic.
\<close>

definition safe_inv :: "kernel \<Rightarrow> bool" where
  "safe_inv k \<longleftrightarrow> wf_kernel k \<and> current_ready k"

definition safe_mid :: "kernel \<Rightarrow> bool" where
  "safe_mid k \<longleftrightarrow> wf_kernel k \<and> (CURRENT_TCB k \<noteq> None \<longleftrightarrow> SCHED_READY k) \<and> (SCHED_READY k \<longrightarrow> READY_LIST k \<noteq> [])"

lemma kernel_inv_safe: "kernel_inv k \<Longrightarrow> safe_inv k"
  by (simp add: kernel_inv_def safe_inv_def)

lemma safe_inv_cong:
  assumes "READY_LIST k' = READY_LIST k" "BLOCKED_LIST k' = BLOCKED_LIST k"
    "SLEEPING_LIST k' = SLEEPING_LIST k" "CURRENT_TCB k' = CURRENT_TCB k"
    "TID_BITMAP k' = TID_BITMAP k" "SCHED_READY k' = SCHED_READY k"
    "\<And>t. status (TCBS k' t) = status (TCBS k t)" "\<And>t. tcb_tid (TCBS k' t) = tcb_tid (TCBS k t)"
  shows "safe_inv k' = safe_inv k"
  by (simp only: safe_inv_def wf_kernel_def wf_lists_def wf_ids_def wf_current_def current_ready_def assms)

lemma safe_inv_mid: "safe_inv k \<Longrightarrow> safe_mid k"
  by (auto simp: safe_inv_def safe_mid_def current_ready_def)

lemma yield_task_safe:
  assumes "safe_mid k"
  shows "returns (\<lambda>k'. safe_inv k' \<and> yield_frame k k') (yield_task k)"
proof (cases "SCHED_READY k")
  case False
  with assms show ?thesis
    by (simp add: yield_task_def safe_mid_def safe_inv_def current_ready_def yield_frame_def)
next
  case True
  with assms obtain c where c: "CURRENT_TCB k = Some c" "wf_kernel k" "READY_LIST k \<noteq> []"
    by (auto simp: safe_mid_def)
  obtain k' where "next_tcb k = Some k'" "wf_kernel k'" "current_ready k'"
    using next_tcb_step [OF c(2,1) True woken_not_Nil [OF c(3)]] by metis
  with next_tcb_frame [OF c(2,1)] memory_frame_next_tcb [OF c(2,1)] show ?thesis
    by (simp add: yield_task_def True yield_frame_def safe_inv_def)
qed

interpretation safe: rescheduler yield_task safe_inv safe_mid yield_frame
  by unfold_locales (simp_all add: safe_inv_mid yield_task_safe)

lemma yield_frameD:
  assumes "yield_frame k k'"
  shows "pri k' t = pri k t" "SCHED_READY k' = SCHED_READY k" "TID_BITMAP k' = TID_BITMAP k"
    "OS_TICKS k' = OS_TICKS k" "BLOCKED_LIST k' = BLOCKED_LIST k"
    "set (READY_LIST k) \<subseteq> set (READY_LIST k')"
    "set (READY_LIST k') \<subseteq> set (READY_LIST k) \<union> set (SLEEPING_LIST k)"
    "set (SLEEPING_LIST k') \<subseteq> set (SLEEPING_LIST k)"
    "STACKS k' = STACKS k" "HEAP_STACKS k' = HEAP_STACKS k"
    "task_identity (TCBS k' t) = task_identity (TCBS k t)"
  using assms unfolding yield_frame_def by (auto dest: sched_frameD simp: memory_frame_def)

lemma yield_frame_sub: "yield_frame k k' \<Longrightarrow> sub_priority (TCBS k' t) = sub_priority (TCBS k t)"
  by (auto simp: yield_frame_def dest: sched_frameD(2))

text \<open>After a yield the current task has the highest priority of all ready tasks.\<close>

definition runs_best :: "kernel \<Rightarrow> bool" where
  "runs_best k \<longleftrightarrow> (\<forall>c. CURRENT_TCB k = Some c \<longrightarrow> (\<forall>t \<in> set (READY_LIST k). pri k c \<le> pri k t))"

lemma yield_runs_best:
  assumes "mid_inv k"
  shows "returns (\<lambda>k'. kernel_inv k' \<and> yield_frame k k' \<and> runs_best k') (yield_task k)"
proof (cases "SCHED_READY k")
  case False
  then have "CURRENT_TCB k = None" using assms by (simp add: mid_inv_def)
  then show ?thesis using yield_task_mid [OF assms] False
    by (simp add: yield_task_def runs_best_def)
next
  case True
  with assms obtain c where c: "CURRENT_TCB k = Some c" "wf_kernel k" "ready_sorted k" "READY_LIST k \<noteq> []"
    by (auto simp: mid_inv_def)
  obtain h k' where k': "next_tcb k = Some k'" "CURRENT_TCB k' = Some h" "h = hd (READY_LIST k')"
    "READY_LIST k' \<noteq> []" "ready_sorted k'"
    using next_tcb_step [OF c(2,1) True woken_not_Nil [OF c(4)]] c(3) by metis
  then have "runs_best k'"
    by (cases "READY_LIST k'") (auto simp: runs_best_def ready_sorted_def)
  with yield_task_mid [OF assms] k'(1) show ?thesis by (simp add: yield_task_def True)
qed

lemma mid_inv_make_ready:
  assumes "mid_inv k" "t < TASK_MAX" "status (TCBS k t) = Blocked"
    "t \<notin> set (BLOCKED_LIST k)" "t \<notin> set (SLEEPING_LIST k)"
  shows "mid_inv (make_ready t k)"
  using assms wf_kernel_make_ready ready_sorted_make_ready
  by (simp add: mid_inv_def) (simp add: make_ready_def)

lemma kernel_inv_make_ready:
  assumes "kernel_inv k" "t < TASK_MAX" "status (TCBS k t) = Blocked"
    "t \<notin> set (BLOCKED_LIST k)" "t \<notin> set (SLEEPING_LIST k)"
  shows "kernel_inv (make_ready t k)"
  using assms wf_kernel_make_ready [of k t] ready_sorted_make_ready [of k t]
  by (auto simp: kernel_inv_def current_ready_def)

lemma mid_inv_make_blocked:
  assumes "mid_inv k" "t < TASK_MAX" "status (TCBS k t) \<noteq> Terminated"
    "t \<notin> set (BLOCKED_LIST k)" "t \<notin> set (SLEEPING_LIST k)" "i \<in> set (READY_LIST k)" "i \<noteq> t"
  shows "mid_inv (make_blocked t k)"
proof -
  have "i \<in> set (remove1 t (READY_LIST k))" using assms(6,7) by simp
  then have "remove1 t (READY_LIST k) \<noteq> []" by auto
  with assms wf_kernel_make_blocked ready_sorted_make_blocked show ?thesis
    by (simp add: mid_inv_def)
qed

subsection \<open>Creating tasks\<close>

definition stacks_ok :: "kernel \<Rightarrow> bool" where
  "stacks_ok k \<longleftrightarrow> (\<forall>t < TASK_MAX. length (STACKS k t) = PAGE_SIZE_WORDS)"

text \<open>The state in which a new control block \<open>T\<close> has been put at index \<open>t\<close> and made ready.\<close>

definition spawned :: "nat \<Rightarrow> tcb \<Rightarrow> kernel \<Rightarrow> kernel" where
  "spawned t T k = k\<lparr>TID_BITMAP := TID_BITMAP k OR push_bit t 1, TCBS := (TCBS k)(t := T),
     READY_LIST := insert_before (\<lambda>s. priority T < pri k s) t (READY_LIST k)\<rparr>"

lemma spawned_fields [simp]:
  "BLOCKED_LIST (spawned t T k) = BLOCKED_LIST k" "SLEEPING_LIST (spawned t T k) = SLEEPING_LIST k"
  "CURRENT_TCB (spawned t T k) = CURRENT_TCB k" "SCHED_READY (spawned t T k) = SCHED_READY k"
  "OS_TICKS (spawned t T k) = OS_TICKS k" "STACKS (spawned t T k) = STACKS k"
  "HEAP_STACKS (spawned t T k) = HEAP_STACKS k" "STACKS_BASE (spawned t T k) = STACKS_BASE k"
  "set (READY_LIST (spawned t T k)) = insert t (set (READY_LIST k))"
  "TCBS (spawned t T k) s = (if s = t then T else TCBS k s)"
  by (simp_all add: spawned_def)

lemma fresh_not_listed:
  assumes "wf_kernel k" "t < TASK_MAX" "status (TCBS k t) = Terminated"
  shows "t \<notin> set (READY_LIST k)" "t \<notin> set (BLOCKED_LIST k)" "t \<notin> set (SLEEPING_LIST k)"
  using assms wf_kernel_ready_iff [OF assms(1,2)] wf_kernel_parked [OF assms(1), of t] by auto

lemma safe_inv_spawned:
  assumes inv: "safe_inv k" and t: "t < TASK_MAX" "status (TCBS k t) = Terminated"
    and T: "status T = Ready" "tcb_tid T = t"
  shows "safe_inv (spawned t T k)"
proof -
  from inv have wf: "wf_kernel k" and cr: "current_ready k" by (simp_all add: safe_inv_def)
  note new = fresh_not_listed [OF wf t]
  have "distinct (READY_LIST (spawned t T k) @ BLOCKED_LIST (spawned t T k) @ SLEEPING_LIST (spawned t T k))"
    using wf new by (simp add: wf_kernel_def wf_lists_def) (simp add: spawned_def)
  moreover have "bit (TID_BITMAP (spawned t T k)) s = (bit (TID_BITMAP k) s \<or> s = t)" for s
    using t(1) by (simp add: spawned_def bit_or_pow2)
  ultimately have "wf_kernel (spawned t T k)"
    by (intro wf_kernel_move [OF wf t(1)]) (simp_all add: T)
  with cr show ?thesis by (auto simp: safe_inv_def current_ready_def)
qed

lemma kernel_inv_spawned:
  assumes inv: "kernel_inv k" and t: "t < TASK_MAX" "status (TCBS k t) = Terminated"
    and T: "status T = Ready" "tcb_tid T = t"
  shows "kernel_inv (spawned t T k)"
proof -
  from inv have wf: "wf_kernel k" and srt: "ready_sorted k" by (simp_all add: kernel_inv_def)
  note new = fresh_not_listed [OF wf t]
  have "sorted (map (pri k) (READY_LIST k))" using srt by (simp add: ready_sorted_def)
  then have "sorted (map (\<lambda>s. pri (spawned t T k) s) (READY_LIST k))"
    using new(1) by (subst sorted_map_cong [of _ _ "pri k"]) auto
  from sorted_insert_before [OF this, of t]
  have "sorted (map (pri (spawned t T k)) (insert_before (\<lambda>s. priority T < pri (spawned t T k) s) t (READY_LIST k)))"
    by simp
  also have "insert_before (\<lambda>s. priority T < pri (spawned t T k) s) t (READY_LIST k) = READY_LIST (spawned t T k)"
    using new(1) by (simp add: spawned_def) (rule insert_before_cong, auto)
  finally have "ready_sorted (spawned t T k)" by (simp add: ready_sorted_def)
  with safe_inv_spawned [OF kernel_inv_safe [OF inv] t T] show ?thesis by (simp add: kernel_inv_def safe_inv_def)
qed

lemma spawned_insert:
  assumes wf: "wf_kernel k" and t: "t < TASK_MAX" "status (TCBS k t) = Terminated"
    and k1: "TCBS k1 = (TCBS k)(t := T)" "READY_LIST k1 = READY_LIST k"
  shows "ready_insert t (priority T) k1
     = Some (k1\<lparr>READY_LIST := insert_before (\<lambda>s. priority T < pri k s) t (READY_LIST k)\<rparr>)"
proof -
  note new = fresh_not_listed(1) [OF wf t]
  have "ready_insert t (priority T) k1
     = Some (k1\<lparr>READY_LIST := insert_before (\<lambda>s. priority T < priority (TCBS k1 s)) t (READY_LIST k1)\<rparr>)"
    using wf_kernel_ready_range [OF wf] wf_kernel_lengths(1) [OF wf t(1) new]
    by (intro ready_insert_before) (simp_all add: k1)
  also have "insert_before (\<lambda>s. priority T < priority (TCBS k1 s)) t (READY_LIST k1)
      = insert_before (\<lambda>s. priority T < pri k s) t (READY_LIST k)"
    using new by (simp add: k1) (rule insert_before_cong, auto)
  finally show ?thesis .
qed

lemma alloc_tid_cases:
  assumes "wf_kernel k"
  obtains "alloc_tid k = (None, k)" "\<forall>t < TASK_MAX. status (TCBS k t) \<noteq> Terminated"
  | t where "alloc_tid k = (Some t, k\<lparr>TID_BITMAP := TID_BITMAP k OR push_bit t 1, TCBS := (TCBS k)(t := tcb_empty t)\<rparr>)"
      "t < TASK_MAX" "status (TCBS k t) = Terminated" "\<forall>s < t. status (TCBS k s) \<noteq> Terminated"
proof (cases "alloc_scan [0..<TASK_MAX] (TID_BITMAP k)")
  case None
  then have "\<forall>t < TASK_MAX. status (TCBS k t) \<noteq> Terminated"
    using alloc_scan_spec [of "[0..<TASK_MAX]" "TID_BITMAP k"] wf_kernel_bit [OF assms] by auto
  with None that(1) show thesis by (simp add: alloc_tid_def)
next
  case (Some t)
  then have t: "t < TASK_MAX" "\<not> bit (TID_BITMAP k) t"
    using alloc_scan_spec [of "[0..<TASK_MAX]" "TID_BITMAP k"] by auto
  moreover have "status (TCBS k s) \<noteq> Terminated" if "s < t" for s
    using alloc_scan_least [OF Some _ that] wf_kernel_bit [OF assms, of s] that t(1) by simp
  ultimately show thesis
    using Some that(2) [of t] wf_kernel_bit [OF assms t(1)] by (simp add: alloc_tid_def)
qed

text \<open>The control block and the stack that \<open>Task::create\<close> sets up.\<close>

definition created_tcb :: "nat \<Rightarrow> u8 list \<Rightarrow> u32 \<Rightarrow> u8 \<Rightarrow> string \<Rightarrow> u32 \<Rightarrow> tcb" where
  "created_tcb t f invoke_closure pr name stack_addr =
     (tcb_empty t)\<lparr>closure_storage := f @ replicate (TASK_CLOSURE_SIZE - length f) 0,
       closure_invoker := Some invoke_closure,
       sp := stack_addr + of_nat (4 * (PAGE_SIZE_WORDS - CONTEXT_WORDS)), status := Ready, priority := pr,
       time_slice := TIME_SLICE, tname := name, stack_bottom := stack_addr\<rparr>"

lemma created_tcb_simps [simp]:
  "status (created_tcb t f i p n a) = Ready" "tcb_tid (created_tcb t f i p n a) = t"
  "priority (created_tcb t f i p n a) = p"
  by (simp_all add: created_tcb_def)

lemma created_tcb_expand:
  "created_tcb t f i p n a = (tcb_empty t)\<lparr>closure_storage := f @ drop (length f) (closure_storage (tcb_empty t)),
     closure_invoker := Some i, sp := a + 896, status := Ready, priority := p, time_slice := 50,
     tname := n, stack_bottom := a\<rparr>"
  by (simp add: created_tcb_def tcb_empty_def)

lemma init_stack_frame_page:
  assumes "length stack = PAGE_SIZE_WORDS"
  obtains stack' where
    "init_stack_frame base stack entry argv exit_fn
       = Some (base + of_nat (4 * (PAGE_SIZE_WORDS - CONTEXT_WORDS)), stack')"
    "length stack' = PAGE_SIZE_WORDS"
    "drop (PAGE_SIZE_WORDS - CONTEXT_WORDS) stack' = map (frame_word entry argv exit_fn) [0..<CONTEXT_WORDS]"
  using init_stack_frame_spec [of stack base entry argv exit_fn] assms by (auto simp: returns_iff)

lemma task_create_full:
  assumes "alloc_tid k = (None, k)" "length f \<le> TASK_CLOSURE_SIZE"
  shows "task_create ca f i p n k = Some (Inl ''Task pool is full'', k)"
  using assms by (simp add: task_create_def)

lemma task_create_safe:
  assumes inv: "safe_inv k" and st: "stacks_ok k" and f: "length f \<le> TASK_CLOSURE_SIZE"
    and al: "alloc_tid k = (Some t, k\<lparr>TID_BITMAP := TID_BITMAP k OR push_bit t 1, TCBS := (TCBS k)(t := tcb_empty t)\<rparr>)"
    and t: "t < TASK_MAX" "status (TCBS k t) = Terminated"
  obtains stack k2 where
    "k2 = (spawned t (created_tcb t f i p n (STACKS_BASE k + of_nat (PAGE_SIZE * t))) k)\<lparr>STACKS := (STACKS k)(t := stack)\<rparr>"
    "length stack = PAGE_SIZE_WORDS"
    "drop (PAGE_SIZE_WORDS - CONTEXT_WORDS) stack
       = map (frame_word (closure_trampoline_addr ca) 0 (task_exit_stub_addr ca)) [0..<CONTEXT_WORDS]"
    "safe_inv k2" "kernel_inv k \<Longrightarrow> kernel_inv k2"
    "task_create ca f i p n k = do {
       k' \<leftarrow> (if CURRENT_TCB k \<noteq> None \<and> (\<forall>c. CURRENT_TCB k = Some c \<longrightarrow> p < pri k c)
             then yield_task k2 else Some k2); Some (Inr t, k') }"
proof -
  from inv have wf: "wf_kernel k" and cr: "current_ready k" by (simp_all add: safe_inv_def)
  let ?a = "STACKS_BASE k + of_nat (PAGE_SIZE * t)"
  let ?T = "created_tcb t f i p n ?a"
  have len: "length (STACKS k t) = PAGE_SIZE_WORDS" using st t(1) by (simp add: stacks_ok_def)
  obtain stack where stack: "init_stack_frame ?a (STACKS k t) (closure_trampoline_addr ca) 0 (task_exit_stub_addr ca)
       = Some (?a + of_nat (4 * (PAGE_SIZE_WORDS - CONTEXT_WORDS)), stack)"
    "length stack = PAGE_SIZE_WORDS"
    "drop (PAGE_SIZE_WORDS - CONTEXT_WORDS) stack
       = map (frame_word (closure_trampoline_addr ca) 0 (task_exit_stub_addr ca)) [0..<CONTEXT_WORDS]"
    by (rule init_stack_frame_page [OF len])
  let ?k1 = "k\<lparr>TID_BITMAP := TID_BITMAP k OR push_bit t 1, STACKS := (STACKS k)(t := stack),
      TCBS := (TCBS k)(t := ?T)\<rparr>"
  let ?k2 = "(spawned t ?T k)\<lparr>STACKS := (STACKS k)(t := stack)\<rparr>"
  have "safe_inv (spawned t ?T k)" by (rule safe_inv_spawned [OF inv t]) simp_all
  then have safe2: "safe_inv ?k2" by (subst safe_inv_cong [of _ "spawned t ?T k"]) simp_all
  have inv2: "kernel_inv ?k2" if "kernel_inv k"
    using kernel_inv_spawned [OF that t, of ?T] by (subst kernel_inv_cong(1) [of _ "spawned t ?T k"]) simp_all
  have ins: "ready_insert t p ?k1 = Some ?k2"
    using spawned_insert [OF wf t, of ?k1 ?T] by (simp add: spawned_def)
  have cur: "SCHED_READY k \<longleftrightarrow> CURRENT_TCB k \<noteq> None" using cr by (simp add: current_ready_def)
  have same: "current_priority ?k2 = Some (pri k c)" "c \<noteq> t" if "CURRENT_TCB k = Some c" for c
  proof -
    have "c < TASK_MAX" "c \<in> set (READY_LIST k)"
      using that wf_kernel_current [OF wf] cr by (auto simp: current_ready_def)
    then show "c \<noteq> t" using fresh_not_listed(1) [OF wf t] by auto
    then show "current_priority ?k2 = Some (pri k c)" using that \<open>c < TASK_MAX\<close>
      by (simp add: current_priority_def current_tcb_def)
  qed
  have "task_create ca f i p n k = do {
       k' \<leftarrow> (if CURRENT_TCB k \<noteq> None \<and> (\<forall>c. CURRENT_TCB k = Some c \<longrightarrow> p < pri k c)
             then yield_task ?k2 else Some ?k2); Some (Inr t, k') }"
    using f t(1) ins stack(1) same cur
    by (cases "CURRENT_TCB k") (auto simp: task_create_def al Let_def created_tcb_expand)
  then show thesis using that [OF refl stack(2,3) safe2 inv2] by simp
qed

lemma task_create_closed:
  assumes inv: "kernel_inv k" and st: "stacks_ok k" and f: "length f \<le> TASK_CLOSURE_SIZE"
    and al: "alloc_tid k = (Some t, k\<lparr>TID_BITMAP := TID_BITMAP k OR push_bit t 1, TCBS := (TCBS k)(t := tcb_empty t)\<rparr>)"
    and t: "t < TASK_MAX" "status (TCBS k t) = Terminated"
  obtains stack k2 where
    "k2 = (spawned t (created_tcb t f i p n (STACKS_BASE k + of_nat (PAGE_SIZE * t))) k)\<lparr>STACKS := (STACKS k)(t := stack)\<rparr>"
    "length stack = PAGE_SIZE_WORDS"
    "drop (PAGE_SIZE_WORDS - CONTEXT_WORDS) stack
       = map (frame_word (closure_trampoline_addr ca) 0 (task_exit_stub_addr ca)) [0..<CONTEXT_WORDS]"
    "kernel_inv k2"
    "task_create ca f i p n k = do {
       k' \<leftarrow> (if CURRENT_TCB k \<noteq> None \<and> (\<forall>c. CURRENT_TCB k = Some c \<longrightarrow> p < pri k c)
             then yield_task k2 else Some k2); Some (Inr t, k') }"
  using task_create_safe [OF kernel_inv_safe [OF inv] st f al t, where i = i and p = p and n = n and ca = ca] that inv by blast

text \<open>What a caller of \<open>Task::create\<close> can rely on for the new task \<open>t\<close>.\<close>

definition create_post ::
    "code_addrs \<Rightarrow> u8 list \<Rightarrow> u32 \<Rightarrow> u8 \<Rightarrow> string \<Rightarrow> kernel \<Rightarrow> nat \<Rightarrow> kernel \<Rightarrow> bool" where
  "create_post ca f i p n k t k' \<longleftrightarrow>
     t < TASK_MAX \<and> status (TCBS k t) = Terminated \<and> {s. s < t \<and> status (TCBS k s) = Terminated} = {}
     \<and> t \<in> set (READY_LIST k') \<and> set (READY_LIST k) \<subseteq> set (READY_LIST k')
     \<and> priority (TCBS k' t) = p \<and> tname (TCBS k' t) = n
     \<and> closure_invoker (TCBS k' t) = Some i \<and> take (length f) (closure_storage (TCBS k' t)) = f
     \<and> sp (TCBS k' t) = STACKS_BASE k + of_nat (PAGE_SIZE * t) + of_nat (4 * (PAGE_SIZE_WORDS - CONTEXT_WORDS))
     \<and> drop (PAGE_SIZE_WORDS - CONTEXT_WORDS) (STACKS k' t)
         = map (frame_word (closure_trampoline_addr ca) 0 (task_exit_stub_addr ca)) [0..<CONTEXT_WORDS]
     \<and> list_all (\<lambda>c. pri k' c \<le> p) (case CURRENT_TCB k' of None \<Rightarrow> [] | Some c \<Rightarrow> [c])"

lemma stacks_ok_upd:
  "stacks_ok k \<Longrightarrow> length stack = PAGE_SIZE_WORDS \<Longrightarrow> STACKS k' = (STACKS k)(t := stack) \<Longrightarrow> stacks_ok k'"
  by (simp add: stacks_ok_def)

lemma task_create_spec:
  assumes inv: "kernel_inv k" and st: "stacks_ok k" and f: "length f \<le> TASK_CLOSURE_SIZE"
  shows "returns (\<lambda>(r, k'). kernel_inv k' \<and> stacks_ok k' \<and> SCHED_READY k' = SCHED_READY k \<and> (case r of
             Inl e \<Rightarrow> k' = k \<and> {t. t < TASK_MAX \<and> status (TCBS k t) = Terminated} = {}
           | Inr t \<Rightarrow> create_post ca f i p n k t k'))
         (task_create ca f i p n k)"
proof -
  from inv have wf: "wf_kernel k" and cr: "current_ready k" by (simp_all add: kernel_inv_def)
  show ?thesis
  proof (rule alloc_tid_cases [OF wf], goal_cases)
    case 1
    then show ?thesis unfolding task_create_full [OF 1(1) f] using inv st by auto
  next
    case (2 t)
    let ?T = "created_tcb t f i p n (STACKS_BASE k + of_nat (PAGE_SIZE * t))"
    obtain stack k2 where k2: "k2 = (spawned t ?T k)\<lparr>STACKS := (STACKS k)(t := stack)\<rparr>"
      "length stack = PAGE_SIZE_WORDS"
      "drop (PAGE_SIZE_WORDS - CONTEXT_WORDS) stack
         = map (frame_word (closure_trampoline_addr ca) 0 (task_exit_stub_addr ca)) [0..<CONTEXT_WORDS]"
      "kernel_inv k2"
      "task_create ca f i p n k = do {
         k' \<leftarrow> (if CURRENT_TCB k \<noteq> None \<and> (\<forall>c. CURRENT_TCB k = Some c \<longrightarrow> p < pri k c)
               then yield_task k2 else Some k2); Some (Inr t, k') }"
      by (rule task_create_closed [OF inv st f 2(1-3)])
    have T2: "TCBS k2 t = ?T" "STACKS k2 t = stack" "t \<in> set (READY_LIST k2)"
      "set (READY_LIST k) \<subseteq> set (READY_LIST k2)" "SCHED_READY k2 = SCHED_READY k"
      "CURRENT_TCB k2 = CURRENT_TCB k" "stacks_ok k2"
      using stacks_ok_upd [OF st k2(2), of k2 t] by (auto simp: k2(1))
    have keep: "create_post ca f i p n k t k'" if "yield_frame k2 k'"
      "\<And>c. CURRENT_TCB k' = Some c \<Longrightarrow> pri k' c \<le> p" for k'
    proof -
      note fr = yield_frameD [OF that(1)]
      have "pri k' t = p" using fr(1) [of t] T2(1) by simp
      moreover have "task_identity (TCBS k' t) = task_identity ?T" using fr(11) [of t] T2(1) by simp
      ultimately show ?thesis
        using 2(2-4) fr(6,9) T2(2-4) k2(3) that(2)
        by (auto simp: create_post_def task_identity_def created_tcb_def split: option.split)
    qed
    have stk: "stacks_ok k'" if "yield_frame k2 k'" for k'
      using T2(7) yield_frameD(9) [OF that] by (simp add: stacks_ok_def)
    show ?thesis
    proof (cases "CURRENT_TCB k \<noteq> None \<and> (\<forall>c. CURRENT_TCB k = Some c \<longrightarrow> p < pri k c)")
      case True
      have best: "pri k' c \<le> p" if "yield_frame k2 k'" "runs_best k'" "CURRENT_TCB k' = Some c" for k' c
        using that yield_frameD(1,6) [OF that(1)] T2(1,3) unfolding runs_best_def by fastforce
      have "returns (\<lambda>k'. kernel_inv k' \<and> yield_frame k2 k' \<and> runs_best k') (yield_task k2)"
        using yield_runs_best kernel_inv_mid k2(4) by blast
      then show ?thesis unfolding k2(5) if_P [OF True]
        using keep stk best T2(5) yield_frameD(2) by (auto elim!: returns_mono)
    next
      case False
      have "pri k2 c \<le> p" if c: "CURRENT_TCB k2 = Some c" for c
      proof -
        have "c \<noteq> t" using c T2(6) cr fresh_not_listed(1) [OF wf 2(2,3)] by (auto simp: current_ready_def)
        with c False T2(6) show ?thesis by (auto simp: k2(1) not_less)
      qed
      then show ?thesis unfolding k2(5) if_not_P [OF False]
        using keep [of k2] k2(4) T2(5,7) by simp
    qed
  qed
qed

text \<open>The control block of a task on a stack from the heap.\<close>

definition raw_tcb :: "nat \<Rightarrow> u32 \<Rightarrow> u8 \<Rightarrow> string \<Rightarrow> u32 \<Rightarrow> tcb" where
  "raw_tcb t sp' pr name addr =
     (tcb_empty t)\<lparr>sp := sp', status := Ready, priority := pr, time_slice := TIME_SLICE, tname := name,
       stack_bottom := addr, heap_stack_base := addr\<rparr>"

lemma raw_tcb_simps [simp]:
  "status (raw_tcb t sp' p n a) = Ready" "tcb_tid (raw_tcb t sp' p n a) = t" "priority (raw_tcb t sp' p n a) = p"
  "heap_stack_base (raw_tcb t sp' p n a) = a" "tname (raw_tcb t sp' p n a) = n" "sp (raw_tcb t sp' p n a) = sp'"
  by (simp_all add: raw_tcb_def)

lemma task_create_raw_safe:
  assumes inv: "safe_inv k" and sz: "CONTEXT_WORDS < stack_size div 4"
  obtains "\<forall>t < TASK_MAX. status (TCBS k t) \<noteq> Terminated"
      "task_create_raw ca addr entry param p n stack_size k
       = Some (Inl ''Task pool is full'', k\<lparr>HEAP_STACKS := HEAP_STACKS k @ [(addr, replicate (stack_size div 4) 0)]\<rparr>)"
  | t stack k' where "t < TASK_MAX" "status (TCBS k t) = Terminated" "\<forall>s < t. status (TCBS k s) \<noteq> Terminated"
      "length stack = stack_size div 4"
      "drop (stack_size div 4 - CONTEXT_WORDS) stack
         = map (frame_word entry param (task_exit_stub_addr ca)) [0..<CONTEXT_WORDS]"
      "k' = (spawned t (raw_tcb t (addr + of_nat (4 * (stack_size div 4 - CONTEXT_WORDS))) p n addr) k)
              \<lparr>HEAP_STACKS := HEAP_STACKS k @ [(addr, stack)]\<rparr>"
      "safe_inv k'" "kernel_inv k \<Longrightarrow> kernel_inv k'"
      "task_create_raw ca addr entry param p n stack_size k = Some (Inr t, k')"
proof -
  let ?kh = "k\<lparr>HEAP_STACKS := HEAP_STACKS k @ [(addr, replicate (stack_size div 4) 0)]\<rparr>"
  let ?sp = "addr + of_nat (4 * (stack_size div 4 - CONTEXT_WORDS))"
  have wf: "wf_kernel k" using inv by (simp add: safe_inv_def)
  have "safe_inv ?kh" by (subst safe_inv_cong [of _ k]) (simp_all add: inv)
  then have wfh: "wf_kernel ?kh" by (simp add: safe_inv_def)
  obtain stack where frame: "init_stack_frame_raw addr (replicate (stack_size div 4) 0) entry param
      (task_exit_stub_addr ca) = Some (?sp, stack)" "length stack = stack_size div 4"
      "drop (stack_size div 4 - CONTEXT_WORDS) stack = map (frame_word entry param (task_exit_stub_addr ca)) [0..<CONTEXT_WORDS]"
    using init_stack_frame_spec [of "replicate (stack_size div 4) 0" addr entry param "task_exit_stub_addr ca"] sz
    by (auto simp: returns_iff)
  show thesis
  proof (rule alloc_tid_cases [OF wfh], goal_cases)
    case 1
    then show ?thesis using that(1) by (simp add: task_create_raw_def)
  next
    case (2 t)
    let ?T = "raw_tcb t ?sp p n addr"
    let ?k1 = "k\<lparr>TID_BITMAP := TID_BITMAP k OR push_bit t 1, HEAP_STACKS := HEAP_STACKS k @ [(addr, stack)],
        TCBS := (TCBS k)(t := ?T)\<rparr>"
    let ?k2 = "(spawned t ?T k)\<lparr>HEAP_STACKS := HEAP_STACKS k @ [(addr, stack)]\<rparr>"
    have t: "t < TASK_MAX" "status (TCBS k t) = Terminated" "\<forall>s < t. status (TCBS k s) \<noteq> Terminated" using 2 by simp_all
    have ins: "ready_insert t p ?k1 = Some ?k2"
      using spawned_insert [OF wf t(1,2), of ?k1 ?T] by (simp add: spawned_def)
    have "safe_inv (spawned t ?T k)" by (rule safe_inv_spawned [OF inv t(1,2)]) simp_all
    then have "safe_inv ?k2" by (subst safe_inv_cong [of _ "spawned t ?T k"]) simp_all
    moreover have "kernel_inv ?k2" if "kernel_inv k"
      using kernel_inv_spawned [OF that t(1,2), of ?T] by (subst kernel_inv_cong(1) [of _ "spawned t ?T k"]) simp_all
    moreover have "task_create_raw ca addr entry param p n stack_size k = Some (Inr t, ?k2)"
      using 2(1) ins t(1) frame(1) by (simp add: task_create_raw_def Let_def raw_tcb_def)
    ultimately show ?thesis using that(2) [OF t frame(2,3) refl] by blast
  qed
qed

lemma task_create_raw_closed:
  assumes inv: "kernel_inv k" and sz: "CONTEXT_WORDS < stack_size div 4"
  obtains "\<forall>t < TASK_MAX. status (TCBS k t) \<noteq> Terminated"
      "task_create_raw ca addr entry param p n stack_size k
       = Some (Inl ''Task pool is full'', k\<lparr>HEAP_STACKS := HEAP_STACKS k @ [(addr, replicate (stack_size div 4) 0)]\<rparr>)"
  | t stack k' where "t < TASK_MAX" "status (TCBS k t) = Terminated" "\<forall>s < t. status (TCBS k s) \<noteq> Terminated"
      "length stack = stack_size div 4"
      "drop (stack_size div 4 - CONTEXT_WORDS) stack
         = map (frame_word entry param (task_exit_stub_addr ca)) [0..<CONTEXT_WORDS]"
      "k' = (spawned t (raw_tcb t (addr + of_nat (4 * (stack_size div 4 - CONTEXT_WORDS))) p n addr) k)
              \<lparr>HEAP_STACKS := HEAP_STACKS k @ [(addr, stack)]\<rparr>"
      "kernel_inv k'"
      "task_create_raw ca addr entry param p n stack_size k = Some (Inr t, k')"
  by (rule task_create_raw_safe [OF kernel_inv_safe [OF inv] sz, of ca addr entry param p n]) (use inv that in blast)+

lemma task_create_raw_spec:
  assumes inv: "kernel_inv k" and st: "stacks_ok k" and sz: "CONTEXT_WORDS < stack_size div 4"
  shows "returns (\<lambda>(r, k'). kernel_inv k' \<and> stacks_ok k' \<and> SCHED_READY k' = SCHED_READY k
           \<and> CURRENT_TCB k' = CURRENT_TCB k \<and> length (HEAP_STACKS k') = length (HEAP_STACKS k) + 1
           \<and> set (READY_LIST k) \<subseteq> set (READY_LIST k') \<and> (case r of
             Inl e \<Rightarrow> {t. t < TASK_MAX \<and> status (TCBS k t) = Terminated} = {} \<and> TCBS k' = TCBS k
           | Inr t \<Rightarrow> t < TASK_MAX \<and> status (TCBS k t) = Terminated \<and> t \<in> set (READY_LIST k')
               \<and> priority (TCBS k' t) = p \<and> heap_stack_base (TCBS k' t) = addr))
         (task_create_raw ca addr entry param p n stack_size k)"
proof (rule task_create_raw_closed [OF inv sz, of ca addr entry param p n], goal_cases)
  case 1
  have "kernel_inv (k\<lparr>HEAP_STACKS := HEAP_STACKS k @ [(addr, replicate (stack_size div 4) 0)]\<rparr>)"
    by (subst kernel_inv_cong(1) [of _ k]) (simp_all add: inv)
  with 1 st show ?case by (auto simp: stacks_ok_def)
next
  case (2 t stack k')
  then show ?case unfolding 2(8) using st by (auto simp: stacks_ok_def)
qed

subsection \<open>Blocking, resuming and ending tasks\<close>

text \<open>A rescheduling operation that ends in \<open>yield_task\<close>: the states it can return.\<close>

definition yields_from :: "kernel \<Rightarrow> kernel \<Rightarrow> bool" where
  "yields_from k k' \<longleftrightarrow> kernel_inv k' \<and> yield_frame k k' \<and> runs_best k'"

lemma yield_task_yields: "mid_inv k \<Longrightarrow> returns (yields_from k) (yield_task k)"
  unfolding yields_from_def [abs_def] by (rule yield_runs_best)

text \<open>Adding a waiting task to the blocked list or to the sleeping list.\<close>

lemma wf_kernel_park:
  assumes wf: "wf_kernel k" and t: "t < TASK_MAX" "status (TCBS k t) = Blocked"
    "t \<notin> set (BLOCKED_LIST k)" "t \<notin> set (SLEEPING_LIST k)"
  shows "wf_kernel (k\<lparr>BLOCKED_LIST := BLOCKED_LIST k @ [t]\<rparr>)"
    and "wf_kernel (k\<lparr>SLEEPING_LIST := insert_before q t (SLEEPING_LIST k)\<rparr>)"
proof -
  have "t \<notin> set (READY_LIST k)" using wf_kernel_ready_iff [OF wf t(1)] t(2) by simp
  then have d: "distinct (READY_LIST k @ (BLOCKED_LIST k @ [t]) @ SLEEPING_LIST k)"
    "distinct (READY_LIST k @ BLOCKED_LIST k @ insert_before q t (SLEEPING_LIST k))"
    using wf t(3,4) by (auto simp: wf_kernel_def wf_lists_def)
  show "wf_kernel (k\<lparr>BLOCKED_LIST := BLOCKED_LIST k @ [t]\<rparr>)"
    using d(1) wf t by (intro wf_kernel_move [OF wf t(1)])
      (simp_all add: wf_kernel_tid wf_kernel_bit wf_kernel_ready_iff del: TASK_MAX_def)
  show "wf_kernel (k\<lparr>SLEEPING_LIST := insert_before q t (SLEEPING_LIST k)\<rparr>)"
    using d(2) wf t by (intro wf_kernel_move [OF wf t(1)])
      (simp_all add: wf_kernel_tid wf_kernel_bit wf_kernel_ready_iff del: TASK_MAX_def)
qed

lemma mid_inv_park:
  assumes "mid_inv k" "t < TASK_MAX" "status (TCBS k t) = Blocked"
    "t \<notin> set (BLOCKED_LIST k)" "t \<notin> set (SLEEPING_LIST k)"
  shows "mid_inv (k\<lparr>BLOCKED_LIST := BLOCKED_LIST k @ [t]\<rparr>)"
    and "mid_inv (k\<lparr>SLEEPING_LIST := insert_before q t (SLEEPING_LIST k)\<rparr>)"
  using assms wf_kernel_park(1) [of k t] wf_kernel_park(2) [of k t q] by (simp_all add: mid_inv_def ready_sorted_def)

lemma ready_not_terminated:
  "wf_kernel k \<Longrightarrow> t \<in> set (READY_LIST k) \<Longrightarrow> t < TASK_MAX \<and> status (TCBS k t) \<noteq> Terminated \<and> status (TCBS k t) \<noteq> Blocked"
  using wf_kernel_ready_range wf_kernel_ready_iff by fastforce

definition blocked_state :: "nat \<Rightarrow> kernel \<Rightarrow> kernel" where
  "blocked_state t k = (make_blocked t k)\<lparr>BLOCKED_LIST := BLOCKED_LIST k @ [t]\<rparr>"

text \<open>A state with the tasks and the current task of a safe one, in which something is left to run.\<close>

lemma safe_midI:
  assumes "safe_inv k" "wf_kernel k'" "CURRENT_TCB k' = CURRENT_TCB k" "SCHED_READY k' = SCHED_READY k"
    "i \<in> set (READY_LIST k')"
  shows "safe_mid k'"
  using assms by (auto simp: safe_inv_def safe_mid_def current_ready_def)

lemma task_block_safe:
  assumes wf: "wf_kernel k" and t: "t \<in> set (READY_LIST k)"
  shows "wf_kernel (blocked_state t k)" and "task_block t k = yield_task (blocked_state t k)"
proof -
  note tm = ready_not_terminated [OF wf t] and nl = wf_kernel_disjoint(1) [OF wf t]
  have "wf_kernel (make_blocked t k)" using wf_kernel_make_blocked [OF wf] tm nl by blast
  from wf_kernel_park(1) [OF this, of t] tm nl show "wf_kernel (blocked_state t k)"
    by (simp add: blocked_state_def)
  have len: "length (BLOCKED_LIST k) < TASK_MAX" using wf_kernel_lengths(2) [OF wf] tm nl by blast
  have "status (TCBS k t) = Ready \<or> status (TCBS k t) = Running"
    using tm by (cases "status (TCBS k t)") auto
  then show "task_block t k = yield_task (blocked_state t k)"
    using len tm by (auto simp: task_block_def ready_remove_def blocked_state_def make_blocked_def tl_push_back_def Let_def)
qed

lemma task_block_step:
  assumes inv: "kernel_inv k" and t: "t \<in> set (READY_LIST k)" and i: "i \<in> set (READY_LIST k)" "i \<noteq> t"
  shows "mid_inv (blocked_state t k)" and "task_block t k = yield_task (blocked_state t k)"
proof -
  from inv have wf: "wf_kernel k" by (simp add: kernel_inv_def)
  note tm = ready_not_terminated [OF wf t] and nl = wf_kernel_disjoint(1) [OF wf t]
  from mid_inv_make_blocked [OF kernel_inv_mid [OF inv], of t i] tm nl i
  have m: "mid_inv (make_blocked t k)" by blast
  from mid_inv_park(1) [OF m, of t] tm nl show "mid_inv (blocked_state t k)"
    by (simp add: blocked_state_def)
  show "task_block t k = yield_task (blocked_state t k)" by (rule task_block_safe(2) [OF wf t])
qed

lemma task_block_other:
  assumes "t < TASK_MAX" "wf_kernel k" "t \<notin> set (READY_LIST k)"
  shows "task_block t k = Some k"
  using assms wf_kernel_ready_iff [of k t] by (auto simp: task_block_def split: task_status.split)

definition resumed_state :: "nat \<Rightarrow> kernel \<Rightarrow> kernel" where
  "resumed_state t k = make_ready t (k\<lparr>BLOCKED_LIST := remove1 t (BLOCKED_LIST k)\<rparr>)"

lemma wf_kernel_unblock:
  assumes wf: "wf_kernel k" and t: "t \<in> set (BLOCKED_LIST k)"
  shows "wf_kernel (k\<lparr>BLOCKED_LIST := remove1 t (BLOCKED_LIST k)\<rparr>)"
proof -
  have tm: "t < TASK_MAX" "status (TCBS k t) = Blocked"
    using wf_kernel_blocked_range [OF wf] wf_kernel_parked [OF wf] t by auto
  have "distinct (READY_LIST k @ remove1 t (BLOCKED_LIST k) @ SLEEPING_LIST k)"
    using wf by (auto simp: wf_kernel_def wf_lists_def dest: notin_set_remove1)
  then show ?thesis
    using wf tm by (intro wf_kernel_move [OF wf tm(1)])
      (simp_all add: wf_kernel_tid wf_kernel_bit wf_kernel_ready_iff del: TASK_MAX_def)
qed

lemma task_resume_safe:
  assumes wf: "wf_kernel k" and t: "t \<in> set (BLOCKED_LIST k)"
  shows "safe_inv k \<Longrightarrow> safe_inv (resumed_state t k)" and "kernel_inv k \<Longrightarrow> kernel_inv (resumed_state t k)"
    and "task_resume t k = (if CURRENT_TCB k \<noteq> None \<and> (\<forall>c. CURRENT_TCB k = Some c \<longrightarrow> pri k t < pri k c)
           then yield_task (resumed_state t k) else Some (resumed_state t k))"
proof -
  let ?k1 = "k\<lparr>BLOCKED_LIST := remove1 t (BLOCKED_LIST k)\<rparr>"
  have tm: "t < TASK_MAX" "status (TCBS k t) = Blocked"
    using wf_kernel_blocked_range [OF wf] wf_kernel_parked [OF wf] t by auto
  have nl: "t \<notin> set (SLEEPING_LIST k)" "t \<notin> set (READY_LIST k)"
    using wf_kernel_disjoint [OF wf] t wf_kernel_ready_iff [OF wf tm(1)] tm(2) by auto
  have wf1: "wf_kernel ?k1" by (rule wf_kernel_unblock [OF wf t])
  have nb: "t \<notin> set (BLOCKED_LIST ?k1)" using wf_kernel_distinct(2) [OF wf] by simp
  have "wf_kernel (resumed_state t k)"
    unfolding resumed_state_def using tm nl(1) nb by (intro wf_kernel_make_ready [OF wf1]) simp_all
  then show "safe_inv k \<Longrightarrow> safe_inv (resumed_state t k)"
    by (auto simp: safe_inv_def current_ready_def resumed_state_def)
  show "kernel_inv (resumed_state t k)" if "kernel_inv k"
  proof -
    have "kernel_inv ?k1" using that wf1 by (simp add: kernel_inv_def ready_sorted_def current_ready_def)
    with tm nl(1) nb show ?thesis unfolding resumed_state_def by (intro kernel_inv_make_ready) simp_all
  qed
  have ins: "ready_insert t (pri k t) (?k1\<lparr>TCBS := (TCBS k)(t := (TCBS k t)\<lparr>status := Ready\<rparr>)\<rparr>) = Some (resumed_state t k)"
    using ready_insert_make_ready [OF wf1 tm(1) _ refl] nl(2) by (simp add: resumed_state_def)
  have cp: "current_priority (resumed_state t k) = Some (pri k c)" if "CURRENT_TCB k = Some c" for c
    using that wf_kernel_current [OF wf that] by (simp add: current_priority_def current_tcb_def resumed_state_def)
  show "task_resume t k = (if CURRENT_TCB k \<noteq> None \<and> (\<forall>c. CURRENT_TCB k = Some c \<longrightarrow> pri k t < pri k c)
           then yield_task (resumed_state t k) else Some (resumed_state t k))"
    using tm t ins cp by (cases "CURRENT_TCB k") (auto simp: task_resume_def Let_def resumed_state_def)
qed

lemma task_resume_step:
  assumes "kernel_inv k" "t \<in> set (BLOCKED_LIST k)"
  shows "kernel_inv (resumed_state t k)"
    and "task_resume t k = (if CURRENT_TCB k \<noteq> None \<and> (\<forall>c. CURRENT_TCB k = Some c \<longrightarrow> pri k t < pri k c)
           then yield_task (resumed_state t k) else Some (resumed_state t k))"
proof -
  have "wf_kernel k" using assms(1) by (simp add: kernel_inv_def)
  from task_resume_safe(2,3) [OF this assms(2)] assms(1)
  show "kernel_inv (resumed_state t k)"
    and "task_resume t k = (if CURRENT_TCB k \<noteq> None \<and> (\<forall>c. CURRENT_TCB k = Some c \<longrightarrow> pri k t < pri k c)
           then yield_task (resumed_state t k) else Some (resumed_state t k))" by blast+
qed

definition dead_state :: "nat \<Rightarrow> kernel \<Rightarrow> kernel" where
  "dead_state t k = k\<lparr>READY_LIST := remove1 t (READY_LIST k), SLEEPING_LIST := remove1 t (SLEEPING_LIST k),
     BLOCKED_LIST := remove1 t (BLOCKED_LIST k), TID_BITMAP := TID_BITMAP k AND NOT (push_bit t 1),
     TCBS := (TCBS k)(t := (TCBS k t)\<lparr>status := Terminated\<rparr>)\<rparr>"

lemma wf_kernel_dead_state:
  assumes wf: "wf_kernel k" and t: "t < TASK_MAX" "status (TCBS k t) \<noteq> Terminated"
  shows "wf_kernel (dead_state t k)"
proof -
  have d: "distinct (READY_LIST (dead_state t k) @ BLOCKED_LIST (dead_state t k) @ SLEEPING_LIST (dead_state t k))"
    using wf by (auto simp: wf_kernel_def wf_lists_def dead_state_def dest!: notin_set_remove1)
  show ?thesis
    by (rule wf_kernel_move [OF wf t(1) d])
      (use wf t in \<open>simp_all add: dead_state_def wf_kernel_tid wf_kernel_bit wf_kernel_distinct set_remove1_eq del: TASK_MAX_def\<close>)
qed

lemma mid_inv_dead_state:
  assumes inv: "mid_inv k" and t: "t < TASK_MAX" "status (TCBS k t) \<noteq> Terminated"
    and i: "i \<in> set (READY_LIST k)" "i \<noteq> t"
  shows "mid_inv (dead_state t k)"
proof -
  have "wf_kernel (dead_state t k)" using inv t by (intro wf_kernel_dead_state) (simp_all add: mid_inv_def)
  moreover have "ready_sorted (dead_state t k)"
  proof -
    have "pri (dead_state t k) = pri k" by (simp add: dead_state_def fun_eq_iff)
    then show ?thesis using inv by (simp add: mid_inv_def ready_sorted_def dead_state_def sorted_map_remove1)
  qed
  moreover have "i \<in> set (READY_LIST (dead_state t k))" using i by (simp add: dead_state_def)
  then have "READY_LIST (dead_state t k) \<noteq> []" by auto
  ultimately show ?thesis using inv by (simp add: mid_inv_def dead_state_def)
qed

lemma task_terminate_step:
  assumes "t < TASK_MAX"
  shows "task_terminate t k = (if status (TCBS k t) = Terminated then Some k else yield_task (dead_state t k))"
  using assms by (simp add: task_terminate_def ready_remove_def free_tid_def dead_state_def Let_def)

lemma task_exit_current_dead:
  assumes wf: "wf_kernel k" and c: "CURRENT_TCB k = Some c" "c \<in> set (READY_LIST k)"
  shows "task_exit_current k = yield_task (dead_state c k)"
proof -
  have "remove1 c (SLEEPING_LIST k) = SLEEPING_LIST k" "remove1 c (BLOCKED_LIST k) = BLOCKED_LIST k"
    using wf_kernel_disjoint(1) [OF wf c(2)] by (simp_all add: remove1_idem)
  then have "free_tid c (ready_remove c k) = dead_state c k"
    using ready_not_terminated [OF wf c(2)] by (simp add: free_tid_def ready_remove_def dead_state_def)
  then show ?thesis using current_tid_simp [OF wf c(1)] by (simp add: task_exit_current_def)
qed

lemma task_exit_current_step:
  assumes "kernel_inv k" "CURRENT_TCB k = Some c"
  shows "task_exit_current k = yield_task (dead_state c k)"
  using assms by (intro task_exit_current_dead) (auto simp: kernel_inv_def current_ready_def)

text \<open>The state in which the current task has entered the sleeping list.\<close>

definition asleep_state :: "nat \<Rightarrow> u32 \<Rightarrow> kernel \<Rightarrow> kernel" where
  "asleep_state c w k = k\<lparr>TCBS := (TCBS k)(c := (TCBS k c)\<lparr>wake_point := w, status := Blocked\<rparr>),
     READY_LIST := remove1 c (READY_LIST k),
     SLEEPING_LIST := insert_before (\<lambda>s. w < wake_point (TCBS k s)) c (SLEEPING_LIST k)\<rparr>"

lemma asleep_state_fields [simp]:
  "OS_TICKS (asleep_state c w k) = OS_TICKS k" "CURRENT_TCB (asleep_state c w k) = CURRENT_TCB k"
  "SCHED_READY (asleep_state c w k) = SCHED_READY k" "BLOCKED_LIST (asleep_state c w k) = BLOCKED_LIST k"
  "READY_LIST (asleep_state c w k) = remove1 c (READY_LIST k)"
  "set (SLEEPING_LIST (asleep_state c w k)) = insert c (set (SLEEPING_LIST k))"
  "TCBS (asleep_state c w k) t =
     (if t = c then (TCBS k c)\<lparr>wake_point := w, status := Blocked\<rparr> else TCBS k t)"
  by (simp_all add: asleep_state_def)

lemma wf_kernel_asleep_state:
  assumes wf: "wf_kernel k" and c: "c \<in> set (READY_LIST k)"
  shows "wf_kernel (asleep_state c w k)"
proof -
  note cm = ready_not_terminated [OF wf c] and nl = wf_kernel_disjoint(1) [OF wf c]
  let ?kw = "k\<lparr>TCBS := (TCBS k)(c := (TCBS k c)\<lparr>wake_point := w\<rparr>)\<rparr>"
  have "wf_kernel ?kw" by (subst kernel_inv_cong(2) [of _ k]) (simp_all add: wf)
  then have m: "wf_kernel (make_blocked c ?kw)" using cm nl by (intro wf_kernel_make_blocked) simp_all
  have "asleep_state c w k = (make_blocked c ?kw)
      \<lparr>SLEEPING_LIST := insert_before (\<lambda>s. w < wake_point (TCBS k s)) c (SLEEPING_LIST (make_blocked c ?kw))\<rparr>"
    by (simp add: asleep_state_def make_blocked_def)
  also have "wf_kernel \<dots>" using wf_kernel_park(2) [OF m] cm nl by simp
  finally show ?thesis .
qed

lemma asleep_state_mid:
  assumes inv: "kernel_inv k" and c: "c \<in> set (READY_LIST k)" and i: "i \<in> set (READY_LIST k)" "i \<noteq> c"
  shows "mid_inv (asleep_state c w k)"
proof -
  have "ready_sorted (asleep_state c w k) = ready_sorted (make_blocked c k)"
    by (rule ready_sorted_cong) (simp_all add: asleep_state_def make_blocked_def)
  moreover have "i \<in> set (remove1 c (READY_LIST k))" using i by simp
  then have "remove1 c (READY_LIST k) \<noteq> []" by auto
  ultimately show ?thesis
    using inv wf_kernel_asleep_state [OF _ c, of w] ready_sorted_make_blocked [of k c]
    by (simp add: mid_inv_def kernel_inv_def current_ready_def)
qed

lemma sleep_insert_current:
  assumes wf: "wf_kernel k" and c: "c \<in> set (READY_LIST k)"
  shows "sleep_insert c w (ready_remove c (k\<lparr>TCBS := (TCBS k)(c := (TCBS k c)\<lparr>wake_point := w, status := Blocked\<rparr>)\<rparr>))
       = Some (asleep_state c w k)"
proof -
  note cm = ready_not_terminated [OF wf c] and nl = wf_kernel_disjoint(1) [OF wf c]
  let ?k1 = "ready_remove c (k\<lparr>TCBS := (TCBS k)(c := (TCBS k c)\<lparr>wake_point := w, status := Blocked\<rparr>)\<rparr>)"
  have "sleep_insert c w ?k1
     = Some (?k1\<lparr>SLEEPING_LIST := insert_before (\<lambda>t. w < wake_point (TCBS ?k1 t)) c (SLEEPING_LIST ?k1)\<rparr>)"
    using wf_kernel_sleeping_range [OF wf] wf_kernel_lengths(3) [OF wf, of c] cm nl
    by (intro sleep_insert_before) (simp_all add: ready_remove_def)
  also have "insert_before (\<lambda>t. w < wake_point (TCBS ?k1 t)) c (SLEEPING_LIST ?k1)
      = insert_before (\<lambda>t. w < wake_point (TCBS k t)) c (SLEEPING_LIST k)"
    using nl by (simp add: ready_remove_def) (rule insert_before_cong, auto)
  finally show ?thesis by (simp add: asleep_state_def ready_remove_def del: fun_upd_apply)
qed

lemma task_delay_safe:
  assumes inv: "safe_inv k" and c: "CURRENT_TCB k = Some c" and n: "n \<noteq> 0"
  shows "task_delay n k = yield_task (asleep_state c (OS_TICKS k + n) k)"
proof -
  from inv have wf: "wf_kernel k" and cr: "c \<in> set (READY_LIST k)"
    using c by (auto simp: safe_inv_def current_ready_def)
  then show ?thesis
    using sleep_insert_current [OF wf cr] n ready_not_terminated [OF wf cr] current_tid_simp [OF wf c]
    by (simp add: task_delay_def Let_def os_ticks_def)
qed

lemmas task_delay_step = task_delay_safe [OF kernel_inv_safe]

lemma sched_launch_step:
  assumes inv: "kernel_inv k" and st: "stacks_ok k" and cold: "\<not> SCHED_READY k"
    and f: "length f \<le> TASK_CLOSURE_SIZE"
  shows "if {t. t < TASK_MAX \<and> status (TCBS k t) = Terminated} = {} then sched_launch ca f i k = None
         else returns (\<lambda>k'. kernel_inv k' \<and> stacks_ok k' \<and> SCHED_READY k' \<and> runs_best k'
                \<and> set (READY_LIST k) \<subseteq> set (READY_LIST k')
                \<and> (\<exists>idle \<in> set (READY_LIST k'). tname (TCBS k' idle) = ''idle'' \<and> pri k' idle = PRI_MIN))
              (sched_launch ca f i k)"
proof -
  obtain r k1 where r: "task_create ca f i PRI_MIN ''idle'' k = Some (r, k1)"
    "kernel_inv k1" "stacks_ok k1" "SCHED_READY k1 = SCHED_READY k"
    "case r of Inl e \<Rightarrow> k1 = k \<and> {t. t < TASK_MAX \<and> status (TCBS k t) = Terminated} = {}
           | Inr t \<Rightarrow> create_post ca f i PRI_MIN ''idle'' k t k1"
    using task_create_spec [OF inv st f, of ca i PRI_MIN "''idle''"] by (auto simp: returns_iff)
  show ?thesis
  proof (cases r)
    case (Inl e)
    with r show ?thesis by (simp add: sched_launch_def)
  next
    case (Inr t)
    with r(5) have post: "create_post ca f i PRI_MIN ''idle'' k t k1" by simp
    then have ne: "{t. t < TASK_MAX \<and> status (TCBS k t) = Terminated} \<noteq> {}"
      and t: "t \<in> set (READY_LIST k1)" "tname (TCBS k1 t) = ''idle''" "pri k1 t = PRI_MIN"
      and sub: "set (READY_LIST k) \<subseteq> set (READY_LIST k1)"
      unfolding create_post_def by blast+
    from t(1) obtain h hs where hs: "READY_LIST k1 = h # hs" by (cases "READY_LIST k1") auto
    from r(2) have wf1: "wf_kernel k1" "ready_sorted k1" "CURRENT_TCB k1 = None"
      using cold r(4) by (auto simp: kernel_inv_def current_ready_def)
    have h: "h < TASK_MAX" "status (TCBS k1 h) \<noteq> Terminated" "status (TCBS k1 h) \<noteq> Blocked"
      using ready_not_terminated [OF wf1(1), of h] hs by simp_all
    let ?k2 = "k1\<lparr>TCBS := (TCBS k1)(h := (TCBS k1 h)\<lparr>status := Running\<rparr>),
        CURRENT_TCB := Some h, SCHED_READY := True\<rparr>"
    have eq: "sched_launch ca f i k = Some ?k2"
      using r(1) Inr hs h(1) by (simp add: sched_launch_def tl_is_empty_def tl_front_def)
    let ?k3 = "k1\<lparr>CURRENT_TCB := Some h\<rparr>"
    have nr: "status (TCBS k1 s) \<noteq> Running" if "s < TASK_MAX" for s
      using wf1(1,3) that by (auto simp: wf_kernel_def wf_current_def)
    have wf3: "wf_kernel ?k3"
      using wf1(1) h nr wf_kernel_tid [OF wf1(1) h(1,2)]
      by (auto simp: wf_kernel_def wf_lists_def wf_ids_def wf_current_def simp del: TASK_MAX_def)
    have d: "distinct (READY_LIST ?k2 @ BLOCKED_LIST ?k2 @ SLEEPING_LIST ?k2)"
      using wf1(1) by (simp add: wf_kernel_def wf_lists_def)
    have "wf_kernel ?k2"
      by (rule wf_kernel_move [OF wf3 h(1) d])
        (use wf3 h hs wf_kernel_disjoint(1) [OF wf1(1), of h] in
          \<open>auto simp: wf_kernel_tid [OF wf1(1)] wf_kernel_bit [OF wf1(1)] simp del: TASK_MAX_def\<close>)
    moreover have p: "(\<lambda>s. pri ?k2 s) = pri k1" by (simp add: fun_eq_iff)
    then have "ready_sorted ?k2" using wf1(2) by (simp add: ready_sorted_def)
    ultimately have "kernel_inv ?k2" using hs by (simp add: kernel_inv_def current_ready_def)
    moreover have "runs_best ?k2" using wf1(2) hs by (auto simp: runs_best_def ready_sorted_def)
    moreover have "stacks_ok ?k2" using r(3) by (simp add: stacks_ok_def)
    ultimately show ?thesis using eq ne t sub by (auto intro!: bexI [of _ t])
  qed
qed

subsection \<open>Properties of the life cycle\<close>

lemma yield_task_sched:
  assumes "mid_inv k" "SCHED_READY k"
  shows "returns (\<lambda>k'. kernel_inv k' \<and> sched_frame k k') (yield_task k)"
proof -
  from assms obtain c where c: "CURRENT_TCB k = Some c" "wf_kernel k" by (auto simp: mid_inv_def)
  with next_tcb_frame [OF c(2,1)] yield_task_mid [OF assms(1)] assms(2) show ?thesis
    by (auto simp: yield_task_def returns_iff)
qed

lemma yield_frame_status:
  assumes "yield_frame k k'" "t \<notin> set (SLEEPING_LIST k)" "t \<notin> set (READY_LIST k)"
    "status (TCBS k t) = Blocked \<or> status (TCBS k t) = Terminated"
  shows "status (TCBS k' t) = status (TCBS k t)"
  using assms unfolding yield_frame_def sched_frame_def by blast

lemma task_block_spec:
  assumes "kernel_inv k" and "t \<in> set (READY_LIST k)" and "i \<in> set (READY_LIST k)" and "i \<noteq> t"
  shows "returns (\<lambda>k1. kernel_inv k1 \<and> i \<in> set (READY_LIST k1) \<and> SCHED_READY k1 = SCHED_READY k
           \<and> STACKS k1 = STACKS k \<and> t \<in> set (BLOCKED_LIST k1) \<and> t \<notin> set (READY_LIST k1)
           \<and> CURRENT_TCB k1 \<noteq> Some t) (task_block t k)"
proof -
  note step = task_block_step [OF assms]
  have wf: "wf_kernel k" using assms(1) by (simp add: kernel_inv_def)
  note nl = wf_kernel_disjoint(1) [OF wf assms(2)]
  have d: "distinct (READY_LIST k)" by (rule wf_kernel_distinct(1) [OF wf])
  show ?thesis unfolding step(2)
  proof (rule sched.yield_mono [OF step(1)])
    fix k1 assume k1: "kernel_inv k1" "yield_frame (blocked_state t k) k1"
    note fr = yield_frameD [OF k1(2)]
    have B: "BLOCKED_LIST k1 = BLOCKED_LIST k @ [t]" using fr(5) by (simp add: blocked_state_def)
    have nr: "t \<notin> set (READY_LIST k1)" using fr(7) nl d by (auto simp: blocked_state_def)
    then have "CURRENT_TCB k1 \<noteq> Some t" using k1(1) by (auto simp: kernel_inv_def current_ready_def)
    moreover have "i \<in> set (READY_LIST k1)" using fr(6) assms(3,4) by (auto simp: blocked_state_def)
    ultimately show "kernel_inv k1 \<and> i \<in> set (READY_LIST k1) \<and> SCHED_READY k1 = SCHED_READY k
           \<and> STACKS k1 = STACKS k \<and> t \<in> set (BLOCKED_LIST k1) \<and> t \<notin> set (READY_LIST k1)
           \<and> CURRENT_TCB k1 \<noteq> Some t"
      using k1(1) B nr fr(2,9) by (simp add: blocked_state_def make_blocked_def)
  qed
qed

lemma task_resume_spec:
  assumes "kernel_inv k" and "t \<in> set (BLOCKED_LIST k)"
  shows "returns (\<lambda>k1. kernel_inv k1 \<and> insert t (set (READY_LIST k)) \<subseteq> set (READY_LIST k1)
           \<and> SCHED_READY k1 = SCHED_READY k \<and> STACKS k1 = STACKS k
           \<and> BLOCKED_LIST k1 = remove1 t (BLOCKED_LIST k)) (task_resume t k)"
  unfolding task_resume_step(2) [OF assms]
proof (rule sched.yield_if)
  note inv = task_resume_step(1) [OF assms]
  show "mid_inv (resumed_state t k)" by (rule kernel_inv_mid [OF inv])
  show "kernel_inv (resumed_state t k)" by (rule inv)
  fix k1 assume k1: "kernel_inv k1" "yield_frame (resumed_state t k) k1"
  note fr = yield_frameD [OF k1(2)]
  show "kernel_inv k1 \<and> insert t (set (READY_LIST k)) \<subseteq> set (READY_LIST k1)
       \<and> SCHED_READY k1 = SCHED_READY k \<and> STACKS k1 = STACKS k
       \<and> BLOCKED_LIST k1 = remove1 t (BLOCKED_LIST k)"
    using k1(1) fr(2,5,6,9) by (simp add: resumed_state_def) (simp add: make_ready_def)
qed

lemma task_terminate_spec:
  assumes "kernel_inv k" and "t < TASK_MAX" and "i \<in> set (READY_LIST k)" and "i \<noteq> t"
  shows "returns (\<lambda>k1. kernel_inv k1 \<and> i \<in> set (READY_LIST k1) \<and> SCHED_READY k1 = SCHED_READY k
           \<and> STACKS k1 = STACKS k \<and> status (TCBS k1 t) = Terminated
           \<and> t \<notin> set (READY_LIST k1 @ BLOCKED_LIST k1 @ SLEEPING_LIST k1)
           \<and> \<not> bit (TID_BITMAP k1) t) (task_terminate t k)"
proof (cases "status (TCBS k t) = Terminated")
  case True
  have wf: "wf_kernel k" using assms(1) by (simp add: kernel_inv_def)
  show ?thesis
    using fresh_not_listed [OF wf assms(2) True] wf_kernel_bit [OF wf assms(2)] True assms
    by (simp add: task_terminate_step)
next
  case False
  have wf: "wf_kernel k" using assms(1) by (simp add: kernel_inv_def)
  note d = wf_kernel_distinct [OF wf]
  have m: "mid_inv (dead_state t k)"
    using mid_inv_dead_state [OF kernel_inv_mid [OF assms(1)] assms(2) False assms(3,4)] .
  show ?thesis unfolding task_terminate_step [OF assms(2)] if_not_P [OF False]
  proof (rule sched.yield_mono [OF m])
    fix k1 assume k1: "kernel_inv k1" "yield_frame (dead_state t k) k1"
    note fr = yield_frameD [OF k1(2)]
    have nl: "t \<notin> set (READY_LIST (dead_state t k))" "t \<notin> set (BLOCKED_LIST (dead_state t k))"
      "t \<notin> set (SLEEPING_LIST (dead_state t k))" using d by (simp_all add: dead_state_def)
    have st: "status (TCBS k1 t) = Terminated"
      using yield_frame_status [OF k1(2) nl(3,1)] by (simp add: dead_state_def)
    have wf1: "wf_kernel k1" using k1(1) by (simp add: kernel_inv_def)
    have "i \<in> set (READY_LIST k1)" using fr(6) assms(3,4) by (auto simp: dead_state_def)
    then show "kernel_inv k1 \<and> i \<in> set (READY_LIST k1) \<and> SCHED_READY k1 = SCHED_READY k
           \<and> STACKS k1 = STACKS k \<and> status (TCBS k1 t) = Terminated
           \<and> t \<notin> set (READY_LIST k1 @ BLOCKED_LIST k1 @ SLEEPING_LIST k1) \<and> \<not> bit (TID_BITMAP k1) t"
      using k1(1) st fresh_not_listed [OF wf1 assms(2) st] wf_kernel_bit [OF wf1 assms(2)] fr(2,9)
      by (simp add: dead_state_def)
  qed
qed

lemma task_exit_current_spec:
  assumes "kernel_inv k" and "CURRENT_TCB k = Some c" and "i \<in> set (READY_LIST k)" and "i \<noteq> c"
  shows "returns (\<lambda>k1. kernel_inv k1 \<and> i \<in> set (READY_LIST k1) \<and> SCHED_READY k1 = SCHED_READY k
           \<and> STACKS k1 = STACKS k \<and> status (TCBS k1 c) = Terminated \<and> CURRENT_TCB k1 \<noteq> Some c
           \<and> \<not> bit (TID_BITMAP k1) c) (task_exit_current k)"
proof -
  have wf: "wf_kernel k" and c: "c \<in> set (READY_LIST k)"
    using assms(1,2) by (auto simp: kernel_inv_def current_ready_def)
  from ready_not_terminated [OF wf c] have "task_exit_current k = task_terminate c k"
    using task_exit_current_step [OF assms(1,2)] task_terminate_step [of c k] by simp
  then show ?thesis
    using task_terminate_spec [OF assms(1) _ assms(3,4)] ready_not_terminated [OF wf c]
    by (auto elim!: returns_mono simp: kernel_inv_def current_ready_def)
qed

lemma task_delay_spec:
  assumes "kernel_inv k" and "CURRENT_TCB k = Some c" and "i \<in> set (READY_LIST k)" and "i \<noteq> c" and "n \<noteq> 0"
  shows "returns (\<lambda>k1. kernel_inv k1 \<and> i \<in> set (READY_LIST k1) \<and> SCHED_READY k1 = SCHED_READY k
           \<and> STACKS k1 = STACKS k \<and> OS_TICKS k1 = OS_TICKS k
           \<and> (if OS_TICKS k + n \<le> OS_TICKS k then c \<in> set (READY_LIST k1)
              else c \<in> set (SLEEPING_LIST k1) \<and> wake_point (TCBS k1 c) = OS_TICKS k + n))
         (task_delay n k)"
proof -
  let ?a = "asleep_state c (OS_TICKS k + n) k"
  have wf: "wf_kernel k" and c: "c \<in> set (READY_LIST k)" and rdy: "SCHED_READY k"
    using assms(1,2) by (auto simp: kernel_inv_def current_ready_def)
  have m: "mid_inv ?a" using asleep_state_mid [OF assms(1) c assms(3,4)] .
  have ex: "expired ?a c \<longleftrightarrow> OS_TICKS k + n \<le> OS_TICKS k" by (simp add: expired_def)
  obtain k1 where k1: "yield_task ?a = Some k1" "kernel_inv k1" "sched_frame ?a k1" "STACKS k1 = STACKS ?a"
    using yield_task_sched [OF m] yield_task_mid [OF m] rdy yield_frameD(9)
    by (auto simp: returns_iff)
  note fr = sched_frameD [OF k1(3)]
  have "i \<in> set (READY_LIST k1)" using fr(6) assms(3,4) by simp
  moreover have "c \<in> set (READY_LIST k1)" if "OS_TICKS k + n \<le> OS_TICKS k"
    using fr(6) ex that by simp
  moreover have "c \<in> set (SLEEPING_LIST k1) \<and> wake_point (TCBS k1 c) = OS_TICKS k + n"
    if "\<not> OS_TICKS k + n \<le> OS_TICKS k"
    using fr(5) fr(9) [of c] ex that by simp
  ultimately show ?thesis
    unfolding task_delay_step [OF assms(1,2,5)] using k1 fr(4,7) by (simp add: asleep_state_def)
qed

subsection \<open>The kernel as a transition system\<close>

text \<open>
  The calls that the tick interrupt and the running tasks make, in any order. Each is one critical
  section; \<open>kcall_run\<close> drops the values that \<open>create\<close> and \<open>create_raw\<close> return.
\<close>

datatype kcall =
    KTick | KYield | KExit | KDelay u32 | KBlock nat | KResume nat | KTerminate nat
  | KCreate "u8 list" u32 u8 string | KCreateRaw u32 u32 u32 u8 string nat

fun kcall_run :: "code_addrs \<Rightarrow> kcall \<Rightarrow> kernel \<Rightarrow> kernel option" where
  "kcall_run ca KTick k = systick_interrupt k"
| "kcall_run ca KYield k = yield_task k"
| "kcall_run ca KExit k = task_exit_current k"
| "kcall_run ca (KDelay n) k = task_delay n k"
| "kcall_run ca (KBlock t) k = task_block t k"
| "kcall_run ca (KResume t) k = task_resume t k"
| "kcall_run ca (KTerminate t) k = task_terminate t k"
| "kcall_run ca (KCreate f i p n) k = map_option snd (task_create ca f i p n k)"
| "kcall_run ca (KCreateRaw addr entry param p n sz) k =
     map_option snd (task_create_raw ca addr entry param p n sz k)"

text \<open>
  The calls a correct application makes: it neither blocks nor ends the idle task (which itself
  calls nothing), passes task identifiers below \<open>TASK_MAX\<close>, and gives closures and stacks of a
  size the code accepts.
\<close>

fun kcall_ok :: "nat \<Rightarrow> kcall \<Rightarrow> kernel \<Rightarrow> bool" where
  "kcall_ok idle KExit k = (CURRENT_TCB k \<noteq> Some idle)"
| "kcall_ok idle (KDelay n) k = (CURRENT_TCB k \<noteq> Some idle)"
| "kcall_ok idle (KBlock t) k = (t < TASK_MAX \<and> t \<noteq> idle)"
| "kcall_ok idle (KResume t) k = (t < TASK_MAX)"
| "kcall_ok idle (KTerminate t) k = (t < TASK_MAX \<and> t \<noteq> idle)"
| "kcall_ok idle (KCreate f i p n) k = (length f \<le> TASK_CLOSURE_SIZE)"
| "kcall_ok idle (KCreateRaw addr entry param p n sz) k = (CONTEXT_WORDS < sz div 4)"
| "kcall_ok idle c k = True"

text \<open>Before \<open>launch\<close> the program creates tasks; after it the calls above run the system.\<close>

inductive kboot :: "code_addrs \<Rightarrow> kernel \<Rightarrow> bool" for ca where
  boot_start: "kboot ca (kernel_boot base)"
| boot_create: "kboot ca k \<Longrightarrow> task_create ca f i p n k = Some (r, k') \<Longrightarrow> kboot ca k'"
| boot_create_raw: "kboot ca k \<Longrightarrow> CONTEXT_WORDS < sz div 4
     \<Longrightarrow> task_create_raw ca addr entry param p n sz k = Some (r, k') \<Longrightarrow> kboot ca k'"

inductive kreach :: "code_addrs \<Rightarrow> nat \<Rightarrow> kernel \<Rightarrow> bool" for ca idle where
  reach_launch: "kboot ca k \<Longrightarrow> sched_launch ca f i k = Some k' \<Longrightarrow> idle \<in> set (READY_LIST k')
     \<Longrightarrow> kreach ca idle k'"
| reach_call: "kreach ca idle k \<Longrightarrow> kcall_ok idle c k \<Longrightarrow> kcall_run ca c k = Some k' \<Longrightarrow> kreach ca idle k'"

inductive_cases kbootE: "kboot ca k"
inductive_cases kreachE: "kreach ca idle k"

definition live_inv :: "nat \<Rightarrow> kernel \<Rightarrow> bool" where
  "live_inv idle k \<longleftrightarrow> kernel_inv k \<and> stacks_ok k \<and> SCHED_READY k \<and> idle \<in> set (READY_LIST k)"

lemma task_create_small:
  "task_create ca f i p n k = Some r \<Longrightarrow> length f \<le> TASK_CLOSURE_SIZE"
  by (auto simp: task_create_def split: if_splits)

lemma kboot_inv: "kboot ca k \<Longrightarrow> kernel_inv k \<and> stacks_ok k \<and> \<not> SCHED_READY k"
proof (induction rule: kboot.induct)
  case (boot_start base)
  then show ?case
    using kernel_inv_boot [of base] by (simp add: stacks_ok_def kernel_boot_def)
next
  case (boot_create k f i p n r k')
  then have "kernel_inv k" "stacks_ok k" by simp_all
  from task_create_spec [OF this task_create_small [OF boot_create(2)], of ca i p n] boot_create
  show ?case by simp
next
  case (boot_create_raw k sz addr entry param p n r k')
  then have "kernel_inv k" "stacks_ok k" by simp_all
  from task_create_raw_spec [OF this boot_create_raw(2), where ca = ca and addr = addr and entry = entry and param = param and p = p and n = n] boot_create_raw
  show ?case by simp
qed

lemma systick_interrupt_stacks:
  assumes "kernel_inv k" "CURRENT_TCB k = Some c" "systick_interrupt k = Some k'"
  shows "STACKS k' = STACKS k"
proof -
  have wf: "wf_kernel k" and rdy: "SCHED_READY k"
    using assms(1,2) by (auto simp: kernel_inv_def current_ready_def)
  have t: "wf_kernel (ticked c k)" "CURRENT_TCB (ticked c k) = Some c" "STACKS (ticked c k) = STACKS k"
    using kernel_inv_ticked [OF assms(1), of c] assms(2) by (simp_all add: kernel_inv_def ticked_def)
  show ?thesis
    using assms(3) memory_frame_next_tcb [OF t(1,2)] t(3)
    by (auto simp: systick_interrupt_def systick_tick_closed [OF wf assms(2) rdy] memory_frame_def
        split: if_splits)
qed

lemma kcall_live:
  assumes live: "live_inv idle k" and ok: "kcall_ok idle c k"
  shows "returns (live_inv idle) (kcall_run ca c k)"
proof -
  from live have inv: "kernel_inv k" and st: "stacks_ok k" and rdy: "SCHED_READY k"
    and idle: "idle \<in> set (READY_LIST k)" by (simp_all add: live_inv_def)
  then obtain cur where cur: "CURRENT_TCB k = Some cur" by (auto simp: kernel_inv_def current_ready_def)
  have wf: "wf_kernel k" using inv by (simp add: kernel_inv_def)
  note stk = stacks_ok_def
  show ?thesis
  proof (cases c)
    case KTick
    obtain k' where k': "systick_interrupt k = Some k'" "kernel_inv k'" "CURRENT_TCB k' \<noteq> None"
      "set (READY_LIST k) \<subseteq> set (READY_LIST k')"
      by (rule systick_interrupt_step [OF inv cur]) auto
    then show ?thesis
      using KTick idle st systick_interrupt_stacks [OF inv cur k'(1)]
      by (auto simp: live_inv_def stk kernel_inv_def current_ready_def)
  next
    case KYield
    have "returns (live_inv idle) (yield_task k)"
      by (rule sched.yield_mono [OF kernel_inv_mid [OF inv]])
        (use yield_frameD(2,9) subsetD [OF yield_frameD(6)] rdy idle st in \<open>auto simp: live_inv_def stk\<close>)
    then show ?thesis by (simp add: KYield)
  next
    case KExit
    with ok cur have "idle \<noteq> cur" by auto
    from task_exit_current_spec [OF inv cur idle this] show ?thesis
      using KExit rdy st by (auto simp: live_inv_def stk elim!: returns_mono)
  next
    case (KDelay n)
    with ok cur have "idle \<noteq> cur" by auto
    then show ?thesis
      using KDelay live task_delay_spec [OF inv cur idle, of n] rdy st
      by (cases "n = 0") (auto simp: task_delay_def live_inv_def stk elim!: returns_mono)
  next
    case (KBlock t)
    with ok have t: "t < TASK_MAX" "idle \<noteq> t" by auto
    show ?thesis
    proof (cases "t \<in> set (READY_LIST k)")
      case True
      from task_block_spec [OF inv True idle t(2)] show ?thesis
        using KBlock rdy st by (auto simp: live_inv_def stk elim!: returns_mono)
    next
      case False
      with task_block_other [OF t(1) wf] live show ?thesis by (simp add: KBlock)
    qed
  next
    case (KResume t)
    with ok have t: "t < TASK_MAX" by simp
    show ?thesis
    proof (cases "t \<in> set (BLOCKED_LIST k)")
      case True
      from task_resume_spec [OF inv True] show ?thesis
        using KResume rdy st idle by (auto simp: live_inv_def stk elim!: returns_mono)
    next
      case False
      with t live show ?thesis by (simp add: KResume task_resume_def)
    qed
  next
    case (KTerminate t)
    with ok have t: "t < TASK_MAX" "idle \<noteq> t" by auto
    from task_terminate_spec [OF inv t(1) idle t(2)] show ?thesis
      using KTerminate rdy st by (auto simp: live_inv_def stk elim!: returns_mono)
  next
    case (KCreate f i p n)
    with ok have f: "length f \<le> TASK_CLOSURE_SIZE" by simp
    obtain r k' where k': "task_create ca f i p n k = Some (r, k')" "kernel_inv k'" "stacks_ok k'" "SCHED_READY k'"
      "case r of Inl e \<Rightarrow> k' = k \<and> {t. t < TASK_MAX \<and> status (TCBS k t) = Terminated} = {}
           | Inr t \<Rightarrow> create_post ca f i p n k t k'"
      using task_create_spec [OF inv st f, of ca i p n] rdy by (auto simp: returns_iff)
    then have "idle \<in> set (READY_LIST k')" using idle by (cases r) (auto simp: create_post_def)
    with k' show ?thesis by (simp add: KCreate live_inv_def)
  next
    case (KCreateRaw addr entry param p n sz)
    with ok have "CONTEXT_WORDS < sz div 4" by simp
    have "returns (\<lambda>(r, k'). live_inv idle k') (task_create_raw ca addr entry param p n sz k)"
      by (rule returns_mono [OF task_create_raw_spec [OF inv st \<open>CONTEXT_WORDS < sz div 4\<close>]])
        (use rdy idle in \<open>auto simp: live_inv_def\<close>)
    then show ?thesis by (auto simp: KCreateRaw returns_iff)
  qed
qed

lemma sched_launch_small: "sched_launch ca f i k = Some k' \<Longrightarrow> length f \<le> TASK_CLOSURE_SIZE"
  by (auto simp: sched_launch_def dest!: task_create_small split: Option.bind_splits)

lemma kreach_live: "kreach ca idle k \<Longrightarrow> live_inv idle k"
proof (induction rule: kreach.induct)
  case (reach_launch k f i k')
  from kboot_inv [OF reach_launch(1)] have "kernel_inv k" "stacks_ok k" "\<not> SCHED_READY k" by simp_all
  from sched_launch_step [OF this sched_launch_small [OF reach_launch(2)], of ca i] reach_launch show ?case
    by (auto simp: live_inv_def split: if_splits)
next
  case (reach_call k c k')
  with kcall_live [of idle k c ca] show ?case by simp
qed

text \<open>C2. The kernel never halts: in every state that the system reaches from boot, through
  \<open>launch\<close> and any interleaving of ticks, yields and life-cycle calls that leaves the idle task
  alone, the invariant holds, some task is running, and every further such call returns (no
  index panic, no null current task, no "No ready task") in a reachable state.\<close>

theorem system_never_panics:
  assumes "kreach ca idle k"
  shows "kernel_inv k \<and> CURRENT_TCB k \<noteq> None \<and> idle \<in> set (READY_LIST k)
     \<and> (if kcall_ok idle c k then returns (kreach ca idle) (kcall_run ca c k) else True)"
proof -
  note live = kreach_live [OF assms]
  have "returns (kreach ca idle) (kcall_run ca c k)" if ok: "kcall_ok idle c k"
    using kcall_live [OF live ok, of ca] reach_call [OF assms ok] by (auto simp: returns_iff)
  with live show ?thesis by (auto simp: live_inv_def kernel_inv_def current_ready_def)
qed

definition demo_addrs :: code_addrs where
  "demo_addrs = \<lparr>closure_trampoline_addr = 0x42000000, task_exit_stub_addr = 0x42000100\<rparr>"

lemma demo_reach: "\<exists>k idle. kreach demo_addrs idle k"
proof -
  have "kboot demo_addrs (kernel_boot 0)" by (rule boot_start)
  moreover have "returns (\<lambda>k'. READY_LIST k' \<noteq> []) (sched_launch demo_addrs [] 32 (kernel_boot 0))"
  proof -
    have "(0::nat) \<in> {t. t < TASK_MAX \<and> status (TCBS (kernel_boot 0) t) = Terminated}"
      by (simp add: kernel_boot_def)
    then have ne: "{t. t < TASK_MAX \<and> status (TCBS (kernel_boot 0) t) = Terminated} \<noteq> {}" by blast
    have b: "kernel_inv (kernel_boot 0)" "stacks_ok (kernel_boot 0)" "\<not> SCHED_READY (kernel_boot 0)"
      using kboot_inv [OF boot_start, of 0] by simp_all
    have small: "length ([] :: u8 list) \<le> TASK_CLOSURE_SIZE" by simp
    from sched_launch_step [OF b small, of demo_addrs 32, unfolded if_not_P [OF ne]]
    show ?thesis by (rule returns_mono) auto
  qed
  then obtain k where "sched_launch demo_addrs [] 32 (kernel_boot 0) = Some k" "hd (READY_LIST k) \<in> set (READY_LIST k)"
    by (auto simp: returns_iff)
  ultimately have "kreach demo_addrs (hd (READY_LIST k)) k" by (rule reach_launch)
  then show ?thesis by blast
qed

lemma system_never_panics_witness:
  "\<exists>k idle. kreach demo_addrs idle k \<and> returns (kreach demo_addrs idle) (kcall_run demo_addrs (KCreate [1, 2] 64 3 ''led'') k)"
proof -
  obtain k idle where r: "kreach demo_addrs idle k" using demo_reach by blast
  from system_never_panics [OF r, of "KCreate [1, 2] 64 3 ''led''"] r show ?thesis by auto
qed

text \<open>C7. \<open>Task::create\<close> with a closure that fits either reports a full pool, exactly when no
  task is dead, and changes nothing, or it returns the least dead identifier \<open>t\<close>: \<open>t\<close> is now in the
  ready list with the priority and the name given, its control block holds the closure's bytes and
  its invoker, its stack pointer points at a frame that enters the trampoline and returns to the
  exit stub, and the task that runs afterwards does not have a lower priority than \<open>t\<close>.\<close>

theorem task_create_correct:
  assumes "kernel_inv k" and "stacks_ok k" and "length f \<le> TASK_CLOSURE_SIZE"
  shows "returns (\<lambda>(r, k'). kernel_inv k' \<and> stacks_ok k' \<and> SCHED_READY k' = SCHED_READY k \<and> (case r of
             Inl e \<Rightarrow> k' = k \<and> {t. t < TASK_MAX \<and> status (TCBS k t) = Terminated} = {}
           | Inr t \<Rightarrow> create_post ca f i p n k t k'))
         (task_create ca f i p n k)"
  by (rule task_create_spec [OF assms])

lemma stacks_ok_demo: "stacks_ok demo_kernel"
  by (simp add: stacks_ok_def demo_kernel_def kernel_boot_def)

lemma task_create_correct_witness:
  "returns (\<lambda>(r, k'). r = Inr 3 \<and> 3 \<in> set (READY_LIST k') \<and> kernel_inv k')
     (task_create demo_addrs [7, 8] 64 2 ''led'' demo_kernel)"
proof -
  have small: "length ([7, 8] :: u8 list) \<le> TASK_CLOSURE_SIZE" by simp
  have dead: "\<not> (\<forall>t < 16. status (TCBS demo_kernel t) \<noteq> Terminated)"
    by (auto simp: demo_kernel_def intro!: exI [of _ 3])
  obtain r k' where r: "task_create demo_addrs [7, 8] 64 2 ''led'' demo_kernel = Some (r, k')" "kernel_inv k'"
    "case r of Inl e \<Rightarrow> k' = demo_kernel \<and> {t. t < TASK_MAX \<and> status (TCBS demo_kernel t) = Terminated} = {}
      | Inr t \<Rightarrow> create_post demo_addrs [7, 8] 64 2 ''led'' demo_kernel t k'"
    using task_create_correct [OF kernel_inv_demo stacks_ok_demo small, of demo_addrs 64 2 "''led''"]
    by (auto simp: returns_iff)
  with dead obtain t where t: "r = Inr t" "create_post demo_addrs [7, 8] 64 2 ''led'' demo_kernel t k'"
    by (cases r) auto
  from t(2) have post: "status (TCBS demo_kernel t) = Terminated" "t \<in> set (READY_LIST k')"
    "{s. s < t \<and> status (TCBS demo_kernel s) = Terminated} = {}" by (simp_all add: create_post_def)
  from post(3) have "\<not> (3 < t)" by (auto simp: demo_kernel_def)
  moreover have "t \<noteq> 0" "t \<noteq> 1" "t \<noteq> 2" using post(1) by (auto simp: demo_kernel_def split: if_splits)
  ultimately have "t = 3" by linarith
  with r t(1) post(2) show ?thesis by simp
qed

text \<open>C8. \<open>delay\<close>: unless the tick counter would wrap, a delayed task is asleep after exactly as
  many ticks as are fewer than the delay, and ready after that many ticks, whatever else is
  scheduled meanwhile; when the counter would wrap, the task is ready again at once, because the
  wake-up test compares the counter and the wrapped wake point as plain numbers.\<close>

theorem task_delay_duration:
  assumes "kernel_inv k" and "CURRENT_TCB k = Some c" and "i \<in> set (READY_LIST k)" and "i \<noteq> c" and "n \<noteq> 0"
  shows "if unat (OS_TICKS k) + unat n < 2 ^ 32
         then returns (\<lambda>k1. c \<in> set (SLEEPING_LIST k1)
            \<and> (\<forall>m < unat n. returns (\<lambda>k2. c \<in> set (SLEEPING_LIST k2)) (run_ticks m k1))
            \<and> returns (\<lambda>k2. c \<in> set (READY_LIST k2)) (run_ticks (unat n) k1)) (task_delay n k)
         else returns (\<lambda>k1. c \<in> set (READY_LIST k1)) (task_delay n k)"
proof -
  have n: "0 < unat n" using assms(5) by (simp add: unat_gt_0)
  note spec = task_delay_spec [OF assms]
  have rdy: "SCHED_READY k" using assms(1,2) by (auto simp: kernel_inv_def current_ready_def)
  show ?thesis
  proof (cases "unat (OS_TICKS k) + unat n < 2 ^ 32")
    case True
    then have u: "unat (OS_TICKS k + n) = unat (OS_TICKS k) + unat n" by (simp add: unat_word_ariths)
    then have "\<not> OS_TICKS k + n \<le> OS_TICKS k" using n by (simp add: word_le_nat_alt)
    with spec rdy obtain k1 where k1: "task_delay n k = Some k1" "kernel_inv k1" "SCHED_READY k1"
      "OS_TICKS k1 = OS_TICKS k" "c \<in> set (SLEEPING_LIST k1)" "wake_point (TCBS k1 c) = OS_TICKS k + n"
      by (auto simp: returns_iff)
    have cur: "CURRENT_TCB k1 \<noteq> None" using k1(2,3) by (simp add: kernel_inv_def current_ready_def)
    have lt: "unat (OS_TICKS k1) < unat (wake_point (TCBS k1 c))" and
      diff: "unat (wake_point (TCBS k1 c)) - unat (OS_TICKS k1) = unat n"
      using k1(4,6) u n by simp_all
    note wake = run_ticks_wake [OF k1(2) cur k1(5) lt, unfolded diff]
    have "returns (\<lambda>k2. c \<in> set (READY_LIST k2)) (run_ticks (unat n) k1)"
      using wake(1) by (rule returns_mono) simp
    moreover have "returns (\<lambda>k2. c \<in> set (SLEEPING_LIST k2)) (run_ticks m k1)" if "m < unat n" for m
      using wake(2) [OF that] by (rule returns_mono) simp
    ultimately show ?thesis using True k1(1,5) by simp
  next
    case False
    have lt: "unat (OS_TICKS k) < 2 ^ 32" "unat n < 2 ^ 32"
      using unsigned_less [of "OS_TICKS k", where 'a = nat] unsigned_less [of n, where 'a = nat] by simp_all
    have "unat (OS_TICKS k + n) = unat (OS_TICKS k) + unat n - 2 ^ 32"
      using False lt by (simp add: unat_word_ariths mod_if)
    then have "OS_TICKS k + n \<le> OS_TICKS k" using False lt by (simp add: word_le_nat_alt)
    with spec False show ?thesis by (auto elim!: returns_mono)
  qed
qed

lemma task_delay_duration_witness:
  "returns (\<lambda>k1. returns (\<lambda>k2. 0 \<in> set (SLEEPING_LIST k2)) (run_ticks 2 k1)
      \<and> returns (\<lambda>k2. 0 \<in> set (READY_LIST k2)) (run_ticks 3 k1)) (task_delay 3 demo_kernel)
   \<and> returns (\<lambda>k1. 0 \<in> set (READY_LIST k1)) (task_delay 3 (demo_kernel\<lparr>OS_TICKS := 0xFFFFFFFE\<rparr>))"
proof
  have d: "1 \<in> set (READY_LIST demo_kernel)" "OS_TICKS demo_kernel = 0"
    by (simp_all add: demo_kernel_def kernel_boot_def)
  show "returns (\<lambda>k1. returns (\<lambda>k2. 0 \<in> set (SLEEPING_LIST k2)) (run_ticks 2 k1)
      \<and> returns (\<lambda>k2. 0 \<in> set (READY_LIST k2)) (run_ticks 3 k1)) (task_delay 3 demo_kernel)"
    using task_delay_duration [OF kernel_inv_demo demo_current(1) d(1), of 3] d(2)
    by (auto elim!: returns_mono)
  have "kernel_inv (demo_kernel\<lparr>OS_TICKS := 0xFFFFFFFE\<rparr>)"
    using kernel_inv_demo by (subst kernel_inv_cong(1) [of _ demo_kernel]) simp_all
  from task_delay_duration [OF this, of 0 1 3] d(1)
  show "returns (\<lambda>k1. 0 \<in> set (READY_LIST k1)) (task_delay 3 (demo_kernel\<lparr>OS_TICKS := 0xFFFFFFFE\<rparr>))"
    by simp
qed

text \<open>Blocking a ready task takes it out of the ready list (and, when it is the current one,
  off the processor) into the blocked list, and \<open>resume\<close> puts it back into the ready list; both
  return and keep the invariant.\<close>

theorem task_block_resume:
  assumes "kernel_inv k" and "t \<in> set (READY_LIST k)" and "i \<in> set (READY_LIST k)" and "i \<noteq> t"
  shows "returns (\<lambda>k1. kernel_inv k1 \<and> t \<in> set (BLOCKED_LIST k1) \<and> t \<notin> set (READY_LIST k1)
           \<and> CURRENT_TCB k1 \<noteq> Some t
           \<and> returns (\<lambda>k2. kernel_inv k2 \<and> t \<in> set (READY_LIST k2) \<and> t \<notin> set (BLOCKED_LIST k2))
               (task_resume t k1)) (task_block t k)"
proof -
  have "returns (\<lambda>k2. kernel_inv k2 \<and> t \<in> set (READY_LIST k2) \<and> t \<notin> set (BLOCKED_LIST k2)) (task_resume t k1)"
    if "kernel_inv k1" "t \<in> set (BLOCKED_LIST k1)" for k1
    using task_resume_spec [OF that] wf_kernel_distinct(2) [of k1] that(1)
    by (auto elim!: returns_mono simp: kernel_inv_def)
  with task_block_spec [OF assms] show ?thesis by (auto elim!: returns_mono)
qed

lemma task_block_resume_witness:
  "returns (\<lambda>k1. 0 \<in> set (BLOCKED_LIST k1) \<and> returns (\<lambda>k2. 0 \<in> set (READY_LIST k2)) (task_resume 0 k1))
     (task_block 0 demo_kernel)"
proof -
  have "0 \<in> set (READY_LIST demo_kernel)" "1 \<in> set (READY_LIST demo_kernel)"
    by (simp_all add: demo_kernel_def)
  from task_block_resume [OF kernel_inv_demo this] show ?thesis
    by (auto elim!: returns_mono)
qed

text \<open>The closure that a created task runs is the one it was created with, and it runs at most
  once: when the new task is first dispatched the trampoline calls the invoker it was given on
  storage that starts with the closure's bytes, and a second entry calls nothing.\<close>

theorem closure_runs_once:
  assumes "create_post ca f i p n k t k'"
  shows "returns (\<lambda>(call, k1). (\<exists>bytes. call = Some (i, bytes) \<and> take (length f) bytes = f)
           \<and> closure_trampoline k1 = Some (None, k1)) (closure_trampoline (k'\<lparr>CURRENT_TCB := Some t\<rparr>))"
  using assms by (simp add: create_post_def closure_trampoline_def)

lemma closure_runs_once_witness:
  "\<exists>k0 k1 bytes. closure_trampoline k0 = Some (Some (64, bytes), k1) \<and> take (Suc (Suc 0)) bytes = [7, 8]
     \<and> closure_trampoline k1 = Some (None, k1)"
proof -
  have small: "length ([7, 8] :: u8 list) \<le> TASK_CLOSURE_SIZE" by simp
  have dead: "\<not> (\<forall>t < 16. status (TCBS demo_kernel t) \<noteq> Terminated)"
    by (auto simp: demo_kernel_def intro!: exI [of _ 3])
  obtain r k' where r: "task_create demo_addrs [7, 8] 64 2 ''led'' demo_kernel = Some (r, k')"
    "case r of Inl e \<Rightarrow> k' = demo_kernel \<and> {t. t < TASK_MAX \<and> status (TCBS demo_kernel t) = Terminated} = {}
      | Inr t \<Rightarrow> create_post demo_addrs [7, 8] 64 2 ''led'' demo_kernel t k'"
    using task_create_spec [OF kernel_inv_demo stacks_ok_demo small, of demo_addrs 64 2 "''led''"]
    by (auto simp: returns_iff)
  with dead obtain t where "create_post demo_addrs [7, 8] 64 2 ''led'' demo_kernel t k'" by (cases r) auto
  from closure_runs_once [OF this] show ?thesis
    by (auto simp: returns_iff)
qed

subsection \<open>The identifiers and the scheduler\<close>

text \<open>The scheduler does not read the bitmap of identifiers: a yield is the same with any other one.\<close>

lemma bind_map_tid: "(map_option (\<lambda>k'. k'\<lparr>TID_BITMAP := b\<rparr>) m) \<bind> f = m \<bind> (\<lambda>k'. f (k'\<lparr>TID_BITMAP := b\<rparr>))"
  by (cases m) simp_all

lemma map_bind_tid: "map_option g (m \<bind> f) = m \<bind> (\<lambda>x. map_option g (f x))"
  by (cases m) simp_all

lemma tid_bitmap_unused:
  "tcb_at (k\<lparr>TID_BITMAP := b\<rparr>) t = tcb_at k t"
  "current_tid (k\<lparr>TID_BITMAP := b\<rparr>) = current_tid k"
  "modify_tcb t f (k\<lparr>TID_BITMAP := b\<rparr>) = map_option (\<lambda>k'. k'\<lparr>TID_BITMAP := b\<rparr>) (modify_tcb t f k)"
  "ready_insert t p (k\<lparr>TID_BITMAP := b\<rparr>) = map_option (\<lambda>k'. k'\<lparr>TID_BITMAP := b\<rparr>) (ready_insert t p k)"
  "ready_remove t (k\<lparr>TID_BITMAP := b\<rparr>) = (ready_remove t k)\<lparr>TID_BITMAP := b\<rparr>"
proof -
  show a: "tcb_at (k\<lparr>TID_BITMAP := b\<rparr>) t = tcb_at k t" for t by (simp add: tcb_at_def)
  show "current_tid (k\<lparr>TID_BITMAP := b\<rparr>) = current_tid k" by (simp add: current_tid_def current_tcb_def a)
  show "modify_tcb t f (k\<lparr>TID_BITMAP := b\<rparr>) = map_option (\<lambda>k'. k'\<lparr>TID_BITMAP := b\<rparr>) (modify_tcb t f k)" by (simp add: modify_tcb_def)
  show "ready_insert t p (k\<lparr>TID_BITMAP := b\<rparr>) = map_option (\<lambda>k'. k'\<lparr>TID_BITMAP := b\<rparr>) (ready_insert t p k)"
    by (cases "insert_in_order t (\<lambda>t. do { c \<leftarrow> tcb_at k t; Some (p < priority c) }) (READY_LIST k)")
      (simp_all add: ready_insert_def insert_by_priority_def a split_def)
  show "ready_remove t (k\<lparr>TID_BITMAP := b\<rparr>) = (ready_remove t k)\<lparr>TID_BITMAP := b\<rparr>" by (simp add: ready_remove_def)
qed

lemma wake_up_tid_bitmap:
  "wake_up_from now i (k\<lparr>TID_BITMAP := b\<rparr>) = map_option (\<lambda>k'. k'\<lparr>TID_BITMAP := b\<rparr>) (wake_up_from now i k)"
proof (induction now i k rule: wake_up_from.induct)
  case (1 now i k)
  have sl: "k\<lparr>TID_BITMAP := b, SLEEPING_LIST := l\<rparr> = (k\<lparr>SLEEPING_LIST := l\<rparr>)\<lparr>TID_BITMAP := b\<rparr>" for l by simp
  show ?case
  proof (cases "i < tl_len (SLEEPING_LIST k)")
    case True
    note ih = 1 [OF True refl]
    show ?thesis
      unfolding wake_up_from.simps [of now i "k\<lparr>TID_BITMAP := b\<rparr>"] wake_up_from.simps [of now i k]
      using True ih
      by (auto simp: Let_def map_bind_tid tid_bitmap_unused bind_map_tid sl intro!: Option.bind_cong)
  qed (simp add: wake_up_from.simps [of now i])
qed

lemma next_tcb_tid_bitmap:
  "next_tcb (k\<lparr>TID_BITMAP := b\<rparr>) = map_option (\<lambda>k'. k'\<lparr>TID_BITMAP := b\<rparr>) (next_tcb k)"
proof -
  define m where "m = (\<lambda>(k :: kernel) cr_tid (t :: tcb). if status t = Terminated \<or> status t = Blocked then Some (ready_remove cr_tid k)
     else if time_slice t = 0 \<or> status t = Running then do {
       k \<leftarrow> modify_tcb cr_tid (\<lambda>t. t\<lparr>time_slice := TIME_SLICE, status := Ready\<rparr>) k;
       let k = ready_remove cr_tid k;
       t \<leftarrow> tcb_at k cr_tid;
       ready_insert cr_tid (priority t) k }
     else Some k)"
  define e where "e = (\<lambda>(k :: kernel) cr_tid. case tl_front (READY_LIST k) of None \<Rightarrow> None
     | Some st_tid \<Rightarrow> if st_tid \<noteq> cr_tid then do {
            t \<leftarrow> tcb_at k cr_tid;
            k \<leftarrow> (if status t = Running then modify_tcb cr_tid (\<lambda>t. t\<lparr>status := Ready\<rparr>) k else Some k);
            k \<leftarrow> modify_tcb st_tid (\<lambda>t. t\<lparr>status := Running\<rparr>) k;
            Some (k\<lparr>CURRENT_TCB := Some st_tid\<rparr>) }
          else Some k)"
  have n: "next_tcb k = do { k \<leftarrow> wake_up_sleepers k; c \<leftarrow> current_tid k; t \<leftarrow> tcb_at k c; k \<leftarrow> m k c t; e k c }" for k
    by (simp add: next_tcb_def m_def e_def)
  have m: "m (k\<lparr>TID_BITMAP := b\<rparr>) c t = map_option (\<lambda>k'. k'\<lparr>TID_BITMAP := b\<rparr>) (m k c t)" for k c t
    by (simp add: m_def tid_bitmap_unused bind_map_tid map_bind_tid Let_def)
  have u: "(k\<lparr>CURRENT_TCB := h\<rparr>)\<lparr>TID_BITMAP := b\<rparr> = (k\<lparr>TID_BITMAP := b\<rparr>)\<lparr>CURRENT_TCB := h\<rparr>" for k h by simp
  have r: "(if x then modify_tcb c f (k\<lparr>TID_BITMAP := b\<rparr>) else Some (k\<lparr>TID_BITMAP := b\<rparr>))
      = map_option (\<lambda>k'. k'\<lparr>TID_BITMAP := b\<rparr>) (if x then modify_tcb c f k else Some k)" for x c f k
    by (simp add: tid_bitmap_unused)
  have e: "e (k\<lparr>TID_BITMAP := b\<rparr>) c = map_option (\<lambda>k'. k'\<lparr>TID_BITMAP := b\<rparr>) (e k c)" for k c
    by (cases "tl_front (READY_LIST k)") (simp_all add: e_def r tid_bitmap_unused bind_map_tid map_bind_tid u)
  show ?thesis
    unfolding n wake_up_sleepers_def os_ticks_def
    by (simp add: wake_up_tid_bitmap bind_map_tid map_bind_tid tid_bitmap_unused m e)
qed

lemma yield_tid_bitmap:
  "yield_task (k\<lparr>TID_BITMAP := b\<rparr>) = map_option (\<lambda>k'. k'\<lparr>TID_BITMAP := b\<rparr>) (yield_task k)"
  by (simp add: yield_task_def next_tcb_tid_bitmap)

lemma task_terminate_tid:
  assumes inv: "kernel_inv k" and t: "t < TASK_MAX" "status (TCBS k t) \<noteq> Terminated" and i: "i \<in> set (READY_LIST k)" "i \<noteq> t"
  shows "returns (\<lambda>k1. tcb_tid (TCBS k1 t) = t) (task_terminate t k)"
  unfolding task_terminate_step [OF t(1)] if_not_P [OF t(2)]
proof (rule sched.yield_mono [OF mid_inv_dead_state [OF kernel_inv_mid [OF inv] t i]])
  fix k1 assume "yield_frame (dead_state t k) k1"
  then have "tcb_tid (TCBS k1 t) = tcb_tid (TCBS k t)" by (auto simp: yield_frame_def sched_frame_def dead_state_def)
  then show "tcb_tid (TCBS k1 t) = t" using wf_kernel_tid [of k t] inv t by (simp add: kernel_inv_def)
qed

end
