(* ===== verification/Mos_Fair.thy ===== *)
theory Mos_Fair
  imports Mos_Task
begin

text \<open>
  How long a ready task waits for its turn (\<open>systick_tick\<close> and \<open>next_tcb\<close> of
  \<open>core/src/kernel/sched.rs\<close> over many ticks). The argument is a measure on the states, the time slices of the
  tasks in front, which every tick decreases.
\<close>

subsection \<open>Contenders\<close>





subsection \<open>Prefixes of the ready list\<close>







subsection \<open>Every tick brings the turn nearer\<close>






subsection \<open>Properties\<close>


text \<open>Two ready tasks of one priority, and a sleeping task of a lower one.\<close>

definition equals_kernel :: kernel where
  "equals_kernel = demo_kernel\<lparr>TCBS := (TCBS demo_kernel)
     (2 := (tcb_empty 2)\<lparr>status := Blocked, priority := 9, wake_point := 5\<rparr>)\<rparr>"

lemma kernel_inv_equals: "kernel_inv equals_kernel"
  by (auto simp: kernel_inv_def wf_kernel_def wf_lists_def wf_ids_def wf_current_def ready_sorted_def
      current_ready_def equals_kernel_def demo_kernel_def kernel_boot_def tl_new_def all_less_16)


text \<open>The time slice holds only while no task sleeps: with any task in the sleeping list, due or not,
  every tick enters \<open>next_tcb\<close>, which puts a \<open>Running\<close> task behind its equals with a new slice. A task
  that has just been switched to therefore loses the processor to an equal after one tick, not after
  \<open>TIME_SLICE\<close> ticks.\<close>

theorem slice_cut_by_sleepers:
  assumes "kernel_inv k" and "CURRENT_TCB k = Some c" and "status (TCBS k c) = Running" and "SLEEPING_LIST k \<noteq> []"
    and "t \<in> set (READY_LIST k)" and "t \<noteq> c" and "priority (TCBS k t) \<le> priority (TCBS k c)"
  shows "returns (\<lambda>k'. kernel_inv k' \<and> CURRENT_TCB k' \<noteq> Some c \<and> c \<in> set (READY_LIST k')
           \<and> time_slice (TCBS k' c) = TIME_SLICE) (systick_interrupt k)"
proof -
  let ?k1 = "ticked c k"
  have wf: "wf_kernel k" and rdy: "SCHED_READY k" using assms(1,2) by (auto simp: kernel_inv_def current_ready_def)
  have eq: "systick_interrupt k = next_tcb ?k1"
    using systick_tick_closed [OF wf assms(2) rdy] rdy assms(4) by (simp add: systick_interrupt_def)
  show ?thesis unfolding eq
    using next_tcb_requeues [OF kernel_inv_ticked [OF assms(1)], of c c t] assms by (auto elim!: returns_mono)
qed

lemma slice_cut_by_sleepers_witness:
  "time_slice (TCBS equals_kernel 0) = 50 \<and> wake_point (TCBS equals_kernel 2) = 5 \<and> OS_TICKS equals_kernel = 0
   \<and> returns (\<lambda>k'. CURRENT_TCB k' \<noteq> Some 0) (systick_interrupt equals_kernel)"
proof -
  have d: "CURRENT_TCB equals_kernel = Some 0" "status (TCBS equals_kernel 0) = Running" "SLEEPING_LIST equals_kernel \<noteq> []"
    "1 \<in> set (READY_LIST equals_kernel)" "(1 :: nat) \<noteq> 0" "priority (TCBS equals_kernel 1) \<le> priority (TCBS equals_kernel 0)"
    "time_slice (TCBS equals_kernel 0) = 50" "wake_point (TCBS equals_kernel 2) = 5" "OS_TICKS equals_kernel = 0"
    by (simp_all add: equals_kernel_def demo_kernel_def tcb_empty_def kernel_boot_def)
  from slice_cut_by_sleepers [OF kernel_inv_equals d(1-6)] d(7-9) show ?thesis
    by (auto elim!: returns_mono)
qed

end
