(* ===== verification/Mos_Sync.thy ===== *)
theory Mos_Sync
  imports Mos_Task
begin

section \<open>Synchronisation primitives\<close>

text \<open>
  \<open>core/src/kernel/sync.rs\<close>: counting semaphores, mutexes with priority inheritance, condition
  variables and barriers. An operation is one critical section, a step of the object and the kernel
  state together; it ends at its \<open>yield_task\<close>, after which the calling task continues when the
  scheduler next selects it. Functions with several critical sections are split there into the
  steps the calling task makes one after the other.
\<close>

subsection \<open>Waking and parking a task\<close>

text \<open>
  The two statement sequences that every primitive shares: \<open>TCBS[woken].status = Ready\<close> with the
  insertion into the ready list, and \<open>TCBS[cr].status = Blocked\<close>, \<open>READY_LIST.remove(cr)\<close> with the
  insertion by priority into a wait queue.
\<close>

definition wake_task :: "nat \<Rightarrow> kernel \<Rightarrow> kernel option" where
  "wake_task tid k = do {
     k \<leftarrow> modify_tcb tid (\<lambda>t. t\<lparr>status := Ready\<rparr>) k;
     t \<leftarrow> tcb_at k tid;
     ready_insert tid (priority t) k }"

definition park_task :: "nat \<Rightarrow> task_list \<Rightarrow> kernel \<Rightarrow> (task_list \<times> kernel) option" where
  "park_task cr_tid wq k = do {
     k \<leftarrow> modify_tcb cr_tid (\<lambda>t. t\<lparr>status := Blocked\<rparr>) k;
     let k = ready_remove cr_tid k;
     t \<leftarrow> tcb_at k cr_tid;
     wq \<leftarrow> insert_by_priority k cr_tid (priority t) wq;
     Some (wq, k) }"

subsection \<open>Semaphores\<close>

text \<open>\<open>SemaInner\<close>; the count is an \<open>i32\<close>, kept as an integer in that range.\<close>

record sema =
  scount :: int
  swait :: task_list

definition sema_new :: "int \<Rightarrow> sema" where
  "sema_new initial_count = \<lparr>scount = initial_count, swait = tl_new\<rparr>"

definition sema_down :: "sema \<Rightarrow> kernel \<Rightarrow> (sema \<times> kernel) option" where
  "sema_down s k = (let s = s\<lparr>scount := wrap_i32 (scount s - 1)\<rparr> in
     if scount s < 0 then do {
       cr_tid \<leftarrow> current_tid k;
       (wq, k) \<leftarrow> park_task cr_tid (swait s) k;
       k \<leftarrow> yield_task k;
       Some (s\<lparr>swait := wq\<rparr>, k) }
     else Some (s, k))"

definition sema_up :: "sema \<Rightarrow> kernel \<Rightarrow> (sema \<times> kernel) option" where
  "sema_up s k = (let s = s\<lparr>scount := wrap_i32 (scount s + 1)\<rparr> in
     if scount s \<le> 0 then
       (case tl_pop_front (swait s) of
          (None, wq) \<Rightarrow> Some (s\<lparr>swait := wq\<rparr>, k)
        | (Some woken_tid, wq) \<Rightarrow> do {
            k \<leftarrow> wake_task woken_tid k;
            k \<leftarrow> (if CURRENT_TCB k \<noteq> None then do {
                   t \<leftarrow> tcb_at k woken_tid;
                   current_pri \<leftarrow> current_priority k;
                   if priority t < current_pri then yield_task k else Some k }
                 else Some k);
            Some (s\<lparr>swait := wq\<rparr>, k) })
     else Some (s, k))"

definition sema_try_down :: "sema \<Rightarrow> bool \<times> sema" where
  "sema_try_down s =
     (if 0 < scount s then (True, s\<lparr>scount := wrap_i32 (scount s - 1)\<rparr>) else (False, s))"

text \<open>
  \<open>down_timeout\<close> in three steps, one per critical section: the attempt, whose result is the
  returned value or \<open>None\<close> when the task goes on to wait; the parking in the wait queue and in the
  sleeping list; and what the task does when it runs again.
\<close>

definition sema_down_timeout_try :: "u32 \<Rightarrow> sema \<Rightarrow> bool option \<times> sema" where
  "sema_down_timeout_try ticks s =
     (case sema_try_down s of
        (True, s) \<Rightarrow> (Some True, s)
      | (False, s) \<Rightarrow> (if ticks = 0 then Some False else None, s))"

definition sema_down_timeout_park :: "u32 \<Rightarrow> sema \<Rightarrow> kernel \<Rightarrow> (sema \<times> kernel) option" where
  "sema_down_timeout_park ticks s k = do {
     let s = s\<lparr>scount := wrap_i32 (scount s - 1)\<rparr>;
     cr_tid \<leftarrow> current_tid k;
     (wq, k) \<leftarrow> park_task cr_tid (swait s) k;
     let wake_time = os_ticks k + ticks;
     k \<leftarrow> modify_tcb cr_tid (\<lambda>t. t\<lparr>wake_point := wake_time\<rparr>) k;
     k \<leftarrow> sleep_insert cr_tid wake_time k;
     k \<leftarrow> yield_task k;
     Some (s\<lparr>swait := wq\<rparr>, k) }"

definition sema_down_timeout_finish :: "sema \<Rightarrow> kernel \<Rightarrow> (bool \<times> sema) option" where
  "sema_down_timeout_finish s k = do {
     cr_tid \<leftarrow> current_tid k;
     if tl_contains cr_tid (swait s)
     then Some (False, s\<lparr>swait := tl_remove cr_tid (swait s), scount := wrap_i32 (scount s + 1)\<rparr>)
     else Some (True, s) }"

definition sema_count :: "sema \<Rightarrow> int" where
  "sema_count s = scount s"

definition sema_up_from_isr :: "sema \<Rightarrow> kernel \<Rightarrow> (sema \<times> kernel) option" where
  "sema_up_from_isr s k = (let s = s\<lparr>scount := wrap_i32 (scount s + 1)\<rparr> in
     if scount s \<le> 0 then
       (case tl_pop_front (swait s) of
          (None, wq) \<Rightarrow> Some (s\<lparr>swait := wq\<rparr>, k)
        | (Some woken_tid, wq) \<Rightarrow> do {
            k \<leftarrow> wake_task woken_tid k;
            Some (s\<lparr>swait := wq\<rparr>, k) })
     else Some (s, k))"

subsection \<open>Mutexes\<close>

text \<open>\<open>Mutex<T>\<close> with its \<open>MutexInner\<close>; the recursion count is a \<open>u32\<close>.\<close>

record 'a mutex =
  mowner :: "nat option"
  mrecursive :: u32
  mwait :: task_list
  mdata :: 'a

definition mutex_new :: "'a \<Rightarrow> 'a mutex" where
  "mutex_new x = \<lparr>mowner = None, mrecursive = 0, mwait = tl_new, mdata = x\<rparr>"

text \<open>The priority inheritance of \<open>internal_lock\<close>: the owner is lifted to the caller's priority.\<close>

definition boost_owner :: "nat \<Rightarrow> u8 \<Rightarrow> kernel \<Rightarrow> kernel option" where
  "boost_owner owner_tid cur_pri k = do {
     t \<leftarrow> tcb_at k owner_tid;
     if cur_pri < priority t then do {
       k \<leftarrow> (if sub_priority t = PRI_INV
             then modify_tcb owner_tid (\<lambda>t. t\<lparr>sub_priority := priority t\<rparr>) k else Some k);
       k \<leftarrow> modify_tcb owner_tid (\<lambda>t. t\<lparr>priority := cur_pri\<rparr>) k;
       t \<leftarrow> tcb_at k owner_tid;
       if status t = Ready then ready_insert owner_tid (priority t) (ready_remove owner_tid k)
       else Some k }
     else Some k }"

definition mutex_internal_lock :: "'a mutex \<Rightarrow> kernel \<Rightarrow> ('a mutex \<times> kernel) option" where
  "mutex_internal_lock m k = do {
     cr_tid \<leftarrow> current_tid k;
     if mowner m = Some cr_tid then Some (m\<lparr>mrecursive := mrecursive m + 1\<rparr>, k)
     else (case mowner m of
       Some owner_tid \<Rightarrow> do {
         t \<leftarrow> tcb_at k cr_tid;
         k \<leftarrow> boost_owner owner_tid (priority t) k;
         (wq, k) \<leftarrow> park_task cr_tid (mwait m) k;
         k \<leftarrow> yield_task k;
         Some (m\<lparr>mwait := wq\<rparr>, k) }
     | None \<Rightarrow> Some (m\<lparr>mowner := Some cr_tid, mrecursive := 1\<rparr>, k)) }"

text \<open>\<open>Mutex::lock\<close>; the returned guard is the permission to access \<open>mdata\<close>.\<close>

definition mutex_lock :: "'a mutex \<Rightarrow> kernel \<Rightarrow> ('a mutex \<times> kernel) option" where
  "mutex_lock m k = mutex_internal_lock m k"

text \<open>\<open>internal_unlock\<close> up to its \<open>yield_task\<close>; the flag tells whether that call is made.\<close>

definition mutex_release :: "'a mutex \<Rightarrow> kernel \<Rightarrow> (bool \<times> 'a mutex \<times> kernel) option" where
  "mutex_release m k = do {
     cr_tid \<leftarrow> current_tid k;
     let m = m\<lparr>mrecursive := mrecursive m - 1\<rparr>;
     if 0 < mrecursive m then Some (False, m, k)
     else do {
       t \<leftarrow> tcb_at k cr_tid;
       k \<leftarrow> (if sub_priority t \<noteq> PRI_INV
             then modify_tcb cr_tid (\<lambda>t. t\<lparr>priority := sub_priority t, sub_priority := PRI_INV\<rparr>) k
             else Some k);
       let m = m\<lparr>mowner := None\<rparr>;
       (case tl_pop_front (mwait m) of
          (Some woken_tid, wq) \<Rightarrow> do {
            k \<leftarrow> wake_task woken_tid k;
            w \<leftarrow> tcb_at k woken_tid;
            c \<leftarrow> tcb_at k cr_tid;
            Some (priority w < priority c,
                  m\<lparr>mowner := Some woken_tid, mrecursive := 1, mwait := wq\<rparr>, k) }
        | (None, wq) \<Rightarrow>
            (case tl_front (READY_LIST k) of
               Some front_tid \<Rightarrow> do {
                 f \<leftarrow> tcb_at k front_tid;
                 c \<leftarrow> tcb_at k cr_tid;
                 Some (priority f < priority c, m\<lparr>mwait := wq\<rparr>, k) }
             | None \<Rightarrow> Some (False, m\<lparr>mwait := wq\<rparr>, k))) } }"

definition mutex_internal_unlock :: "'a mutex \<Rightarrow> kernel \<Rightarrow> (bool \<times> 'a mutex \<times> kernel) option" where
  "mutex_internal_unlock m k = do {
     (y, m, k) \<leftarrow> mutex_release m k;
     k \<leftarrow> (if y then yield_task k else Some k);
     Some (y, m, k) }"

text \<open>\<open>Drop for MutexGuard\<close>, and the two \<open>Deref\<close> accesses through the guard.\<close>

definition mutex_guard_drop :: "'a mutex \<Rightarrow> kernel \<Rightarrow> ('a mutex \<times> kernel) option" where
  "mutex_guard_drop m k = do { (y, m, k) \<leftarrow> mutex_internal_unlock m k; Some (m, k) }"

definition guard_deref :: "'a mutex \<Rightarrow> 'a" where
  "guard_deref m = mdata m"

definition guard_deref_mut :: "('a \<Rightarrow> 'a) \<Rightarrow> 'a mutex \<Rightarrow> 'a mutex" where
  "guard_deref_mut f m = m\<lparr>mdata := f (mdata m)\<rparr>"

subsection \<open>Condition variables\<close>

type_synonym condvar = task_list

definition condvar_new :: condvar where
  "condvar_new = tl_new"

text \<open>
  \<open>CondVar::wait\<close> in three steps: enter (up to the first yield; \<open>True\<close> when that was the yield
  inside \<open>internal_unlock\<close>, so that the one of \<open>wait\<close> itself is still to come), the second yield,
  and the reacquisition of the mutex, which is \<open>mutex_lock\<close>.
\<close>

definition condvar_wait_enter ::
    "condvar \<Rightarrow> 'a mutex \<Rightarrow> kernel \<Rightarrow> (bool \<times> condvar \<times> 'a mutex \<times> kernel) option" where
  "condvar_wait_enter cv m k = do {
     cr_tid \<leftarrow> current_tid k;
     let cv = snd (tl_push_back cr_tid cv);
     k \<leftarrow> modify_tcb cr_tid (\<lambda>t. t\<lparr>status := Blocked\<rparr>) k;
     let k = ready_remove cr_tid k;
     (y, m, k) \<leftarrow> mutex_internal_unlock m k;
     k \<leftarrow> (if y then Some k else yield_task k);
     Some (y, cv, m, k) }"

definition condvar_wait_resume :: "bool \<Rightarrow> kernel \<Rightarrow> kernel option" where
  "condvar_wait_resume y k = (if y then yield_task k else Some k)"

definition condvar_notify :: "condvar \<Rightarrow> kernel \<Rightarrow> (condvar \<times> kernel) option" where
  "condvar_notify cv k =
     (case tl_pop_front cv of
        (None, cv) \<Rightarrow> Some (cv, k)
      | (Some woken_tid, cv) \<Rightarrow> do {
          k \<leftarrow> wake_task woken_tid k;
          k \<leftarrow> yield_task k;
          Some (cv, k) })"

text \<open>The \<open>while let\<close> loop of \<open>notify_all\<close>; the flag, \<open>woken\<close> in the code, tells whether it ran.\<close>

fun notify_loop :: "condvar \<Rightarrow> bool \<Rightarrow> kernel \<Rightarrow> (bool \<times> kernel) option" where
  "notify_loop [] any k = Some (any, k)"
| "notify_loop (woken_tid # cv) any k = do {
     k \<leftarrow> wake_task woken_tid k;
     notify_loop cv True k }"

definition condvar_notify_all :: "condvar \<Rightarrow> kernel \<Rightarrow> (condvar \<times> kernel) option" where
  "condvar_notify_all cv k = do {
     (woken, k) \<leftarrow> notify_loop cv False k;
     k \<leftarrow> (if woken then yield_task k else Some k);
     Some ([], k) }"

subsection \<open>Barriers\<close>

record barrier_state =
  bcount :: u32
  bgeneration :: u32

record barrier =
  bmutex :: "barrier_state mutex"
  bcv :: condvar
  btotal :: u32

definition barrier_new :: "u32 \<Rightarrow> barrier" where
  "barrier_new tot = \<lparr>bmutex = mutex_new \<lparr>bcount = 0, bgeneration = 0\<rparr>,
     bcv = condvar_new, btotal = tot\<rparr>"

text \<open>
  \<open>Barrier::wait\<close>: the lock; with the mutex held the arrival, which either opens the barrier, drops
  the guard and goes on to \<open>notify_all\<close> (\<open>BOpened\<close>), or waits for the generation to pass (\<open>BWaits\<close> with
  \<open>my_gen\<close> and the flag of \<open>condvar_wait_enter\<close>); and, after each wake-up and relock, the test of
  the loop, which waits again or drops the guard and returns (\<open>BDone\<close>).
\<close>

datatype barrier_next = BOpened | BWaits u32 bool | BDone

definition barrier_lock :: "barrier \<Rightarrow> kernel \<Rightarrow> (barrier \<times> kernel) option" where
  "barrier_lock b k = do { (m, k) \<leftarrow> mutex_lock (bmutex b) k; Some (b\<lparr>bmutex := m\<rparr>, k) }"

definition barrier_sleep :: "barrier \<Rightarrow> kernel \<Rightarrow> (bool \<times> barrier \<times> kernel) option" where
  "barrier_sleep b k = do {
     (y, cv, m, k) \<leftarrow> condvar_wait_enter (bcv b) (bmutex b) k;
     Some (y, b\<lparr>bmutex := m, bcv := cv\<rparr>, k) }"

definition barrier_arrive :: "barrier \<Rightarrow> kernel \<Rightarrow> (barrier_next \<times> barrier \<times> kernel) option" where
  "barrier_arrive b k =
     (let my_gen = bgeneration (guard_deref (bmutex b));
          b = b\<lparr>bmutex := guard_deref_mut (\<lambda>g. g\<lparr>bcount := bcount g + 1\<rparr>) (bmutex b)\<rparr>
      in if bcount (guard_deref (bmutex b)) = btotal b then do {
           let m = guard_deref_mut (\<lambda>g. g\<lparr>bcount := 0\<rparr>) (bmutex b);
           let m = guard_deref_mut (\<lambda>g. g\<lparr>bgeneration := bgeneration g + 1\<rparr>) m;
           (m, k) \<leftarrow> mutex_guard_drop m k;
           Some (BOpened, b\<lparr>bmutex := m\<rparr>, k) }
         else do {
           (y, b, k) \<leftarrow> barrier_sleep b k;
           Some (BWaits my_gen y, b, k) })"

definition barrier_notify_all :: "barrier \<Rightarrow> kernel \<Rightarrow> (barrier \<times> kernel) option" where
  "barrier_notify_all b k = do {
     (cv, k) \<leftarrow> condvar_notify_all (bcv b) k;
     Some (b\<lparr>bcv := cv\<rparr>, k) }"

definition barrier_check :: "u32 \<Rightarrow> barrier \<Rightarrow> kernel \<Rightarrow> (barrier_next \<times> barrier \<times> kernel) option" where
  "barrier_check my_gen b k =
     (if bgeneration (guard_deref (bmutex b)) \<noteq> my_gen then do {
        (m, k) \<leftarrow> mutex_guard_drop (bmutex b) k;
        Some (BDone, b\<lparr>bmutex := m\<rparr>, k) }
      else do {
        (y, b, k) \<leftarrow> barrier_sleep b k;
        Some (BWaits my_gen y, b, k) })"

subsection \<open>Wait queues\<close>

text \<open>
  The tasks of a wait queue are \<open>Blocked\<close>, in none of the kernel's lists and not queued twice; the
  queues ordered by priority stay ordered as long as the priorities do not change.
\<close>

definition waiting :: "kernel \<Rightarrow> task_list \<Rightarrow> bool" where
  "waiting k wq \<longleftrightarrow> distinct wq \<and> (\<forall>t \<in> set wq. t < TASK_MAX \<and> status (TCBS k t) = Blocked
     \<and> t \<notin> set (BLOCKED_LIST k) \<and> t \<notin> set (SLEEPING_LIST k))"

definition wq_sorted :: "kernel \<Rightarrow> task_list \<Rightarrow> bool" where
  "wq_sorted k wq \<longleftrightarrow> sorted (map (pri k) wq)"

lemma waiting_not_ready: "wf_kernel k \<Longrightarrow> waiting k wq \<Longrightarrow> t \<in> set wq \<Longrightarrow> t \<notin> set (READY_LIST k)"
  using wf_kernel_ready_iff by (fastforce simp: waiting_def)

lemma waiting_Nil [simp]: "waiting k []"
  by (simp add: waiting_def)

lemma waiting_range: "waiting k wq \<Longrightarrow> set wq \<subseteq> {..<TASK_MAX}"
  by (auto simp: waiting_def)

lemma waiting_length: "waiting k wq \<Longrightarrow> length wq \<le> TASK_MAX"
  by (rule length_distinct_lessThan [OF _ waiting_range]) (auto simp: waiting_def)

lemma waiting_yield:
  assumes "yield_frame k k'" "wf_kernel k" "waiting k wq"
  shows "waiting k' wq"
proof -
  have "status (TCBS k' t) = Blocked \<and> t \<notin> set (BLOCKED_LIST k') \<and> t \<notin> set (SLEEPING_LIST k')"
    if "t \<in> set wq" for t
    using that yield_frame_status [OF assms(1), of t] waiting_not_ready [OF assms(2,3) that]
      yield_frameD(5,8) [OF assms(1)] assms(3) by (auto simp: waiting_def)
  with assms(3) show ?thesis by (simp add: waiting_def)
qed

lemma wq_sorted_yield: "yield_frame k k' \<Longrightarrow> wq_sorted k' wq = wq_sorted k wq"
proof -
  assume "yield_frame k k'"
  then have "pri k' = pri k" by (simp add: fun_eq_iff yield_frameD(1))
  then show ?thesis by (simp add: wq_sorted_def)
qed

lemma wq_sorted_fields [simp]:
  "wq_sorted (make_ready t k) wq = wq_sorted k wq" "wq_sorted (make_blocked t k) wq = wq_sorted k wq"
proof -
  have "pri (make_ready t k) = pri k" "pri (make_blocked t k) = pri k" by (simp_all add: fun_eq_iff)
  then show "wq_sorted (make_ready t k) wq = wq_sorted k wq" "wq_sorted (make_blocked t k) wq = wq_sorted k wq"
    by (simp_all add: wq_sorted_def)
qed

lemma wq_sorted_insert:
  "wq_sorted k wq \<Longrightarrow> wq_sorted k (insert_before (\<lambda>s. pri k c < pri k s) c wq)"
  unfolding wq_sorted_def using sorted_insert_before [of "pri k" wq c] by simp

lemma waiting_make_ready: "waiting k (w # ws) \<Longrightarrow> waiting (make_ready w k) ws"
  by (auto simp: waiting_def)

lemma waiting_insert:
  assumes "wf_kernel k" "waiting k wq" "c \<in> set (READY_LIST k)"
  shows "waiting (make_blocked c k) (insert_before q c wq)"
  using assms waiting_not_ready [OF assms(1,2), of c] ready_not_terminated [OF assms(1,3)]
    wf_kernel_disjoint(1) [OF assms(1,3)] by (auto simp: waiting_def)

lemma wake_task_closed:
  assumes "wf_kernel k" "t < TASK_MAX" "t \<notin> set (READY_LIST k)"
  shows "wake_task t k = Some (make_ready t k)"
  using ready_insert_make_ready [OF assms refl] assms(2) by (simp add: wake_task_def)

lemma wake_task_waiter:
  assumes "wf_kernel k" "waiting k (w # ws)"
  shows "wake_task w k = Some (make_ready w k)"
  using assms waiting_not_ready [OF assms, of w] by (intro wake_task_closed) (auto simp: waiting_def)

lemma park_task_closed:
  assumes "wf_kernel k" "waiting k wq" "c \<in> set (READY_LIST k)"
  shows "park_task c wq k = Some (insert_before (\<lambda>s. pri k c < pri k s) c wq, make_blocked c k)"
proof -
  have c: "c < TASK_MAX" using ready_not_terminated [OF assms(1,3)] by simp
  have "c \<notin> set wq" using waiting_not_ready [OF assms(1,2)] assms(3) by blast
  then have len: "length wq < TASK_MAX"
    using length_distinct_lessThan_strict [OF _ waiting_range [OF assms(2)] c] assms(2) by (simp add: waiting_def)
  have "(\<lambda>s. pri k c < pri (make_blocked c k) s) = (\<lambda>s. pri k c < pri k s)" by (simp add: fun_eq_iff)
  with insert_by_priority_before [OF waiting_range [OF assms(2)] len, of "make_blocked c k" c "pri k c"]
  show ?thesis using c by (simp add: park_task_def ready_remove_def make_blocked_def)
qed

subsection \<open>The semaphore and its abstract counterpart\<close>

text \<open>Either there are permits or there are waiters, one for every missing permit.\<close>

definition sema_inv :: "kernel \<Rightarrow> sema \<Rightarrow> bool" where
  "sema_inv k s \<longleftrightarrow> waiting k (swait s) \<and> wq_sorted k (swait s)
     \<and> int (length (swait s)) = max 0 (- scount s) \<and> scount s < 2147483648"

record asema =
  permits :: nat
  waiters :: "nat list"

definition sema_abs :: "sema \<Rightarrow> asema" where
  "sema_abs s = \<lparr>permits = nat (scount s), waiters = swait s\<rparr>"

text \<open>
  What a semaphore promises: \<open>down\<close> takes a permit or queues the caller by priority; \<open>up\<close> hands
  the permit to the first waiter or keeps it.
\<close>

definition adown :: "(nat \<Rightarrow> u8) \<Rightarrow> nat \<Rightarrow> asema \<Rightarrow> asema" where
  "adown p c a = (if 0 < permits a then a\<lparr>permits := permits a - 1\<rparr>
     else a\<lparr>waiters := insert_before (\<lambda>s. p c < p s) c (waiters a)\<rparr>)"

definition aup :: "asema \<Rightarrow> nat option \<times> asema" where
  "aup a = (case waiters a of [] \<Rightarrow> (None, a\<lparr>permits := permits a + 1\<rparr>)
     | w # ws \<Rightarrow> (Some w, a\<lparr>waiters := ws\<rparr>))"

lemma sema_inv_yield: "yield_frame k k' \<Longrightarrow> wf_kernel k \<Longrightarrow> sema_inv k s \<Longrightarrow> sema_inv k' s"
  by (simp add: sema_inv_def waiting_yield wq_sorted_yield)

lemma sema_inv_count: "sema_inv k s \<Longrightarrow> - 16 \<le> scount s"
  using waiting_length [of k "swait s"] by (auto simp: sema_inv_def)

lemma current_priority_simp:
  "wf_kernel k \<Longrightarrow> CURRENT_TCB k = Some c \<Longrightarrow> current_priority k = Some (pri k c)"
  by (simp add: current_priority_def current_tcb_simp)

text \<open>\<open>down\<close> without a permit: the state in which it calls \<open>yield_task\<close>.\<close>

lemma sema_down_step:
  assumes inv: "kernel_inv k" and s: "sema_inv k s" and c: "CURRENT_TCB k = Some c"
    and i: "i \<in> set (READY_LIST k)" "i \<noteq> c" and none: "\<not> 0 < scount s"
  defines "s' \<equiv> s\<lparr>scount := scount s - 1, swait := insert_before (\<lambda>t. pri k c < pri k t) c (swait s)\<rparr>"
  shows "mid_inv (make_blocked c k)" and "sema_inv (make_blocked c k) s'"
    and "sema_down s k = do { k' \<leftarrow> yield_task (make_blocked c k); Some (s', k') }"
proof -
  from inv c have wf: "wf_kernel k" and cr: "c \<in> set (READY_LIST k)"
    by (auto simp: kernel_inv_def current_ready_def)
  have w: "wrap_i32 (scount s - 1) = scount s - 1"
    using sema_inv_count [OF s] s by (simp add: sema_inv_def)
  have W: "waiting k (swait s)" using s by (simp add: sema_inv_def)
  show "mid_inv (make_blocked c k)"
    using mid_inv_make_blocked [OF kernel_inv_mid [OF inv], of c i] ready_not_terminated [OF wf cr]
      wf_kernel_disjoint(1) [OF wf cr] i by simp
  show "sema_inv (make_blocked c k) s'" unfolding s'_def
    using s none waiting_insert [OF wf W cr] wq_sorted_insert [of k "swait s" c]
    by (auto simp: sema_inv_def)
  show "sema_down s k = do { k' \<leftarrow> yield_task (make_blocked c k); Some (s', k') }" unfolding s'_def
    using none by (simp add: sema_down_def Let_def w current_tid_simp [OF wf c] park_task_closed [OF wf W cr])
qed

lemma sema_down_permit:
  assumes "sema_inv k s" and "0 < scount s"
  shows "sema_down s k = Some (s\<lparr>scount := scount s - 1\<rparr>, k)" and "sema_inv k (s\<lparr>scount := scount s - 1\<rparr>)"
proof -
  have "wrap_i32 (scount s - 1) = scount s - 1"
    using sema_inv_count [OF assms(1)] assms(1) by (simp add: sema_inv_def)
  with assms show "sema_down s k = Some (s\<lparr>scount := scount s - 1\<rparr>, k)" "sema_inv k (s\<lparr>scount := scount s - 1\<rparr>)"
    by (auto simp: sema_down_def Let_def sema_inv_def)
qed

lemma sema_down_spec:
  assumes inv: "kernel_inv k" and s: "sema_inv k s" and c: "CURRENT_TCB k = Some c"
    and i: "i \<in> set (READY_LIST k)" "i \<noteq> c"
  shows "returns (\<lambda>(s', k'). kernel_inv k' \<and> sema_inv k' s' \<and> i \<in> set (READY_LIST k')
           \<and> scount s' = scount s - 1 \<and> sema_abs s' = adown (pri k) c (sema_abs s)
           \<and> (if 0 < scount s then k' = k else c \<in> set (swait s') \<and> CURRENT_TCB k' \<noteq> Some c))
         (sema_down s k)"
proof (cases "0 < scount s")
  case True
  with sema_down_permit [OF s True] s inv i show ?thesis by (auto simp: sema_abs_def adown_def sema_inv_def)
next
  case False
  note D = sema_down_step [OF inv s c i False]
  let ?wq = "insert_before (\<lambda>t. pri k c < pri k t) c (swait s)"
  let ?s = "s\<lparr>scount := scount s - 1, swait := ?wq\<rparr>"
  have wfm: "wf_kernel (make_blocked c k)" using D(1) by (simp add: mid_inv_def)
  have abs: "sema_abs ?s = adown (pri k) c (sema_abs s)"
    using False by (simp add: sema_abs_def adown_def)
  show ?thesis unfolding D(3) returns_bind
  proof (rule sched.yield_mono [OF D(1)])
    fix k' assume k': "kernel_inv k'" "yield_frame (make_blocked c k) k'"
    note fr = yield_frameD [OF k'(2)]
    have s': "sema_inv k' ?s" by (rule sema_inv_yield [OF k'(2) wfm D(2)])
    then have "c \<notin> set (READY_LIST k')"
      using k'(1) by (intro waiting_not_ready [of k' ?wq]) (auto simp: sema_inv_def kernel_inv_def)
    then have "CURRENT_TCB k' \<noteq> Some c" using k'(1) by (auto simp: kernel_inv_def current_ready_def)
    moreover have "i \<in> set (READY_LIST k')" using fr(6) i by auto
    ultimately show "returns (\<lambda>(s', k'). kernel_inv k' \<and> sema_inv k' s' \<and> i \<in> set (READY_LIST k')
         \<and> scount s' = scount s - 1 \<and> sema_abs s' = adown (pri k) c (sema_abs s)
         \<and> (if 0 < scount s then k' = k else c \<in> set (swait s') \<and> CURRENT_TCB k' \<noteq> Some c)) (Some (?s, k'))"
      using k'(1) s' abs False by simp
  qed
qed

lemma kernel_inv_wake:
  assumes "kernel_inv k" "waiting k (w # ws)"
  shows "kernel_inv (make_ready w k)"
  using assms by (intro kernel_inv_make_ready) (auto simp: waiting_def)

lemma sema_inv_wake:
  assumes "sema_inv k s" "swait s = w # ws"
  shows "sema_inv (make_ready w k) (s\<lparr>scount := scount s + 1, swait := ws\<rparr>)"
    and "scount s < 0"
proof -
  have "wq_sorted k ws" using assms by (simp add: sema_inv_def wq_sorted_def)
  with assms waiting_make_ready [of k w ws]
  show "sema_inv (make_ready w k) (s\<lparr>scount := scount s + 1, swait := ws\<rparr>)" and "scount s < 0"
    by (auto simp: sema_inv_def)
qed

text \<open>\<open>up\<close> with a waiter: the state it makes, and whether it yields.\<close>

lemma sema_up_step:
  assumes inv: "kernel_inv k" and s: "sema_inv k s" and room: "scount s < 2147483647" and w: "swait s = w # ws"
  shows "kernel_inv (make_ready w k)" and "sema_inv (make_ready w k) (s\<lparr>scount := scount s + 1, swait := ws\<rparr>)"
    and "sema_up s k = do {
           k' \<leftarrow> (if CURRENT_TCB k \<noteq> None \<and> (\<forall>c. CURRENT_TCB k = Some c \<longrightarrow> pri k w < pri k c)
                 then yield_task (make_ready w k) else Some (make_ready w k));
           Some (s\<lparr>scount := scount s + 1, swait := ws\<rparr>, k') }"
proof -
  from inv have wf: "wf_kernel k" by (simp add: kernel_inv_def)
  have wr: "wrap_i32 (scount s + 1) = scount s + 1" using sema_inv_count [OF s] room by simp
  note neg = sema_inv_wake(2) [OF s w]
  show "sema_inv (make_ready w k) (s\<lparr>scount := scount s + 1, swait := ws\<rparr>)" by (rule sema_inv_wake(1) [OF s w])
  have W: "waiting k (w # ws)" using s w by (simp add: sema_inv_def)
  show inv2: "kernel_inv (make_ready w k)" by (rule kernel_inv_wake [OF inv W])
  then have wf2: "wf_kernel (make_ready w k)" by (simp add: kernel_inv_def)
  have "w < TASK_MAX" using W by (simp add: waiting_def)
  moreover have "current_priority (make_ready w k) = Some (pri k c)" if "CURRENT_TCB k = Some c" for c
    using current_priority_simp [OF wf2, of c] that by simp
  ultimately show "sema_up s k = do {
           k' \<leftarrow> (if CURRENT_TCB k \<noteq> None \<and> (\<forall>c. CURRENT_TCB k = Some c \<longrightarrow> pri k w < pri k c)
                 then yield_task (make_ready w k) else Some (make_ready w k));
           Some (s\<lparr>scount := scount s + 1, swait := ws\<rparr>, k') }"
    using neg w
    by (cases "CURRENT_TCB k") (auto simp: sema_up_def Let_def wr tl_pop_front_def wake_task_waiter [OF wf W])
qed

lemma sema_up_spec:
  assumes inv: "kernel_inv k" and s: "sema_inv k s" and room: "scount s < 2147483647"
  shows "returns (\<lambda>(s', k'). kernel_inv k' \<and> sema_inv k' s' \<and> set (READY_LIST k) \<subseteq> set (READY_LIST k')
           \<and> scount s' = scount s + 1 \<and> sema_abs s' = snd (aup (sema_abs s))
           \<and> (case fst (aup (sema_abs s)) of None \<Rightarrow> k' = k
              | Some w \<Rightarrow> w \<in> set (READY_LIST k') \<and> list_all (\<lambda>v. pri k w \<le> pri k v) (swait s')
                  \<and> list_all (\<lambda>c. pri k' c \<le> pri k w) (case CURRENT_TCB k' of None \<Rightarrow> [] | Some c \<Rightarrow> [c])))
         (sema_up s k)"
proof -
  from inv have wf: "wf_kernel k" and cr: "current_ready k" by (simp_all add: kernel_inv_def)
  have wr: "wrap_i32 (scount s + 1) = scount s + 1"
    using sema_inv_count [OF s] room by simp
  show ?thesis
  proof (cases "swait s")
    case Nil
    then have "0 \<le> scount s" using s by (auto simp: sema_inv_def)
    then have "sema_up s k = Some (s\<lparr>scount := scount s + 1\<rparr>, k)"
      by (simp add: sema_up_def Let_def wr)
    with Nil s inv room \<open>0 \<le> scount s\<close> show ?thesis
      by (auto simp: sema_inv_def sema_abs_def aup_def)
  next
    case (Cons w ws)
    note U = sema_up_step [OF inv s room Cons]
    have W: "waiting k (w # ws)" "sorted (map (pri k) (w # ws))"
      using s Cons by (simp_all add: sema_inv_def wq_sorted_def)
    let ?s = "s\<lparr>scount := scount s + 1, swait := ws\<rparr>" and ?k = "make_ready w k"
    have wf2: "wf_kernel ?k" using U(1) by (simp add: kernel_inv_def)
    have wm: "w \<notin> set (READY_LIST k)" using waiting_not_ready [OF wf W(1)] by simp
    have neg: "scount s < 0" by (rule sema_inv_wake(2) [OF s Cons])
    let ?b = "CURRENT_TCB k \<noteq> None \<and> (\<forall>c. CURRENT_TCB k = Some c \<longrightarrow> pri k w < pri k c)"
    have abs: "sema_abs ?s = snd (aup (sema_abs s))" "fst (aup (sema_abs s)) = Some w"
      using neg Cons by (simp_all add: sema_abs_def aup_def)
    let ?P = "\<lambda>(s', k'). kernel_inv k' \<and> sema_inv k' s' \<and> set (READY_LIST k) \<subseteq> set (READY_LIST k')
           \<and> scount s' = scount s + 1 \<and> sema_abs s' = snd (aup (sema_abs s))
           \<and> w \<in> set (READY_LIST k') \<and> list_all (\<lambda>v. pri k w \<le> pri k v) (swait s')
           \<and> list_all (\<lambda>c. pri k' c \<le> pri k w) (case CURRENT_TCB k' of None \<Rightarrow> [] | Some c \<Rightarrow> [c])"
    have P: "?P (?s, k')" if k': "kernel_inv k'" "yield_frame ?k k'"
      "\<And>c. CURRENT_TCB k' = Some c \<Longrightarrow> pri k' c \<le> pri k w" for k'
      using k'(1,3) yield_frameD(6) [OF k'(2)] sema_inv_yield [OF k'(2) wf2 U(2)] abs W(2)
      by (auto simp: list_all_iff split: option.split)
    show ?thesis unfolding U(3) returns_bind abs(2) option.case
    proof (cases ?b)
      case True
      have m: "mid_inv ?k" by (rule kernel_inv_mid [OF U(1)])
      show "returns (\<lambda>x. returns ?P (Some (?s, x))) (if ?b then yield_task ?k else Some ?k)"
        unfolding if_P [OF True] returns_Some
      proof (rule returns_mono [OF yield_runs_best [OF m]])
        fix k' assume k': "kernel_inv k' \<and> yield_frame ?k k' \<and> runs_best k'"
        then have "pri k' c \<le> pri k w" if "CURRENT_TCB k' = Some c" for c
          using that yield_frameD(1,6) [of ?k k'] unfolding runs_best_def by fastforce
        then show "?P (?s, k')" using k' by (intro P) auto
      qed
    next
      case False
      show "returns (\<lambda>x. returns ?P (Some (?s, x))) (if ?b then yield_task ?k else Some ?k)"
        unfolding if_not_P [OF False] returns_Some
      proof (rule P)
        fix c assume c: "CURRENT_TCB ?k = Some c"
        then have "c \<noteq> w" using cr wm by (auto simp: current_ready_def)
        then show "pri ?k c \<le> pri k w" using False c by (auto simp: not_less)
      qed (simp_all add: U(1))
    qed
  qed
qed

lemma sema_try_down_spec:
  assumes s: "sema_inv k s"
  shows "sema_inv k (snd (sema_try_down s))
     \<and> (if 0 < scount s then fst (sema_try_down s) \<and> sema_abs (snd (sema_try_down s)) = adown p c (sema_abs s)
        else \<not> fst (sema_try_down s) \<and> snd (sema_try_down s) = s)"
  using assms by (auto simp: sema_try_down_def sema_inv_def sema_abs_def adown_def)

lemma sema_up_from_isr_spec:
  assumes inv: "kernel_inv k" and s: "sema_inv k s" and room: "scount s < 2147483647"
  shows "returns (\<lambda>(s', k'). kernel_inv k' \<and> sema_inv k' s' \<and> sema_abs s' = snd (aup (sema_abs s))
           \<and> CURRENT_TCB k' = CURRENT_TCB k
           \<and> (case fst (aup (sema_abs s)) of None \<Rightarrow> k' = k | Some w \<Rightarrow> w \<in> set (READY_LIST k')))
         (sema_up_from_isr s k)"
proof -
  from inv have wf: "wf_kernel k" by (simp_all add: kernel_inv_def)
  have wr: "wrap_i32 (scount s + 1) = scount s + 1"
    using sema_inv_count [OF s] room by simp
  show ?thesis
  proof (cases "swait s")
    case Nil
    then have "0 \<le> scount s" using s by (auto simp: sema_inv_def)
    with Nil s inv room show ?thesis
      by (auto simp: sema_up_from_isr_def Let_def wr sema_inv_def sema_abs_def aup_def)
  next
    case (Cons w ws)
    then have W: "waiting k (w # ws)" using s by (simp add: sema_inv_def)
    from sema_inv_wake [OF s Cons] Cons kernel_inv_wake [OF inv W] show ?thesis
      by (simp add: sema_up_from_isr_def Let_def wr tl_pop_front_def wake_task_waiter [OF wf W]
          sema_abs_def aup_def)
  qed
qed

subsection \<open>Mutexes: ownership and inheritance\<close>

text \<open>
  A free mutex has no waiters and an owned one a positive recursion count; the owner does not wait
  for the mutex it holds.
\<close>

definition mutex_inv :: "kernel \<Rightarrow> 'a mutex \<Rightarrow> bool" where
  "mutex_inv k m \<longleftrightarrow> waiting k (mwait m) \<and> (case mowner m of
       None \<Rightarrow> mwait m = [] \<and> mrecursive m = 0
     | Some w \<Rightarrow> w < TASK_MAX \<and> w \<notin> set (mwait m) \<and> mrecursive m \<noteq> 0)"

lemma mutex_inv_yield: "yield_frame k k' \<Longrightarrow> wf_kernel k \<Longrightarrow> mutex_inv k m \<Longrightarrow> mutex_inv k' m"
  by (simp add: mutex_inv_def waiting_yield)

text \<open>The owner's priority after \<open>boost_owner\<close>, and the state it leaves.\<close>

definition boosted_tcb :: "u8 \<Rightarrow> tcb \<Rightarrow> tcb" where
  "boosted_tcb p t = (if p < priority t
     then t\<lparr>sub_priority := (if sub_priority t = PRI_INV then priority t else sub_priority t), priority := p\<rparr>
     else t)"

definition boosted :: "nat \<Rightarrow> u8 \<Rightarrow> kernel \<Rightarrow> kernel" where
  "boosted w p k = k\<lparr>TCBS := (TCBS k)(w := boosted_tcb p (TCBS k w)),
     READY_LIST := (if p < pri k w \<and> status (TCBS k w) = Ready
        then insert_before (\<lambda>s. p < priority (((TCBS k)(w := boosted_tcb p (TCBS k w))) s)) w (remove1 w (READY_LIST k))
        else READY_LIST k)\<rparr>"

lemma boosted_tcb_simps [simp]:
  "status (boosted_tcb p t) = status t" "tcb_tid (boosted_tcb p t) = tcb_tid t"
  "wake_point (boosted_tcb p t) = wake_point t" "priority (boosted_tcb p t) = min p (priority t)"
  by (auto simp: boosted_tcb_def min_def)

lemma boosted_fields [simp]:
  "BLOCKED_LIST (boosted w p k) = BLOCKED_LIST k" "SLEEPING_LIST (boosted w p k) = SLEEPING_LIST k"
  "CURRENT_TCB (boosted w p k) = CURRENT_TCB k" "SCHED_READY (boosted w p k) = SCHED_READY k"
  "TID_BITMAP (boosted w p k) = TID_BITMAP k" "OS_TICKS (boosted w p k) = OS_TICKS k"
  "TCBS (boosted w p k) t = (if t = w then boosted_tcb p (TCBS k w) else TCBS k t)"
  by (simp_all add: boosted_def)

lemma boosted_ready_set: "wf_kernel k \<Longrightarrow> w < TASK_MAX \<Longrightarrow> set (READY_LIST (boosted w p k)) = set (READY_LIST k)"
  using wf_kernel_ready_iff [of k w] wf_kernel_distinct(1) [of k]
  by (auto simp: boosted_def set_remove1_eq split: if_splits)

lemma boost_owner_closed:
  assumes wf: "wf_kernel k" and w: "w < TASK_MAX"
  shows "boost_owner w p k = Some (boosted w p k)"
proof (cases "p < pri k w \<and> status (TCBS k w) = Ready")
  case True
  let ?T = "boosted_tcb p (TCBS k w)"
  let ?k1 = "k\<lparr>TCBS := (TCBS k)(w := ?T), READY_LIST := remove1 w (READY_LIST k)\<rparr>"
  have d: "distinct (READY_LIST k)" by (rule wf_kernel_distinct(1) [OF wf])
  have "set (READY_LIST ?k1) \<subseteq> {..<TASK_MAX}"
    using wf_kernel_ready_range [OF wf] d by (auto simp: set_remove1_eq)
  moreover from this have "length (READY_LIST ?k1) < TASK_MAX"
    using d w by (intro length_distinct_lessThan_strict [of _ _ w]) (auto simp: set_remove1_eq)
  ultimately have "ready_insert w p ?k1
      = Some (?k1\<lparr>READY_LIST := insert_before (\<lambda>t. p < priority (TCBS ?k1 t)) w (READY_LIST ?k1)\<rparr>)"
    by (rule ready_insert_before)
  moreover have "?T = (TCBS k w)\<lparr>sub_priority := (if sub_priority (TCBS k w) = PRI_INV
      then pri k w else sub_priority (TCBS k w)), priority := p\<rparr>" using True by (simp add: boosted_tcb_def)
  ultimately show ?thesis using True w
    by (cases "sub_priority (TCBS k w) = PRI_INV")
      (simp_all add: boost_owner_def boosted_def ready_remove_def fun_upd_same del: PRI_INV_def fun_upd_apply)
next
  case False
  then show ?thesis using w
    by (auto simp: boost_owner_def boosted_def boosted_tcb_def)
qed

lemma safe_inv_boosted:
  assumes inv: "safe_inv k" and w: "w < TASK_MAX"
  shows "safe_inv (boosted w p k)"
proof -
  from inv have wf: "wf_kernel k" by (simp add: safe_inv_def)
  note rs = boosted_ready_set [OF wf w]
  have "distinct (READY_LIST (boosted w p k))"
    using wf_kernel_distinct(1) [OF wf] by (simp add: boosted_def)
  then have d: "distinct (READY_LIST (boosted w p k) @ BLOCKED_LIST (boosted w p k) @ SLEEPING_LIST (boosted w p k))"
    using wf rs by (auto simp: wf_kernel_def wf_lists_def)
  have st: "status (TCBS (boosted w p k) t) = status (TCBS k t)"
    and id: "tcb_tid (TCBS (boosted w p k) t) = tcb_tid (TCBS k t)" for t by simp_all
  from wf have W: "wf_lists k" "wf_ids k" "wf_current k" by (simp_all add: wf_kernel_def)
  have "wf_lists (boosted w p k)"
    using W(1) d unfolding wf_lists_def rs st boosted_fields(1,2) by blast
  moreover have "wf_ids (boosted w p k)" using W(2) unfolding wf_ids_def st id boosted_fields(5) .
  moreover have "wf_current (boosted w p k)" using W(3) unfolding wf_current_def st id boosted_fields(3) .
  ultimately have "wf_kernel (boosted w p k)" by (simp add: wf_kernel_def)
  moreover have "current_ready k" using inv by (simp add: safe_inv_def)
  then have "current_ready (boosted w p k)" unfolding current_ready_def boosted_fields(3,4) rs .
  ultimately show ?thesis unfolding safe_inv_def by blast
qed

lemma kernel_inv_boosted:
  assumes inv: "kernel_inv k" and w: "w < TASK_MAX" and nc: "CURRENT_TCB k \<noteq> Some w"
  shows "kernel_inv (boosted w p k)"
proof -
  from inv have wf: "wf_kernel k" and srt: "ready_sorted k" by (simp_all add: kernel_inv_def)
  have "ready_sorted (boosted w p k)"
  proof (cases "p < pri k w \<and> status (TCBS k w) = Ready")
    case True
    let ?f = "\<lambda>s. pri (boosted w p k) s"
    have "w \<notin> set (remove1 w (READY_LIST k))" using wf_kernel_distinct(1) [OF wf] by simp
    then have "map ?f (remove1 w (READY_LIST k)) = map (pri k) (remove1 w (READY_LIST k))"
      by (intro map_cong) auto
    then have "sorted (map ?f (remove1 w (READY_LIST k)))"
      using sorted_map_remove1 [of "pri k" "READY_LIST k" w] srt unfolding ready_sorted_def by argo
    from sorted_insert_before [OF this, of w] have "sorted (map ?f (insert_before (\<lambda>s. ?f w < ?f s) w (remove1 w (READY_LIST k))))" .
    moreover have "READY_LIST (boosted w p k) = insert_before (\<lambda>s. ?f w < ?f s) w (remove1 w (READY_LIST k))"
      using True by (simp add: boosted_def)
    ultimately show ?thesis by (simp add: ready_sorted_def)
  next
    case False
    have "pri (boosted w p k) t = pri k t" if "t \<in> set (READY_LIST k)" for t
    proof (cases "t = w")
      case True
      then have "status (TCBS k w) = Ready \<or> status (TCBS k w) = Running"
        using that wf_kernel_ready_iff [OF wf w] by simp
      moreover have "status (TCBS k w) \<noteq> Running"
        using nc wf_kernel_running [OF wf w] by blast
      ultimately show ?thesis using False True by (simp add: min_def)
    qed simp
    moreover have "READY_LIST (boosted w p k) = READY_LIST k" using False by (auto simp: boosted_def)
    ultimately show ?thesis using ready_sorted_cong [of "boosted w p k" k] srt by blast
  qed
  with safe_inv_boosted [OF kernel_inv_safe [OF inv] w, of p] show ?thesis by (simp add: kernel_inv_def safe_inv_def)
qed

lemma waiting_boosted [simp]: "waiting (boosted w p k) wq = waiting k wq"
proof -
  have "status (TCBS (boosted w p k) t) = status (TCBS k t)" for t by simp
  then show ?thesis by (simp only: waiting_def boosted_fields)
qed

text \<open>With a foreign owner: the state in which \<open>internal_lock\<close> calls \<open>yield_task\<close>.\<close>

lemma mutex_lock_parks:
  assumes inv: "safe_inv k" and m: "mutex_inv k m" and c: "CURRENT_TCB k = Some c"
    and own: "mowner m = Some w" "w \<noteq> c"
  defines "k1 \<equiv> make_blocked c (boosted w (pri k c) k)"
    and "m1 \<equiv> m\<lparr>mwait := insert_before (\<lambda>s. pri k c < pri (boosted w (pri k c) k) s) c (mwait m)\<rparr>"
  shows "mutex_lock m k = do { k' \<leftarrow> yield_task k1; Some (m1, k') }"
    and "wf_kernel k1" and "mutex_inv k1 m1" and "set (READY_LIST k1) = set (READY_LIST k) - {c}"
proof -
  from inv c have wf: "wf_kernel k" and cr: "c \<in> set (READY_LIST k)"
    by (auto simp: safe_inv_def current_ready_def)
  note tid = current_tid_simp [OF wf c] and cm = ready_not_terminated [OF wf cr]
  have W: "waiting k (mwait m)" using m by (simp add: mutex_inv_def)
  have w: "w < TASK_MAX" "w \<notin> set (mwait m)" "mrecursive m \<noteq> 0" using m own by (simp_all add: mutex_inv_def)
  let ?kb = "boosted w (pri k c) k"
  have wfb: "wf_kernel ?kb" using safe_inv_boosted [OF inv w(1)] by (simp add: safe_inv_def)
  note rs = boosted_ready_set [OF wf w(1)]
  have crb: "c \<in> set (READY_LIST ?kb)" using cr rs by simp
  have Wb: "waiting ?kb (mwait m)" using W by simp
  have pc: "pri ?kb c = pri k c" using own(2) by simp
  note park = park_task_closed [OF wfb Wb crb, unfolded pc]
  show "wf_kernel k1" unfolding k1_def
    using wf_kernel_make_blocked [OF wfb] ready_not_terminated [OF wfb crb] wf_kernel_disjoint(1) [OF wfb crb] by blast
  show "mutex_inv k1 m1" unfolding k1_def m1_def
    using waiting_insert [OF wfb Wb crb] own w by (simp add: mutex_inv_def)
  show "mutex_lock m k = do { k' \<leftarrow> yield_task k1; Some (m1, k') }" unfolding k1_def m1_def
    using own cm by (simp add: mutex_lock_def mutex_internal_lock_def tid boost_owner_closed [OF wf w(1)] park)
  show "set (READY_LIST k1) = set (READY_LIST k) - {c}"
    unfolding k1_def using rs wf_kernel_distinct(1) [OF wfb] by (simp add: set_remove1_eq)
qed

lemma mutex_lock_contended:
  assumes inv: "kernel_inv k" and m: "mutex_inv k m" and c: "CURRENT_TCB k = Some c"
    and i: "i \<in> set (READY_LIST k)" "i \<noteq> c" and own: "mowner m = Some w" "w \<noteq> c"
  defines "k1 \<equiv> make_blocked c (boosted w (pri k c) k)"
    and "m1 \<equiv> m\<lparr>mwait := insert_before (\<lambda>s. pri k c < pri (boosted w (pri k c) k) s) c (mwait m)\<rparr>"
  shows "mutex_lock m k = do { k' \<leftarrow> yield_task k1; Some (m1, k') }"
    and "mid_inv k1" and "mutex_inv k1 m1" and "set (READY_LIST k1) = set (READY_LIST k) - {c}"
proof -
  note P = mutex_lock_parks [OF kernel_inv_safe [OF inv] m c own]
  show "mutex_lock m k = do { k' \<leftarrow> yield_task k1; Some (m1, k') }" "mutex_inv k1 m1"
    "set (READY_LIST k1) = set (READY_LIST k) - {c}" unfolding k1_def m1_def using P by simp_all
  have w: "w < TASK_MAX" using m own by (simp add: mutex_inv_def)
  have invb: "kernel_inv (boosted w (pri k c) k)" using kernel_inv_boosted [OF inv w] c own(2) by simp
  then have wfb: "wf_kernel (boosted w (pri k c) k)" by (simp add: kernel_inv_def)
  have "wf_kernel k" "c \<in> set (READY_LIST k)" using inv c by (auto simp: kernel_inv_def current_ready_def)
  then have crb: "c \<in> set (READY_LIST (boosted w (pri k c) k))" "i \<in> set (READY_LIST (boosted w (pri k c) k))"
    using i boosted_ready_set [OF _ w] by simp_all
  show "mid_inv k1" unfolding k1_def
    using mid_inv_make_blocked [OF kernel_inv_mid [OF invb], of c i] ready_not_terminated [OF wfb crb(1)]
      wf_kernel_disjoint(1) [OF wfb crb(1)] crb(2) i by simp
qed

lemma mutex_lock_spec:
  assumes inv: "kernel_inv k" and m: "mutex_inv k m" and c: "CURRENT_TCB k = Some c"
    and i: "i \<in> set (READY_LIST k)" "i \<noteq> c" and rec: "mrecursive m \<noteq> - 1"
  shows "returns (\<lambda>(m', k'). kernel_inv k' \<and> mutex_inv k' m' \<and> i \<in> set (READY_LIST k') \<and> mdata m' = mdata m
           \<and> (case mowner m of
                None \<Rightarrow> k' = k \<and> mowner m' = Some c \<and> mrecursive m' = 1
              | Some w \<Rightarrow>
                  if w = c then k' = k \<and> mowner m' = Some c \<and> mrecursive m' = mrecursive m + 1
                  else mowner m' = Some w \<and> mrecursive m' = mrecursive m
                    \<and> mwait m' = insert_before (\<lambda>s. pri k c < pri (boosted w (pri k c) k) s) c (mwait m)
                    \<and> pri k' w = min (pri k c) (pri k w) \<and> CURRENT_TCB k' \<noteq> Some c))
         (mutex_lock m k)"
proof -
  from inv c have wf: "wf_kernel k" and cr: "c \<in> set (READY_LIST k)"
    by (auto simp: kernel_inv_def current_ready_def)
  note tid = current_tid_simp [OF wf c] and cm = ready_not_terminated [OF wf cr]
  have W: "waiting k (mwait m)" using m by (simp add: mutex_inv_def)
  have nw: "c \<notin> set (mwait m)" using waiting_not_ready [OF wf W] cr by blast
  show ?thesis
  proof (cases "mowner m")
    case None
    then show ?thesis
      using inv m i tid cm by (simp add: mutex_lock_def mutex_internal_lock_def mutex_inv_def del: TASK_MAX_def)
  next
    case (Some w)
    show ?thesis
    proof (cases "w = c")
      case True
      have "mrecursive m + 1 \<noteq> 0" using rec by (metis add_eq_0_iff minus_equation_iff)
      with True Some show ?thesis
        using inv m i tid nw cm by (simp add: mutex_lock_def mutex_internal_lock_def mutex_inv_def del: TASK_MAX_def)
    next
      case False
      note C = mutex_lock_contended [OF inv m c i Some False]
      let ?k1 = "make_blocked c (boosted w (pri k c) k)"
      let ?wq = "insert_before (\<lambda>s. pri k c < pri (boosted w (pri k c) k) s) c (mwait m)"
      have wf1: "wf_kernel ?k1" using C(2) by (simp add: mid_inv_def)
      show ?thesis unfolding C(1) returns_bind
      proof (rule sched.yield_mono [OF C(2)])
        fix k' assume k': "kernel_inv k'" "yield_frame ?k1 k'"
        note fr = yield_frameD [OF k'(2)]
        have mi: "mutex_inv k' (m\<lparr>mwait := ?wq\<rparr>)" by (rule mutex_inv_yield [OF k'(2) wf1 C(3)])
        then have "c \<notin> set (READY_LIST k')"
          using k'(1) by (intro waiting_not_ready [of k' ?wq]) (auto simp: mutex_inv_def kernel_inv_def)
        then have "CURRENT_TCB k' \<noteq> Some c" using k'(1) by (auto simp: kernel_inv_def current_ready_def)
        moreover have "i \<in> set (READY_LIST k')" using fr(6) C(4) i by auto
        moreover have "pri k' w = min (pri k c) (pri k w)" using fr(1) [of w] False by simp
        ultimately show "returns (\<lambda>(m', k'). kernel_inv k' \<and> mutex_inv k' m' \<and> i \<in> set (READY_LIST k') \<and> mdata m' = mdata m
           \<and> (case mowner m of
                None \<Rightarrow> k' = k \<and> mowner m' = Some c \<and> mrecursive m' = 1
              | Some w \<Rightarrow>
                  if w = c then k' = k \<and> mowner m' = Some c \<and> mrecursive m' = mrecursive m + 1
                  else mowner m' = Some w \<and> mrecursive m' = mrecursive m
                    \<and> mwait m' = insert_before (\<lambda>s. pri k c < pri (boosted w (pri k c) k) s) c (mwait m)
                    \<and> pri k' w = min (pri k c) (pri k w) \<and> CURRENT_TCB k' \<noteq> Some c)) (Some (m\<lparr>mwait := ?wq\<rparr>, k'))"
          using k'(1) mi Some False by simp
      qed
    qed
  qed
qed

subsection \<open>Releasing a mutex\<close>

text \<open>The current task's own priority is restored.\<close>

definition restored :: "nat \<Rightarrow> kernel \<Rightarrow> kernel" where
  "restored c k = (if sub_priority (TCBS k c) \<noteq> PRI_INV
     then k\<lparr>TCBS := (TCBS k)(c := (TCBS k c)\<lparr>priority := sub_priority (TCBS k c), sub_priority := PRI_INV\<rparr>)\<rparr>
     else k)"

lemma restored_fields [simp]:
  "READY_LIST (restored c k) = READY_LIST k" "BLOCKED_LIST (restored c k) = BLOCKED_LIST k"
  "SLEEPING_LIST (restored c k) = SLEEPING_LIST k" "CURRENT_TCB (restored c k) = CURRENT_TCB k"
  "SCHED_READY (restored c k) = SCHED_READY k" "TID_BITMAP (restored c k) = TID_BITMAP k"
  "OS_TICKS (restored c k) = OS_TICKS k"
  "status (TCBS (restored c k) t) = status (TCBS k t)"
  "tcb_tid (TCBS (restored c k) t) = tcb_tid (TCBS k t)"
  "wake_point (TCBS (restored c k) t) = wake_point (TCBS k t)"
  "time_slice (TCBS (restored c k) t) = time_slice (TCBS k t)"
  "pri (restored c k) t = (if t = c \<and> sub_priority (TCBS k c) \<noteq> PRI_INV then sub_priority (TCBS k c) else pri k t)"
  by (auto simp: restored_def)

lemma wf_kernel_restored [simp]: "wf_kernel (restored c k) = wf_kernel k"
  by (simp add: wf_kernel_def wf_lists_def wf_ids_def wf_current_def del: TASK_MAX_def)

lemma waiting_restored [simp]: "waiting (restored c k) wq = waiting k wq"
  by (simp add: waiting_def del: TASK_MAX_def)

text \<open>What \<open>internal_unlock\<close> does to the mutex when the last level of recursion ends.\<close>

definition released :: "'a mutex \<Rightarrow> 'a mutex" where
  "released m = (case mwait m of
       [] \<Rightarrow> m\<lparr>mrecursive := 0, mowner := None\<rparr>
     | w # ws \<Rightarrow> m\<lparr>mrecursive := 1, mowner := Some w, mwait := ws\<rparr>)"

lemma mutex_inv_released:
  assumes "mutex_inv k m"
  shows "mwait m = [] \<Longrightarrow> mutex_inv k (released m)"
    and "mwait m = w # ws \<Longrightarrow> mutex_inv (make_ready w k) (released m)"
proof -
  show "mwait m = [] \<Longrightarrow> mutex_inv k (released m)" by (simp add: mutex_inv_def released_def)
  assume m: "mwait m = w # ws"
  then have "waiting k (w # ws)" using assms by (simp add: mutex_inv_def)
  with m waiting_make_ready [OF this] show "mutex_inv (make_ready w k) (released m)"
    by (auto simp: mutex_inv_def released_def waiting_def)
qed

lemma mutex_release_waiter:
  assumes wf: "wf_kernel k" and c: "CURRENT_TCB k = Some c" and rec: "mrecursive m = 1"
    and m: "mwait m = w # ws" "waiting k (w # ws)"
  shows "mutex_release m k = Some (pri (restored c k) w < pri (restored c k) c, released m, make_ready w (restored c k))"
proof -
  have wm: "w < TASK_MAX" "c < TASK_MAX"
    using m(2) wf_kernel_current [OF wf c] by (simp_all add: waiting_def)
  have wk: "wake_task w (restored c k) = Some (make_ready w (restored c k))"
    using wf m(2) by (intro wake_task_waiter [of _ _ ws]) simp_all
  have same: "pri (make_ready w (restored c k)) t = pri (restored c k) t" for t by simp
  have rs: "(if sub_priority (TCBS k c) \<noteq> PRI_INV
             then modify_tcb c (\<lambda>t. t\<lparr>priority := sub_priority t, sub_priority := PRI_INV\<rparr>) k
             else Some k) = Some (restored c k)"
    using wm by (simp add: restored_def)
  show ?thesis
    using m(1) rec wm wk rs
    by (simp add: mutex_release_def current_tid_simp [OF wf c] Let_def tl_pop_front_def released_def same
        del: PRI_INV_def restored_fields(12) make_ready_fields(8) mutex.update_convs)
qed

lemma mutex_release_free:
  assumes wf: "wf_kernel k" and c: "CURRENT_TCB k = Some c" and rec: "mrecursive m = 1" and m: "mwait m = []"
  shows "mutex_release m k = Some ((case READY_LIST k of [] \<Rightarrow> False
           | h # _ \<Rightarrow> pri (restored c k) h < pri (restored c k) c), released m, restored c k)"
proof -
  have wm: "c < TASK_MAX" using wf_kernel_current [OF wf c] by simp
  have rs: "(if sub_priority (TCBS k c) \<noteq> PRI_INV
             then modify_tcb c (\<lambda>t. t\<lparr>priority := sub_priority t, sub_priority := PRI_INV\<rparr>) k
             else Some k) = Some (restored c k)"
    using wm by (simp add: restored_def)
  have "h < TASK_MAX" if "READY_LIST k = h # hs" for h hs
    using wf_kernel_ready_range [OF wf] that by auto
  then show ?thesis
    using m rec wm rs
    by (cases "READY_LIST k")
      (simp_all add: mutex_release_def current_tid_simp [OF wf c] Let_def tl_pop_front_def tl_front_def released_def
        del: PRI_INV_def restored_fields(12))
qed

lemma woken_none:
  assumes "\<forall>t \<in> set (SLEEPING_LIST k). \<not> expired k t"
  shows "woken k = k"
proof -
  have "filter (expired k) (SLEEPING_LIST k) = []"
    and "filter (\<lambda>t. \<not> expired k t) (SLEEPING_LIST k) = SLEEPING_LIST k"
    and "(\<lambda>t. if t \<in> set (SLEEPING_LIST k) \<and> expired k t then wake_tcb (TCBS k t) else TCBS k t) = TCBS k"
    using assms by (auto simp: filter_empty_conv filter_id_conv fun_eq_iff)
  then show ?thesis by (simp add: woken_def wake_list_def)
qed

lemma next_tcb_resort:
  assumes wf: "wf_kernel k" and c: "CURRENT_TCB k = Some c" "c \<in> set (READY_LIST k)" and rdy: "SCHED_READY k"
    and run: "status (TCBS k c) = Running" and srt: "sorted (map (pri k) (remove1 c (READY_LIST k)))"
    and none: "\<forall>t \<in> set (SLEEPING_LIST k). \<not> expired k t"
  shows "returns (\<lambda>k'. kernel_inv k' \<and> sched_frame k k' \<and> runs_best k') (next_tcb k)"
proof -
  have st: "settled c k = requeue c k" using run by (simp add: settled_def woken_none [OF none])
  have ne: "READY_LIST (woken k) \<noteq> []" using c(2) by (auto simp: woken_none [OF none])
  obtain h k' where k': "next_tcb k = Some k'" "k' = switch_to c h (settled c k)"
    "CURRENT_TCB k' = Some h" "h = hd (READY_LIST k')" "READY_LIST k' = READY_LIST (settled c k)"
    "READY_LIST k' \<noteq> []" "wf_kernel k'" "current_ready k'"
    by (rule next_tcb_step [OF wf c(1) rdy ne]) blast
  have p: "pri (requeue c k) = pri k" by (simp add: fun_eq_iff requeue_def)
  have "ready_sorted (requeue c k)"
    using sorted_insert_before [OF srt, of c] unfolding ready_sorted_def p by (simp add: requeue_def)
  then have s': "ready_sorted k'" using ready_sorted_switch k'(2) st by simp
  obtain hs where hs: "READY_LIST k' = h # hs" using k'(4,6) by (cases "READY_LIST k'") auto
  then have "runs_best k'" using s' k'(3) by (auto simp: runs_best_def ready_sorted_def)
  with s' k'(1,7,8) next_tcb_frame [OF wf c(1) k'(1)] show ?thesis by (simp add: kernel_inv_def)
qed

text \<open>Where the scan puts the new owner although the old one still stands at its boosted place.\<close>

lemma sorted_insert_misplaced:
  fixes f g :: "'a \<Rightarrow> 'b :: linorder"
  assumes "sorted (map f xs)" "distinct xs" "c \<in> set xs" "w \<notin> set xs"
    and "\<And>x. x \<noteq> c \<Longrightarrow> g x = f x" and "f w \<le> f c" and "f w < g c"
  shows "sorted (map f (remove1 c (insert_before (\<lambda>s. f w < g s) w xs)))"
  using assms(1-4)
proof (induction xs)
  case (Cons x xs)
  have wc: "w \<noteq> c" using Cons.prems(3,4) by auto
  show ?case
  proof (cases "x = c")
    case True
    have "\<forall>y \<in> set xs. f w \<le> f y" using Cons.prems(1) assms(6) True by fastforce
    then show ?thesis using True assms(7) Cons.prems wc by simp
  next
    case False
    then have gx: "g x = f x" using assms(5) by blast
    show ?thesis
    proof (cases "f w < f x")
      case True
      then have "\<forall>y \<in> set (x # xs). f w \<le> f y" using Cons.prems(1) by fastforce
      moreover have "set (remove1 c (x # xs)) \<subseteq> set (x # xs)" by (rule set_remove1_subset)
      moreover have "sorted (map f (remove1 c (x # xs)))" using Cons.prems(1) by (rule sorted_map_remove1)
      ultimately show ?thesis using True gx wc False by auto
    next
      case nle: False
      have "sorted (map f (remove1 c (insert_before (\<lambda>s. f w < g s) w xs)))"
        using Cons False by simp
      moreover have "f x \<le> f y" if "y \<in> set (remove1 c (insert_before (\<lambda>s. f w < g s) w xs))" for y
      proof -
        have "y \<in> insert w (set xs)" using that set_remove1_subset by fastforce
        then show ?thesis using Cons.prems(1) nle by auto
      qed
      ultimately show ?thesis using False nle gx by simp
    qed
  qed
qed simp

definition no_expired :: "kernel \<Rightarrow> bool" where
  "no_expired k \<longleftrightarrow> list_all (\<lambda>t. \<not> wake_point (TCBS k t) \<le> OS_TICKS k) (SLEEPING_LIST k)"

lemma no_expiredD: "no_expired k \<Longrightarrow> \<forall>t \<in> set (SLEEPING_LIST k). \<not> expired k t"
  by (auto simp: no_expired_def list_all_iff expired_def)

text \<open>The owner was lifted by the waiter at the front of the queue, and only by it.\<close>

lemma mutex_unlock_boosted:
  assumes inv: "kernel_inv k" and m: "mutex_inv k m" and c: "CURRENT_TCB k = Some c"
    and run: "status (TCBS k c) = Running" and none: "no_expired k"
    and own: "mrecursive m = 1" "mwait m = w # ws"
    and boost: "sub_priority (TCBS k c) \<noteq> PRI_INV" "pri k w \<le> pri k c" "pri k w < sub_priority (TCBS k c)"
  shows "returns (\<lambda>(y, m', k'). kernel_inv k' \<and> mutex_inv k' m' \<and> m' = released m
           \<and> w \<in> set (READY_LIST k') \<and> c \<in> set (READY_LIST k')
           \<and> pri k' c = sub_priority (TCBS k c) \<and> runs_best k' \<and> CURRENT_TCB k' \<noteq> Some c)
         (mutex_internal_unlock m k)"
proof -
  from inv c have wf: "wf_kernel k" and cr: "c \<in> set (READY_LIST k)" and srt: "ready_sorted k" and rdy: "SCHED_READY k"
    by (auto simp: kernel_inv_def current_ready_def)
  have W: "waiting k (w # ws)" using m own(2) by (simp add: mutex_inv_def)
  have wm: "w < TASK_MAX" "w \<notin> set (READY_LIST k)"
    using W waiting_not_ready [OF wf W] by (auto simp: waiting_def)
  then have wc: "w \<noteq> c" using cr by blast
  let ?kr = "restored c k" and ?k1 = "make_ready w (restored c k)"
  have p: "pri ?kr w = pri k w" "pri ?kr c = sub_priority (TCBS k c)" using wc boost(1) by simp_all
  have Wr: "waiting ?kr (w # ws)" and wfr: "wf_kernel ?kr" using W wf by simp_all
  have wf1: "wf_kernel ?k1"
    using wf W by (intro wf_kernel_make_ready) (auto simp: waiting_def)
  have m1: "mutex_inv ?k1 (released m)"
    using mutex_inv_released(2) [of ?kr m w ws] m own(2) by (simp add: mutex_inv_def)
  have "sorted (map (pri k) (remove1 c (insert_before (\<lambda>s. pri k w < pri ?kr s) w (READY_LIST k))))"
    using srt wf_kernel_distinct(1) [OF wf] cr wm(2) boost p(2)
    by (intro sorted_insert_misplaced) (simp_all add: ready_sorted_def)
  moreover have "pri ?k1 s = pri k s" if "s \<in> set (remove1 c (insert_before (\<lambda>s. pri k w < pri ?kr s) w (READY_LIST k)))" for s
  proof -
    have "distinct (insert_before (\<lambda>s. pri k w < pri ?kr s) w (READY_LIST k))"
      using wf_kernel_distinct(1) [OF wf] wm(2) by simp
    then have "s \<noteq> c" using that by auto
    then show ?thesis by simp
  qed
  ultimately have "sorted (map (pri ?k1) (remove1 c (insert_before (\<lambda>s. pri k w < pri ?kr s) w (READY_LIST k))))"
    by (subst sorted_map_cong [of _ _ "pri k"]) blast+
  then have srt1: "sorted (map (pri ?k1) (remove1 c (READY_LIST ?k1)))"
    using p(1) by (simp add: make_ready_def del: restored_fields(12))
  have cr1: "c \<in> set (READY_LIST ?k1)" "CURRENT_TCB ?k1 = Some c" "SCHED_READY ?k1" "status (TCBS ?k1 c) = Running"
    using cr c rdy run wc by simp_all
  have none1: "\<forall>t \<in> set (SLEEPING_LIST ?k1). \<not> expired ?k1 t"
    using no_expiredD [OF none] by (auto simp: expired_def)
  have eq: "mutex_internal_unlock m k = do { k' \<leftarrow> next_tcb ?k1; Some (True, released m, k') }"
    using mutex_release_waiter [OF wf c own W] boost p cr1(3)
    by (simp add: mutex_internal_unlock_def yield_task_def)
  show ?thesis unfolding eq returns_bind
  proof (rule returns_mono [OF next_tcb_resort [OF wf1 cr1(2,1,3,4) srt1 none1]])
    fix k' assume k': "kernel_inv k' \<and> sched_frame ?k1 k' \<and> runs_best k'"
    have mem: "memory_frame ?k1 ?k1" by (simp add: memory_frame_def)
    have ready: "w \<in> set (READY_LIST k')" "c \<in> set (READY_LIST k')"
      using sched_frameD(6) [of ?k1 k'] k' cr1(1) by auto
    have pk: "pri k' t = pri ?k1 t" for t using sched_frameD(1) k' by blast
    have "CURRENT_TCB k' \<noteq> Some c"
    proof
      assume "CURRENT_TCB k' = Some c"
      then have "pri k' c \<le> pri k' w" using k' ready(1) by (auto simp: runs_best_def)
      then show False using pk [of c] pk [of w] p boost(3) wc by simp
    qed
    moreover have "mutex_inv k' (released m)"
    proof -
      have "status (TCBS k' t) = Blocked \<and> t \<notin> set (BLOCKED_LIST k') \<and> t \<notin> set (SLEEPING_LIST k')"
        if "t \<in> set (mwait (released m))" for t
      proof -
        have W1: "waiting ?k1 (mwait (released m))" using m1 by (simp add: mutex_inv_def)
        then have "status (TCBS ?k1 t) = Blocked" "t \<notin> set (BLOCKED_LIST ?k1)" "t \<notin> set (SLEEPING_LIST ?k1)"
          using that by (auto simp: waiting_def)
        moreover have "t \<notin> set (READY_LIST ?k1)" by (rule waiting_not_ready [OF wf1 W1 that])
        ultimately show ?thesis
          using k' sched_frameD(3,5) [of ?k1 k'] unfolding sched_frame_def by auto
      qed
      with m1 show ?thesis by (simp add: mutex_inv_def waiting_def)
    qed
    ultimately show "returns (\<lambda>(y, m', k'). kernel_inv k' \<and> mutex_inv k' m' \<and> m' = released m
           \<and> w \<in> set (READY_LIST k') \<and> c \<in> set (READY_LIST k')
           \<and> pri k' c = sub_priority (TCBS k c) \<and> runs_best k' \<and> CURRENT_TCB k' \<noteq> Some c) (Some (True, released m, k'))"
      using k' ready pk [of c] p(2) wc by simp
  qed
qed

lemma mutex_unlock_plain:
  assumes inv: "kernel_inv k" and m: "mutex_inv k m" and c: "CURRENT_TCB k = Some c"
    and own: "mrecursive m = 1" and base: "sub_priority (TCBS k c) = PRI_INV"
  shows "returns (\<lambda>(y, m', k'). kernel_inv k' \<and> mutex_inv k' m' \<and> m' = released m
           \<and> set (READY_LIST k) \<subseteq> set (READY_LIST k')
           \<and> (case mwait m of [] \<Rightarrow> True | w # ws \<Rightarrow> w \<in> set (READY_LIST k')))
         (mutex_internal_unlock m k)"
proof -
  from inv have wf: "wf_kernel k" by (simp add: kernel_inv_def)
  have rs: "restored c k = k" using base by (simp add: restored_def)
  show ?thesis
  proof (cases "mwait m")
    case Nil
    have mi: "mutex_inv k (released m)" by (rule mutex_inv_released(1) [OF m Nil])
    have L: "returns (\<lambda>x. kernel_inv x \<and> mutex_inv x (released m) \<and> set (READY_LIST k) \<subseteq> set (READY_LIST x))
       (if b then yield_task k else Some k)" for b
      by (rule sched.yield_if [OF kernel_inv_mid [OF inv] inv])
        (use yield_frameD(6) mutex_inv_yield [OF _ wf mi] in auto)
    obtain y where e: "mutex_release m k = Some (y, released m, k)"
      using mutex_release_free [OF wf c own Nil] unfolding rs by blast
    from L [of y] Nil show ?thesis by (cases y) (simp_all add: mutex_internal_unlock_def e)
  next
    case (Cons w ws)
    have W: "waiting k (w # ws)" using m Cons by (simp add: mutex_inv_def)
    have inv1: "kernel_inv (make_ready w k)" by (rule kernel_inv_wake [OF inv W])
    then have wf1: "wf_kernel (make_ready w k)" by (simp add: kernel_inv_def)
    have mi: "mutex_inv (make_ready w k) (released m)" by (rule mutex_inv_released(2) [OF m Cons])
    have L: "returns (\<lambda>x. kernel_inv x \<and> mutex_inv x (released m) \<and> insert w (set (READY_LIST k)) \<subseteq> set (READY_LIST x))
       (if b then yield_task (make_ready w k) else Some (make_ready w k))" for b
      by (rule sched.yield_if [OF kernel_inv_mid [OF inv1] inv1])
        (use yield_frameD(6) [of "make_ready w k"] mutex_inv_yield [OF _ wf1 mi] in auto)
    obtain y where e: "mutex_release m k = Some (y, released m, make_ready w k)"
      using mutex_release_waiter [OF wf c own Cons W] unfolding rs by blast
    from L [of y] Cons show ?thesis by (cases y) (auto simp: mutex_internal_unlock_def e elim!: returns_mono)
  qed
qed

subsection \<open>Condition variables\<close>

lemma mid_inv_restored:
  assumes "mid_inv k" "c \<notin> set (READY_LIST k)"
  shows "mid_inv (restored c k)"
proof -
  have "ready_sorted (restored c k) = ready_sorted k"
    by (rule ready_sorted_cong) (use assms(2) in auto)
  with assms(1) show ?thesis by (simp add: mid_inv_def)
qed

lemma mutex_inv_make_blocked:
  assumes "wf_kernel k" "mutex_inv k m" "c \<in> set (READY_LIST k)"
  shows "mutex_inv (make_blocked c k) m"
proof -
  have W: "waiting k (mwait m)" using assms(2) by (simp add: mutex_inv_def)
  then have "c \<notin> set (mwait m)" using waiting_not_ready [OF assms(1)] assms(3) by blast
  with W have "waiting (make_blocked c k) (mwait m)" by (auto simp: waiting_def)
  with assms(2) show ?thesis by (simp add: mutex_inv_def)
qed

lemma waiting_append:
  assumes "wf_kernel k" "waiting k cv" "c \<in> set (READY_LIST k)"
  shows "waiting (make_blocked c k) (cv @ [c])" and "length cv < TASK_MAX"
proof -
  have c: "c \<notin> set cv" "c < TASK_MAX"
    using waiting_not_ready [OF assms(1,2)] ready_not_terminated [OF assms(1,3)] assms(3) by blast+
  with assms(2) wf_kernel_disjoint(1) [OF assms(1,3)] show "waiting (make_blocked c k) (cv @ [c])"
    by (auto simp: waiting_def)
  show "length cv < TASK_MAX"
    using length_distinct_lessThan_strict [OF _ waiting_range [OF assms(2)] c(2,1)] assms(2)
    by (simp add: waiting_def)
qed

lemma waiting_wake_other:
  "waiting k wq \<Longrightarrow> w \<notin> set wq \<Longrightarrow> waiting (make_ready w k) wq"
  by (auto simp: waiting_def)

lemma condvar_wait_enter_spec:
  assumes inv: "kernel_inv k" and cv: "waiting k cv" and m: "mutex_inv k m" and c: "CURRENT_TCB k = Some c"
    and own: "mrecursive m = 1" and sep: "set cv \<inter> set (mwait m) = {}"
    and i: "i \<in> set (READY_LIST k)" "i \<noteq> c"
  shows "returns (\<lambda>(y, cv', m', k'). kernel_inv k' \<and> waiting k' cv' \<and> mutex_inv k' m'
           \<and> cv' = cv @ [c] \<and> m' = released m \<and> i \<in> set (READY_LIST k') \<and> CURRENT_TCB k' \<noteq> Some c
           \<and> (case mwait m of [] \<Rightarrow> True | w # ws \<Rightarrow> w \<in> set (READY_LIST k')))
         (condvar_wait_enter cv m k)"
proof -
  from inv c have wf: "wf_kernel k" and cr: "c \<in> set (READY_LIST k)"
    by (auto simp: kernel_inv_def current_ready_def)
  note cm = ready_not_terminated [OF wf cr] and wa = waiting_append [OF wf cv cr]
  let ?kb = "make_blocked c k"
  have mb: "mutex_inv ?kb m" by (rule mutex_inv_make_blocked [OF wf m cr])
  have midb: "mid_inv ?kb"
    using mid_inv_make_blocked [OF kernel_inv_mid [OF inv], of c i] cm wf_kernel_disjoint(1) [OF wf cr] i by simp
  then have wfb: "wf_kernel ?kb" by (simp add: mid_inv_def)
  have cb: "CURRENT_TCB ?kb = Some c" using c by simp
  have ncr: "c \<notin> set (READY_LIST ?kb)" using wf_kernel_distinct(1) [OF wf] by simp
  have midr: "mid_inv (restored c ?kb)" by (rule mid_inv_restored [OF midb ncr])
  have push: "snd (tl_push_back c cv) = cv @ [c]" using wa(2) by (simp add: tl_push_back_def)
  have enter: "condvar_wait_enter cv m k = do {
       (y, m, k) \<leftarrow> mutex_internal_unlock m ?kb;
       k \<leftarrow> (if y then Some k else yield_task k);
       Some (y, cv @ [c], m, k) }"
    using cm by (simp add: condvar_wait_enter_def current_tid_simp [OF wf c] push ready_remove_def make_blocked_def Let_def)
  have nmw: "c \<notin> set (mwait m)"
    using m waiting_not_ready [OF wf, of "mwait m"] cr by (auto simp: mutex_inv_def)
  obtain y k2 where k2: "mutex_release m ?kb = Some (y, released m, k2)" "mid_inv k2" "waiting k2 (cv @ [c])"
    "mutex_inv k2 (released m)" "set (READY_LIST ?kb) \<subseteq> set (READY_LIST k2)"
    "case mwait m of [] \<Rightarrow> True | w # ws \<Rightarrow> w \<in> set (READY_LIST k2)"
  proof (cases "mwait m")
    case Nil
    have "mutex_inv (restored c ?kb) (released m)"
      using mutex_inv_released(1) [of "restored c ?kb" m] mb Nil by (simp add: mutex_inv_def)
    with that mutex_release_free [OF wfb cb own Nil] midr wa(1) Nil show ?thesis by auto
  next
    case (Cons w ws)
    have W: "waiting ?kb (w # ws)" using mb Cons by (simp add: mutex_inv_def)
    then have w: "w < TASK_MAX" "status (TCBS ?kb w) = Blocked" "w \<notin> set (BLOCKED_LIST ?kb)" "w \<notin> set (SLEEPING_LIST ?kb)"
      by (simp_all add: waiting_def del: make_blocked_fields)
    then have "mid_inv (make_ready w (restored c ?kb))"
      using mid_inv_make_ready [OF midr] by (simp del: make_blocked_fields)
    moreover have "waiting (make_ready w (restored c ?kb)) (cv @ [c])"
      using wa(1) sep Cons nmw by (intro waiting_wake_other) auto
    moreover have "mutex_inv (make_ready w (restored c ?kb)) (released m)"
      using mutex_inv_released(2) [of "restored c ?kb" m w ws] mb Cons by (simp add: mutex_inv_def)
    ultimately show ?thesis
      using that mutex_release_waiter [OF wfb cb own Cons W] Cons by auto
  qed
  then have wf2: "wf_kernel k2" by (simp add: mid_inv_def)
  have eq: "condvar_wait_enter cv m k = do { k' \<leftarrow> yield_task k2; Some (y, cv @ [c], released m, k') }"
    unfolding enter mutex_internal_unlock_def k2(1) by (cases y) (auto split: Option.bind_splits)
  show ?thesis unfolding eq returns_bind
  proof (rule sched.yield_mono [OF k2(2)])
    fix k' assume k': "kernel_inv k'" "yield_frame k2 k'"
    have W: "waiting k' (cv @ [c])" by (rule waiting_yield [OF k'(2) wf2 k2(3)])
    have "c \<notin> set (READY_LIST k')"
      using k'(1) by (intro waiting_not_ready [OF _ W]) (auto simp: kernel_inv_def)
    then have "CURRENT_TCB k' \<noteq> Some c" using k'(1) by (auto simp: kernel_inv_def current_ready_def)
    moreover have "i \<in> set (READY_LIST ?kb)" using i by simp
    then have "i \<in> set (READY_LIST k')" using yield_frameD(6) [OF k'(2)] k2(5) by blast
    moreover have "case mwait m of [] \<Rightarrow> True | w # ws \<Rightarrow> w \<in> set (READY_LIST k')"
      using k2(6) yield_frameD(6) [OF k'(2)] by (auto split: list.splits)
    ultimately show "returns (\<lambda>(y, cv', m', k'). kernel_inv k' \<and> waiting k' cv' \<and> mutex_inv k' m'
           \<and> cv' = cv @ [c] \<and> m' = released m \<and> i \<in> set (READY_LIST k') \<and> CURRENT_TCB k' \<noteq> Some c
           \<and> (case mwait m of [] \<Rightarrow> True | w # ws \<Rightarrow> w \<in> set (READY_LIST k'))) (Some (y, cv @ [c], released m, k'))"
      using k'(1) W mutex_inv_yield [OF k'(2) wf2 k2(4)] by simp
  qed
qed

lemma notify_loop_spec:
  assumes "kernel_inv k" "waiting k cv"
  shows "returns (\<lambda>(any', k'). kernel_inv k' \<and> any' = (any \<or> cv \<noteq> [])
           \<and> set (READY_LIST k') = set (READY_LIST k) \<union> set cv \<and> CURRENT_TCB k' = CURRENT_TCB k
           \<and> SCHED_READY k' = SCHED_READY k) (notify_loop cv any k)"
  using assms
proof (induction cv arbitrary: k any)
  case (Cons w ws)
  then have wf: "wf_kernel k" by (simp add: kernel_inv_def)
  from Cons.IH [OF kernel_inv_wake [OF Cons.prems] waiting_make_ready [OF Cons.prems(2)], of True]
  show ?case
    by (auto simp: wake_task_waiter [OF wf Cons.prems(2)] elim!: returns_mono)
qed simp

lemma condvar_notify_all_spec:
  assumes inv: "kernel_inv k" and cv: "waiting k cv"
  shows "returns (\<lambda>(cv', k'). kernel_inv k' \<and> cv' = [] \<and> set (READY_LIST k) \<union> set cv \<subseteq> set (READY_LIST k')
           \<and> (if cv = [] then k' = k else runs_best k')) (condvar_notify_all cv k)"
proof -
  obtain any k1 where k1: "notify_loop cv False k = Some (any, k1)" "kernel_inv k1" "any = (cv \<noteq> [])"
    "set (READY_LIST k1) = set (READY_LIST k) \<union> set cv"
    using notify_loop_spec [OF assms, of False] by (auto simp: returns_iff)
  show ?thesis
  proof (cases "cv = []")
    case True
    then show ?thesis using inv by (simp add: condvar_notify_all_def)
  next
    case False
    then show ?thesis
      using yield_runs_best [OF kernel_inv_mid [OF k1(2)]] k1(1,3,4) yield_frameD(6) [of k1]
      by (auto simp: condvar_notify_all_def elim!: returns_mono)
  qed
qed

lemma condvar_notify_spec:
  assumes inv: "kernel_inv k" and cv: "waiting k cv"
  shows "returns (\<lambda>(cv', k'). kernel_inv k' \<and> cv' = tl cv \<and> waiting k' cv'
           \<and> set (READY_LIST k) \<union> set (take 1 cv) \<subseteq> set (READY_LIST k')) (condvar_notify cv k)"
proof (cases cv)
  case Nil
  then show ?thesis using inv by (simp add: condvar_notify_def tl_pop_front_def)
next
  case (Cons w ws)
  have wf: "wf_kernel k" using inv by (simp add: kernel_inv_def)
  have W: "waiting k (w # ws)" using cv Cons by simp
  have inv1: "kernel_inv (make_ready w k)" by (rule kernel_inv_wake [OF inv W])
  then have wf1: "wf_kernel (make_ready w k)" by (simp add: kernel_inv_def)
  have "returns (\<lambda>k'. kernel_inv k' \<and> waiting k' ws \<and> insert w (set (READY_LIST k)) \<subseteq> set (READY_LIST k'))
     (yield_task (make_ready w k))"
    by (rule sched.yield_mono [OF kernel_inv_mid [OF inv1]])
      (use yield_frameD(6) [of "make_ready w k"] waiting_yield [OF _ wf1 waiting_make_ready [OF W]] in auto)
  then show ?thesis
    using Cons by (auto simp: condvar_notify_def tl_pop_front_def wake_task_waiter [OF wf W] elim!: returns_mono)
qed

subsection \<open>Waiting with a timeout\<close>

lemma park_asleep:
  "(make_blocked c k)\<lparr>TCBS := (TCBS (make_blocked c k))(c := (TCBS (make_blocked c k) c)\<lparr>wake_point := w\<rparr>)\<rparr>
     = ready_remove c (k\<lparr>TCBS := (TCBS k)(c := (TCBS k c)\<lparr>wake_point := w, status := Blocked\<rparr>)\<rparr>)"
  by (rule kernel.equality) (auto simp: make_blocked_def ready_remove_def intro!: tcb.equality)

lemma sema_down_timeout_park_closed:
  assumes inv: "kernel_inv k" and W: "waiting k (swait s)" and c: "CURRENT_TCB k = Some c"
    and i: "i \<in> set (READY_LIST k)" "i \<noteq> c"
  shows "mid_inv (asleep_state c (OS_TICKS k + n) k)"
    and "sema_down_timeout_park n s k = do {
       k' \<leftarrow> yield_task (asleep_state c (OS_TICKS k + n) k);
       Some (s\<lparr>scount := wrap_i32 (scount s - 1), swait := insert_before (\<lambda>t. pri k c < pri k t) c (swait s)\<rparr>, k') }"
proof -
  from inv c have wf: "wf_kernel k" and cr: "c \<in> set (READY_LIST k)"
    by (auto simp: kernel_inv_def current_ready_def)
  show "mid_inv (asleep_state c (OS_TICKS k + n) k)" by (rule asleep_state_mid [OF inv cr i])
  have "modify_tcb c (\<lambda>t. t\<lparr>wake_point := OS_TICKS k + n\<rparr>) (make_blocked c k)
      = Some (ready_remove c (k\<lparr>TCBS := (TCBS k)(c := (TCBS k c)\<lparr>wake_point := OS_TICKS k + n, status := Blocked\<rparr>)\<rparr>))"
    unfolding park_asleep [symmetric] using ready_not_terminated [OF wf cr] by (simp del: make_blocked_fields(8))
  then show "sema_down_timeout_park n s k = do {
       k' \<leftarrow> yield_task (asleep_state c (OS_TICKS k + n) k);
       Some (s\<lparr>scount := wrap_i32 (scount s - 1), swait := insert_before (\<lambda>t. pri k c < pri k t) c (swait s)\<rparr>, k') }"
    using sleep_insert_current [OF wf cr, of "OS_TICKS k + n"]
    by (simp add: sema_down_timeout_park_def current_tid_simp [OF wf c] park_task_closed [OF wf W cr] os_ticks_def Let_def)
qed

subsection \<open>Properties of semaphores\<close>

text \<open>C27. \<open>down\<close> refines the abstract semaphore: it takes a permit and goes on when there is one,
  and otherwise queues the caller by priority, leaves one waiter for every missing permit, and
  hands the processor to another task; it never panics while another task is ready.\<close>

theorem sema_down_refines:
  assumes "kernel_inv k" and "sema_inv k s" and "CURRENT_TCB k = Some c"
    and "i \<in> set (READY_LIST k)" and "i \<noteq> c"
  shows "returns (\<lambda>(s', k'). kernel_inv k' \<and> sema_inv k' s' \<and> i \<in> set (READY_LIST k')
           \<and> scount s' = scount s - 1 \<and> sema_abs s' = adown (pri k) c (sema_abs s)
           \<and> (if 0 < scount s then k' = k else c \<in> set (swait s') \<and> CURRENT_TCB k' \<noteq> Some c))
         (sema_down s k)"
  by (rule sema_down_spec [OF assms])

lemma sema_inv_new: "0 \<le> n \<Longrightarrow> n < 2147483648 \<Longrightarrow> sema_inv k (sema_new n)"
  by (simp add: sema_inv_def sema_new_def tl_new_def wq_sorted_def)

lemma sema_down_refines_witness:
  "returns (\<lambda>(s', k'). kernel_inv k' \<and> 0 \<in> set (swait s') \<and> scount s' = -1 \<and> CURRENT_TCB k' \<noteq> Some 0)
     (sema_down (sema_new 0) demo_kernel)"
proof -
  have "1 \<in> set (READY_LIST demo_kernel)" by (simp add: demo_kernel_def)
  from sema_down_refines [OF kernel_inv_demo sema_inv_new demo_current(1) this, of 0] show ?thesis
    by (auto simp: sema_new_def elim!: returns_mono)
qed

text \<open>C28. \<open>up\<close> refines the abstract semaphore: with no waiter it adds a permit; otherwise it makes
  the first waiter ready, which has the highest priority of all waiters, and the task that runs
  afterwards has at least that waiter's priority. No wake-up is lost and none is invented.\<close>

theorem sema_up_refines:
  assumes "kernel_inv k" and "sema_inv k s" and "scount s < 2147483647"
  shows "returns (\<lambda>(s', k'). kernel_inv k' \<and> sema_inv k' s' \<and> set (READY_LIST k) \<subseteq> set (READY_LIST k')
           \<and> scount s' = scount s + 1 \<and> sema_abs s' = snd (aup (sema_abs s))
           \<and> (case fst (aup (sema_abs s)) of None \<Rightarrow> k' = k
              | Some w \<Rightarrow> w \<in> set (READY_LIST k') \<and> list_all (\<lambda>v. pri k w \<le> pri k v) (swait s')
                  \<and> list_all (\<lambda>c. pri k' c \<le> pri k w) (case CURRENT_TCB k' of None \<Rightarrow> [] | Some c \<Rightarrow> [c])))
         (sema_up s k)"
  by (rule sema_up_spec [OF assms])

text \<open>A task that waits: task 3, in no list.\<close>

definition waiter_kernel :: kernel where
  "waiter_kernel = demo_kernel\<lparr>TID_BITMAP := 15,
     TCBS := (TCBS demo_kernel)(3 := (tcb_empty 3)\<lparr>status := Blocked, priority := 2\<rparr>)\<rparr>"

lemma kernel_inv_waiter: "kernel_inv waiter_kernel"
  by (auto simp: kernel_inv_def wf_kernel_def wf_lists_def wf_ids_def wf_current_def ready_sorted_def
      current_ready_def waiter_kernel_def demo_kernel_def kernel_boot_def tl_new_def all_less_16)

lemma waiting_waiter: "waiting waiter_kernel [3]"
  by (simp add: waiting_def waiter_kernel_def demo_kernel_def kernel_boot_def tl_new_def)

lemma waiter_simps:
  "CURRENT_TCB waiter_kernel = Some 0" "READY_LIST waiter_kernel = [0, 1]" "SCHED_READY waiter_kernel"
  by (simp_all add: waiter_kernel_def demo_kernel_def)

lemma sema_inv_waiter: "sema_inv waiter_kernel \<lparr>scount = -1, swait = [3]\<rparr>"
  using waiting_waiter by (simp add: sema_inv_def wq_sorted_def)

lemma sema_up_refines_witness:
  "returns (\<lambda>(s', k'). kernel_inv k' \<and> 3 \<in> set (READY_LIST k') \<and> s' = \<lparr>scount = 0, swait = []\<rparr>)
     (sema_up \<lparr>scount = -1, swait = [3]\<rparr> waiter_kernel)"
  using sema_up_refines [OF kernel_inv_waiter sema_inv_waiter]
  by (auto simp: aup_def sema_abs_def elim!: returns_mono)

text \<open>Waiting with a timeout: the parked task is in the wait queue and, until the tick at which
  its timeout ends, asleep; when it runs again without having been woken by \<open>up\<close>, the second half
  of \<open>down_timeout\<close> reports failure and leaves the semaphore exactly as it was before the wait.\<close>

theorem sema_timeout_roundtrip:
  assumes "kernel_inv k" and "sema_inv k s" and "CURRENT_TCB k = Some c"
    and "i \<in> set (READY_LIST k)" and "i \<noteq> c" and "scount s \<le> 0" and "\<not> OS_TICKS k + n \<le> OS_TICKS k"
  shows "sema_down_timeout_try n s = (if n = 0 then Some False else None, s)
     \<and> returns (\<lambda>(s', k'). kernel_inv k' \<and> c \<in> set (swait s') \<and> c \<in> set (SLEEPING_LIST k')
           \<and> wake_point (TCBS k' c) = OS_TICKS k + n
           \<and> returns (\<lambda>(ok, s''). \<not> ok \<and> s'' = s)
               (sema_down_timeout_finish s' (k'\<lparr>CURRENT_TCB := Some c\<rparr>))) (sema_down_timeout_park n s k)"
proof -
  have wf: "wf_kernel k" and cr: "c \<in> set (READY_LIST k)" using assms(1,3) by (auto simp: kernel_inv_def current_ready_def)
  have W: "waiting k (swait s)" using assms(2) by (simp add: sema_inv_def)
  have nc: "c \<notin> set (swait s)" using waiting_not_ready [OF wf W] cr by blast
  note closed = sema_down_timeout_park_closed [OF assms(1) W assms(3-5), of n]
  let ?a = "asleep_state c (OS_TICKS k + n) k"
  have rdy: "SCHED_READY ?a" using assms(1,3) by (auto simp: kernel_inv_def current_ready_def)
  have w: "wrap_i32 (scount s - 1) = scount s - 1" "wrap_i32 (scount s) = scount s"
    using sema_inv_count [OF assms(2)] assms(6) by simp_all
  have fin: "returns (\<lambda>(ok, s''). \<not> ok \<and> s'' = s)
      (sema_down_timeout_finish (s\<lparr>scount := scount s - 1, swait := insert_before q c (swait s)\<rparr>) (k'\<lparr>CURRENT_TCB := Some c\<rparr>))"
    if k': "kernel_inv k'" "c \<in> set (SLEEPING_LIST k')" for q k'
  proof -
    have wf': "wf_kernel k'" using k'(1) by (simp add: kernel_inv_def)
    have "c < TASK_MAX" "status (TCBS k' c) = Blocked"
      using wf_kernel_sleeping_range [OF wf'] wf_kernel_parked [OF wf'] k'(2) by auto
    then have "current_tid (k'\<lparr>CURRENT_TCB := Some c\<rparr>) = Some c"
      using wf_kernel_tid [OF wf', of c] by (simp add: current_tid_def current_tcb_def)
    then show ?thesis
      using nc w(2) by (simp add: sema_down_timeout_finish_def remove1_insert_before)
  qed
  have y: "returns (\<lambda>k'. kernel_inv k' \<and> c \<in> set (SLEEPING_LIST k') \<and> wake_point (TCBS k' c) = OS_TICKS k + n) (yield_task ?a)"
  proof (rule returns_mono [OF yield_task_sched [OF closed(1) rdy]])
    fix k' assume k': "kernel_inv k' \<and> sched_frame ?a k'"
    then have fr: "sched_frame ?a k'" by blast
    have "\<not> expired ?a c" using assms(7) by (simp add: expired_def)
    then show "kernel_inv k' \<and> c \<in> set (SLEEPING_LIST k') \<and> wake_point (TCBS k' c) = OS_TICKS k + n"
      using k' sched_frameD(5) [OF fr] sched_frameD(9) [OF fr, of c] by simp
  qed
  have "returns (\<lambda>(s', k'). kernel_inv k' \<and> c \<in> set (swait s') \<and> c \<in> set (SLEEPING_LIST k')
           \<and> wake_point (TCBS k' c) = OS_TICKS k + n
           \<and> returns (\<lambda>(ok, s''). \<not> ok \<and> s'' = s)
               (sema_down_timeout_finish s' (k'\<lparr>CURRENT_TCB := Some c\<rparr>))) (sema_down_timeout_park n s k)"
    unfolding closed(2) returns_bind
    by (rule returns_mono [OF y]) (use fin w(1) in simp)
  then show ?thesis
    using assms(6) by (simp add: sema_down_timeout_try_def sema_try_down_def)
qed

lemma sema_timeout_roundtrip_witness:
  "returns (\<lambda>(s', k'). 0 \<in> set (SLEEPING_LIST k')) (sema_down_timeout_park 5 (sema_new 0) demo_kernel)"
proof -
  have d: "1 \<in> set (READY_LIST demo_kernel)" "OS_TICKS demo_kernel = 0"
    by (simp_all add: demo_kernel_def kernel_boot_def)
  from sema_timeout_roundtrip [OF kernel_inv_demo sema_inv_new demo_current(1) d(1), of 0 5] d(2) show ?thesis
    by (auto simp: sema_new_def elim!: returns_mono)
qed

text \<open>C29. The first half of \<open>down_timeout\<close> and the parking are two critical sections, and the second
  does not look at the count again: when an \<open>up\<close> comes in between, the caller parks although a
  permit is there, the count becomes 0 with a task in the wait queue, and even the next \<open>up\<close>
  does not wake it.\<close>

theorem sema_timeout_lost_wakeup:
  assumes "kernel_inv k" and "CURRENT_TCB k = Some c" and "i \<in> set (READY_LIST k)" and "i \<noteq> c" and "n \<noteq> 0"
  shows "sema_down_timeout_try n (sema_new 0) = (None, sema_new 0)
     \<and> sema_up (sema_new 0) k = Some (sema_new 1, k)
     \<and> returns (\<lambda>(s', k'). s' = \<lparr>scount = 0, swait = [c]\<rparr>
           \<and> sema_up s' k' = Some (\<lparr>scount = 1, swait = [c]\<rparr>, k')) (sema_down_timeout_park n (sema_new 1) k)"
proof -
  have up: "sema_up \<lparr>scount = 0, swait = [c]\<rparr> k' = Some (\<lparr>scount = 1, swait = [c]\<rparr>, k')" for k'
    by (simp add: sema_up_def Let_def)
  have W: "waiting k (swait (sema_new 1))" by (simp add: sema_new_def tl_new_def)
  note closed = sema_down_timeout_park_closed [OF assms(1) W assms(2-4), of n]
  have "returns (\<lambda>(s', k'). s' = \<lparr>scount = 0, swait = [c]\<rparr>
           \<and> sema_up s' k' = Some (\<lparr>scount = 1, swait = [c]\<rparr>, k')) (sema_down_timeout_park n (sema_new 1) k)"
    unfolding closed(2) returns_bind
    by (rule returns_mono [OF yield_task_mid [OF closed(1)]]) (simp add: sema_new_def tl_new_def up)
  then show ?thesis
    using assms(5) by (simp add: sema_down_timeout_try_def sema_try_down_def sema_new_def tl_new_def sema_up_def)
qed

lemma sema_timeout_lost_wakeup_witness:
  "returns (\<lambda>(s', k'). s' = \<lparr>scount = 0, swait = [0]\<rparr>) (sema_down_timeout_park 5 (sema_new 1) demo_kernel)"
proof -
  have "1 \<in> set (READY_LIST demo_kernel)" by (simp add: demo_kernel_def)
  from sema_timeout_lost_wakeup [OF kernel_inv_demo demo_current(1) this, of 5] show ?thesis
    by (auto elim!: returns_mono)
qed

text \<open>\<open>up\<close> does not take the woken task out of the sleeping list: a task that waited with a
  timeout is then ready and asleep at once, and the well-formedness of the kernel state is lost. In
  the witness, the end of the timeout puts the same task into the ready list a second time.\<close>

theorem sema_up_leaves_sleeper:
  assumes "swait s = w # ws" and "scount s < 0" and "w \<in> set (SLEEPING_LIST k)" and "w < TASK_MAX"
    and "set (READY_LIST k) \<subseteq> {..<TASK_MAX}" and "length (READY_LIST k) < TASK_MAX" and "- 2147483648 \<le> scount s"
  shows "returns (\<lambda>(s', k'). w \<in> set (READY_LIST k') \<and> w \<in> set (SLEEPING_LIST k') \<and> \<not> wf_kernel k')
         (sema_up_from_isr s k)"
proof -
  let ?k = "k\<lparr>TCBS := (TCBS k)(w := (TCBS k w)\<lparr>status := Ready\<rparr>)\<rparr>"
  have "ready_insert w (pri k w) ?k
      = Some (?k\<lparr>READY_LIST := insert_before (\<lambda>t. pri k w < priority (TCBS ?k t)) w (READY_LIST ?k)\<rparr>)"
    using assms(5,6) by (intro ready_insert_before) simp_all
  then have "wake_task w k
      = Some (?k\<lparr>READY_LIST := insert_before (\<lambda>t. pri k w < priority (TCBS ?k t)) w (READY_LIST ?k)\<rparr>)"
    using assms(4) by (simp add: wake_task_def del: fun_upd_apply) (simp add: fun_upd_same del: fun_upd_apply)
  moreover have "\<not> wf_kernel k'" if "w \<in> set (READY_LIST k')" "w \<in> set (SLEEPING_LIST k')" for k'
    using wf_kernel_disjoint(1) [of k' w] that by blast
  ultimately show ?thesis
    using assms(1-3,7) by (simp add: sema_up_from_isr_def Let_def tl_pop_front_def del: fun_upd_apply)
qed

definition timed_kernel :: kernel where
  "timed_kernel = demo_kernel\<lparr>READY_LIST := [1], SLEEPING_LIST := [0, 2], CURRENT_TCB := Some 1,
     TCBS := (TCBS demo_kernel)(0 := (tcb_empty 0)\<lparr>status := Blocked, priority := 3, wake_point := 2\<rparr>)\<rparr>"

lemma timed_duplicate:
  "do { (s, k) \<leftarrow> sema_up_from_isr \<lparr>scount = -1, swait = [0]\<rparr> timed_kernel; k \<leftarrow> run_ticks 2 k; Some (READY_LIST k) }
     = Some [1, 0, 0]"
  by code_simp

lemma sema_up_leaves_sleeper_witness:
  "returns (\<lambda>(s', k'). 0 \<in> set (READY_LIST k') \<and> 0 \<in> set (SLEEPING_LIST k') \<and> \<not> wf_kernel k')
     (sema_up_from_isr \<lparr>scount = -1, swait = [0]\<rparr> timed_kernel)
   \<and> do { (s, k) \<leftarrow> sema_up_from_isr \<lparr>scount = -1, swait = [0]\<rparr> timed_kernel; k \<leftarrow> run_ticks 2 k; Some (READY_LIST k) }
     = Some [1, 0, 0]"
  using sema_up_leaves_sleeper [of "\<lparr>scount = -1, swait = [0]\<rparr>" 0 "[]" timed_kernel] timed_duplicate
  by (simp add: timed_kernel_def)

text \<open>Waking a task that is dead, but still in the queue: its control block becomes alive, without an
  identifier. The yield at the end of \<open>up\<close> does not look at the identifiers.\<close>

lemma sema_up_dead_waiter:
  assumes inv: "kernel_inv k" and w: "w < TASK_MAX" "status (TCBS k w) = Terminated" "tcb_tid (TCBS k w) = w"
    and s: "swait s = w # ws" "- 2147483648 \<le> scount s" "scount s < 0"
  shows "returns (\<lambda>(s', k'). w \<in> set (READY_LIST k') \<and> (status (TCBS k' w) = Ready \<or> status (TCBS k' w) = Running)
      \<and> \<not> bit (TID_BITMAP k') w \<and> swait s' = ws) (sema_up s k)"
    and "returns (\<lambda>(s', k'). w \<in> set (READY_LIST k') \<and> status (TCBS k' w) = Ready
      \<and> \<not> bit (TID_BITMAP k') w \<and> swait s' = ws) (sema_up_from_isr s k)"
proof -
  let ?k = "make_ready w k" and ?b = "TID_BITMAP k OR push_bit w 1"
  let ?Q = "\<lambda>k'. w \<in> set (READY_LIST k') \<and> (status (TCBS k' w) = Ready \<or> status (TCBS k' w) = Running) \<and> \<not> bit (TID_BITMAP k') w"
  let ?live = "?k\<lparr>TID_BITMAP := ?b\<rparr>"
  have wf: "wf_kernel k" using inv by (simp add: kernel_inv_def)
  note nl = fresh_not_listed [OF wf w(1,2)]
  have bit: "\<not> bit (TID_BITMAP k) w" using wf_kernel_bit [OF wf w(1)] w(2) by simp
  have wk: "wake_task w k = Some ?k" using nl(1) w(1) wf by (intro wake_task_closed) simp_all
  have wr: "wrap_i32 (scount s + 1) = scount s + 1" "scount s + 1 \<le> 0" using s(2,3) by simp_all
  have Q: "?Q ?k" using bit by simp
  have wfl: "wf_kernel ?live"
  proof (rule wf_kernel_move [OF wf w(1)])
    show "distinct (READY_LIST ?live @ BLOCKED_LIST ?live @ SLEEPING_LIST ?live)"
      using wf nl by (simp add: wf_kernel_def wf_lists_def) (simp add: make_ready_def)
  qed (use w nl in \<open>auto simp: bit_simps\<close>)
  have "set (READY_LIST ?live) = insert w (set (READY_LIST k))" by simp
  then have "READY_LIST ?live \<noteq> []" by (metis insert_not_empty list.set(1))
  then have midl: "safe_mid ?live" using inv wfl by (auto simp: safe_mid_def kernel_inv_def current_ready_def)
  have Y: "returns ?Q (yield_task ?k)"
  proof -
    obtain k2 where k2: "yield_task ?live = Some k2" "safe_inv k2" "yield_frame ?live k2"
      using safe.yield_ok [OF midl] by (auto simp: returns_iff)
    then obtain k' where k': "yield_task ?k = Some k'" "k2 = k'\<lparr>TID_BITMAP := ?b\<rparr>" unfolding yield_tid_bitmap by auto
    have "?k\<lparr>TID_BITMAP := TID_BITMAP ?k\<rparr> = ?k" by (rule kernel.equality) simp_all
    then have "k' = k'\<lparr>TID_BITMAP := TID_BITMAP ?k\<rparr>" using yield_tid_bitmap [of "TID_BITMAP ?k" ?k] k'(1) by (metis option.inject option.simps(9))
    then have "TID_BITMAP k' = TID_BITMAP (k'\<lparr>TID_BITMAP := TID_BITMAP ?k\<rparr>)" by (rule arg_cong)
    then have "TID_BITMAP k' = TID_BITMAP ?k" by simp
    moreover have "w \<in> set (READY_LIST k2)" using yield_frameD(6) [OF k2(3)] by auto
    moreover from this have "status (TCBS k2 w) = Ready \<or> status (TCBS k2 w) = Running"
      using k2(2) wf_kernel_ready_iff [of k2 w] w(1) by (simp add: safe_inv_def)
    ultimately show ?thesis using k' bit by simp
  qed
  obtain b where b: "sema_up s k = do { k' \<leftarrow> (if b then yield_task ?k else Some ?k); Some (s\<lparr>scount := scount s + 1, swait := ws\<rparr>, k') }"
  proof (cases "CURRENT_TCB k")
    case None
    then have "sema_up s k = Some (s\<lparr>scount := scount s + 1, swait := ws\<rparr>, ?k)"
      using wr s(1) wk by (simp add: sema_up_def Let_def tl_pop_front_def)
    then show thesis using that [of False] by simp
  next
    case (Some c)
    have "current_priority ?k = Some (priority (TCBS ?k c))"
      using wf Some by (simp add: current_priority_def current_tcb_def wf_kernel_def wf_current_def)
    then show thesis
      using that [of "pri ?k w < pri ?k c"] Some wr s(1) wk w(1) by (simp add: sema_up_def Let_def tl_pop_front_def split: if_splits)
  qed
  show "returns (\<lambda>(s', k'). w \<in> set (READY_LIST k') \<and> (status (TCBS k' w) = Ready \<or> status (TCBS k' w) = Running)
      \<and> \<not> bit (TID_BITMAP k') w \<and> swait s' = ws) (sema_up s k)"
    unfolding b using Y Q by (auto simp: returns_iff)
  show "returns (\<lambda>(s', k'). w \<in> set (READY_LIST k') \<and> status (TCBS k' w) = Ready
      \<and> \<not> bit (TID_BITMAP k') w \<and> swait s' = ws) (sema_up_from_isr s k)"
    using wr s(1) wk bit by (simp add: sema_up_from_isr_def Let_def tl_pop_front_def)
qed

text \<open>C30. \<open>terminate\<close> does not take the task out of the queue of a semaphore it waits for: when it was the
  first of the queue, the next \<open>up\<close>, and likewise the next \<open>up_from_isr\<close>, hands the permit to the dead task and
  puts it back into the ready list, ready or even running, although its identifier is free for the
  next \<open>create\<close>.\<close>

theorem terminate_leaves_waiter:
  assumes "kernel_inv k" and "sema_inv k s" and "swait s = w # ws" and "i \<in> set (READY_LIST k)" and "i \<noteq> w"
  shows "returns (\<lambda>k1. status (TCBS k1 w) = Terminated
           \<and> returns (\<lambda>(s', k2). w \<in> set (READY_LIST k2) \<and> (status (TCBS k2 w) = Ready \<or> status (TCBS k2 w) = Running)
                \<and> \<not> bit (TID_BITMAP k2) w \<and> swait s' = ws) (sema_up s k1)
           \<and> returns (\<lambda>(s', k2). w \<in> set (READY_LIST k2) \<and> status (TCBS k2 w) = Ready
                \<and> \<not> bit (TID_BITMAP k2) w \<and> swait s' = ws) (sema_up_from_isr s k1)) (task_terminate w k)"
proof -
  have W: "waiting k (w # ws)" using assms(2,3) by (simp add: sema_inv_def)
  then have w: "w < TASK_MAX" "status (TCBS k w) \<noteq> Terminated" by (simp_all add: waiting_def)
  have cnt: "- 2147483648 \<le> scount s" "scount s < 0" using sema_inv_wake(2) [OF assms(2,3)] sema_inv_count [OF assms(2)] by simp_all
  have "returns (\<lambda>k1. kernel_inv k1 \<and> status (TCBS k1 w) = Terminated \<and> tcb_tid (TCBS k1 w) = w) (task_terminate w k)"
    using task_terminate_spec [OF assms(1) w(1) assms(4,5)] task_terminate_tid [OF assms(1) w assms(4,5)]
    by (auto simp: returns_iff)
  then show ?thesis
    by (rule returns_mono) (use sema_up_dead_waiter [OF _ w(1) _ _ assms(3) cnt] in blast)
qed

lemma terminate_leaves_waiter_witness:
  "returns (\<lambda>k1. returns (\<lambda>(s', k2). 3 \<in> set (READY_LIST k2) \<and> \<not> bit (TID_BITMAP k2) 3)
     (sema_up \<lparr>scount = -1, swait = [3]\<rparr> k1)) (task_terminate 3 waiter_kernel)"
proof -
  have "1 \<in> set (READY_LIST waiter_kernel)" by (simp add: waiter_simps)
  from terminate_leaves_waiter [OF kernel_inv_waiter sema_inv_waiter _ this, of 3 "[]"] show ?thesis
    by (auto elim!: returns_mono)
qed

subsection \<open>Properties of mutexes\<close>

text \<open>Locking: a free mutex is taken, an own mutex is counted up, and with a foreign owner the
  caller queues by priority and gives up the processor, the owner's priority having been lifted to
  the caller's if that is higher (priority inheritance). The kernel invariant, in particular the
  order of the ready list in which the owner may have moved, is kept.\<close>

theorem mutex_lock_inherits:
  assumes "kernel_inv k" and "mutex_inv k m" and "CURRENT_TCB k = Some c"
    and "i \<in> set (READY_LIST k)" and "i \<noteq> c" and "mrecursive m \<noteq> - 1"
  shows "returns (\<lambda>(m', k'). kernel_inv k' \<and> mutex_inv k' m' \<and> i \<in> set (READY_LIST k') \<and> mdata m' = mdata m
           \<and> (case mowner m of
                None \<Rightarrow> k' = k \<and> mowner m' = Some c \<and> mrecursive m' = 1
              | Some w \<Rightarrow>
                  if w = c then k' = k \<and> mowner m' = Some c \<and> mrecursive m' = mrecursive m + 1
                  else mowner m' = Some w \<and> mrecursive m' = mrecursive m
                    \<and> mwait m' = insert_before (\<lambda>s. pri k c < pri (boosted w (pri k c) k) s) c (mwait m)
                    \<and> pri k' w = min (pri k c) (pri k w) \<and> CURRENT_TCB k' \<noteq> Some c))
         (mutex_lock m k)"
  by (rule mutex_lock_spec [OF assms])

text \<open>Task 0 wants the mutex that the ready task 1 of a lower priority holds.\<close>

definition contended_kernel :: kernel where
  "contended_kernel = demo_kernel\<lparr>TCBS := (TCBS demo_kernel)(1 := (tcb_empty 1)\<lparr>status := Ready, priority := 7\<rparr>,
     4 := (tcb_empty 4)\<lparr>status := Ready, priority := 5\<rparr>), READY_LIST := [0, 4, 1], TID_BITMAP := 23\<rparr>"

lemma kernel_inv_contended: "kernel_inv contended_kernel"
  by (auto simp: kernel_inv_def wf_kernel_def wf_lists_def wf_ids_def wf_current_def ready_sorted_def
      current_ready_def contended_kernel_def demo_kernel_def kernel_boot_def tl_new_def all_less_16)

lemma mutex_lock_inherits_witness:
  "returns (\<lambda>(m', k'). pri k' 1 = 3 \<and> mwait m' = [0] \<and> kernel_inv k')
     (mutex_lock \<lparr>mowner = Some 1, mrecursive = 1, mwait = [], mdata = ()\<rparr> contended_kernel)"
proof -
  have d: "CURRENT_TCB contended_kernel = Some 0" "4 \<in> set (READY_LIST contended_kernel)"
    "pri contended_kernel 0 = 3" "pri contended_kernel 1 = 7"
    by (simp_all add: contended_kernel_def demo_kernel_def)
  have m: "mutex_inv contended_kernel \<lparr>mowner = Some 1, mrecursive = 1, mwait = [], mdata = ()\<rparr>"
    by (simp add: mutex_inv_def)
  from mutex_lock_inherits [OF kernel_inv_contended m d(1,2)] d(3,4) show ?thesis
    by (auto elim!: returns_mono)
qed

text \<open>Unlocking ends an inheritance: when the running owner was lifted by the waiter at the front
  of the queue, the unlock restores its own priority, hands the mutex to that waiter, and gives it
  or a better task the processor at once; the invariant is re-established although the owner's
  place in the ready list is stale while the switch is made.\<close>

theorem mutex_unlock_hands_over:
  assumes "kernel_inv k" and "mutex_inv k m" and "CURRENT_TCB k = Some c"
    and "status (TCBS k c) = Running" and "no_expired k"
    and "mrecursive m = 1" and "mwait m = w # ws"
    and "sub_priority (TCBS k c) \<noteq> PRI_INV" and "pri k w \<le> pri k c" and "pri k w < sub_priority (TCBS k c)"
  shows "returns (\<lambda>(y, m', k'). kernel_inv k' \<and> mutex_inv k' m' \<and> mowner m' = Some w \<and> mwait m' = ws
           \<and> w \<in> set (READY_LIST k') \<and> c \<in> set (READY_LIST k')
           \<and> pri k' c = sub_priority (TCBS k c) \<and> runs_best k' \<and> CURRENT_TCB k' \<noteq> Some c)
         (mutex_internal_unlock m k)"
  using mutex_unlock_boosted [OF assms] assms(7) by (auto simp: released_def elim!: returns_mono)

text \<open>Task 0, of priority 9, runs at the priority 2 that task 3 lent it.\<close>

definition lifted_kernel :: kernel where
  "lifted_kernel = waiter_kernel\<lparr>TCBS := (TCBS waiter_kernel)
     (0 := (tcb_empty 0)\<lparr>status := Running, priority := 2, sub_priority := 9\<rparr>)\<rparr>"

lemma kernel_inv_lifted: "kernel_inv lifted_kernel"
  by (auto simp: kernel_inv_def wf_kernel_def wf_lists_def wf_ids_def wf_current_def ready_sorted_def
      current_ready_def lifted_kernel_def waiter_kernel_def demo_kernel_def kernel_boot_def tl_new_def all_less_16)

lemma mutex_unlock_hands_over_witness:
  "returns (\<lambda>(y, m', k'). mowner m' = Some 3 \<and> pri k' 0 = 9 \<and> CURRENT_TCB k' \<noteq> Some 0)
     (mutex_internal_unlock \<lparr>mowner = Some 0, mrecursive = 1, mwait = [3], mdata = ()\<rparr> lifted_kernel)"
proof -
  have d: "CURRENT_TCB lifted_kernel = Some 0" "status (TCBS lifted_kernel 0) = Running"
    "sub_priority (TCBS lifted_kernel 0) = 9" "pri lifted_kernel 3 = 2" "pri lifted_kernel 0 = 2"
    "no_expired lifted_kernel"
    by (simp_all add: lifted_kernel_def waiter_kernel_def demo_kernel_def kernel_boot_def no_expired_def)
  have "waiting lifted_kernel [3]"
    by (simp add: waiting_def lifted_kernel_def waiter_kernel_def demo_kernel_def kernel_boot_def tl_new_def)
  then have m: "mutex_inv lifted_kernel \<lparr>mowner = Some 0, mrecursive = 1, mwait = [3], mdata = ()\<rparr>"
    by (simp add: mutex_inv_def)
  from mutex_unlock_hands_over [OF kernel_inv_lifted m d(1,2,6), of 3 "[]"] d(3-5) show ?thesis
    by (auto elim!: returns_mono)
qed

text \<open>With two mutexes held the inheritance is lost too early: unlocking the one nobody waits
  for restores the owner's own priority although a task of a higher priority still waits for the
  other, and since the owner is not moved in the ready list, and only compared with itself, it
  keeps running ahead of ready tasks that now have a higher priority than it.\<close>

theorem nested_unlock_loses_boost:
  assumes "wf_kernel k" and "CURRENT_TCB k = Some c" and "mrecursive m = 1" and "mwait m = []"
    and "READY_LIST k = c # t # ts" and "sub_priority (TCBS k c) \<noteq> PRI_INV"
    and "u \<in> set (mwait m2)" and "mutex_inv k m2" and "mowner m2 = Some c"
    and "pri k u < sub_priority (TCBS k c)" and "pri k t < sub_priority (TCBS k c)"
  shows "returns (\<lambda>(y, m', k'). CURRENT_TCB k' = Some c \<and> mowner m2 = Some c \<and> u \<in> set (mwait m2)
           \<and> pri k' u < pri k' c \<and> pri k' t < pri k' c \<and> tl_front (READY_LIST k') = Some c
           \<and> \<not> ready_sorted k') (mutex_internal_unlock m k)"
proof -
  have "c \<notin> set (mwait m2)" using assms(8,9) by (simp add: mutex_inv_def)
  then have uc: "u \<noteq> c" using assms(7) by blast
  have tc: "t \<noteq> c" using wf_kernel_distinct(1) [OF assms(1)] assms(5) by auto
  have "\<not> ready_sorted (restored c k)"
    using assms(5,6,11) tc by (auto simp: ready_sorted_def)
  then show ?thesis
    using mutex_release_free [OF assms(1,2,3,4)] assms(2,5-7,9-11) uc tc
    by (simp add: mutex_internal_unlock_def tl_front_def)
qed

lemma nested_unlock_loses_boost_witness:
  "returns (\<lambda>(y, m', k'). CURRENT_TCB k' = Some 0 \<and> pri k' 3 < pri k' 0 \<and> pri k' 1 < pri k' 0)
     (mutex_internal_unlock \<lparr>mowner = Some 0, mrecursive = 1, mwait = [], mdata = ()\<rparr> lifted_kernel)"
proof -
  have d: "CURRENT_TCB lifted_kernel = Some 0" "READY_LIST lifted_kernel = [0, 1]"
    "sub_priority (TCBS lifted_kernel 0) = 9" "pri lifted_kernel 3 = 2" "pri lifted_kernel 1 = 3"
    by (simp_all add: lifted_kernel_def waiter_kernel_def demo_kernel_def kernel_boot_def)
  have wf: "wf_kernel lifted_kernel" using kernel_inv_lifted by (simp add: kernel_inv_def)
  have "waiting lifted_kernel [3]"
    by (simp add: waiting_def lifted_kernel_def waiter_kernel_def demo_kernel_def kernel_boot_def tl_new_def)
  then have "mutex_inv lifted_kernel \<lparr>mowner = Some 0, mrecursive = 1, mwait = [3], mdata = ()\<rparr>"
    by (simp add: mutex_inv_def)
  from nested_unlock_loses_boost [OF wf d(1) _ _ d(2) _ _ this, of "\<lparr>mowner = Some 0, mrecursive = 1, mwait = [], mdata = ()\<rparr>" 3]
    d(3-5) show ?thesis by (auto elim!: returns_mono)
qed

subsection \<open>Properties of condition variables and barriers\<close>

text \<open>Waiting on a condition variable queues the caller and releases the mutex in one step, so no
  notification between the two can be lost: afterwards the caller is in the queue and off the
  processor, the mutex belongs to its next waiter, who is ready, or is free, and the kernel
  invariant holds, also when the caller's priority had been lifted.\<close>

theorem condvar_wait_atomic:
  assumes "kernel_inv k" and "waiting k cv" and "mutex_inv k m" and "CURRENT_TCB k = Some c"
    and "mrecursive m = 1" and "set cv \<inter> set (mwait m) = {}"
    and "i \<in> set (READY_LIST k)" and "i \<noteq> c"
  shows "returns (\<lambda>(y, cv', m', k'). kernel_inv k' \<and> waiting k' cv' \<and> mutex_inv k' m'
           \<and> cv' = cv @ [c] \<and> m' = released m \<and> i \<in> set (READY_LIST k') \<and> CURRENT_TCB k' \<noteq> Some c
           \<and> (case mwait m of [] \<Rightarrow> True | w # ws \<Rightarrow> w \<in> set (READY_LIST k')))
         (condvar_wait_enter cv m k)"
  by (rule condvar_wait_enter_spec [OF assms])

lemma condvar_wait_atomic_witness:
  "returns (\<lambda>(y, cv', m', k'). cv' = [0] \<and> mowner m' = Some 3 \<and> 3 \<in> set (READY_LIST k'))
     (condvar_wait_enter condvar_new \<lparr>mowner = Some 0, mrecursive = 1, mwait = [3], mdata = ()\<rparr> lifted_kernel)"
proof -
  have d: "CURRENT_TCB lifted_kernel = Some 0" "1 \<in> set (READY_LIST lifted_kernel)"
    by (simp_all add: lifted_kernel_def waiter_kernel_def demo_kernel_def)
  have "waiting lifted_kernel [3]"
    by (simp add: waiting_def lifted_kernel_def waiter_kernel_def demo_kernel_def kernel_boot_def tl_new_def)
  then have m: "mutex_inv lifted_kernel \<lparr>mowner = Some 0, mrecursive = 1, mwait = [3], mdata = ()\<rparr>"
    by (simp add: mutex_inv_def)
  have e: "waiting lifted_kernel condvar_new" by (simp add: condvar_new_def tl_new_def)
  from condvar_wait_atomic [OF kernel_inv_lifted e m d(1) _ _ d(2)] show ?thesis
    by (auto simp: condvar_new_def tl_new_def released_def elim!: returns_mono)
qed

text \<open>\<open>notify_all\<close> makes every waiting task ready and empties the queue, and \<open>notify\<close> wakes
  exactly the first one; neither panics.\<close>

theorem condvar_notify_wakes:
  assumes "kernel_inv k" and "waiting k cv"
  shows "returns (\<lambda>(cv', k'). kernel_inv k' \<and> cv' = [] \<and> set (READY_LIST k) \<union> set cv \<subseteq> set (READY_LIST k')
           \<and> (if cv = [] then k' = k else runs_best k')) (condvar_notify_all cv k)
     \<and> returns (\<lambda>(cv', k'). kernel_inv k' \<and> cv' = tl cv \<and> waiting k' cv'
           \<and> set (READY_LIST k) \<union> set (take 1 cv) \<subseteq> set (READY_LIST k')) (condvar_notify cv k)"
  using condvar_notify_all_spec [OF assms] condvar_notify_spec [OF assms] by blast

lemma condvar_notify_wakes_witness:
  "returns (\<lambda>(cv', k'). cv' = [] \<and> 3 \<in> set (READY_LIST k')) (condvar_notify_all [3] waiter_kernel)"
  using condvar_notify_wakes [OF kernel_inv_waiter waiting_waiter] by (auto elim!: returns_mono)

lemma mdata_released [simp]: "mdata (released m) = mdata m"
  by (simp add: released_def split: list.split)

text \<open>C33. A barrier opens exactly with the arrival that completes the count: any earlier arrival is
  counted and waits, off the processor and in the queue, for the current generation to pass; the
  last one starts the next generation at count 0 and goes on to wake everybody; and a woken task
  passes exactly when the generation has changed.\<close>

theorem barrier_opens_on_last:
  assumes "kernel_inv k" and "waiting k (bcv b)" and "mutex_inv k (bmutex b)" and "CURRENT_TCB k = Some c"
    and "mrecursive (bmutex b) = 1" and "set (bcv b) \<inter> set (mwait (bmutex b)) = {}"
    and "i \<in> set (READY_LIST k)" and "i \<noteq> c" and "sub_priority (TCBS k c) = PRI_INV"
  defines "g \<equiv> mdata (bmutex b)"
  shows "returns (\<lambda>(r, b', k'). kernel_inv k' \<and> mutex_inv k' (bmutex b') \<and> btotal b' = btotal b
           \<and> (if bcount g + 1 = btotal b
              then r = BOpened \<and> bcount (mdata (bmutex b')) = 0 \<and> bgeneration (mdata (bmutex b')) = bgeneration g + 1
                \<and> bcv b' = bcv b
              else (\<exists>y. r = BWaits (bgeneration g) y) \<and> bcount (mdata (bmutex b')) = bcount g + 1
                \<and> bgeneration (mdata (bmutex b')) = bgeneration g \<and> bcv b' = bcv b @ [c] \<and> CURRENT_TCB k' \<noteq> Some c))
         (barrier_arrive b k)
     \<and> returns (\<lambda>(r, b', k'). kernel_inv k' \<and> mutex_inv k' (bmutex b') \<and> mdata (bmutex b') = g
           \<and> (if bgeneration g \<noteq> my_gen then r = BDone else (\<exists>y. r = BWaits my_gen y) \<and> bcv b' = bcv b @ [c]))
         (barrier_check my_gen b k)"
proof -
  have dm: "mutex_inv k (guard_deref_mut f m) = mutex_inv k m" "mwait (guard_deref_mut f m) = mwait m"
    "mrecursive (guard_deref_mut f m) = mrecursive m" "mdata (guard_deref_mut f m) = f (mdata m)"
    for f :: "barrier_state \<Rightarrow> barrier_state" and m
    by (simp_all add: guard_deref_mut_def mutex_inv_def split: option.split)
  have sleep: "returns (\<lambda>(y, b', k'). kernel_inv k' \<and> mutex_inv k' (bmutex b') \<and> mdata (bmutex b') = mdata m
       \<and> btotal b' = btotal b \<and> bcv b' = bcv b @ [c] \<and> CURRENT_TCB k' \<noteq> Some c) (barrier_sleep (b\<lparr>bmutex := m\<rparr>) k)"
    if "mutex_inv k m" "mrecursive m = 1" "mwait m = mwait (bmutex b)" for m
    using condvar_wait_enter_spec [OF assms(1,2) that(1) assms(4) that(2) _ assms(7,8)] assms(6) that(3)
    by (auto simp: barrier_sleep_def elim!: returns_mono)
  have drop: "returns (\<lambda>(m', k'). kernel_inv k' \<and> mutex_inv k' m' \<and> mdata m' = mdata m) (mutex_guard_drop m k)"
    if "mutex_inv k m" "mrecursive m = 1" for m :: "barrier_state mutex"
    using mutex_unlock_plain [OF assms(1) that(1) assms(4) that(2) assms(9)]
    by (auto simp: mutex_guard_drop_def elim!: returns_mono)
  let ?m1 = "guard_deref_mut (\<lambda>g. g\<lparr>bcount := bcount g + 1\<rparr>) (bmutex b)"
  let ?m2 = "guard_deref_mut (\<lambda>g. g\<lparr>bgeneration := bgeneration g + 1\<rparr>) (guard_deref_mut (\<lambda>g. g\<lparr>bcount := 0\<rparr>) ?m1)"
  note s1 = sleep [of ?m1, unfolded dm, OF assms(3,5) refl] and s0 = sleep [OF assms(3,5) refl]
  note d2 = drop [of ?m2, unfolded dm, OF assms(3,5)] and d0 = drop [OF assms(3,5)]
  have "returns (\<lambda>(r, b', k'). kernel_inv k' \<and> mutex_inv k' (bmutex b') \<and> btotal b' = btotal b
           \<and> (if bcount g + 1 = btotal b
              then r = BOpened \<and> bcount (mdata (bmutex b')) = 0 \<and> bgeneration (mdata (bmutex b')) = bgeneration g + 1
                \<and> bcv b' = bcv b
              else (\<exists>y. r = BWaits (bgeneration g) y) \<and> bcount (mdata (bmutex b')) = bcount g + 1
                \<and> bgeneration (mdata (bmutex b')) = bgeneration g \<and> bcv b' = bcv b @ [c] \<and> CURRENT_TCB k' \<noteq> Some c))
         (barrier_arrive b k)"
  proof (cases "bcount g + 1 = btotal b")
    case True
    with d2 show ?thesis
      by (auto simp: barrier_arrive_def Let_def guard_deref_def dm g_def elim!: returns_mono)
  next
    case False
    with s1 show ?thesis
      by (auto simp: barrier_arrive_def Let_def guard_deref_def dm g_def elim!: returns_mono)
  qed
  moreover have "returns (\<lambda>(r, b', k'). kernel_inv k' \<and> mutex_inv k' (bmutex b') \<and> mdata (bmutex b') = g
           \<and> (if bgeneration g \<noteq> my_gen then r = BDone else (\<exists>y. r = BWaits my_gen y) \<and> bcv b' = bcv b @ [c]))
         (barrier_check my_gen b k)"
    using d0 s0 by (auto simp: barrier_check_def guard_deref_def g_def elim!: returns_mono)
  ultimately show ?thesis by blast
qed

lemma barrier_opens_on_last_witness:
  "returns (\<lambda>(r, b', k'). \<exists>y. r = BWaits 0 y)
     (barrier_arrive ((barrier_new 2)\<lparr>bmutex := \<lparr>mowner = Some 0, mrecursive = 1, mwait = [], mdata = \<lparr>bcount = 0, bgeneration = 0\<rparr>\<rparr>\<rparr>) demo_kernel)
   \<and> returns (\<lambda>(r, b', k'). r = BOpened)
     (barrier_arrive ((barrier_new 2)\<lparr>bmutex := \<lparr>mowner = Some 0, mrecursive = 1, mwait = [], mdata = \<lparr>bcount = 1, bgeneration = 0\<rparr>\<rparr>\<rparr>) demo_kernel)"
proof -
  let ?b = "\<lambda>n. (barrier_new 2)\<lparr>bmutex := \<lparr>mowner = Some 0, mrecursive = 1, mwait = [], mdata = \<lparr>bcount = n, bgeneration = 0\<rparr>\<rparr>\<rparr>"
  have d: "1 \<in> set (READY_LIST demo_kernel)" "sub_priority (TCBS demo_kernel 0) = PRI_INV"
    by (simp_all add: demo_kernel_def)
  have b: "waiting demo_kernel (bcv (?b n))" "mutex_inv demo_kernel (bmutex (?b n))" for n
    by (simp_all add: barrier_new_def condvar_new_def tl_new_def mutex_inv_def)
  show ?thesis
    using conjunct1 [OF barrier_opens_on_last [OF kernel_inv_demo b(1) [of 0] b(2) [of 0] demo_current(1) _ _ d(1) _ d(2)]]
      conjunct1 [OF barrier_opens_on_last [OF kernel_inv_demo b(1) [of 1] b(2) [of 1] demo_current(1) _ _ d(1) _ d(2)]]
    by (auto simp: barrier_new_def condvar_new_def tl_new_def elim!: returns_mono)
qed

end
