(* ===== verification/Mos_Inherit.thy ===== *)
theory Mos_Inherit
  imports Mos_Sync
begin

text \<open>
  Priority inheritance at work (the scenario of \<open>mutex_test\<close> in \<open>boards/esp32c6/src/tests.rs\<close>, on
  the model of \<open>core/src/kernel/sync.rs\<close> and \<open>sched.rs\<close>): from the \<open>lock\<close> of the waiter over the
  timer interrupts of the critical section to the end of the waiter. The phase in between is one
  predicate, \<open>lent\<close>, which the lock establishes, a tick keeps and the drop of the guard ends.
\<close>

subsection \<open>The phase of the lent priority\<close>

text \<open>All ready and all sleeping tasks but \<open>x\<close> have a lower priority than \<open>p\<close>.\<close>

definition outranks :: "u8 \<Rightarrow> kernel \<Rightarrow> nat \<Rightarrow> bool" where
  "outranks p k x \<longleftrightarrow> (\<forall>t \<in> set (READY_LIST k) \<union> set (SLEEPING_LIST k). t = x \<or> p < pri k t)"

lemma outranks_yield: "yield_frame k k' \<Longrightarrow> outranks p k x \<Longrightarrow> outranks p k' x"
  using yield_frameD(1,7,8) [of k k'] unfolding outranks_def by (metis Un_iff subset_iff)

lemma outranks_runs:
  assumes "kernel_inv k" "runs_best k" "CURRENT_TCB k \<noteq> None" "outranks p k x" "x \<in> set (READY_LIST k)" "pri k x \<le> p"
  shows "CURRENT_TCB k = Some x"
proof -
  from assms(1,3) obtain c where c: "CURRENT_TCB k = Some c" "c \<in> set (READY_LIST k)"
    by (auto simp: kernel_inv_def current_ready_def)
  then have "pri k c \<le> pri k x" using assms(2,5) by (auto simp: runs_best_def)
  then have "c = x" using c(2) assms(4,6) by (auto simp: outranks_def)
  with c show ?thesis by simp
qed

text \<open>
  The phase in which the owner \<open>l\<close>, whose own priority is \<open>b\<close>, works with the priority that the
  waiter \<open>h\<close> has lent it.
\<close>

definition lent :: "kernel \<Rightarrow> 'a mutex \<Rightarrow> nat \<Rightarrow> nat \<Rightarrow> u8 \<Rightarrow> bool" where
  "lent k m h l b \<longleftrightarrow> kernel_inv k \<and> mutex_inv k m \<and> CURRENT_TCB k = Some l \<and> mowner m = Some l
     \<and> mrecursive m = 1 \<and> mwait m = [h] \<and> sub_priority (TCBS k l) = b \<and> b \<noteq> PRI_INV
     \<and> pri k l = pri k h \<and> pri k h < b \<and> outranks (pri k h) k l"

lemma lent_yield:
  assumes "yield_frame k k'" "kernel_inv k'" "wf_kernel k" "mutex_inv k m"
    "CURRENT_TCB k' \<noteq> None" "runs_best k'"
    "l \<in> set (READY_LIST k)" "mowner m = Some l" "mrecursive m = 1" "mwait m = [h]"
    "sub_priority (TCBS k l) = b" "b \<noteq> PRI_INV" "pri k l = pri k h" "pri k h < b" "outranks (pri k h) k l"
  shows "lent k' m h l b"
proof -
  note fr = yield_frameD [OF assms(1)]
  have "outranks (pri k h) k' l" by (rule outranks_yield [OF assms(1,15)])
  moreover have "CURRENT_TCB k' = Some l"
    using fr(1,6) assms(7,13) by (intro outranks_runs [OF assms(2,6,5) \<open>outranks (pri k h) k' l\<close>]) auto
  moreover have "mutex_inv k' m" by (rule mutex_inv_yield [OF assms(1,3,4)])
  ultimately show ?thesis
    using assms(2,8-14) unfolding lent_def fr(1) yield_frame_sub [OF assms(1)] by blast
qed

subsection \<open>Lending\<close>

lemma lock_lends:
  assumes inv: "kernel_inv k" and m: "mutex_inv k m" and h: "CURRENT_TCB k = Some h"
    and own: "mowner m = Some l" "mrecursive m = 1" "mwait m = []" and l: "l \<in> set (READY_LIST k)" "l \<noteq> h"
    and base: "sub_priority (TCBS k l) = PRI_INV" "pri k h < pri k l" "pri k l \<noteq> PRI_INV"
    and others: "\<forall>t \<in> set (READY_LIST k) \<union> set (SLEEPING_LIST k). t = h \<or> t = l \<or> pri k h < pri k t"
  shows "returns (\<lambda>(m', k'). lent k' m' h l (pri k l)) (mutex_lock m k)"
proof -
  let ?k1 = "make_blocked h (boosted l (pri k h) k)" and ?m1 = "m\<lparr>mwait := [h]\<rparr>"
  note C = mutex_lock_contended [OF inv m h l own(1) l(2), unfolded own(3), simplified]
  note R = mutex_lock_contended(4) [OF inv m h l own(1) l(2)]
  have sr: "SCHED_READY k" using inv h by (auto simp: kernel_inv_def current_ready_def)
  have lr: "l \<in> set (READY_LIST ?k1)" unfolding R using l by simp
  have p: "pri ?k1 t = (if t = l then pri k h else pri k t)" for t using base(2) by simp
  have sub: "sub_priority (TCBS ?k1 l) = pri k l" using base l(2) by (simp add: boosted_tcb_def)
  have hs: "h \<notin> set (SLEEPING_LIST k)"
    using inv h wf_kernel_disjoint(1) [of k h] by (auto simp: kernel_inv_def current_ready_def)
  have "SLEEPING_LIST ?k1 = SLEEPING_LIST k" by simp
  then have o: "outranks (pri ?k1 h) ?k1 l"
    using others l(2) hs unfolding outranks_def R p by auto
  have wf1: "wf_kernel ?k1" using C(2) by (simp add: mid_inv_def)
  show ?thesis unfolding C(1) returns_bind
  proof (rule returns_mono [OF yield_runs_best [OF C(2)]], elim conjE)
    fix k' assume k': "kernel_inv k'" "yield_frame ?k1 k'" "runs_best k'"
    have "CURRENT_TCB k' \<noteq> None" using k'(1) yield_frameD(2) [OF k'(2)] sr
      by (auto simp: kernel_inv_def current_ready_def)
    moreover have "pri ?k1 l = pri ?k1 h" "pri ?k1 h < pri k l" using base(2) l(2) by (auto simp: p)
    ultimately have "lent k' ?m1 h l (pri k l)"
      using lent_yield [OF k'(2,1) wf1 C(3) _ k'(3) lr _ _ _ sub base(3) _ _ o] own by simp
    then show "returns (\<lambda>(m', k'). lent k' m' h l (pri k l)) (Some (m\<lparr>mwait := [h]\<rparr>, k'))" by simp
  qed
qed

lemma lent_tick:
  assumes L: "lent k m h l b"
  shows "returns (\<lambda>k'. lent k' m h l b) (systick_interrupt k)"
proof -
  let ?k1 = "ticked l k"
  from L have inv: "kernel_inv k" and m: "mutex_inv k m" and l: "CURRENT_TCB k = Some l" by (simp_all add: lent_def)
  then have wf: "wf_kernel k" and lr: "l \<in> set (READY_LIST k)" and rdy: "SCHED_READY k"
    by (auto simp: kernel_inv_def current_ready_def)
  have inv1: "kernel_inv ?k1" by (rule kernel_inv_ticked [OF inv])
  then have wf1: "wf_kernel ?k1" by (simp add: kernel_inv_def)
  have "waiting ?k1 (mwait m) = waiting k (mwait m)" by (simp add: waiting_def del: TASK_MAX_def)
  then have m1: "mutex_inv ?k1 m" using m by (simp add: mutex_inv_def)
  have sub: "sub_priority (TCBS ?k1 t) = sub_priority (TCBS k t)" for t by (simp add: ticked_def)
  have o: "outranks p ?k1 x = outranks p k x" for p x by (simp add: outranks_def)
  have lent1: "lent ?k1 m h l b"
    using L inv1 m1 by (simp add: lent_def sub o del: ticked_fields(12))
  show ?thesis
  proof (cases "time_slice (TCBS ?k1 l) = 0 \<or> SLEEPING_LIST k \<noteq> []")
    case False
    then have "systick_interrupt k = Some ?k1"
      using systick_tick_closed [OF wf l rdy] by (simp add: systick_interrupt_def)
    with lent1 show ?thesis by simp
  next
    case True
    then have eq: "systick_interrupt k = yield_task ?k1"
      using systick_tick_closed [OF wf l rdy] rdy by (simp add: systick_interrupt_def yield_task_def)
    show ?thesis unfolding eq
    proof (rule returns_mono [OF yield_runs_best [OF kernel_inv_mid [OF inv1]]], elim conjE)
      fix k' assume k': "kernel_inv k'" "yield_frame ?k1 k'" "runs_best k'"
      have ne: "CURRENT_TCB k' \<noteq> None" using k'(1) yield_frameD(2) [OF k'(2)] rdy
        by (auto simp: kernel_inv_def current_ready_def)
      have "l \<in> set (READY_LIST ?k1)" using lr by simp
      then show "lent k' m h l b"
        by (rule lent_yield [OF k'(2,1) wf1 m1 ne k'(3)]) (use lent1 in \<open>simp_all add: lent_def del: ticked_fields\<close>)
    qed
  qed
qed

lemma lent_ticks: "lent k m h l b \<Longrightarrow> returns (\<lambda>k'. lent k' m h l b) (run_ticks n k)"
proof (induction n arbitrary: k)
  case (Suc n)
  show ?case
    using returns_mono [OF lent_tick [OF Suc.prems] Suc.IH] by (simp add: returns_bind)
qed simp

subsection \<open>Giving back\<close>

text \<open>A task that stands at the front and outranks all the others is what the scheduler runs.\<close>

lemma insert_all_front:
  "\<forall>t \<in> set ts. \<not> key t < key h \<Longrightarrow> \<exists>ys. insert_all key ts (h # xs) = h # ys"
  by (induction ts arbitrary: xs) auto

lemma settled_front:
  assumes "READY_LIST k = h # xs" "h \<noteq> c" "pri k h \<le> pri k c"
    and "\<forall>t \<in> set (SLEEPING_LIST k). \<not> pri k t < pri k h"
  obtains ys where "READY_LIST (settled c k) = h # ys"
proof -
  obtain ys where "insert_all (pri k) (filter (expired k) (SLEEPING_LIST k)) (h # xs) = h # ys"
    using insert_all_front [of "filter (expired k) (SLEEPING_LIST k)" "pri k" h xs] assms(4) by auto
  then have "READY_LIST (woken k) = h # ys" using assms(1) by simp
  moreover have "pri (woken k) h \<le> pri (woken k) c" using assms(3) by simp
  ultimately have "\<exists>ys. READY_LIST (requeue c (woken k)) = h # ys"
    using assms(2) by (simp add: requeue_def del: woken_fields pri_woken)
  with \<open>READY_LIST (woken k) = h # ys\<close> have "\<exists>ys. READY_LIST (settled c k) = h # ys"
    by (cases "status (TCBS (woken k) c) = Ready \<and> time_slice (TCBS (woken k) c) = 0 \<or> status (TCBS (woken k) c) = Running")
      (auto simp only: settled_def Let_def if_True if_False)
  then show thesis using that by blast
qed

text \<open>The state in which \<open>internal_unlock\<close> calls \<open>yield_task\<close>.\<close>

lemma lent_release:
  assumes L: "lent k m h l b"
  defines "k1 \<equiv> make_ready h (restored l k)"
  shows "mutex_internal_unlock m k = do { k' \<leftarrow> next_tcb k1; Some (True, released m, k') }"
    and "wf_kernel k1" and "CURRENT_TCB k1 = Some l" and "READY_LIST k1 = h # READY_LIST k"
    and "\<forall>t \<in> set (SLEEPING_LIST k1). pri k1 h < pri k1 t" and "h \<noteq> l"
    and "pri k1 h = pri k h" and "t \<noteq> h \<Longrightarrow> t \<noteq> l \<Longrightarrow> pri k1 t = pri k t"
    and "pri k1 l = b" and "sub_priority (TCBS k1 l) = PRI_INV" and "released m = m\<lparr>mowner := Some h, mwait := []\<rparr>"
    and "status (TCBS k1 l) = status (TCBS k l)" and "time_slice (TCBS k1 l) = time_slice (TCBS k l)"
proof -
  from L have inv: "kernel_inv k" and m: "mutex_inv k m" and l: "CURRENT_TCB k = Some l"
    and own: "mrecursive m = 1" "mwait m = [h]" and b: "sub_priority (TCBS k l) = b" "b \<noteq> PRI_INV" "pri k h < b"
    and o: "outranks (pri k h) k l" and mo: "mowner m = Some l" by (simp_all add: lent_def)
  from inv l have wf: "wf_kernel k" and lr: "l \<in> set (READY_LIST k)" and rdy: "SCHED_READY k"
    by (auto simp: kernel_inv_def current_ready_def)
  have W: "waiting k [h]" using m own(2) by (simp add: mutex_inv_def)
  have hn: "h \<notin> set (READY_LIST k)" using waiting_not_ready [OF wf W] by simp
  with lr show hl: "h \<noteq> l" by blast
  have p: "pri (restored l k) t = (if t = l then b else pri k t)" for t using b by simp
  have pk: "pri k1 t = (if t = l then b else pri k t)" for t
  proof -
    have "pri k1 t = pri (restored l k) t" unfolding k1_def by simp
    then show ?thesis unfolding p .
  qed
  show "wf_kernel k1" unfolding k1_def using wf W by (intro wf_kernel_make_ready) (auto simp: waiting_def)
  show "CURRENT_TCB k1 = Some l" using l by (simp add: k1_def)
  show "pri k1 h = pri k h" "pri k1 l = b" "t \<noteq> h \<Longrightarrow> t \<noteq> l \<Longrightarrow> pri k1 t = pri k t" using hl by (simp_all add: pk)
  obtain x xs where R: "READY_LIST k = x # xs" using lr by (cases "READY_LIST k") auto
  have "pri k h < pri (restored l k) x" using o b(3) R unfolding p outranks_def by auto
  then show "READY_LIST k1 = h # READY_LIST k"
    using R hl unfolding k1_def make_ready_def by (simp add: p del: restored_fields(12))
  have "SLEEPING_LIST k1 = SLEEPING_LIST k" by (simp add: k1_def)
  then show "\<forall>t \<in> set (SLEEPING_LIST k1). pri k1 h < pri k1 t"
    using o b(3) hl unfolding pk outranks_def by auto
  have "pri (restored l k) h < pri (restored l k) l" using b(3) hl by (simp add: p del: restored_fields(12))
  then show "mutex_internal_unlock m k = do { k' \<leftarrow> next_tcb k1; Some (True, released m, k') }"
    using mutex_release_waiter [OF wf l own W] rdy
    by (simp add: mutex_internal_unlock_def yield_task_def k1_def del: restored_fields(12))
  show "sub_priority (TCBS k1 l) = PRI_INV" using hl b(1,2) by (simp add: k1_def restored_def make_ready_def)
  show "released m = m\<lparr>mowner := Some h, mwait := []\<rparr>" using own by (cases m) (simp add: released_def)
  show "status (TCBS k1 l) = status (TCBS k l)" "time_slice (TCBS k1 l) = time_slice (TCBS k l)"
    using hl by (simp_all add: k1_def)
qed

lemma lent_unlock:
  assumes L: "lent k m h l b"
  shows "returns (\<lambda>(y, m', k'). CURRENT_TCB k' = Some h \<and> mowner m' = Some h \<and> mrecursive m' = 1 \<and> mwait m' = []
           \<and> pri k' l = b \<and> sub_priority (TCBS k' l) = PRI_INV \<and> l \<in> set (READY_LIST k'))
         (mutex_internal_unlock m k)"
proof -
  note R = lent_release [OF L]
  let ?k1 = "make_ready h (restored l k)"
  have lr: "l \<in> set (READY_LIST ?k1)" unfolding R(4) using L by (auto simp: lent_def kernel_inv_def current_ready_def)
  have "pri ?k1 h < pri ?k1 l" using L unfolding R(7,9) by (simp add: lent_def)
  then obtain ys where ys: "READY_LIST (settled l ?k1) = h # ys"
    using settled_front [OF R(4,6)] R(5) by (metis less_imp_le order.asym)
  have n: "next_tcb ?k1 = Some (switch_to l h (settled l ?k1))"
    using next_tcb_closed [OF R(2,3)] ys by simp
  note fr = sched_frameD [OF next_tcb_frame [OF R(2,3) n]]
  have "CURRENT_TCB (switch_to l h (settled l ?k1)) = Some h"
    using settled_wf(2) [OF R(2,3)] by (rule switch_to_current)
  moreover have "l \<in> set (READY_LIST (switch_to l h (settled l ?k1)))" using fr(6) lr by blast
  ultimately show ?thesis
    unfolding R(1) n using fr(1,2) [of l] R(9-11) L by (simp add: lent_def del: switch_to_fields settled_frame)
qed

subsection \<open>An owner whose time slice ended\<close>

text \<open>The owner that was selected again stays where its inherited priority had put it.\<close>

lemma lent_unlock_stale:
  assumes L: "lent k m h l b" and st: "status (TCBS k l) = Ready" "time_slice (TCBS k l) \<noteq> 0" and none: "no_expired k"
    and t: "t \<in> set (READY_LIST k)" "t \<noteq> l" "pri k t < b" and h: "sub_priority (TCBS k h) = PRI_INV"
  obtains k' where "mutex_guard_drop m k = Some (m\<lparr>mowner := Some h, mwait := []\<rparr>, k')"
    and "wf_kernel k'" and "CURRENT_TCB k' = Some h" and "READY_LIST k' = h # READY_LIST k"
    and "hd (READY_LIST k) = l" and "pri k' t < pri k' l" and "SCHED_READY k'"
    and "no_expired k'" and "sub_priority (TCBS k' h) = PRI_INV" and "time_slice (TCBS k' l) \<noteq> 0"
proof -
  note R = lent_release [OF L]
  let ?k1 = "make_ready h (restored l k)"
  have lr: "l \<in> set (READY_LIST k)" and srt: "ready_sorted k" and o: "outranks (pri k h) k l"
    and pl: "pri k l = pri k h" and rdy: "SCHED_READY k"
    using L by (auto simp: lent_def kernel_inv_def current_ready_def)
  have n1: "\<forall>s \<in> set (SLEEPING_LIST ?k1). \<not> expired ?k1 s"
    using no_expiredD [OF none] by (auto simp: expired_def)
  have s1: "settled l ?k1 = ?k1"
    using st R(12,13) by (simp add: settled_def woken_none [OF n1] Let_def)
  let ?k' = "switch_to l h ?k1"
  have n: "next_tcb ?k1 = Some ?k'" using next_tcb_closed [OF R(2,3)] by (simp add: s1 R(4))
  have "\<exists>ys. READY_LIST k = l # ys"
  proof (cases "READY_LIST k")
    case (Cons x xs)
    then have "pri k x \<le> pri k l" using srt lr by (auto simp: ready_sorted_def)
    then show ?thesis using o Cons pl by (auto simp: outranks_def)
  qed (use lr in simp)
  then have hd: "hd (READY_LIST k) = l" by auto
  have th: "t \<noteq> h" using R(4) wf_kernel_distinct(1) [OF R(2)] t(1) by auto
  have "status (TCBS ?k1 l) \<noteq> Running" using st(1) R(12) by simp
  then have wf': "wf_kernel ?k'" using wf_kernel_switch [OF R(2,3)] R(4) by simp
  have pk: "pri ?k' s = pri ?k1 s" for s by (simp del: make_ready_fields)
  have "pri ?k' t < pri ?k' l" unfolding pk R(8) [OF th t(2)] R(9) by (rule t(3))
  moreover have "mutex_guard_drop m k = Some (m\<lparr>mowner := Some h, mwait := []\<rparr>, ?k')"
    by (simp add: mutex_guard_drop_def R(1,11) n)
  moreover have "no_expired ?k'" using none R(6) by (auto simp: no_expired_def list_all_iff)
  moreover have "sub_priority (TCBS ?k' h) = PRI_INV" using h R(6) by (simp add: restored_def make_ready_def)
  moreover have "time_slice (TCBS ?k' l) \<noteq> 0" using st(2) R(6,13) by simp
  ultimately show thesis
    using that [of ?k'] wf' switch_to_current [OF R(3)] R(4) hd rdy by simp
qed

text \<open>The tick that ends the slice of the owner selects it again, which leaves it \<open>Ready\<close>.\<close>

lemma lent_slice_end:
  assumes L: "lent k m h l b" and s: "time_slice (TCBS k l) = 1"
  shows "returns (\<lambda>k'. lent k' m h l b \<and> status (TCBS k' l) = Ready \<and> time_slice (TCBS k' l) \<noteq> 0 \<and> no_expired k'
           \<and> yield_frame (ticked l k) k') (systick_interrupt k)"
proof -
  let ?k1 = "ticked l k"
  from L have inv: "kernel_inv k" and l: "CURRENT_TCB k = Some l" by (simp_all add: lent_def)
  then have wf: "wf_kernel k" and lr: "l \<in> set (READY_LIST k)" and rdy: "SCHED_READY k"
    by (auto simp: kernel_inv_def current_ready_def)
  have wf1: "wf_kernel ?k1" using kernel_inv_ticked [OF inv] by (simp add: kernel_inv_def)
  have l1: "CURRENT_TCB ?k1 = Some l" "SCHED_READY ?k1" using l rdy by simp_all
  have s1: "time_slice (TCBS ?k1 l) = 0" using s by simp
  have eq: "systick_interrupt k = next_tcb ?k1"
    using systick_tick_closed [OF wf l rdy] rdy s1 by (simp add: systick_interrupt_def)
  obtain k' where k': "next_tcb ?k1 = Some k'" "lent k' m h l b"
    using lent_tick [OF L] unfolding eq by (auto simp: returns_iff)
  note fr = next_tcb_frame [OF wf1 l1(1) k'(1)]
  have sl: "l \<notin> set (SLEEPING_LIST ?k1)" using wf_kernel_disjoint(1) [OF wf1, of l] lr by simp
  have st: "status (TCBS ?k1 l) = Ready \<or> status (TCBS ?k1 l) = Running"
    using wf_kernel_ready_iff [OF wf1] wf_kernel_current [OF wf1 l1(1)] lr by simp
  have wl: "TCBS (woken ?k1) l = TCBS ?k1 l" using sl by simp
  have set': "settled l ?k1 = requeue l (woken ?k1)" using st s1 unfolding settled_def Let_def wl by auto
  obtain hs where "k' = switch_to l (hd (READY_LIST (settled l ?k1))) (settled l ?k1)"
    "CURRENT_TCB k' = Some (hd (READY_LIST (settled l ?k1)))"
    using k'(1) next_tcb_closed [OF wf1 l1(1)] switch_to_current [OF settled_wf(2) [OF wf1 l1(1)]]
    by (auto split: list.splits)
  then have "k' = requeue l (woken ?k1)"
    using k'(2) set' by (simp add: lent_def switch_to_def)
  then have "status (TCBS k' l) = Ready \<and> time_slice (TCBS k' l) \<noteq> 0" by (simp add: requeue_def)
  moreover have "no_expired k'"
    using sched_frameD(4,5,9) [OF fr] by (auto simp: no_expired_def list_all_iff expired_def)
  moreover have "yield_frame ?k1 k'"
    using fr memory_frame_next_tcb [OF wf1 l1(1) k'(1)] by (simp add: yield_frame_def)
  ultimately show ?thesis unfolding eq using k' by simp
qed

text \<open>The end of the task in front of the stale one.\<close>

lemma stale_owner_runs:
  assumes wf: "wf_kernel k" and h: "CURRENT_TCB k = Some h" "READY_LIST k = h # l # ls" and rdy: "SCHED_READY k"
    and none: "no_expired k"
  shows "returns (\<lambda>k'. CURRENT_TCB k' = Some l \<and> READY_LIST k' = l # ls \<and> (\<forall>t. pri k' t = pri k t)) (task_exit_current k)"
proof -
  let ?d = "dead_state h k"
  have hr: "h \<in> set (READY_LIST k)" using h(2) by simp
  note nt = ready_not_terminated [OF wf hr]
  have wfd: "wf_kernel ?d" using wf_kernel_dead_state [OF wf] nt by simp
  have cd: "CURRENT_TCB ?d = Some h" and rd: "READY_LIST ?d = l # ls" and std: "status (TCBS ?d h) = Terminated"
    and sd: "SCHED_READY ?d" and pd: "pri ?d t = pri k t" for t
    using h rdy by (simp_all add: dead_state_def)
  have "set (SLEEPING_LIST ?d) \<subseteq> set (SLEEPING_LIST k)" by (simp add: dead_state_def set_remove1_subset)
  moreover have "wake_point (TCBS ?d t) = wake_point (TCBS k t)" "OS_TICKS ?d = OS_TICKS k" for t
    by (simp_all add: dead_state_def)
  ultimately have "\<forall>t \<in> set (SLEEPING_LIST ?d). \<not> expired ?d t"
    using no_expiredD [OF none] unfolding expired_def by auto
  then have "settled h ?d = ?d" using std by (simp add: settled_def woken_none Let_def)
  then have n: "yield_task ?d = Some (switch_to h l ?d)"
    using next_tcb_closed [OF wfd cd] rd sd by (simp add: yield_task_def)
  have "pri (switch_to h l ?d) t = pri k t" for t using pd [of t] pd [of l] by simp
  then show ?thesis
    unfolding task_exit_current_dead [OF wf h(1) hr] n using switch_to_current [OF cd] rd by simp
qed

lemma lent_waiter: "lent k m h l b \<Longrightarrow> h \<notin> set (READY_LIST k)"
  using waiting_not_ready [of k "[h]" h] by (auto simp: lent_def kernel_inv_def mutex_inv_def)

subsection \<open>Properties\<close>

text \<open>C31. Priority inversion is bounded by the critical section: when a task locks a mutex that a
  ready task of a lower priority holds, the holder runs at once; it keeps the processor through any
  number of timer interrupts, whatever tasks of a priority below the waiter's are ready or wake up
  in between; and when it drops the guard, the waiter owns the mutex and runs at once, and the
  holder has its own priority back.\<close>

theorem priority_inversion_bounded:
  assumes "kernel_inv k" and "mutex_inv k m" and "CURRENT_TCB k = Some h"
    and "mowner m = Some l" and "mrecursive m = 1" and "mwait m = []" and "l \<in> set (READY_LIST k)" and "l \<noteq> h"
    and "sub_priority (TCBS k l) = PRI_INV" and "pri k h < pri k l" and "pri k l \<noteq> PRI_INV"
    and "\<forall>t \<in> set (READY_LIST k) \<union> set (SLEEPING_LIST k). t = h \<or> t = l \<or> pri k h < pri k t"
  shows "returns (\<lambda>(m1, k1). CURRENT_TCB k1 = Some l \<and> pri k1 l = pri k1 h \<and> h \<notin> set (READY_LIST k1) \<and>
           returns (\<lambda>k2. CURRENT_TCB k2 = Some l \<and>
             returns (\<lambda>(m3, k3). CURRENT_TCB k3 = Some h \<and> mowner m3 = Some h \<and> mrecursive m3 = 1 \<and> mwait m3 = []
                 \<and> pri k3 l = pri k l \<and> sub_priority (TCBS k3 l) = PRI_INV \<and> l \<in> set (READY_LIST k3))
               (mutex_guard_drop m1 k2))
             (run_ticks n k1))
         (mutex_lock m k)"
proof -
  have "case r of (m1, k1) \<Rightarrow> CURRENT_TCB k1 = Some l \<and> pri k1 l = pri k1 h \<and> h \<notin> set (READY_LIST k1) \<and>
      returns (\<lambda>k2. CURRENT_TCB k2 = Some l \<and>
        returns (\<lambda>(m3, k3). CURRENT_TCB k3 = Some h \<and> mowner m3 = Some h \<and> mrecursive m3 = 1 \<and> mwait m3 = []
            \<and> pri k3 l = pri k l \<and> sub_priority (TCBS k3 l) = PRI_INV \<and> l \<in> set (READY_LIST k3))
          (mutex_guard_drop m1 k2)) (run_ticks n k1)"
    if "case r of (m1, k1) \<Rightarrow> lent k1 m1 h l (pri k l)" for r
  proof (cases r)
    case (Pair m1 k1)
    then have L: "lent k1 m1 h l (pri k l)" using that by simp
    have "CURRENT_TCB k2 = Some l \<and>
        returns (\<lambda>(m3, k3). CURRENT_TCB k3 = Some h \<and> mowner m3 = Some h \<and> mrecursive m3 = 1 \<and> mwait m3 = []
            \<and> pri k3 l = pri k l \<and> sub_priority (TCBS k3 l) = PRI_INV \<and> l \<in> set (READY_LIST k3))
          (mutex_guard_drop m1 k2)" if "lent k2 m1 h l (pri k l)" for k2
      using that returns_mono [OF lent_unlock [OF that]]
      by (auto simp: mutex_guard_drop_def returns_bind lent_def)
    then show ?thesis
      using returns_mono [OF lent_ticks [OF L, of n]] L lent_waiter [OF L] Pair by (auto simp: lent_def)
  qed
  then show ?thesis by (rule returns_mono [OF lock_lends [OF assms]])
qed

text \<open>C32. The place in the ready list outlives the lent priority: when the time slice of the holder
  ends inside the critical section, it is selected again and stays \<open>Ready\<close>; the unlock lowers its
  priority but neither moves it in the ready list nor is it requeued by the switch, so that, after
  the waiter has dropped its guard and ended, the holder runs ahead of a ready task whose priority
  is higher than its own.\<close>

theorem inherited_place_outlives_boost:
  assumes "lent k m h l b" and "time_slice (TCBS k l) = 1" and "sub_priority (TCBS k h) = PRI_INV"
    and "t \<in> set (READY_LIST k)" and "t \<noteq> l" and "pri k t < b"
  shows "returns (\<lambda>k1. returns (\<lambda>(m2, k2). CURRENT_TCB k2 = Some h \<and>
             returns (\<lambda>(m3, k3). mowner m3 = None \<and> CURRENT_TCB k3 = Some h \<and>
               returns (\<lambda>k4. CURRENT_TCB k4 = Some l \<and> t \<in> set (READY_LIST k4) \<and> pri k4 t < pri k4 l)
                 (task_exit_current k3))
               (mutex_guard_drop m2 k2))
             (mutex_guard_drop m k1))
         (systick_interrupt k)"
proof (rule returns_mono [OF lent_slice_end [OF assms(1,2)]], elim conjE)
  fix k1 assume k1: "lent k1 m h l b" "status (TCBS k1 l) = Ready" "time_slice (TCBS k1 l) \<noteq> 0" "no_expired k1"
    "yield_frame (ticked l k) k1"
  have t: "t \<in> set (READY_LIST k1)" "pri k1 t < b"
    using yield_frameD(1,6) [OF k1(5)] assms(4,6) by auto
  have h: "sub_priority (TCBS k1 h) = PRI_INV"
    using yield_frame_sub [OF k1(5), of h] assms(3) by (auto simp: ticked_def)
  obtain k2 where k2: "mutex_guard_drop m k1 = Some (m\<lparr>mowner := Some h, mwait := []\<rparr>, k2)"
    "wf_kernel k2" "CURRENT_TCB k2 = Some h" "READY_LIST k2 = h # READY_LIST k1" "hd (READY_LIST k1) = l"
    "pri k2 t < pri k2 l" "SCHED_READY k2" "no_expired k2" "sub_priority (TCBS k2 h) = PRI_INV"
    by (rule lent_unlock_stale [OF k1(1-4) t(1) assms(5) t(2) h])
  obtain ls where ls: "READY_LIST k1 = l # ls" using t(1) k2(5) by (cases "READY_LIST k1") auto
  let ?m2 = "m\<lparr>mowner := Some h, mwait := []\<rparr>"
  have rec: "mrecursive ?m2 = 1" using k1(1) by (simp add: lent_def)
  have "restored h k2 = k2" using k2(9) by (simp add: restored_def)
  then have d: "mutex_guard_drop ?m2 k2 = Some (released ?m2, k2)"
    using mutex_release_free [OF k2(2,3) rec] k2(4) by (simp add: mutex_guard_drop_def mutex_internal_unlock_def)
  have "returns (\<lambda>k4. CURRENT_TCB k4 = Some l \<and> t \<in> set (READY_LIST k4) \<and> pri k4 t < pri k4 l) (task_exit_current k2)"
    using stale_owner_runs [OF k2(2,3) _ k2(7,8), of l ls] k2(4,6) t(1) ls by (auto elim!: returns_mono)
  then show "returns (\<lambda>(m2, k2). CURRENT_TCB k2 = Some h \<and>
             returns (\<lambda>(m3, k3). mowner m3 = None \<and> CURRENT_TCB k3 = Some h \<and>
               returns (\<lambda>k4. CURRENT_TCB k4 = Some l \<and> t \<in> set (READY_LIST k4) \<and> pri k4 t < pri k4 l)
                 (task_exit_current k3))
               (mutex_guard_drop m2 k2))
             (mutex_guard_drop m k1)"
    by (simp add: k2(1,3) d released_def)
qed

text \<open>Task 0 of priority 3 locks what task 1 of priority 7 holds; task 4 of priority 5 is ready.\<close>

definition pip_kernel :: kernel where
  "pip_kernel = contended_kernel\<lparr>TCBS := (TCBS contended_kernel)
     (2 := (tcb_empty 2)\<lparr>status := Blocked, priority := 9, wake_point := 5\<rparr>)\<rparr>"

lemma kernel_inv_pip: "kernel_inv pip_kernel"
  by (auto simp: kernel_inv_def wf_kernel_def wf_lists_def wf_ids_def wf_current_def ready_sorted_def
      current_ready_def pip_kernel_def contended_kernel_def demo_kernel_def kernel_boot_def tl_new_def all_less_16)

lemma priority_inversion_bounded_witness:
  "returns (\<lambda>(m1, k1). CURRENT_TCB k1 = Some 1 \<and>
     returns (\<lambda>k2. CURRENT_TCB k2 = Some 1 \<and>
       returns (\<lambda>(m3, k3). CURRENT_TCB k3 = Some 0 \<and> pri k3 1 = 7) (mutex_guard_drop m1 k2))
     (run_ticks 500 k1)) (mutex_lock \<lparr>mowner = Some 1, mrecursive = 1, mwait = [], mdata = ()\<rparr> pip_kernel)"
proof -
  have d: "CURRENT_TCB pip_kernel = Some 0" "1 \<in> set (READY_LIST pip_kernel)" "sub_priority (TCBS pip_kernel 1) = PRI_INV"
    "pri pip_kernel 0 = 3" "pri pip_kernel 1 = 7"
    "\<forall>t \<in> set (READY_LIST pip_kernel) \<union> set (SLEEPING_LIST pip_kernel). t = 0 \<or> t = 1 \<or> pri pip_kernel 0 < pri pip_kernel t"
    by (simp_all add: pip_kernel_def contended_kernel_def demo_kernel_def tcb_empty_def)
  have m: "mutex_inv pip_kernel \<lparr>mowner = Some 1, mrecursive = 1, mwait = [], mdata = ()\<rparr>"
    by (simp add: mutex_inv_def)
  from priority_inversion_bounded [OF kernel_inv_pip m d(1) _ _ _ d(2) _ d(3) _ _ d(6), of 500] d(4,5) show ?thesis
    by (auto elim!: returns_mono)
qed

text \<open>Task 1, of priority 7, holds the mutex at the priority 3 of task 0; task 4 of priority 5 is ready.\<close>

definition pip_lent_kernel :: kernel where
  "pip_lent_kernel = (kernel_boot 0)\<lparr>
     TCBS := (\<lambda>t. if t = 0 then (tcb_empty 0)\<lparr>status := Blocked, priority := 3\<rparr>
              else if t = 1 then (tcb_empty 1)\<lparr>status := Running, priority := 3, sub_priority := 7, time_slice := 1\<rparr>
              else if t = 4 then (tcb_empty 4)\<lparr>status := Ready, priority := 5\<rparr>
              else tcb_empty 0),
     READY_LIST := [1, 4], TID_BITMAP := 19, CURRENT_TCB := Some 1, SCHED_READY := True\<rparr>"

lemma lent_pip: "lent pip_lent_kernel \<lparr>mowner = Some 1, mrecursive = 1, mwait = [0], mdata = ()\<rparr> 0 1 7"
  by (auto simp: lent_def outranks_def mutex_inv_def waiting_def kernel_inv_def wf_kernel_def wf_lists_def wf_ids_def
      wf_current_def ready_sorted_def current_ready_def pip_lent_kernel_def kernel_boot_def tl_new_def all_less_16)

lemma inherited_place_outlives_boost_witness:
  "returns (\<lambda>k1. returns (\<lambda>(m2, k2). CURRENT_TCB k2 = Some 0 \<and>
       returns (\<lambda>(m3, k3). returns (\<lambda>k4. CURRENT_TCB k4 = Some 1 \<and> 4 \<in> set (READY_LIST k4) \<and> pri k4 4 < pri k4 1)
         (task_exit_current k3)) (mutex_guard_drop m2 k2))
     (mutex_guard_drop \<lparr>mowner = Some 1, mrecursive = 1, mwait = [0], mdata = ()\<rparr> k1)) (systick_interrupt pip_lent_kernel)"
proof -
  have d: "time_slice (TCBS pip_lent_kernel 1) = 1" "sub_priority (TCBS pip_lent_kernel 0) = PRI_INV"
    "4 \<in> set (READY_LIST pip_lent_kernel)" "pri pip_lent_kernel 4 < 7"
    by (simp_all add: pip_lent_kernel_def tcb_empty_def)
  from inherited_place_outlives_boost [OF lent_pip d(1-3) _ d(4)] show ?thesis
    by (auto elim!: returns_mono)
qed

end
