(* ===== verification/Mos_Parked.thy ===== *)
theory Mos_Parked
  imports Mos_Sync
begin

text \<open>
  What the calls of the kernel (\<open>core/src/kernel/task.rs\<close>, \<open>sched.rs\<close>) do to the tasks that wait in the queue of a
  synchronisation object, in every state of the kernel that cannot panic, whether or not the ready
  list is in the order of the priorities.
\<close>

subsection \<open>Parked tasks\<close>

text \<open>A parked task waits outside the lists of the kernel; the operations of the kernel on other tasks
  leave it alone.\<close>

definition parked :: "kernel \<Rightarrow> nat \<Rightarrow> bool" where
  "parked k t \<longleftrightarrow> t < TASK_MAX \<and> status (TCBS k t) = Blocked \<and> t \<notin> set (BLOCKED_LIST k) \<and> t \<notin> set (SLEEPING_LIST k)"

lemma waiting_parked: "waiting k wq \<longleftrightarrow> distinct wq \<and> (\<forall>t \<in> set wq. parked k t)"
  by (simp add: waiting_def parked_def)

definition keeps_parked :: "nat set \<Rightarrow> kernel \<Rightarrow> kernel \<Rightarrow> bool" where
  "keeps_parked X k k' \<longleftrightarrow> (\<forall>t. parked k t \<longrightarrow> t \<notin> X \<longrightarrow> parked k' t \<and> pri k' t = pri k t)"

lemma keeps_parked_refl [simp]: "keeps_parked X k k"
  by (simp add: keeps_parked_def)

lemma keeps_parked_trans: "keeps_parked X k k1 \<Longrightarrow> keeps_parked {} k1 k' \<Longrightarrow> keeps_parked X k k'"
  by (auto simp: keeps_parked_def)

lemma keeps_parked_yield: "wf_kernel k \<Longrightarrow> yield_frame k k' \<Longrightarrow> keeps_parked {} k k'"
  using waiting_yield [of k k' "[t]" for t] yield_frameD(1) [of k k'] by (simp add: keeps_parked_def waiting_parked)

lemma not_parked_ready: "wf_kernel k \<Longrightarrow> t \<in> set (READY_LIST k) \<Longrightarrow> \<not> parked k t"
  using ready_not_terminated by (auto simp: parked_def)

text \<open>A change of one task that is not parked keeps the others; so does the yield that follows.\<close>

lemma keeps_parked_change:
  assumes "\<And>s. s \<noteq> t \<Longrightarrow> status (TCBS k' s) = status (TCBS k s) \<and> pri k' s = pri k s"
    and "set (BLOCKED_LIST k') \<subseteq> insert t (set (BLOCKED_LIST k))" "set (SLEEPING_LIST k') \<subseteq> insert t (set (SLEEPING_LIST k))"
    and "parked k t \<Longrightarrow> t \<in> X"
  shows "keeps_parked X k k'"
  using assms unfolding keeps_parked_def parked_def by (metis insertE subsetD)

lemma keeps_parked_states:
  shows "keeps_parked {t} k (dead_state t k)"
    and "\<not> parked k t \<Longrightarrow> keeps_parked {} k (dead_state t k)"
    and "\<not> parked k t \<Longrightarrow> keeps_parked {} k (blocked_state t k)"
    and "\<not> parked k t \<Longrightarrow> keeps_parked {} k (asleep_state t w k)"
    and "\<not> parked k t \<Longrightarrow> keeps_parked {} k (resumed_state t k)"
    and "\<not> parked k t \<Longrightarrow> keeps_parked {} k ((spawned t T k)\<lparr>STACKS := st\<rparr>)"
    and "\<not> parked k t \<Longrightarrow> keeps_parked {} k ((spawned t T k)\<lparr>HEAP_STACKS := hs\<rparr>)"
  by (rule keeps_parked_change [of t];
      use set_remove1_subset in \<open>fastforce simp: dead_state_def blocked_state_def make_blocked_def resumed_state_def make_ready_def asleep_state_def spawned_def ticked_def\<close>)+

lemma keeps_parked_ticked: "keeps_parked {} k (ticked c k)"
  by (simp add: keeps_parked_def parked_def del: TASK_MAX_def)

subsection \<open>Calls of the kernel in a safe state\<close>

definition safe_live :: "nat \<Rightarrow> kernel \<Rightarrow> bool" where
  "safe_live idle k \<longleftrightarrow> safe_inv k \<and> stacks_ok k \<and> SCHED_READY k \<and> idle \<in> set (READY_LIST k)"

lemma live_inv_safe: "live_inv idle k \<Longrightarrow> safe_live idle k"
  by (simp add: live_inv_def safe_live_def kernel_inv_safe)

lemma safe_liveD:
  assumes "safe_live idle k"
  obtains c where "safe_inv k" "wf_kernel k" "stacks_ok k" "SCHED_READY k" "idle \<in> set (READY_LIST k)"
    "CURRENT_TCB k = Some c" "c \<in> set (READY_LIST k)"
  using assms by (auto simp: safe_live_def safe_inv_def current_ready_def)

lemma safe_live_yield: "safe_live idle k \<Longrightarrow> safe_inv k' \<Longrightarrow> yield_frame k k' \<Longrightarrow> safe_live idle k'"
  using yield_frameD(2,6,9) [of k k'] unfolding safe_live_def stacks_ok_def by auto

text \<open>The shape of every call: a change that keeps the parked tasks, then a yield or none.\<close>

definition half_done :: "nat \<Rightarrow> nat set \<Rightarrow> kernel \<Rightarrow> kernel \<Rightarrow> bool" where
  "half_done idle X k k1 \<longleftrightarrow> keeps_parked X k k1 \<and> safe_mid k1 \<and> SCHED_READY k1 \<and> idle \<in> set (READY_LIST k1) \<and> stacks_ok k1"

lemma half_done_step:
  assumes "half_done idle X k k1" and "\<not> b \<Longrightarrow> safe_inv k1"
  shows "returns (\<lambda>k'. safe_live idle k' \<and> keeps_parked X k k') (if b then yield_task k1 else Some k1)"
proof (rule safe.yield_if)
  show "safe_mid k1" using assms(1) by (simp add: half_done_def)
  fix k' assume k': "safe_inv k'" "yield_frame k1 k'"
  have "wf_kernel k1" using assms(1) by (simp add: half_done_def safe_mid_def)
  then have "keeps_parked X k k'"
    using keeps_parked_trans [OF _ keeps_parked_yield [OF _ k'(2)]] assms(1) by (simp add: half_done_def)
  then show "safe_live idle k' \<and> keeps_parked X k k'"
    using k'(1) yield_frameD(2,6,9) [OF k'(2)] assms(1) unfolding half_done_def safe_live_def stacks_ok_def by auto
qed (use assms(2) in simp)

lemma half_done_yield:
  "half_done idle X k k1 \<Longrightarrow> returns (\<lambda>k'. safe_live idle k' \<and> keeps_parked X k k') (yield_task k1)"
  using half_done_step [where b = True] by simp

lemma half_doneI:
  assumes "safe_live idle k" "keeps_parked X k k1" "wf_kernel k1" "CURRENT_TCB k1 = CURRENT_TCB k"
    "SCHED_READY k1 = SCHED_READY k" "STACKS k1 = STACKS k" "idle \<in> set (READY_LIST k1)"
  shows "half_done idle X k k1"
  using assms safe_midI [of k k1 idle] by (simp add: half_done_def safe_live_def stacks_ok_def)

fun killed :: "kcall \<Rightarrow> nat set" where
  "killed (KTerminate t) = {t}"
| "killed c = {}"

lemma returns_drop: "returns P m \<Longrightarrow> returns P (map_option snd (do { x \<leftarrow> m; Some (r, x) }))"
  by (cases m) auto

lemma kcall_safe:
  assumes live: "safe_live idle k" and ok: "kcall_ok idle c k"
  shows "returns (\<lambda>k'. safe_live idle k' \<and> keeps_parked (killed c) k k') (kcall_run ca c k)"
proof -
  obtain cur where inv: "safe_inv k" and wf: "wf_kernel k" and st: "stacks_ok k" and rdy: "SCHED_READY k"
    and idle: "idle \<in> set (READY_LIST k)" and cur: "CURRENT_TCB k = Some cur" and cr: "cur \<in> set (READY_LIST k)"
    by (rule safe_liveD [OF live])
  note np = not_parked_ready [OF wf] and half = half_doneI [OF live]
  have dead: "\<not> parked k t" if "status (TCBS k t) = Terminated" for t using that by (simp add: parked_def)
  have same: "returns (\<lambda>k'. safe_live idle k' \<and> keeps_parked X k k') (Some k)" for X using live by simp
  show ?thesis
  proof (cases c)
    case KTick
    have s: "safe_inv (ticked cur k)" by (subst safe_inv_cong [of _ k]) (simp_all add: inv)
    then have "half_done idle {} k (ticked cur k)"
      using idle by (intro half keeps_parked_ticked) (simp_all add: safe_inv_def, simp add: ticked_def)
    from half_done_step [OF this s]
      have "returns (\<lambda>k'. safe_live idle k' \<and> keeps_parked {} k k') (if time_slice (TCBS (ticked cur k) cur) = 0 \<or> SLEEPING_LIST k \<noteq> [] then yield_task (ticked cur k) else Some (ticked cur k))" .
    then show ?thesis
      using systick_tick_closed [OF wf cur rdy] rdy by (auto simp: KTick systick_interrupt_def yield_task_def split: if_splits)
  next
    case KYield
    have "half_done idle {} k k" using idle wf by (intro half) simp_all
    then show ?thesis using half_done_yield by (simp add: KYield)
  next
    case KExit
    then have "idle \<noteq> cur" using ok cur by auto
    then have "half_done idle {} k (dead_state cur k)"
      using idle keeps_parked_states(2) [OF np [OF cr]] wf_kernel_dead_state [OF wf] ready_not_terminated [OF wf cr]
      by (intro half) (simp_all add: dead_state_def)
    then show ?thesis using half_done_yield task_exit_current_dead [OF wf cur cr] by (simp add: KExit)
  next
    case (KDelay n)
    show ?thesis
    proof (cases "n = 0")
      case True
      then show ?thesis using same by (simp add: KDelay task_delay_def)
    next
      case False
      have "idle \<noteq> cur" using ok cur KDelay by auto
      then have "half_done idle {} k (asleep_state cur (OS_TICKS k + n) k)"
        using idle keeps_parked_states(4) [OF np [OF cr]] wf_kernel_asleep_state [OF wf cr]
        by (intro half) (simp_all, simp add: asleep_state_def)
      then show ?thesis using half_done_yield task_delay_safe [OF inv cur False] by (simp add: KDelay)
    qed
  next
    case (KBlock t)
    show ?thesis
    proof (cases "t \<in> set (READY_LIST k)")
      case True
      have "idle \<noteq> t" using ok KBlock by auto
      then have "half_done idle {} k (blocked_state t k)"
        using idle keeps_parked_states(3) [OF np [OF True]] task_block_safe(1) [OF wf True]
        by (intro half) (simp_all add: blocked_state_def, simp add: make_blocked_def)
      then show ?thesis using half_done_yield task_block_safe(2) [OF wf True] by (simp add: KBlock)
    next
      case False
      with ok task_block_other [OF _ wf] same show ?thesis by (simp add: KBlock)
    qed
  next
    case (KResume t)
    show ?thesis
    proof (cases "t \<in> set (BLOCKED_LIST k)")
      case True
      note R = task_resume_safe [OF wf True]
      have s: "safe_inv (resumed_state t k)" by (rule R(1) [OF inv])
      have "\<not> parked k t" using True by (simp add: parked_def)
      then have "half_done idle {} k (resumed_state t k)"
        using idle keeps_parked_states(5) s
        by (intro half) (simp_all add: safe_inv_def, simp_all add: resumed_state_def make_ready_def)
      from half_done_step [OF this s] show ?thesis unfolding KResume kcall_run.simps R(3) killed.simps .
    next
      case False
      with ok same show ?thesis by (simp add: KResume task_resume_def)
    qed
  next
    case (KTerminate t)
    with ok have t: "t < TASK_MAX" "idle \<noteq> t" by auto
    show ?thesis
    proof (cases "status (TCBS k t) = Terminated")
      case True
      with t(1) same show ?thesis by (simp add: KTerminate task_terminate_step)
    next
      case False
      then have "half_done idle {t} k (dead_state t k)"
        using idle t keeps_parked_states(1) wf_kernel_dead_state [OF wf] by (intro half) (simp_all add: dead_state_def)
      then show ?thesis using half_done_yield False t(1) by (simp add: KTerminate task_terminate_step)
    qed
  next
    case (KCreate f i p n)
    then have f: "length f \<le> TASK_CLOSURE_SIZE" using ok by simp
    show ?thesis
    proof (rule alloc_tid_cases [OF wf])
      fix t assume al: "alloc_tid k = (Some t, k\<lparr>TID_BITMAP := TID_BITMAP k OR push_bit t 1, TCBS := (TCBS k)(t := tcb_empty t)\<rparr>)"
        and t: "t < TASK_MAX" "status (TCBS k t) = Terminated"
      obtain stack k2 where k2: "k2 = (spawned t (created_tcb t f i p n (STACKS_BASE k + of_nat (PAGE_SIZE * t))) k)\<lparr>STACKS := (STACKS k)(t := stack)\<rparr>"
        "length stack = PAGE_SIZE_WORDS" "safe_inv k2" "task_create ca f i p n k = do {
           k' \<leftarrow> (if CURRENT_TCB k \<noteq> None \<and> (\<forall>c. CURRENT_TCB k = Some c \<longrightarrow> p < pri k c)
                 then yield_task k2 else Some k2); Some (Inr t, k') }"
        by (rule task_create_safe [OF inv st f al t, of i p n ca]) blast
      have "keeps_parked {} k k2" unfolding k2(1) by (rule keeps_parked_states(6) [OF dead [OF t(2)]])
      then have "half_done idle {} k k2"
        using safe_inv_mid [OF k2(3)] stacks_ok_upd [OF st k2(2), of k2 t] idle rdy by (simp add: half_done_def k2(1))
      from half_done_step [OF this k2(3)] show ?thesis
        unfolding k2(4) KCreate kcall_run.simps killed.simps by (rule returns_drop)
    next
      assume "alloc_tid k = (None, k)"
      then show ?thesis using same task_create_full [OF _ f] by (simp add: KCreate)
    qed
  next
    case (KCreateRaw addr entry param p n sz)
    then have sz: "CONTEXT_WORDS < sz div 4" using ok by simp
    show ?thesis
    proof (rule task_create_raw_safe [OF inv sz, of ca addr entry param p n], goal_cases)
      case 1
      have "safe_inv (k\<lparr>HEAP_STACKS := HEAP_STACKS k @ [(addr, replicate (sz div 4) 0)]\<rparr>)"
        by (subst safe_inv_cong [of _ k]) (simp_all add: inv)
      then show ?case unfolding KCreateRaw kcall_run.simps 1(2)
        using live by (simp add: safe_live_def stacks_ok_def keeps_parked_def parked_def del: TASK_MAX_def)
    next
      case (2 t stack k2)
      from keeps_parked_states(7) [OF dead [OF 2(2)]] 2(6,7) live show ?case
        unfolding KCreateRaw kcall_run.simps 2(9) by (simp add: safe_live_def stacks_ok_def del: TASK_MAX_def)
    qed
  qed
qed

lemma kcall_keeps_parked:
  assumes "live_inv idle k" "kcall_ok idle c k" "kcall_run ca c k = Some k'"
  shows "keeps_parked (killed c) k k'"
  using kcall_safe [OF live_inv_safe [OF assms(1)] assms(2), of ca] assms(3) by simp

lemma waiting_kept:
  assumes "keeps_parked X k k'" "X \<inter> set wq = {}" "waiting k wq"
  shows "waiting k' wq" and "wq_sorted k' wq = wq_sorted k wq"
proof -
  have same: "parked k' t" "pri k' t = pri k t" if "t \<in> set wq" for t
    using that assms unfolding keeps_parked_def waiting_parked by blast+
  show "waiting k' wq" using assms(3) same(1) by (simp add: waiting_parked)
  have "map (pri k') wq = map (pri k) wq" using same(2) by (intro map_cong refl) blast
  then show "wq_sorted k' wq = wq_sorted k wq" by (simp only: wq_sorted_def)
qed

end
