(* ===== verification/Mos_Permits.thy ===== *)
theory Mos_Permits
  imports Mos_Parked
begin

text \<open>
  A semaphore of \<open>core/src/kernel/sync.rs\<close> together with the kernel: \<open>down\<close>, \<open>try_down\<close>, \<open>up\<close> and
  \<open>up_from_isr\<close> interleaved with ticks, yields and the life-cycle calls of \<open>task.rs\<close> as one
  transition system, and the conservation of its permits.
\<close>

subsection \<open>One semaphore among all tasks\<close>

text \<open>
  A semaphore with \<open>n\<close> permits in a running system: any order of kernel calls, \<open>down\<close>, \<open>try_down\<close>, \<open>up\<close>
  and \<open>up_from_isr\<close>; \<open>u\<close> counts the calls of \<open>up\<close> and \<open>d\<close> the calls of \<open>down\<close> that took a permit or began to
  wait. The idle task does not wait, no task is killed while it waits (\<open>terminate_leaves_waiter\<close> shows
  why), the count does not overflow, and \<open>down_timeout\<close> is left out (\<open>sema_timeout_lost_wakeup\<close>).
\<close>

inductive sema_reach :: "code_addrs \<Rightarrow> nat \<Rightarrow> nat \<Rightarrow> sema \<Rightarrow> kernel \<Rightarrow> nat \<Rightarrow> nat \<Rightarrow> bool" for ca idle n where
  sr_start: "kreach ca idle k \<Longrightarrow> n < 2147483648 \<Longrightarrow> sema_reach ca idle n (sema_new (int n)) k 0 0"
| sr_call: "sema_reach ca idle n s k u d \<Longrightarrow> kcall_ok idle c k \<Longrightarrow> killed c \<inter> set (swait s) = {}
     \<Longrightarrow> kcall_run ca c k = Some k' \<Longrightarrow> sema_reach ca idle n s k' u d"
| sr_down: "sema_reach ca idle n s k u d \<Longrightarrow> CURRENT_TCB k \<noteq> Some idle \<Longrightarrow> sema_down s k = Some (s', k')
     \<Longrightarrow> sema_reach ca idle n s' k' u (Suc d)"
| sr_try: "sema_reach ca idle n s k u d \<Longrightarrow> sema_try_down s = (True, s') \<Longrightarrow> sema_reach ca idle n s' k u (Suc d)"
| sr_up: "sema_reach ca idle n s k u d \<Longrightarrow> scount s < 2147483647 \<Longrightarrow> sema_up s k = Some (s', k')
     \<Longrightarrow> sema_reach ca idle n s' k' (Suc u) d"
| sr_up_isr: "sema_reach ca idle n s k u d \<Longrightarrow> scount s < 2147483647 \<Longrightarrow> sema_up_from_isr s k = Some (s', k')
     \<Longrightarrow> sema_reach ca idle n s' k' (Suc u) d"

inductive_cases sema_reachE: "sema_reach ca idle n s k u d"

definition sema_live :: "nat \<Rightarrow> sema \<Rightarrow> kernel \<Rightarrow> bool" where
  "sema_live idle s k \<longleftrightarrow> live_inv idle k \<and> sema_inv k s"

lemma live_inv_yield: "live_inv idle k \<Longrightarrow> kernel_inv k' \<Longrightarrow> yield_frame k k' \<Longrightarrow> live_inv idle k'"
  using yield_frameD(2,6,9) [of k k'] unfolding live_inv_def stacks_ok_def by auto

lemma sema_down_live:
  assumes L: "sema_live idle s k" and ni: "CURRENT_TCB k \<noteq> Some idle"
  shows "returns (\<lambda>(s', k'). sema_live idle s' k' \<and> scount s' = scount s - 1) (sema_down s k)"
proof (cases "0 < scount s")
  case True
  then show ?thesis using L sema_down_permit [of k s] by (simp add: sema_live_def)
next
  case False
  from L have inv: "kernel_inv k" and s: "sema_inv k s" and idle: "idle \<in> set (READY_LIST k)"
    and st: "stacks_ok k" and rdy: "SCHED_READY k" by (simp_all add: sema_live_def live_inv_def)
  then obtain c where c: "CURRENT_TCB k = Some c" "idle \<noteq> c" using ni by (auto simp: kernel_inv_def current_ready_def)
  note D = sema_down_step [OF inv s c(1) idle c(2) False]
  have wf: "wf_kernel (make_blocked c k)" using D(1) by (simp add: mid_inv_def)
  have st1: "stacks_ok (make_blocked c k)" using st by (simp add: stacks_ok_def make_blocked_def)
  show ?thesis unfolding D(3) returns_bind
  proof (rule sched.yield_mono [OF D(1)])
    fix k' assume k': "kernel_inv k'" "yield_frame (make_blocked c k) k'"
    have "idle \<in> set (READY_LIST k')" using yield_frameD(6) [OF k'(2)] idle c(2) by auto
    moreover have "SCHED_READY k'" "stacks_ok k'" using yield_frameD(2,9) [OF k'(2)] rdy st1 by (simp_all add: stacks_ok_def)
    ultimately show "returns (\<lambda>(s', k'). sema_live idle s' k' \<and> scount s' = scount s - 1)
        (Some (s\<lparr>scount := scount s - 1, swait := insert_before (\<lambda>t. pri k c < pri k t) c (swait s)\<rparr>, k'))"
      using k'(1) sema_inv_yield [OF k'(2) wf D(2)] by (simp add: sema_live_def live_inv_def)
  qed
qed

lemma live_inv_make_ready: "live_inv idle k \<Longrightarrow> kernel_inv (make_ready w k) \<Longrightarrow> live_inv idle (make_ready w k)"
  by (simp add: live_inv_def stacks_ok_def) (simp add: make_ready_def)

lemma sema_up_live:
  assumes L: "sema_live idle s k" and room: "scount s < 2147483647"
  shows "returns (\<lambda>(s', k'). sema_live idle s' k' \<and> scount s' = scount s + 1) (sema_up s k)"
proof (cases "swait s")
  case Nil
  from L have "kernel_inv k" "sema_inv k s" by (simp_all add: sema_live_def live_inv_def)
  from sema_up_spec [OF this room] have "returns (\<lambda>(s', k'). sema_inv k' s' \<and> scount s' = scount s + 1 \<and> k' = k) (sema_up s k)"
    by (rule returns_mono) (use Nil in \<open>auto simp: aup_def sema_abs_def\<close>)
  then show ?thesis by (rule returns_mono) (use L in \<open>auto simp: sema_live_def\<close>)
next
  case (Cons w ws)
  from L have live: "live_inv idle k" and inv: "kernel_inv k" and s: "sema_inv k s" by (simp_all add: sema_live_def live_inv_def)
  note U = sema_up_step [OF inv s room Cons]
  have wf: "wf_kernel (make_ready w k)" using U(1) by (simp add: kernel_inv_def)
  show ?thesis unfolding U(3) returns_bind
    by (rule sched.yield_if [OF kernel_inv_mid [OF U(1)] U(1)])
      (use live_inv_yield [OF live_inv_make_ready [OF live U(1)]] sema_inv_yield [OF _ wf U(2)] in \<open>simp add: sema_live_def\<close>)
qed

lemma sema_up_from_isr_live:
  assumes L: "sema_live idle s k" and room: "scount s < 2147483647"
  shows "returns (\<lambda>(s', k'). sema_live idle s' k' \<and> scount s' = scount s + 1) (sema_up_from_isr s k)"
proof -
  from L have live: "live_inv idle k" and inv: "kernel_inv k" and s: "sema_inv k s" by (simp_all add: sema_live_def live_inv_def)
  then have wf: "wf_kernel k" by (simp add: kernel_inv_def)
  have wr: "wrap_i32 (scount s + 1) = scount s + 1" using sema_inv_count [OF s] room by simp
  show ?thesis
  proof (cases "swait s")
    case Nil
    with s live room show ?thesis by (auto simp: sema_up_from_isr_def Let_def wr sema_live_def sema_inv_def)
  next
    case (Cons w ws)
    then have W: "waiting k (w # ws)" using s by (simp add: sema_inv_def)
    from sema_inv_wake [OF s Cons] Cons live_inv_make_ready [OF live kernel_inv_wake [OF inv W]] show ?thesis
      by (simp add: sema_up_from_isr_def Let_def wr tl_pop_front_def wake_task_waiter [OF wf W] sema_live_def)
  qed
qed

lemma sema_reach_inv: "sema_reach ca idle n s k u d \<Longrightarrow> sema_live idle s k \<and> int n + int u = scount s + int d"
proof (induction rule: sema_reach.induct)
  case (sr_start k)
  then show ?case using kreach_live [OF sr_start(1)] sema_inv_new [of "int n" k] by (simp add: sema_live_def sema_new_def)
next
  case (sr_call s k u d c k')
  then have live: "live_inv idle k" and s: "sema_inv k s" by (simp_all add: sema_live_def)
  have "live_inv idle k'" using kcall_live [OF live sr_call.hyps(2), of ca] sr_call.hyps(4) by simp
  moreover have W: "waiting k (swait s)" using s by (simp add: sema_inv_def)
  have "sema_inv k' s"
    using s waiting_kept [OF kcall_keeps_parked [OF live sr_call.hyps(2,4)] sr_call.hyps(3) W] by (simp add: sema_inv_def)
  ultimately show ?case using sr_call.IH by (simp add: sema_live_def)
next
  case (sr_down s k u d s' k')
  then show ?case using sema_down_live [of idle s k] by auto
next
  case (sr_try s k u d s')
  then have s: "sema_inv k s" by (simp add: sema_live_def)
  then have "wrap_i32 (scount s - 1) = scount s - 1" using sema_inv_count [OF s] by (simp add: sema_inv_def)
  then show ?case using sema_try_down_spec [OF s] sr_try
    by (auto simp: sema_live_def sema_try_down_def split: if_splits)
next
  case (sr_up s k u d s' k')
  then show ?case using sema_up_live [of idle s k] by auto
next
  case (sr_up_isr s k u d s' k')
  then show ?case using sema_up_from_isr_live [of idle s k] by auto
qed

subsection \<open>Properties\<close>

text \<open>C24. Permits are conserved: in every interleaving of \<open>down\<close>, \<open>try_down\<close>, \<open>up\<close> and \<open>up_from_isr\<close> with ticks
  and kernel calls that do not end a task waiting for the semaphore, and without \<open>down_timeout\<close> that waits, the calls
  of \<open>down\<close> that have passed, all but the waiting ones, are never more than the initial permits and the calls
  of \<open>up\<close>, and exactly as many while a task waits, so that no task waits in front of an unused permit;
  the waiting tasks are blocked and none of them runs. Each of these operations returns, in a state of the
  same kind: every such kernel call, \<open>down\<close> of any task but the idle one, a \<open>try_down\<close> that gets a permit, and, as
  long as the count does not overflow, \<open>up\<close> and \<open>up_from_isr\<close>.\<close>

theorem permits_conserved:
  assumes "sema_reach ca idle n s k u d"
  shows "kernel_inv k \<and> length (swait s) \<le> d \<and> d - length (swait s) \<le> n + u
     \<and> (if swait s = [] then True else d - length (swait s) = n + u)
     \<and> list_all (\<lambda>t. status (TCBS k t) = Blocked \<and> CURRENT_TCB k \<noteq> Some t) (swait s)
     \<and> (kcall_ok idle c k \<and> killed c \<inter> set (swait s) = {}
         \<longrightarrow> returns (\<lambda>k'. sema_reach ca idle n s k' u d) (kcall_run ca c k))
     \<and> (if CURRENT_TCB k = Some idle then True
         else returns (\<lambda>(s', k'). sema_reach ca idle n s' k' u (Suc d)) (sema_down s k))
     \<and> (case sema_try_down s of (got, s') \<Rightarrow> if got then sema_reach ca idle n s' k u (Suc d) else s' = s \<and> scount s \<le> 0)
     \<and> (if scount s = 2147483647 then True
         else returns (\<lambda>(s', k'). sema_reach ca idle n s' k' (Suc u) d) (sema_up s k)
            \<and> returns (\<lambda>(s', k'). sema_reach ca idle n s' k' (Suc u) d) (sema_up_from_isr s k))"
proof -
  from sema_reach_inv [OF assms] have L: "sema_live idle s k" and cnt: "int n + int u = scount s + int d" by simp_all
  then have inv: "kernel_inv k" and s: "sema_inv k s" by (simp_all add: sema_live_def live_inv_def)
  then have len: "int (length (swait s)) = max 0 (- scount s)" and W: "waiting k (swait s)" by (simp_all add: sema_inv_def)
  have wf: "wf_kernel k" using inv by (simp add: kernel_inv_def)
  have "list_all (\<lambda>t. status (TCBS k t) = Blocked \<and> CURRENT_TCB k \<noteq> Some t) (swait s)"
    using W waiting_not_ready [OF wf W] inv by (auto simp: list_all_iff waiting_def kernel_inv_def current_ready_def)
  moreover have "returns (\<lambda>(s', k'). sema_reach ca idle n s' k' u (Suc d)) (sema_down s k)" if "CURRENT_TCB k \<noteq> Some idle"
    using sema_down_live [OF L that] sr_down [OF assms that] by (auto simp: returns_iff)
  moreover have "returns (\<lambda>(s', k'). sema_reach ca idle n s' k' (Suc u) d) (sema_up s k)"
    "returns (\<lambda>(s', k'). sema_reach ca idle n s' k' (Suc u) d) (sema_up_from_isr s k)" if "scount s \<noteq> 2147483647"
  proof -
    have "scount s < 2147483647" using that s by (simp add: sema_inv_def)
    from sema_up_live [OF L this] sema_up_from_isr_live [OF L this] sr_up [OF assms this] sr_up_isr [OF assms this]
    show "returns (\<lambda>(s', k'). sema_reach ca idle n s' k' (Suc u) d) (sema_up s k)"
      "returns (\<lambda>(s', k'). sema_reach ca idle n s' k' (Suc u) d) (sema_up_from_isr s k)" by (auto simp: returns_iff)
  qed
  moreover have "returns (\<lambda>k'. sema_reach ca idle n s k' u d) (kcall_run ca c k)" if "kcall_ok idle c k" "killed c \<inter> set (swait s) = {}"
  proof -
    have "live_inv idle k" using L by (simp add: sema_live_def)
    from kcall_live [OF this that(1), of ca] sr_call [OF assms that] show ?thesis by (auto simp: returns_iff)
  qed
  moreover have "case sema_try_down s of (got, s') \<Rightarrow> if got then sema_reach ca idle n s' k u (Suc d) else s' = s \<and> scount s \<le> 0"
    using sr_try [OF assms] by (auto simp: sema_try_down_def split: if_splits)
  moreover have "length (swait s) \<le> d" "d - length (swait s) \<le> n + u"
    "swait s \<noteq> [] \<Longrightarrow> d - length (swait s) = n + u" using len cnt by (auto simp flip: length_greater_0_conv)
  ultimately show ?thesis using inv by auto
qed

lemma permits_conserved_witness:
  "\<exists>k idle. returns (\<lambda>(s', k'). sema_reach demo_addrs idle 2 s' k' 1 0) (sema_up (sema_new 2) k)"
proof -
  obtain k idle where "kreach demo_addrs idle k" using demo_reach by blast
  then have r: "sema_reach demo_addrs idle 2 (sema_new (int 2)) k 0 0" by (rule sr_start) simp
  from permits_conserved [OF r] have "returns (\<lambda>(s', k'). sema_reach demo_addrs idle 2 s' k' (Suc 0) 0) (sema_up (sema_new 2) k)"
    by (auto simp: sema_new_def tl_new_def)
  then show ?thesis by auto
qed

end
