(* ===== verification/Mos_Safe.thy ===== *)
theory Mos_Safe
  imports Mos_Parked
begin

text \<open>
  The operations of \<open>core/src/kernel/sync.rs\<close> in every state in which the kernel cannot panic, also when
  the ready list is not in the order of the priorities: each returns, keeps its object well formed,
  and leaves the tasks that wait elsewhere alone.
\<close>

subsection \<open>What the operations keep\<close>

definition still :: "nat set \<Rightarrow> kernel \<Rightarrow> kernel \<Rightarrow> bool" where
  "still X k k' \<longleftrightarrow> (\<forall>t. parked k t \<longrightarrow> t \<notin> X \<longrightarrow> parked k' t)"

lemma still_refl [simp]: "still X k k"
  by (simp add: still_def)

lemma still_trans: "still X k k1 \<Longrightarrow> still {} k1 k' \<Longrightarrow> still X k k'"
  by (auto simp: still_def)

lemma still_parked: "keeps_parked X k k' \<Longrightarrow> still X k k'"
  by (simp add: keeps_parked_def still_def)

lemma still_waiting: "still X k k' \<Longrightarrow> X \<inter> set wq = {} \<Longrightarrow> waiting k wq \<Longrightarrow> waiting k' wq"
  by (auto simp: still_def waiting_parked)

lemma mutex_inv_still: "still X k k' \<Longrightarrow> X \<inter> set (mwait m) = {} \<Longrightarrow> mutex_inv k m \<Longrightarrow> mutex_inv k' m"
  using still_waiting [of X k k' "mwait m"] by (simp add: mutex_inv_def)

lemma still_change:
  "(\<And>t. t \<notin> X \<Longrightarrow> status (TCBS k' t) = status (TCBS k t)) \<Longrightarrow> BLOCKED_LIST k' = BLOCKED_LIST k
     \<Longrightarrow> SLEEPING_LIST k' = SLEEPING_LIST k \<Longrightarrow> still X k k'"
  by (simp add: still_def parked_def del: TASK_MAX_def)

text \<open>An operation up to the point where it may yield.\<close>

definition ready_to_yield :: "nat \<Rightarrow> nat set \<Rightarrow> kernel \<Rightarrow> kernel \<Rightarrow> bool" where
  "ready_to_yield idle X k k1 \<longleftrightarrow> still X k k1 \<and> wf_kernel k1 \<and> CURRENT_TCB k1 = CURRENT_TCB k
     \<and> SCHED_READY k1 = SCHED_READY k \<and> STACKS k1 = STACKS k \<and> idle \<in> set (READY_LIST k1)"

lemma yields_safely:
  assumes live: "safe_live idle k" and k1: "ready_to_yield idle X k k1"
    and b: "\<not> b \<Longrightarrow> CURRENT_TCB k = Some c \<Longrightarrow> c \<in> set (READY_LIST k1)" and c: "CURRENT_TCB k = Some c"
  shows "returns (\<lambda>k'. safe_live idle k' \<and> still X k k' \<and> still {} k1 k') (if b then yield_task k1 else Some k1)"
proof (rule safe.yield_if)
  note k1' = k1 [unfolded ready_to_yield_def]
  from live have inv: "safe_inv k" and rdy: "SCHED_READY k" and st: "stacks_ok k" by (simp_all add: safe_live_def)
  show "safe_mid k1" using safe_midI [OF inv] k1' by blast
  show "safe_inv k1" if "\<not> b"
    using b [OF that c] k1' c rdy by (simp add: safe_inv_def current_ready_def)
  fix k' assume k': "safe_inv k'" "yield_frame k1 k'"
  have y: "still {} k1 k'" using still_parked [OF keeps_parked_yield [OF _ k'(2)]] k1' by blast
  moreover have "still X k k'" using still_trans [OF _ y] k1' by blast
  ultimately show "safe_live idle k' \<and> still X k k' \<and> still {} k1 k'"
    using k'(1) yield_frameD(2,6,9) [OF k'(2)] k1' st rdy unfolding safe_live_def stacks_ok_def by auto
qed

text \<open>Unlocking: what remains of the mutex, and the waiter that is woken.\<close>

definition handed :: "'a mutex \<Rightarrow> nat list" where
  "handed m = (if mrecursive m = 1 then take 1 (mwait m) else [])"

definition dropped :: "'a mutex \<Rightarrow> 'a mutex" where
  "dropped m = (if mrecursive m = 1 then released m else m\<lparr>mrecursive := mrecursive m - 1\<rparr>)"

lemma mutex_release_safe:
  assumes wf: "wf_kernel k" and c: "CURRENT_TCB k = Some c" and m: "mutex_inv k m" and own: "mowner m = Some c"
  obtains y k1 where "mutex_release m k = Some (y, dropped m, k1)" "wf_kernel k1" "CURRENT_TCB k1 = CURRENT_TCB k"
    "SCHED_READY k1 = SCHED_READY k" "STACKS k1 = STACKS k" "set (READY_LIST k1) = set (handed m) \<union> set (READY_LIST k)"
    "still (set (handed m)) k k1" "mutex_inv k1 (dropped m)"
proof (cases "mrecursive m = 1")
  case False
  have "mrecursive m \<noteq> 0" using m own by (simp add: mutex_inv_def)
  then have "0 < mrecursive m - 1" using False by (metis diff_eq_diff_eq eq_iff_diff_eq_0 word_gt_0)
  moreover from this have "mutex_inv k (m\<lparr>mrecursive := mrecursive m - 1\<rparr>)"
    using m own by (simp add: mutex_inv_def word_gt_0)
  ultimately show ?thesis
    using that [of False k] False wf by (simp add: mutex_release_def current_tid_simp [OF wf c] dropped_def handed_def)
next
  case True
  note wfr = wf_kernel_restored [of c k]
  have st: "STACKS (restored c k) = STACKS k" by (simp add: restored_def)
  have s: "still {} k (restored c k)" by (rule still_change) simp_all
  show ?thesis
  proof (cases "mwait m")
    case Nil
    have "mutex_inv (restored c k) m" using m by (simp add: mutex_inv_def)
    then show ?thesis
      using that mutex_release_free [OF wf c True Nil] mutex_inv_released(1) [of _ m] Nil wf st s True
      by (simp add: handed_def dropped_def)
  next
    case (Cons w ws)
    have W: "waiting k (w # ws)" using m Cons by (simp add: mutex_inv_def)
    have "wf_kernel (make_ready w (restored c k))" using W wf by (intro wf_kernel_make_ready) (auto simp: waiting_def)
    moreover have "still {w} k (make_ready w (restored c k))" by (rule still_change) simp_all
    moreover have "mutex_inv (restored c k) m" using m by (simp add: mutex_inv_def)
    then have "mutex_inv (make_ready w (restored c k)) (released m)" by (rule mutex_inv_released(2)) (rule Cons)
    moreover have "STACKS (make_ready w (restored c k)) = STACKS k" using st by (simp add: make_ready_def)
    ultimately show ?thesis
      using that mutex_release_waiter [OF wf c True Cons W] Cons True by (simp add: handed_def dropped_def)
  qed
qed

lemma mutex_drop_safe:
  assumes live: "safe_live idle k" and m: "mutex_inv k m" and c: "CURRENT_TCB k = Some c" and own: "mowner m = Some c"
  shows "returns (\<lambda>(m', k'). safe_live idle k' \<and> still (set (handed m)) k k' \<and> m' = dropped m \<and> mutex_inv k' m')
    (mutex_guard_drop m k)"
proof -
  obtain cr where wf: "wf_kernel k" and idle: "idle \<in> set (READY_LIST k)" and cr: "CURRENT_TCB k = Some cr" "cr \<in> set (READY_LIST k)"
    by (rule safe_liveD [OF live])
  obtain y k1 where R: "mutex_release m k = Some (y, dropped m, k1)" "wf_kernel k1" "CURRENT_TCB k1 = CURRENT_TCB k"
    "SCHED_READY k1 = SCHED_READY k" "STACKS k1 = STACKS k" "set (READY_LIST k1) = set (handed m) \<union> set (READY_LIST k)"
    "still (set (handed m)) k k1" "mutex_inv k1 (dropped m)" by (rule mutex_release_safe [OF wf c m own])
  have "ready_to_yield idle (set (handed m)) k k1" using R idle by (simp add: ready_to_yield_def)
  from yields_safely [OF live this _ c, of y] cr c R(6)
  have "returns (\<lambda>k'. safe_live idle k' \<and> still (set (handed m)) k k' \<and> still {} k1 k') (if y then yield_task k1 else Some k1)" by simp
  then have "returns (\<lambda>k'. safe_live idle k' \<and> still (set (handed m)) k k' \<and> mutex_inv k' (dropped m)) (if y then yield_task k1 else Some k1)"
    by (rule returns_mono) (use mutex_inv_still [OF _ _ R(8)] in auto)
  then show ?thesis by (auto simp: mutex_guard_drop_def mutex_internal_unlock_def R(1) elim!: returns_mono split: if_splits)
qed

text \<open>Parking: the current task, which was ready, waits afterwards.\<close>

lemma parked_self:
  assumes "wf_kernel k" "c \<in> set (READY_LIST k)"
  shows "parked (make_blocked c k) c" and "still {} k (make_blocked c k)" and "wf_kernel (make_blocked c k)"
proof -
  note tm = ready_not_terminated [OF assms] and nl = wf_kernel_disjoint(1) [OF assms]
  then show "parked (make_blocked c k) c" by (simp add: parked_def)
  show "still {} k (make_blocked c k)" using not_parked_ready [OF assms] by (auto simp: still_def parked_def)
  show "wf_kernel (make_blocked c k)" using tm nl assms(1) by (intro wf_kernel_make_blocked) auto
qed

lemma mutex_lock_safe:
  assumes live: "safe_live idle k" and m: "mutex_inv k m" and c: "CURRENT_TCB k = Some c" and ni: "c \<noteq> idle"
    and rec: "mowner m = Some c \<Longrightarrow> mrecursive m \<noteq> - 1"
  shows "returns (\<lambda>(m', k'). safe_live idle k' \<and> still {} k k' \<and> mutex_inv k' m' \<and> mdata m' = mdata m \<and> (case mowner m of
       None \<Rightarrow> mowner m' = Some c \<and> mrecursive m' = 1 \<and> mwait m' = []
     | Some w \<Rightarrow> mowner m' = Some w \<and> (if w = c then mrecursive m' = mrecursive m + 1 \<and> mwait m' = mwait m
         else mrecursive m' = mrecursive m \<and> set (mwait m') = insert c (set (mwait m))))) (mutex_lock m k)"
proof -
  obtain cr where inv: "safe_inv k" and wf: "wf_kernel k" and idle: "idle \<in> set (READY_LIST k)"
    and cr: "c \<in> set (READY_LIST k)" by (rule safe_liveD [OF live]) (use c in auto)
  note tid = current_tid_simp [OF wf c] and cm = ready_not_terminated [OF wf cr]
  show ?thesis
  proof (cases "mowner m")
    case None
    then show ?thesis using live m tid cm by (simp add: mutex_lock_def mutex_internal_lock_def mutex_inv_def del: TASK_MAX_def)
  next
    case (Some w)
    show ?thesis
    proof (cases "w = c")
      case True
      have "mrecursive m + 1 \<noteq> 0" using rec Some True by (metis add_eq_0_iff minus_equation_iff)
      with True Some show ?thesis using live m tid by (simp add: mutex_lock_def mutex_internal_lock_def mutex_inv_def)
    next
      case False
      note L = mutex_lock_parks [OF inv m c Some False]
      let ?kb = "boosted w (pri k c) k"
      let ?k1 = "make_blocked c ?kb"
      let ?m1 = "m\<lparr>mwait := insert_before (\<lambda>s. pri k c < pri ?kb s) c (mwait m)\<rparr>"
      have "still {} k ?k1" using not_parked_ready [OF wf cr] by (auto simp: still_def parked_def)
      moreover have "STACKS ?k1 = STACKS k" by (simp add: make_blocked_def boosted_def)
      ultimately have "ready_to_yield idle {} k ?k1" using L(2,4) idle ni by (simp add: ready_to_yield_def)
      from yields_safely [OF live this _ c, where b = True]
      have "returns (\<lambda>k'. safe_live idle k' \<and> still {} k k' \<and> still {} ?k1 k') (yield_task ?k1)" by simp
      then have "returns (\<lambda>k'. safe_live idle k' \<and> still {} k k' \<and> mutex_inv k' ?m1) (yield_task ?k1)"
        by (rule returns_mono) (use mutex_inv_still [OF _ Int_empty_left L(3)] in blast)
      then show ?thesis unfolding L(1) returns_bind by (rule returns_mono) (use Some False in simp)
    qed
  qed
qed

lemma condvar_wait_safe:
  assumes live: "safe_live idle k" and m: "mutex_inv k m" and c: "CURRENT_TCB k = Some c" and own: "mowner m = Some c"
    and cv: "waiting k cv" and sep: "set cv \<inter> set (mwait m) = {}" and ni: "c \<noteq> idle"
  shows "returns (\<lambda>(y, cv', m', k'). safe_live idle k' \<and> still (set (handed m)) k k' \<and> m' = dropped m \<and> mutex_inv k' m'
      \<and> cv' = cv @ [c] \<and> waiting k' cv') (condvar_wait_enter cv m k)"
proof -
  obtain cr where wf: "wf_kernel k" and idle: "idle \<in> set (READY_LIST k)"
    and cr: "c \<in> set (READY_LIST k)" by (rule safe_liveD [OF live]) (use c in auto)
  let ?k1 = "make_blocked c k"
  note P = parked_self [OF wf cr] and A = waiting_append [OF wf cv cr]
  have nm: "c \<notin> set (mwait m)" using m own by (simp add: mutex_inv_def)
  have m1: "mutex_inv ?k1 m" by (rule mutex_inv_make_blocked [OF wf m cr])
  have c1: "CURRENT_TCB ?k1 = Some c" using c by simp
  obtain y k2 where R: "mutex_release m ?k1 = Some (y, dropped m, k2)" "wf_kernel k2" "CURRENT_TCB k2 = CURRENT_TCB ?k1"
    "SCHED_READY k2 = SCHED_READY ?k1" "STACKS k2 = STACKS ?k1" "set (READY_LIST k2) = set (handed m) \<union> set (READY_LIST ?k1)"
    "still (set (handed m)) ?k1 k2" "mutex_inv k2 (dropped m)" by (rule mutex_release_safe [OF P(3) c1 m1 own])
  have s2: "still (set (handed m)) k k2" using P(2) R(7) by (auto simp: still_def)
  have h: "set (handed m) \<subseteq> set (mwait m)" by (auto simp: handed_def dest: in_set_takeD)
  have cv2: "waiting k2 (cv @ [c])" using h sep nm by (intro still_waiting [OF R(7) _ A(1)]) auto
  have "STACKS ?k1 = STACKS k" by (simp add: make_blocked_def)
  then have "ready_to_yield idle (set (handed m)) k k2" using R s2 idle ni by (auto simp: ready_to_yield_def)
  from yields_safely [OF live this _ c, where b = True]
  have "returns (\<lambda>k'. safe_live idle k' \<and> still (set (handed m)) k k' \<and> still {} k2 k') (yield_task k2)" by simp
  then have Y: "returns (\<lambda>k'. safe_live idle k' \<and> still (set (handed m)) k k' \<and> mutex_inv k' (dropped m) \<and> waiting k' (cv @ [c])) (yield_task k2)"
    by (rule returns_mono) (use mutex_inv_still [OF _ _ R(8)] still_waiting [OF _ _ cv2] in auto)
  have "condvar_wait_enter cv m k = do { k' \<leftarrow> yield_task k2; Some (y, cv @ [c], dropped m, k') }"
    using A(2) current_tid_simp [OF wf c] ready_not_terminated [OF wf cr] R(1)
    by (simp add: condvar_wait_enter_def Let_def tl_push_back_def mutex_internal_unlock_def ready_remove_def make_blocked_def)
  then show ?thesis using Y by (auto elim!: returns_mono)
qed

lemma wake_safe:
  assumes wf: "wf_kernel k" and W: "waiting k (w # ws)"
  shows "wake_task w k = Some (make_ready w k)" and "wf_kernel (make_ready w k)" and "still {w} k (make_ready w k)"
    and "waiting (make_ready w k) ws"
proof -
  show "wake_task w k = Some (make_ready w k)" by (rule wake_task_waiter [OF wf W])
  show "wf_kernel (make_ready w k)" using W by (intro wf_kernel_make_ready [OF wf]) (auto simp: waiting_def)
  show "still {w} k (make_ready w k)" by (rule still_change) simp_all
  show "waiting (make_ready w k) ws" by (rule waiting_make_ready [OF W])
qed

lemma condvar_notify_safe:
  assumes live: "safe_live idle k" and cv: "waiting k cv"
  shows "returns (\<lambda>(cv', k'). safe_live idle k' \<and> still (set (take 1 cv)) k k' \<and> cv' = drop 1 cv \<and> waiting k' cv') (condvar_notify cv k)"
proof (cases cv)
  case Nil
  then show ?thesis using live by (simp add: condvar_notify_def tl_pop_front_def waiting_def)
next
  case (Cons w ws)
  obtain c where wf: "wf_kernel k" and idle: "idle \<in> set (READY_LIST k)" and c: "CURRENT_TCB k = Some c"
    by (rule safe_liveD [OF live])
  note W = wake_safe [OF wf cv [unfolded Cons]]
  have "ready_to_yield idle {w} k (make_ready w k)"
    using W idle by (simp add: ready_to_yield_def) (simp add: make_ready_def)
  from yields_safely [OF live this _ c, where b = True]
  have "returns (\<lambda>k'. safe_live idle k' \<and> still {w} k k' \<and> still {} (make_ready w k) k') (yield_task (make_ready w k))" by simp
  then have "returns (\<lambda>k'. safe_live idle k' \<and> still {w} k k' \<and> waiting k' ws) (yield_task (make_ready w k))"
    by (rule returns_mono) (use still_waiting [OF _ _ W(4)] in auto)
  then show ?thesis by (auto simp: condvar_notify_def tl_pop_front_def Cons W(1) elim!: returns_mono)
qed

lemma notify_loop_safe:
  assumes "wf_kernel k" "waiting k cv"
  shows "\<exists>k1. notify_loop cv any k = Some (any \<or> cv \<noteq> [], k1) \<and> wf_kernel k1 \<and> CURRENT_TCB k1 = CURRENT_TCB k
      \<and> SCHED_READY k1 = SCHED_READY k \<and> STACKS k1 = STACKS k \<and> set (READY_LIST k1) = set cv \<union> set (READY_LIST k)
      \<and> still (set cv) k k1"
  using assms
proof (induction cv arbitrary: any k)
  case (Cons w ws)
  note W = wake_safe [OF Cons.prems]
  from Cons.IH [OF W(2,4), of True] obtain k1 where k1: "notify_loop ws True (make_ready w k) = Some (True, k1)" "wf_kernel k1"
    "CURRENT_TCB k1 = CURRENT_TCB (make_ready w k)" "SCHED_READY k1 = SCHED_READY (make_ready w k)"
    "STACKS k1 = STACKS (make_ready w k)" "set (READY_LIST k1) = set ws \<union> set (READY_LIST (make_ready w k))"
    "still (set ws) (make_ready w k) k1" by auto
  moreover have "still (set (w # ws)) k k1" using W(3) k1(7) by (auto simp: still_def)
  moreover have "STACKS (make_ready w k) = STACKS k" by (simp add: make_ready_def)
  ultimately show ?case using W(1) by auto
qed simp

lemma condvar_notify_all_safe:
  assumes live: "safe_live idle k" and cv: "waiting k cv"
  shows "returns (\<lambda>(cv', k'). safe_live idle k' \<and> still (set cv) k k' \<and> cv' = []) (condvar_notify_all cv k)"
proof -
  obtain c where wf: "wf_kernel k" and idle: "idle \<in> set (READY_LIST k)" and c: "CURRENT_TCB k = Some c"
    and cr: "c \<in> set (READY_LIST k)" by (rule safe_liveD [OF live])
  obtain k1 where k1: "notify_loop cv False k = Some (cv \<noteq> [], k1)" "wf_kernel k1" "CURRENT_TCB k1 = CURRENT_TCB k"
    "SCHED_READY k1 = SCHED_READY k" "STACKS k1 = STACKS k" "set (READY_LIST k1) = set cv \<union> set (READY_LIST k)"
    "still (set cv) k k1" using notify_loop_safe [OF wf cv, of False] by auto
  then have "ready_to_yield idle (set cv) k k1" using idle by (simp add: ready_to_yield_def)
  from yields_safely [OF live this _ c, of "cv \<noteq> []"] cr k1(6)
  show ?thesis by (auto simp: condvar_notify_all_def k1(1) elim!: returns_mono split: if_splits)
qed

text \<open>Semaphores: the part of \<open>sema_inv\<close> that does not depend on priorities.\<close>

definition sema_ok :: "kernel \<Rightarrow> sema \<Rightarrow> bool" where
  "sema_ok k s \<longleftrightarrow> waiting k (swait s) \<and> int (length (swait s)) = max 0 (- scount s) \<and> scount s < 2147483648"

lemma sema_ok_still: "still X k k' \<Longrightarrow> X \<inter> set (swait s) = {} \<Longrightarrow> sema_ok k s \<Longrightarrow> sema_ok k' s"
  using still_waiting [of X k k' "swait s"] by (simp add: sema_ok_def)

lemma sema_ok_count:
  assumes "sema_ok k s"
  shows "- 16 \<le> scount s" and "wrap_i32 (scount s - 1) = scount s - 1"
    and "scount s < 2147483647 \<Longrightarrow> wrap_i32 (scount s + 1) = scount s + 1"
proof -
  have W: "waiting k (swait s)" and m: "int (length (swait s)) = max 0 (- scount s)" using assms by (simp_all add: sema_ok_def)
  have "length (swait s) \<le> 16" using waiting_length [OF W] by simp
  with m show c: "- 16 \<le> scount s" by linarith
  show "wrap_i32 (scount s - 1) = scount s - 1" "scount s < 2147483647 \<Longrightarrow> wrap_i32 (scount s + 1) = scount s + 1"
    using c assms by (simp_all add: sema_ok_def)
qed

lemma sema_down_safe:
  assumes live: "safe_live idle k" and s: "sema_ok k s" and c: "CURRENT_TCB k = Some c" and ni: "c \<noteq> idle"
  shows "returns (\<lambda>(s', k'). safe_live idle k' \<and> still {} k k' \<and> sema_ok k' s' \<and> scount s' = scount s - 1
      \<and> (if 0 < scount s then swait s' = swait s \<and> c \<notin> set (swait s) else set (swait s') = insert c (set (swait s)))) (sema_down s k)"
proof -
  obtain cr where wf: "wf_kernel k" and idle: "idle \<in> set (READY_LIST k)"
    and cr: "c \<in> set (READY_LIST k)" by (rule safe_liveD [OF live]) (use c in auto)
  have W: "waiting k (swait s)" using s by (simp add: sema_ok_def)
  have nc: "c \<notin> set (swait s)" using waiting_not_ready [OF wf W] cr by blast
  show ?thesis
  proof (cases "0 < scount s")
    case True
    then show ?thesis using live s nc by (auto simp: sema_down_def Let_def sema_ok_count(2) [OF s] sema_ok_def)
  next
    case False
    let ?k1 = "make_blocked c k"
    let ?s1 = "s\<lparr>scount := scount s - 1, swait := insert_before (\<lambda>t. pri k c < pri k t) c (swait s)\<rparr>"
    have s1: "sema_ok ?k1 ?s1" using s False waiting_insert [OF wf W cr] by (auto simp: sema_ok_def)
    have "STACKS ?k1 = STACKS k" by (simp add: make_blocked_def)
    then have "ready_to_yield idle {} k ?k1" using parked_self [OF wf cr] idle ni by (simp add: ready_to_yield_def)
    from yields_safely [OF live this _ c, where b = True]
    have "returns (\<lambda>k'. safe_live idle k' \<and> still {} k k' \<and> still {} ?k1 k') (yield_task ?k1)" by simp
    then have "returns (\<lambda>k'. safe_live idle k' \<and> still {} k k' \<and> sema_ok k' ?s1) (yield_task ?k1)"
      by (rule returns_mono) (use sema_ok_still [OF _ Int_empty_left s1] in blast)
    moreover have "sema_down s k = do { k' \<leftarrow> yield_task ?k1; Some (?s1, k') }"
      using False by (simp add: sema_down_def Let_def sema_ok_count(2) [OF s] current_tid_simp [OF wf c] park_task_closed [OF wf W cr])
    ultimately show ?thesis using False by (auto elim!: returns_mono)
  qed
qed

definition upped :: "nat \<Rightarrow> sema \<Rightarrow> kernel \<Rightarrow> sema \<times> kernel \<Rightarrow> bool" where
  "upped idle s k = (\<lambda>(s', k'). safe_live idle k' \<and> still (set (take 1 (swait s))) k k' \<and> sema_ok k' s'
      \<and> scount s' = scount s + 1 \<and> swait s' = drop 1 (swait s))"

lemma sema_up_safe:
  assumes live: "safe_live idle k" and s: "sema_ok k s" and room: "scount s < 2147483647"
  shows "returns (upped idle s k) (sema_up s k)" and "returns (upped idle s k) (sema_up_from_isr s k)"
proof -
  obtain c where wf: "wf_kernel k" and idle: "idle \<in> set (READY_LIST k)" and c: "CURRENT_TCB k = Some c"
    and cr: "c \<in> set (READY_LIST k)" by (rule safe_liveD [OF live])
  note wr = sema_ok_count(3) [OF s room]
  have "returns (upped idle s k) (sema_up s k) \<and> returns (upped idle s k) (sema_up_from_isr s k)"
  proof (cases "swait s")
    case Nil
    then show ?thesis
      using s live room by (auto simp: sema_up_def sema_up_from_isr_def Let_def wr sema_ok_def upped_def)
  next
    case (Cons w ws)
    have "int (length (swait s)) = max 0 (- scount s)" "0 < int (length (swait s))"
      using s Cons by (simp_all add: sema_ok_def)
    then have neg: "scount s < 0" by linarith
    have W0: "waiting k (w # ws)" using s Cons by (simp add: sema_ok_def)
    note W = wake_safe [OF wf W0]
    let ?k1 = "make_ready w k" and ?s1 = "s\<lparr>scount := scount s + 1, swait := ws\<rparr>"
    have s1: "sema_ok ?k1 ?s1" using s Cons neg W(4) by (simp add: sema_ok_def)
    have "ready_to_yield idle {w} k ?k1" using W idle by (simp add: ready_to_yield_def) (simp add: make_ready_def)
    from yields_safely [OF live this _ c] cr
    have Y: "returns (\<lambda>k'. safe_live idle k' \<and> still {w} k k' \<and> still {} ?k1 k') (if b then yield_task ?k1 else Some ?k1)" for b
      by (metis make_ready_fields(7) insertCI option.inject)
    have "returns (\<lambda>k'. safe_live idle k' \<and> still {w} k k' \<and> sema_ok k' ?s1) (if b then yield_task ?k1 else Some ?k1)" for b
      by (rule returns_mono [OF Y]) (use sema_ok_still [OF _ Int_empty_left s1] in blast)
    then have R: "returns (upped idle s k) (do { k' \<leftarrow> (if b then yield_task ?k1 else Some ?k1); Some (?s1, k') })" for b
      unfolding returns_bind upped_def by (rule returns_mono) (simp add: Cons)
    have w: "w < TASK_MAX" using W0 by (simp add: waiting_def)
    have "current_priority ?k1 = Some (pri k c)" using current_priority_simp [OF W(2), of c] c by simp
    then have "sema_up s k = do { k' \<leftarrow> (if pri k w < pri k c then yield_task ?k1 else Some ?k1); Some (?s1, k') }"
      using neg Cons w c W(1) by (auto simp: sema_up_def Let_def wr tl_pop_front_def)
    moreover have "sema_up_from_isr s k = do { k' \<leftarrow> (if False then yield_task ?k1 else Some ?k1); Some (?s1, k') }"
      using neg Cons W(1) by (simp add: sema_up_from_isr_def Let_def wr tl_pop_front_def)
    ultimately show ?thesis using R [of "pri k w < pri k c"] R [of False] by argo
  qed
  then show "returns (upped idle s k) (sema_up s k)" "returns (upped idle s k) (sema_up_from_isr s k)" by blast+
qed

end
