(* ===== verification/Mos_Exclusion.thy ===== *)
theory Mos_Exclusion
  imports Mos_Safe
begin

text \<open>
  Any number of mutexes, condition variables and semaphores of \<open>core/src/kernel/sync.rs\<close> among all tasks of the
  kernel, as one transition system with every interleaving of the steps below: mutual exclusion, and no panic.

  Three things the program can do are not steps of the system, because the code does not keep the properties
  through them: a \<open>down_timeout\<close> that waits (\<open>timeout_breaks_exclusion\<close> of the theory \<open>Mos_Timeout\<close> runs one that
  ends with two tasks in one mutex), the end of a task that waits (\<open>terminate_leaves_waiter\<close> of \<open>Mos_Sync\<close>) and the end of
  a task that holds a guard, whose mutex then stays locked. A \<open>down_timeout\<close> that takes a permit or that was given no
  ticks does not wait, and is the step of \<open>try_down\<close>.
\<close>

subsection \<open>All synchronisation objects among all tasks\<close>

text \<open>
  Where a task is: outside of the primitives, suspended inside \<open>lock\<close> of a mutex, inside \<open>wait\<close> of a
  condition variable (with the mutex it released, and whether the second yield of \<open>wait\<close> is still to
  come), or inside \<open>down\<close> of a semaphore. \<open>guards\<close> counts the guards of a mutex that a task holds: it is
  what the tasks know, not what the mutex stores.
\<close>

datatype point = Outside | InLock nat | InWait nat bool nat | InDown nat

datatype object = Mtx nat | Cv nat | Sem nat

record 'a sync_state =
  KER :: kernel
  MTX :: "nat \<Rightarrow> 'a mutex"
  CVS :: "nat \<Rightarrow> condvar"
  SEM :: "nat \<Rightarrow> sema"
  point_of :: "nat \<Rightarrow> point"
  guards :: "nat \<Rightarrow> nat \<Rightarrow> nat"

fun waits_on :: "point \<Rightarrow> object option" where
  "waits_on Outside = None"
| "waits_on (InLock j) = Some (Mtx j)"
| "waits_on (InWait v y j) = Some (Cv v)"
| "waits_on (InDown i) = Some (Sem i)"

fun queue_of :: "'a sync_state \<Rightarrow> object \<Rightarrow> nat list" where
  "queue_of s (Mtx j) = mwait (MTX s j)"
| "queue_of s (Cv v) = CVS s v"
| "queue_of s (Sem i) = swait (SEM s i)"

definition add_guard :: "nat \<Rightarrow> nat \<Rightarrow> 'a sync_state \<Rightarrow> 'a sync_state" where
  "add_guard j t s = s\<lparr>guards := (guards s)(j := (guards s j)(t := guards s j t + 1))\<rparr>"

definition drop_guard :: "nat \<Rightarrow> nat \<Rightarrow> 'a sync_state \<Rightarrow> 'a sync_state" where
  "drop_guard j t s = s\<lparr>guards := (guards s)(j := (guards s j)(t := guards s j t - 1))\<rparr>"

definition go :: "nat \<Rightarrow> point \<Rightarrow> 'a sync_state \<Rightarrow> 'a sync_state" where
  "go t p s = s\<lparr>point_of := (point_of s)(t := p)\<rparr>"

text \<open>After \<open>lock\<close>: the caller is suspended in the wait queue, or returns with a guard.\<close>

definition locked :: "nat \<Rightarrow> nat \<Rightarrow> 'a mutex \<Rightarrow> kernel \<Rightarrow> 'a sync_state \<Rightarrow> 'a sync_state" where
  "locked j c m k s = (let s1 = s\<lparr>MTX := (MTX s)(j := m), KER := k\<rparr> in
     if c \<in> set (mwait m) then go c (InLock j) s1 else add_guard j c (go c Outside s1))"

definition downed :: "nat \<Rightarrow> nat \<Rightarrow> sema \<Rightarrow> kernel \<Rightarrow> 'a sync_state \<Rightarrow> 'a sync_state" where
  "downed i c e k s = go c (if c \<in> set (swait e) then InDown i else Outside) (s\<lparr>SEM := (SEM s)(i := e), KER := k\<rparr>)"

text \<open>
  Calls of the kernel: the interrupt may come at any point; the running task calls from outside the
  primitives, and nobody ends a task that waits or holds a guard (\<open>terminate_leaves_waiter\<close> shows what follows).
  The idle task only makes calls that cannot block it, a task takes fewer than 2^32 guards of one mutex, whose
  counter is a \<open>u32\<close>, and nobody gives a permit to a semaphore that has 2^31 - 1 of them. A failed or a successful
  \<open>try_down\<close> may come at any point, from an interrupt handler too.
\<close>

fun ended :: "kcall \<Rightarrow> kernel \<Rightarrow> nat set" where
  "ended KExit k = set_option (CURRENT_TCB k)"
| "ended (KTerminate t) k = {t}"
| "ended c k = {}"

definition call_allowed :: "nat \<Rightarrow> kcall \<Rightarrow> 'a sync_state \<Rightarrow> bool" where
  "call_allowed idle c s \<longleftrightarrow> kcall_ok idle c (KER s)
     \<and> (c = KTick \<or> (\<forall>t \<in> set_option (CURRENT_TCB (KER s)). point_of s t = Outside))
     \<and> (\<forall>t \<in> ended c (KER s). point_of s t = Outside \<and> (\<forall>j. guards s j t = 0))"

inductive sync_step :: "code_addrs \<Rightarrow> nat \<Rightarrow> 'a sync_state \<Rightarrow> 'a sync_state \<Rightarrow> bool" for ca idle where
  ss_call: "call_allowed idle c s \<Longrightarrow> kcall_run ca c (KER s) = Some k' \<Longrightarrow> sync_step ca idle s (s\<lparr>KER := k'\<rparr>)"
| ss_lock: "CURRENT_TCB (KER s) = Some c \<Longrightarrow> c \<noteq> idle \<Longrightarrow> point_of s c = Outside \<or> (\<exists>v. point_of s c = InWait v False j)
     \<Longrightarrow> guards s j c < 4294967295 \<Longrightarrow> mutex_lock (MTX s j) (KER s) = Some (m', k')
     \<Longrightarrow> sync_step ca idle s (locked j c m' k' s)"
| ss_granted: "CURRENT_TCB (KER s) = Some c \<Longrightarrow> point_of s c = InLock j
     \<Longrightarrow> sync_step ca idle s (add_guard j c (go c Outside s))"
| ss_write: "CURRENT_TCB (KER s) = Some c \<Longrightarrow> point_of s c = Outside \<Longrightarrow> 0 < guards s j c
     \<Longrightarrow> sync_step ca idle s (s\<lparr>MTX := (MTX s)(j := guard_deref_mut f (MTX s j))\<rparr>)"
| ss_unlock: "CURRENT_TCB (KER s) = Some c \<Longrightarrow> point_of s c = Outside \<Longrightarrow> 0 < guards s j c
     \<Longrightarrow> mutex_guard_drop (MTX s j) (KER s) = Some (m', k')
     \<Longrightarrow> sync_step ca idle s (drop_guard j c (s\<lparr>MTX := (MTX s)(j := m'), KER := k'\<rparr>))"
| ss_wait: "CURRENT_TCB (KER s) = Some c \<Longrightarrow> c \<noteq> idle \<Longrightarrow> point_of s c = Outside \<Longrightarrow> 0 < guards s j c
     \<Longrightarrow> condvar_wait_enter (CVS s v) (MTX s j) (KER s) = Some (y, cv', m', k')
     \<Longrightarrow> sync_step ca idle s (drop_guard j c (go c (InWait v y j) (s\<lparr>CVS := (CVS s)(v := cv'), MTX := (MTX s)(j := m'), KER := k'\<rparr>)))"
| ss_resume: "CURRENT_TCB (KER s) = Some c \<Longrightarrow> point_of s c = InWait v True j \<Longrightarrow> condvar_wait_resume True (KER s) = Some k'
     \<Longrightarrow> sync_step ca idle s (go c (InWait v False j) (s\<lparr>KER := k'\<rparr>))"
| ss_notify: "CURRENT_TCB (KER s) = Some c \<Longrightarrow> point_of s c = Outside \<Longrightarrow> condvar_notify (CVS s v) (KER s) = Some (cv', k')
     \<Longrightarrow> sync_step ca idle s (s\<lparr>CVS := (CVS s)(v := cv'), KER := k'\<rparr>)"
| ss_notify_all: "CURRENT_TCB (KER s) = Some c \<Longrightarrow> point_of s c = Outside \<Longrightarrow> condvar_notify_all (CVS s v) (KER s) = Some (cv', k')
     \<Longrightarrow> sync_step ca idle s (s\<lparr>CVS := (CVS s)(v := cv'), KER := k'\<rparr>)"
| ss_down: "CURRENT_TCB (KER s) = Some c \<Longrightarrow> c \<noteq> idle \<Longrightarrow> point_of s c = Outside \<Longrightarrow> sema_down (SEM s i) (KER s) = Some (e', k')
     \<Longrightarrow> sync_step ca idle s (downed i c e' k' s)"
| ss_granted_down: "CURRENT_TCB (KER s) = Some c \<Longrightarrow> point_of s c = InDown i \<Longrightarrow> sync_step ca idle s (go c Outside s)"
| ss_up: "CURRENT_TCB (KER s) = Some c \<Longrightarrow> point_of s c = Outside \<Longrightarrow> scount (SEM s i) < 2147483647
     \<Longrightarrow> sema_up (SEM s i) (KER s) = Some (e', k') \<Longrightarrow> sync_step ca idle s (s\<lparr>SEM := (SEM s)(i := e'), KER := k'\<rparr>)"
| ss_try: "sema_try_down (SEM s i) = (b, e') \<Longrightarrow> sync_step ca idle s (s\<lparr>SEM := (SEM s)(i := e')\<rparr>)"
| ss_up_isr: "scount (SEM s i) < 2147483647 \<Longrightarrow> sema_up_from_isr (SEM s i) (KER s) = Some (e', k')
     \<Longrightarrow> sync_step ca idle s (s\<lparr>SEM := (SEM s)(i := e'), KER := k'\<rparr>)"

text \<open>From a started kernel with fresh objects: free mutexes, no waiters, any number of permits.\<close>

definition sync_start :: "kernel \<Rightarrow> (nat \<Rightarrow> 'a) \<Rightarrow> (nat \<Rightarrow> nat) \<Rightarrow> 'a sync_state" where
  "sync_start k x n = \<lparr>KER = k, MTX = (\<lambda>j. mutex_new (x j)), CVS = (\<lambda>v. condvar_new),
     SEM = (\<lambda>i. sema_new (int (n i mod 2147483648))), point_of = (\<lambda>t. Outside), guards = (\<lambda>j t. 0)\<rparr>"

inductive sync_reach :: "code_addrs \<Rightarrow> nat \<Rightarrow> 'a sync_state \<Rightarrow> bool" for ca idle where
  sync_boot: "kreach ca idle k \<Longrightarrow> sync_reach ca idle (sync_start k x n)"
| sync_next: "sync_reach ca idle s \<Longrightarrow> sync_step ca idle s s' \<Longrightarrow> sync_reach ca idle s'"

subsection \<open>The invariant\<close>

definition guards_ok :: "'a sync_state \<Rightarrow> bool" where
  "guards_ok s \<longleftrightarrow> (\<forall>j t. (guards s j t \<noteq> 0 \<longrightarrow> mowner (MTX s j) = Some t \<and> unat (mrecursive (MTX s j)) = guards s j t)
     \<and> (mowner (MTX s j) = Some t \<longrightarrow> guards s j t = 0 \<longrightarrow> point_of s t = InLock j \<and> mrecursive (MTX s j) = 1)
     \<and> (point_of s t = InLock j \<longrightarrow> guards s j t = 0 \<and> (t \<in> set (mwait (MTX s j)) \<or> mowner (MTX s j) = Some t)))"

definition queues_ok :: "'a sync_state \<Rightarrow> bool" where
  "queues_ok s \<longleftrightarrow> (\<forall>b t. t \<in> set (queue_of s b) \<longrightarrow> waits_on (point_of s t) = Some b)"

definition objects_ok :: "kernel \<Rightarrow> 'a sync_state \<Rightarrow> bool" where
  "objects_ok k s \<longleftrightarrow> (\<forall>j. mutex_inv k (MTX s j)) \<and> (\<forall>v. waiting k (CVS s v)) \<and> (\<forall>i. sema_ok k (SEM s i))"

definition sync_inv :: "nat \<Rightarrow> 'a sync_state \<Rightarrow> bool" where
  "sync_inv idle s \<longleftrightarrow> safe_live idle (KER s) \<and> objects_ok (KER s) s \<and> queues_ok s \<and> guards_ok s"

lemma queues_waits: "queues_ok s \<Longrightarrow> t \<in> set (queue_of s b) \<Longrightarrow> waits_on (point_of s t) = Some b"
  by (simp add: queues_ok_def)

lemma objects_queue: "objects_ok k s \<Longrightarrow> waiting k (queue_of s b)"
  by (cases b) (simp_all add: objects_ok_def mutex_inv_def sema_ok_def)

text \<open>A step that frees tasks of one queue only leaves every other object as it is.\<close>

lemma objects_kept:
  assumes "objects_ok k s" "queues_ok s" "still X k k'" "X \<subseteq> set (queue_of s b)"
  shows "b \<noteq> Mtx j \<Longrightarrow> mutex_inv k' (MTX s j)" and "b \<noteq> Cv v \<Longrightarrow> waiting k' (CVS s v)" and "b \<noteq> Sem i \<Longrightarrow> sema_ok k' (SEM s i)"
proof -
  have d: "X \<inter> set (queue_of s b') = {}" if "b \<noteq> b'" for b'
    using queues_waits [OF assms(2), of _ b] queues_waits [OF assms(2), of _ b'] that assms(4)
    by (metis disjoint_iff option.inject subsetD)
  show "b \<noteq> Mtx j \<Longrightarrow> mutex_inv k' (MTX s j)"
    using mutex_inv_still [OF assms(3) _, of "MTX s j"] d [of "Mtx j"] assms(1) by (simp add: objects_ok_def)
  show "b \<noteq> Cv v \<Longrightarrow> waiting k' (CVS s v)"
    using still_waiting [OF assms(3) _, of "CVS s v"] d [of "Cv v"] assms(1) by (simp add: objects_ok_def)
  show "b \<noteq> Sem i \<Longrightarrow> sema_ok k' (SEM s i)"
    using sema_ok_still [OF assms(3) _, of "SEM s i"] d [of "Sem i"] assms(1) by (simp add: objects_ok_def)
qed

lemma objects_still: "objects_ok k s \<Longrightarrow> still {} k k' \<Longrightarrow> objects_ok k' s"
  by (simp add: objects_ok_def mutex_inv_still still_waiting sema_ok_still)

text \<open>The running task is in no queue; when it is inside \<open>lock\<close>, it owns the mutex.\<close>

lemma running_not_queued:
  assumes "sync_inv idle s" "CURRENT_TCB (KER s) = Some c"
  shows "c \<notin> set (queue_of s b)"
proof -
  have "wf_kernel (KER s)" "c \<in> set (READY_LIST (KER s))" "waiting (KER s) (queue_of s b)"
    using assms objects_queue by (auto simp: sync_inv_def safe_live_def safe_inv_def current_ready_def)
  then show ?thesis using waiting_not_ready by blast
qed

lemma ko_simps [simp]:
  "KER (go t p s) = KER s" "MTX (go t p s) = MTX s" "CVS (go t p s) = CVS s" "SEM (go t p s) = SEM s"
  "guards (go t p s) = guards s" "point_of (go t p s) = (point_of s)(t := p)"
  "KER (add_guard j t s) = KER s" "MTX (add_guard j t s) = MTX s" "CVS (add_guard j t s) = CVS s" "SEM (add_guard j t s) = SEM s"
  "point_of (add_guard j t s) = point_of s" "guards (add_guard j t s) = (guards s)(j := (guards s j)(t := guards s j t + 1))"
  "KER (drop_guard j t s) = KER s" "MTX (drop_guard j t s) = MTX s" "CVS (drop_guard j t s) = CVS s" "SEM (drop_guard j t s) = SEM s"
  "point_of (drop_guard j t s) = point_of s" "guards (drop_guard j t s) = (guards s)(j := (guards s j)(t := guards s j t - 1))"
  by (simp_all add: go_def add_guard_def drop_guard_def)

lemma queue_of_upd:
  "queue_of (s\<lparr>KER := k\<rparr>) b = queue_of s b"
  "queue_of (go t p s) b = queue_of s b" "queue_of (add_guard j t s) b = queue_of s b" "queue_of (drop_guard j t s) b = queue_of s b"
  by (cases b; simp)+

subsection \<open>Every step keeps the invariant\<close>

lemma objects_okI:
  "(\<And>j. mutex_inv k (MTX s j)) \<Longrightarrow> (\<And>v. waiting k (CVS s v)) \<Longrightarrow> (\<And>i. sema_ok k (SEM s i)) \<Longrightarrow> objects_ok k s"
  by (simp add: objects_ok_def)

lemma sync_invD:
  assumes "sync_inv idle s"
  shows "safe_live idle (KER s)" "objects_ok (KER s) s" "queues_ok s" "guards_ok s" "mutex_inv (KER s) (MTX s j)"
    "waiting (KER s) (CVS s v)" "sema_ok (KER s) (SEM s i)"
  using assms by (simp_all add: sync_inv_def objects_ok_def)

lemma guardsD:
  assumes "guards_ok s"
  shows "guards s j t \<noteq> 0 \<Longrightarrow> mowner (MTX s j) = Some t" "guards s j t \<noteq> 0 \<Longrightarrow> unat (mrecursive (MTX s j)) = guards s j t"
    "mowner (MTX s j) = Some t \<Longrightarrow> guards s j t = 0 \<Longrightarrow> point_of s t = InLock j"
    "mowner (MTX s j) = Some t \<Longrightarrow> guards s j t = 0 \<Longrightarrow> mrecursive (MTX s j) = 1"
    "point_of s t = InLock j \<Longrightarrow> guards s j t = 0"
    "point_of s t = InLock j \<Longrightarrow> t \<in> set (mwait (MTX s j)) \<or> mowner (MTX s j) = Some t"
  using assms unfolding guards_ok_def by blast+

text \<open>Steps that leave mutexes and guards alone and move no task into or out of \<open>lock\<close>.\<close>

lemma guards_ok_cong:
  assumes "guards_ok s" "MTX s' = MTX s" "guards s' = guards s"
    "\<And>t j. (point_of s' t = InLock j) = (point_of s t = InLock j)"
  shows "guards_ok s'"
  using assms(1) unfolding guards_ok_def assms(2-4) .

lemma inv_call:
  assumes inv: "sync_inv idle s" and ok: "call_allowed idle c s" and run: "kcall_run ca c (KER s) = Some k'"
  shows "sync_inv idle (s\<lparr>KER := k'\<rparr>)"
proof -
  note I = sync_invD [OF inv]
  have k': "safe_live idle k'" "keeps_parked (killed c) (KER s) k'"
    using kcall_safe [OF I(1), of c ca] ok run by (simp_all add: call_allowed_def)
  have "killed c \<inter> set (queue_of s b) = {}" for b
    using ok by (cases c) (auto simp: call_allowed_def dest: queues_waits [OF I(3)])
  then have d: "killed c \<inter> set (mwait (MTX s j)) = {}" "killed c \<inter> set (CVS s v) = {}" "killed c \<inter> set (swait (SEM s i)) = {}" for j v i
    by (metis queue_of.simps)+
  note S = still_parked [OF k'(2)]
  have "mutex_inv k' (MTX s j)" "waiting k' (CVS s v)" "sema_ok k' (SEM s i)" for j v i
    by (rule mutex_inv_still [OF S d(1) I(5)] still_waiting [OF S d(2) I(6)] sema_ok_still [OF S d(3) I(7)])+
  then have "objects_ok k' (s\<lparr>KER := k'\<rparr>)" by (intro objects_okI) simp_all
  moreover have "queues_ok (s\<lparr>KER := k'\<rparr>)" using I(3) by (simp add: queues_ok_def queue_of_upd)
  ultimately show ?thesis using k'(1) guards_ok_cong [OF I(4), of "s\<lparr>KER := k'\<rparr>"] by (simp add: sync_inv_def)
qed

lemma inv_condvar:
  assumes inv: "sync_inv idle s" and k': "safe_live idle k'" "still X (KER s) k'" "X \<subseteq> set (CVS s v)"
    and cv: "waiting k' cv'" "set cv' \<subseteq> set (CVS s v)"
  shows "sync_inv idle (s\<lparr>CVS := (CVS s)(v := cv'), KER := k'\<rparr>)"
proof -
  note I = sync_invD [OF inv]
  note K = objects_kept [OF I(2,3) k'(2), of "Cv v"]
  let ?s = "s\<lparr>CVS := (CVS s)(v := cv'), KER := k'\<rparr>"
  have "objects_ok k' ?s" using K k'(3) cv(1) by (intro objects_okI) simp_all
  moreover have "set (queue_of ?s b) \<subseteq> set (queue_of s b)" for b using cv(2) by (cases b) auto
  then have "queues_ok ?s" using I(3) by (auto simp: queues_ok_def)
  ultimately show ?thesis using k'(1) guards_ok_cong [OF I(4), of ?s] by (simp add: sync_inv_def)
qed

lemma inv_sema:
  assumes inv: "sync_inv idle s" and k': "safe_live idle k'" "still X (KER s) k'" "X \<subseteq> set (swait (SEM s i))"
    and e: "sema_ok k' e'" and p: "p = Outside \<or> p = InDown i" and c: "point_of s c = Outside"
    and q: "set (swait e') \<subseteq> set (swait (SEM s i)) \<union> (if p = InDown i then {c} else {})"
  shows "sync_inv idle (go c p (s\<lparr>SEM := (SEM s)(i := e'), KER := k'\<rparr>))"
proof -
  note I = sync_invD [OF inv]
  note K = objects_kept [OF I(2,3) k'(2), of "Sem i"]
  let ?s = "go c p (s\<lparr>SEM := (SEM s)(i := e'), KER := k'\<rparr>)"
  have "objects_ok k' ?s" using K k'(3) e by (intro objects_okI) simp_all
  moreover have "queues_ok ?s" unfolding queues_ok_def
  proof (intro allI impI)
    fix b t assume t: "t \<in> set (queue_of ?s b)"
    then have "t \<in> set (queue_of s b) \<or> t = c \<and> b = Sem i \<and> p = InDown i" using q by (cases b) (auto split: if_splits)
    then show "waits_on (point_of ?s t) = Some b" using queues_waits [OF I(3), of t b] c by auto
  qed
  moreover have "guards_ok ?s" by (rule guards_ok_cong [OF I(4)]) (use p c in auto)
  ultimately show ?thesis using k'(1) by (simp add: sync_inv_def)
qed

text \<open>A mutex and the guards of the running task change together.\<close>

lemma inv_mutex:
  assumes inv: "sync_inv idle s" and k': "safe_live idle k'" "still X (KER s) k'" "X \<subseteq> set (mwait (MTX s j))"
    and m: "mutex_inv k' m'" and q: "set (mwait m') \<subseteq> set (mwait (MTX s j)) \<union> (if p = InLock j then {c} else {})"
    and c: "c \<notin> set (mwait (MTX s j))" "\<And>v. c \<notin> set (CVS s v)" "\<And>i. c \<notin> set (swait (SEM s i))"
      "\<And>i. i \<noteq> j \<Longrightarrow> point_of s c \<noteq> InLock i" "p = Outside \<or> p = InLock j"
    and g: "\<And>t. (if t = c then g else guards s j t) \<noteq> 0 \<Longrightarrow> mowner m' = Some t \<and> unat (mrecursive m') = (if t = c then g else guards s j t)"
    and o': "\<And>t. mowner m' = Some t \<Longrightarrow> (if t = c then g else guards s j t) = 0 \<Longrightarrow> (if t = c then p else point_of s t) = InLock j \<and> mrecursive m' = 1"
    and l: "\<And>t. (if t = c then p else point_of s t) = InLock j \<Longrightarrow> (if t = c then g else guards s j t) = 0 \<and> (t \<in> set (mwait m') \<or> mowner m' = Some t)"
  shows "sync_inv idle (s\<lparr>MTX := (MTX s)(j := m'), KER := k', point_of := (point_of s)(c := p),
      guards := (guards s)(j := (guards s j)(c := g))\<rparr>)"
proof -
  note I = sync_invD [OF inv]
  note K = objects_kept [OF I(2,3) k'(2), of "Mtx j"]
  let ?s = "s\<lparr>MTX := (MTX s)(j := m'), KER := k', point_of := (point_of s)(c := p), guards := (guards s)(j := (guards s j)(c := g))\<rparr>"
  have "objects_ok k' ?s" using K k'(3) m by (intro objects_okI) simp_all
  moreover have "queues_ok ?s" unfolding queues_ok_def
  proof (intro allI impI)
    fix b t assume t: "t \<in> set (queue_of ?s b)"
    then have "t \<in> set (queue_of s b) \<and> t \<noteq> c \<or> t = c \<and> b = Mtx j \<and> p = InLock j \<or> t = c \<and> (\<exists>i. b = Mtx i \<and> i \<noteq> j \<and> c \<in> set (mwait (MTX s i)))"
      using q c by (cases b) (auto split: if_splits)
    then show "waits_on (point_of ?s t) = Some b"
      using queues_waits [OF I(3), of t b] queues_waits [OF I(3), of c] c(4) by (cases "point_of s c") force+
  qed
  moreover have "guards_ok ?s" unfolding guards_ok_def
  proof (intro allI conjI)
    fix i t
    show "guards ?s i t \<noteq> 0 \<longrightarrow> mowner (MTX ?s i) = Some t \<and> unat (mrecursive (MTX ?s i)) = guards ?s i t"
      using g [of t] guardsD(1,2) [OF I(4), of i t] by simp
    show "mowner (MTX ?s i) = Some t \<longrightarrow> guards ?s i t = 0 \<longrightarrow> point_of ?s t = InLock i \<and> mrecursive (MTX ?s i) = 1"
      using o' [of t] guardsD(3,4) [OF I(4), of i t] c(4) by auto
    show "point_of ?s t = InLock i \<longrightarrow> guards ?s i t = 0 \<and> (t \<in> set (mwait (MTX ?s i)) \<or> mowner (MTX ?s i) = Some t)"
      using l [of t] guardsD(5,6) [OF I(4), of t i] c(5) by auto
  qed
  ultimately show ?thesis using k'(1) by (simp add: sync_inv_def)
qed

text \<open>What the running task knows of the mutex it is about to use.\<close>

lemma running_mutex:
  assumes inv: "sync_inv idle s" and c: "CURRENT_TCB (KER s) = Some c"
  shows "c \<notin> set (mwait (MTX s j))" "c \<notin> set (CVS s v)" "c \<notin> set (swait (SEM s i))"
    "guards s j c < 4294967295 \<Longrightarrow> mowner (MTX s j) = Some c \<Longrightarrow> point_of s c \<noteq> InLock j \<Longrightarrow> mrecursive (MTX s j) \<noteq> - 1"
proof -
  note I = sync_invD [OF inv] and Q = running_not_queued [OF inv c]
  show "c \<notin> set (mwait (MTX s j))" "c \<notin> set (CVS s v)" "c \<notin> set (swait (SEM s i))"
    using Q [of "Mtx j"] Q [of "Cv v"] Q [of "Sem i"] by simp_all
  assume g: "guards s j c < 4294967295" "mowner (MTX s j) = Some c" "point_of s c \<noteq> InLock j"
  then have "unat (mrecursive (MTX s j)) = guards s j c" using guardsD(2,3) [OF I(4)] by blast
  then show "mrecursive (MTX s j) \<noteq> - 1" using g(1) by (auto simp: unsigned_minus_1_eq_mask mask_eq_exp_minus_1)
qed

lemma inv_lock:
  assumes inv: "sync_inv idle (s :: 'a sync_state)" and c: "CURRENT_TCB (KER s) = Some c" "c \<noteq> idle" and p: "\<And>i. point_of s c \<noteq> InLock i"
    and g: "guards s j c < 4294967295"
  shows "returns (\<lambda>(m', k'). sync_inv idle (locked j c m' k' s)) (mutex_lock (MTX s j) (KER s))"
proof -
  note I = sync_invD [OF inv] and R = running_mutex [OF inv c(1)] and G = guardsD [OF I(4)]
  let ?m = "MTX s j"
  note M = inv_mutex [OF inv _ _ _ _ _ R(1-3), of _ "{}" j]
  have rec: "mowner ?m = Some c \<Longrightarrow> mrecursive ?m \<noteq> - 1" using R(4) g p by blast
  show ?thesis
  proof (rule returns_pairE [OF mutex_lock_safe [OF I(1,5) c rec]], assumption, elim conjE)
    fix m' :: "'a mutex" and k' assume run: "mutex_lock ?m (KER s) = Some (m', k')" and k': "safe_live idle k'" "still {} (KER s) k'" "mutex_inv k' m'"
      and o': "case mowner ?m of None \<Rightarrow> mowner m' = Some c \<and> mrecursive m' = 1 \<and> mwait m' = []
        | Some w \<Rightarrow> mowner m' = Some w \<and> (if w = c then mrecursive m' = mrecursive ?m + 1 \<and> mwait m' = mwait ?m
            else mrecursive m' = mrecursive ?m \<and> set (mwait m') = insert c (set (mwait ?m)))"
    have l: "t \<in> set (mwait ?m) \<or> mowner ?m = Some t" if "point_of s t = InLock j" for t using G(6) [OF that] .
    have l0: "guards s j t = 0" if "point_of s t = InLock j" for t using G(5) [OF that] .
    consider "mowner ?m = None" | "mowner ?m = Some c" | w where "mowner ?m = Some w" "w \<noteq> c" by blast
    then have "sync_inv idle (locked j c m' k' s)"
    proof cases
      case 1
      have z: "guards s j t = 0" "mwait ?m = []" for t using G(1) [of j t] 1 I(5) [of j] by (auto simp: mutex_inv_def)
      have "sync_inv idle (s\<lparr>MTX := (MTX s)(j := m'), KER := k', point_of := (point_of s)(c := Outside),
          guards := (guards s)(j := (guards s j)(c := 1))\<rparr>)"
        by (rule M [OF k'(1,2) _ k'(3)]) (use 1 o' p z l in \<open>auto split: if_splits\<close>)
      then show ?thesis using 1 o' z by (simp add: locked_def add_guard_def go_def)
    next
      case 2
      have z1: "mrecursive ?m + 1 \<noteq> 0" using rec [OF 2] by (metis add_eq_0_iff minus_equation_iff)
      have z: "guards s j c \<noteq> 0" "unat (mrecursive ?m) = guards s j c" "t \<noteq> c \<Longrightarrow> guards s j t = 0" for t
        using G(1-3) [of j] 2 p by auto
      have u: "unat (mrecursive ?m + 1) = Suc (guards s j c)"
        using z1 z(2) by (metis add.commute unatSuc)
      have "sync_inv idle (s\<lparr>MTX := (MTX s)(j := m'), KER := k', point_of := (point_of s)(c := Outside),
          guards := (guards s)(j := (guards s j)(c := Suc (guards s j c)))\<rparr>)"
        by (rule M [OF k'(1,2) _ k'(3)]) (use 2 o' p u z(3) l in \<open>auto split: if_splits\<close>)
      then show ?thesis using 2 o' R(1) by (simp add: locked_def add_guard_def go_def)
    next
      case 3
      have z: "t = w" if "0 < guards s j t" for t using G(1) [of j t] 3 that by auto
      have zc: "guards s j c = 0" using z [of c] 3 by blast
      have z2: "unat (mrecursive ?m) = guards s j t" if "0 < guards s j t" for t using G(2) [of j t] that by simp
      have z3: "guards s j w = 0 \<Longrightarrow> point_of s w = InLock j \<and> mrecursive ?m = 1"
        using G(3,4) [OF 3(1)] by blast
      have "sync_inv idle (s\<lparr>MTX := (MTX s)(j := m'), KER := k', point_of := (point_of s)(c := InLock j),
          guards := (guards s)(j := (guards s j)(c := guards s j c))\<rparr>)"
        by (rule M [OF k'(1,2) _ k'(3)]) (use 3 o' p zc z3 l l0 in \<open>auto split: if_splits dest: z intro: z2\<close>)
      then show ?thesis using 3 o' by (simp add: locked_def go_def)
    qed
    then show "returns (\<lambda>(m', k'). sync_inv idle (locked j c m' k' s)) (mutex_lock ?m (KER s))" using run by simp
  qed
qed

lemma inv_granted:
  assumes inv: "sync_inv idle s" and c: "CURRENT_TCB (KER s) = Some c" and p: "point_of s c = InLock j"
  shows "sync_inv idle (add_guard j c (go c Outside s))"
proof -
  note I = sync_invD [OF inv] and R = running_mutex [OF inv c] and G = guardsD [OF I(4)]
  let ?m = "MTX s j"
  have o': "mowner ?m = Some c" "guards s j c = 0" "mrecursive ?m = 1" using G(4-6) p R(1) by blast+
  have z: "t = c" if "0 < guards s j t" for t using G(1) [of j t] o'(1) that by simp
  have l: "t \<in> set (mwait ?m)" if "point_of s t = InLock j" "t \<noteq> c" for t using G(6) [OF that(1)] o'(1) that(2) by auto
  have l0: "guards s j t = 0" if "point_of s t = InLock j" for t using G(5) [OF that] .
  have "sync_inv idle (s\<lparr>MTX := (MTX s)(j := ?m), KER := KER s, point_of := (point_of s)(c := Outside),
      guards := (guards s)(j := (guards s j)(c := Suc 0))\<rparr>)"
    by (rule inv_mutex [OF inv I(1) still_refl _ I(5) _ R(1-3), of "{}" j j])
      (use p o' l l0 in \<open>auto split: if_splits dest: z\<close>)
  then show ?thesis using o' by (simp add: add_guard_def go_def)
qed

lemma inv_write:
  assumes inv: "sync_inv idle s"
  shows "sync_inv idle (s\<lparr>MTX := (MTX s)(j := guard_deref_mut f (MTX s j))\<rparr>)"
proof -
  note I = sync_invD [OF inv]
  let ?s = "s\<lparr>MTX := (MTX s)(j := guard_deref_mut f (MTX s j))\<rparr>"
  have m: "mowner (MTX ?s i) = mowner (MTX s i)" "mwait (MTX ?s i) = mwait (MTX s i)" "mrecursive (MTX ?s i) = mrecursive (MTX s i)"
    "point_of ?s = point_of s" "guards ?s = guards s" for i
    by (simp_all add: guard_deref_mut_def)
  have "queue_of ?s b = queue_of s b" for b by (cases b) (simp_all add: guard_deref_mut_def)
  then have "queues_ok ?s" using I(3) by (simp add: queues_ok_def)
  moreover have "objects_ok (KER s) ?s" using I(2) unfolding objects_ok_def mutex_inv_def m by simp
  moreover have "guards_ok ?s" using I(4) unfolding guards_ok_def m .
  ultimately show ?thesis using I(1) by (simp add: sync_inv_def)
qed

text \<open>Dropping a guard: with the last one the mutex is free or belongs to its first waiter.\<close>

lemma dropped_cases:
  assumes inv: "sync_inv idle s" and c: "CURRENT_TCB (KER s) = Some c" and p: "point_of s c = Outside"
    and g: "0 < guards s j c"
  shows "mowner (MTX s j) = Some c"
    and "safe_live idle k' \<Longrightarrow> still (set (handed (MTX s j))) (KER s) k' \<Longrightarrow> mutex_inv k' (dropped (MTX s j))
      \<Longrightarrow> sync_inv idle (drop_guard j c (s\<lparr>MTX := (MTX s)(j := dropped (MTX s j)), KER := k'\<rparr>))"
proof -
  note I = sync_invD [OF inv] and R = running_mutex [OF inv c] and G = guardsD [OF I(4)]
  let ?m = "MTX s j"
  show o': "mowner ?m = Some c" using G(1) g by blast
  have u: "unat (mrecursive ?m) = guards s j c" using G(2) g by blast
  assume k': "safe_live idle k'" "still (set (handed ?m)) (KER s) k'" "mutex_inv k' (dropped ?m)"
  have z: "t = c" if "0 < guards s j t" for t using G(1) [of j t] o' that by simp
  have l: "t \<in> set (mwait ?m)" if "point_of s t = InLock j" for t using G(6) [OF that] o' p that by auto
  have l0: "guards s j t = 0" if "point_of s t = InLock j" for t using G(5) [OF that] .
  have lw: "point_of s t = InLock j" if "t \<in> set (mwait ?m)" for t
    using queues_waits [OF I(3), of t "Mtx j"] that by (cases "point_of s t") auto
  have h: "set (handed ?m) \<subseteq> set (mwait ?m)" by (auto simp: handed_def dest: in_set_takeD)
  note M = inv_mutex [OF inv k'(1,2) h k'(3) _ R(1-3), of Outside]
  have pc: "(point_of s)(c := Outside) = point_of s" using p by (simp add: fun_upd_idem)
  have "sync_inv idle (s\<lparr>MTX := (MTX s)(j := dropped ?m), KER := k', point_of := (point_of s)(c := Outside),
      guards := (guards s)(j := (guards s j)(c := guards s j c - 1))\<rparr>)"
  proof (cases "mrecursive ?m = 1")
    case False
    have "mrecursive ?m \<noteq> 0" using u g by auto
    then have ud: "unat (mrecursive ?m - 1) = guards s j c - 1" using u by (simp add: unat_minus_one)
    have g2: "guards s j c \<noteq> 1" using u False by (metis unat_1 word_unat_eq_iff)
    have d: "dropped ?m = ?m\<lparr>mrecursive := mrecursive ?m - 1\<rparr>" using False by (simp add: dropped_def)
    show ?thesis by (rule M) (use p o' l l0 ud g g2 d in \<open>auto split: if_splits dest: z\<close>)
  next
    case True
    then have g1: "guards s j c = 1" using u by simp
    show ?thesis
    proof (cases "mwait ?m")
      case Nil
      then have d: "dropped ?m = ?m\<lparr>mrecursive := 0, mowner := None\<rparr>" using True by (simp add: dropped_def released_def)
      show ?thesis by (rule M) (use Nil p l g1 d in \<open>auto split: if_splits dest: z l\<close>)
    next
      case (Cons w ws)
      then have d: "dropped ?m = ?m\<lparr>mrecursive := 1, mowner := Some w, mwait := ws\<rparr>" using True by (simp add: dropped_def released_def)
      have w: "w \<noteq> c" "point_of s w = InLock j" using R(1) [of j] Cons lw [of w] by auto
      have l': "t = w \<or> t \<in> set ws" if "point_of s t = InLock j" for t using l [OF that] Cons by simp
      show ?thesis by (rule M) (use Cons p w l0 g1 d in \<open>auto split: if_splits dest: z l'\<close>)
    qed
  qed
  then show "sync_inv idle (drop_guard j c (s\<lparr>MTX := (MTX s)(j := dropped ?m), KER := k'\<rparr>))"
    by (simp add: drop_guard_def pc)
qed

lemma inv_unlock:
  assumes inv: "sync_inv idle s" and c: "CURRENT_TCB (KER s) = Some c" "point_of s c = Outside" "0 < guards s j c"
  shows "returns (\<lambda>(m', k'). sync_inv idle (drop_guard j c (s\<lparr>MTX := (MTX s)(j := m'), KER := k'\<rparr>))) (mutex_guard_drop (MTX s j) (KER s))"
  by (rule returns_mono [OF mutex_drop_safe [OF sync_invD(1,5) [OF inv] c(1) dropped_cases(1) [OF inv c]]])
    (use dropped_cases(2) [OF inv c] in auto)

text \<open>Entering the queue of a condition variable.\<close>

lemma inv_enqueue:
  assumes inv: "sync_inv idle s" and p: "point_of s c = Outside" and cv: "waiting (KER s) (CVS s v @ [c])"
  shows "sync_inv idle (go c (InWait v y j) (s\<lparr>CVS := (CVS s)(v := CVS s v @ [c])\<rparr>))"
proof -
  note I = sync_invD [OF inv]
  let ?s = "go c (InWait v y j) (s\<lparr>CVS := (CVS s)(v := CVS s v @ [c])\<rparr>)"
  have "objects_ok (KER s) ?s" using I(2) cv by (simp add: objects_ok_def)
  moreover have "queues_ok ?s" unfolding queues_ok_def
  proof (intro allI impI)
    fix b t assume "t \<in> set (queue_of ?s b)"
    then have "t \<in> set (queue_of s b) \<or> t = c \<and> b = Cv v" by (cases b) (auto split: if_splits)
    then show "waits_on (point_of ?s t) = Some b" using queues_waits [OF I(3), of t b] p by auto
  qed
  moreover have "guards_ok ?s" by (rule guards_ok_cong [OF I(4)]) (use p in auto)
  ultimately show ?thesis using I(1) by (simp add: sync_inv_def)
qed

lemma inv_wait:
  assumes inv: "sync_inv idle s" and c: "CURRENT_TCB (KER s) = Some c" "point_of s c = Outside" "0 < guards s j c" and ni: "c \<noteq> idle"
  shows "returns (\<lambda>(y, cv', m', k'). sync_inv idle (drop_guard j c (go c (InWait v y j) (s\<lparr>CVS := (CVS s)(v := cv'), MTX := (MTX s)(j := m'), KER := k'\<rparr>))))
    (condvar_wait_enter (CVS s v) (MTX s j) (KER s))"
proof -
  note I = sync_invD [OF inv]
  have "set (queue_of s (Cv v)) \<inter> set (queue_of s (Mtx j)) = {}"
    using queues_waits [OF I(3), of _ "Cv v"] queues_waits [OF I(3), of _ "Mtx j"] by fastforce
  then have sep: "set (CVS s v) \<inter> set (mwait (MTX s j)) = {}" by simp
  note W = condvar_wait_safe [OF I(1,5) c(1) dropped_cases(1) [OF inv c] I(6) sep ni]
  show ?thesis
  proof (rule returns_mono [OF W], clarsimp)
    fix y k' assume k': "safe_live idle k'" "still (set (handed (MTX s j))) (KER s) k'" "mutex_inv k' (dropped (MTX s j))"
      "waiting k' (CVS s v @ [c])"
    let ?s1 = "drop_guard j c (s\<lparr>MTX := (MTX s)(j := dropped (MTX s j)), KER := k'\<rparr>)"
    have "sync_inv idle ?s1" by (rule dropped_cases(2) [OF inv c k'(1-3)])
    then have "sync_inv idle (go c (InWait v y j) (?s1\<lparr>CVS := (CVS ?s1)(v := CVS ?s1 v @ [c])\<rparr>))"
      by (rule inv_enqueue) (use c(2) k'(4) in simp_all)
    moreover have "go c (InWait v y j) (?s1\<lparr>CVS := (CVS ?s1)(v := CVS ?s1 v @ [c])\<rparr>)
        = drop_guard j c (go c (InWait v y j) (s\<lparr>CVS := (CVS s)(v := CVS s v @ [c]), MTX := (MTX s)(j := dropped (MTX s j)), KER := k'\<rparr>))"
      by (rule sync_state.equality) (simp_all add: go_def drop_guard_def)
    ultimately show "sync_inv idle (drop_guard j c (go c (InWait v y j) (s\<lparr>CVS := (CVS s)(v := CVS s v @ [c]), MTX := (MTX s)(j := dropped (MTX s j)), KER := k'\<rparr>)))"
      by argo
  qed
qed

lemma inv_notify:
  assumes inv: "sync_inv idle s"
  shows "returns (\<lambda>(cv', k'). sync_inv idle (s\<lparr>CVS := (CVS s)(v := cv'), KER := k'\<rparr>)) (condvar_notify (CVS s v) (KER s))"
    and "returns (\<lambda>(cv', k'). sync_inv idle (s\<lparr>CVS := (CVS s)(v := cv'), KER := k'\<rparr>)) (condvar_notify_all (CVS s v) (KER s))"
proof -
  note I = sync_invD [OF inv]
  show "returns (\<lambda>(cv', k'). sync_inv idle (s\<lparr>CVS := (CVS s)(v := cv'), KER := k'\<rparr>)) (condvar_notify (CVS s v) (KER s))"
    by (rule returns_mono [OF condvar_notify_safe [OF I(1,6)]])
      (auto intro!: inv_condvar [OF inv] dest: in_set_takeD in_set_dropD)
  show "returns (\<lambda>(cv', k'). sync_inv idle (s\<lparr>CVS := (CVS s)(v := cv'), KER := k'\<rparr>)) (condvar_notify_all (CVS s v) (KER s))"
    by (rule returns_mono [OF condvar_notify_all_safe [OF I(1,6)]])
      (auto intro!: inv_condvar [OF inv] simp: waiting_def)
qed

lemma inv_down:
  assumes inv: "sync_inv idle s" and c: "CURRENT_TCB (KER s) = Some c" "point_of s c = Outside" "c \<noteq> idle"
  shows "returns (\<lambda>(e', k'). sync_inv idle (downed i c e' k' s))
    (sema_down (SEM s i) (KER s))"
proof -
  note I = sync_invD [OF inv]
  show ?thesis
    by (rule returns_mono [OF sema_down_safe [OF I(1,7) c(1,3)]])
      (use c(2) in \<open>auto simp: downed_def intro!: inv_sema [OF inv] split: if_splits\<close>)
qed

lemma inv_up:
  assumes inv: "sync_inv idle s" and room: "scount (SEM s i) < 2147483647"
  shows "returns (\<lambda>(e', k'). sync_inv idle (s\<lparr>SEM := (SEM s)(i := e'), KER := k'\<rparr>)) (sema_up (SEM s i) (KER s))"
    and "returns (\<lambda>(e', k'). sync_inv idle (s\<lparr>SEM := (SEM s)(i := e'), KER := k'\<rparr>)) (sema_up_from_isr (SEM s i) (KER s))"
proof -
  note I = sync_invD [OF inv]
  have U: "sync_inv idle (s\<lparr>SEM := (SEM s)(i := e'), KER := k'\<rparr>)" if "upped idle (SEM s i) (KER s) (e', k')" for e' k'
  proof -
    let ?s = "s\<lparr>SEM := (SEM s)(i := e'), KER := k'\<rparr>"
    from that have u: "safe_live idle k'" "still (set (take 1 (swait (SEM s i)))) (KER s) k'" "sema_ok k' e'" "set (swait e') \<subseteq> set (swait (SEM s i))"
      by (auto simp: upped_def dest: in_set_dropD)
    note K = objects_kept [OF I(2,3) u(2), of "Sem i", unfolded queue_of.simps, OF set_take_subset]
    have "objects_ok k' ?s" using K u(3) by (intro objects_okI) simp_all
    moreover have "set (queue_of ?s b) \<subseteq> set (queue_of s b)" for b using u(4) by (cases b) auto
    then have "queues_ok ?s" using I(3) by (auto simp: queues_ok_def)
    ultimately show ?thesis using u(1) guards_ok_cong [OF I(4), of ?s] by (simp add: sync_inv_def)
  qed
  show "returns (\<lambda>(e', k'). sync_inv idle (s\<lparr>SEM := (SEM s)(i := e'), KER := k'\<rparr>)) (sema_up (SEM s i) (KER s))"
    by (rule returns_mono [OF sema_up_safe(1) [OF I(1,7) room]]) (use U in auto)
  show "returns (\<lambda>(e', k'). sync_inv idle (s\<lparr>SEM := (SEM s)(i := e'), KER := k'\<rparr>)) (sema_up_from_isr (SEM s i) (KER s))"
    by (rule returns_mono [OF sema_up_safe(2) [OF I(1,7) room]]) (use U in auto)
qed

lemma sema_try_down_ok: "sema_ok k e \<Longrightarrow> sema_try_down e = (b, e') \<Longrightarrow> sema_ok k e' \<and> swait e' = swait e"
  by (auto simp: sema_try_down_def sema_ok_def split: if_splits)

lemma inv_try:
  assumes inv: "sync_inv idle s" and run: "sema_try_down (SEM s i) = (b, e')"
  shows "sync_inv idle (s\<lparr>SEM := (SEM s)(i := e')\<rparr>)"
proof -
  note I = sync_invD [OF inv]
  let ?s = "s\<lparr>SEM := (SEM s)(i := e')\<rparr>"
  have e: "sema_ok (KER s) e'" "swait e' = swait (SEM s i)" using sema_try_down_ok [OF I(7) run] by simp_all
  have "objects_ok (KER s) ?s" using I(5-7) e(1) by (intro objects_okI) simp_all
  moreover have "queue_of ?s o' = queue_of s o'" for o' using e(2) by (cases o') auto
  then have "queues_ok ?s" using I(3) by (simp add: queues_ok_def)
  moreover have "guards_ok ?s" by (rule guards_ok_cong [OF I(4)]) simp_all
  ultimately show ?thesis using I(1) by (simp add: sync_inv_def)
qed

lemma inv_go:
  assumes inv: "sync_inv idle s" and c: "\<And>b. c \<notin> set (queue_of s b)" and p: "\<And>j. point_of s c \<noteq> InLock j" "\<And>j. p \<noteq> InLock j"
  shows "sync_inv idle (go c p s)"
proof -
  note I = sync_invD [OF inv]
  have "objects_ok (KER s) (go c p s)" using I(2) by (simp add: objects_ok_def)
  moreover have "queues_ok (go c p s)" using I(3) c unfolding queues_ok_def queue_of_upd ko_simps by (metis fun_upd_other)
  moreover have "guards_ok (go c p s)" by (rule guards_ok_cong [OF I(4)]) (use p in auto)
  ultimately show ?thesis using I(1) by (simp add: sync_inv_def)
qed

lemma inv_resume:
  assumes inv: "sync_inv idle s" and c: "CURRENT_TCB (KER s) = Some c" "point_of s c = InWait v True j"
  shows "returns (\<lambda>k'. sync_inv idle (go c (InWait v False j) (s\<lparr>KER := k'\<rparr>))) (condvar_wait_resume True (KER s))"
proof -
  note I = sync_invD [OF inv] and Q = running_not_queued [OF inv c(1)]
  have wf: "wf_kernel (KER s)" "safe_inv (KER s)" using I(1) by (simp_all add: safe_live_def safe_inv_def)
  have "sync_inv idle (go c (InWait v False j) (s\<lparr>KER := k'\<rparr>))" if "safe_inv k'" "yield_frame (KER s) k'" for k'
  proof (rule inv_go)
    have "objects_ok k' (s\<lparr>KER := k'\<rparr>)"
      using objects_still [OF I(2) still_parked [OF keeps_parked_yield [OF wf(1) that(2)]]] by (simp add: objects_ok_def)
    then show "sync_inv idle (s\<lparr>KER := k'\<rparr>)"
      using safe_live_yield [OF I(1) that] I(3) guards_ok_cong [OF I(4), of "s\<lparr>KER := k'\<rparr>"]
      by (simp add: sync_inv_def queues_ok_def queue_of_upd)
  qed (use Q c(2) in \<open>simp_all add: queue_of_upd\<close>)
  then show ?thesis
    unfolding condvar_wait_resume_def if_P [OF TrueI] by (intro safe.yield_mono safe_inv_mid wf(2))
qed

lemma sync_step_inv:
  assumes "sync_step ca idle s s'" and inv: "sync_inv idle s"
  shows "sync_inv idle s'"
  using assms(1)
proof cases
  case (ss_call c k')
  with inv_call [OF inv] show ?thesis by simp
next
  case (ss_lock c j m' k')
  then have "\<And>i. point_of s c \<noteq> InLock i" by auto
  from inv_lock [OF inv ss_lock(2,3) this ss_lock(5)] ss_lock show ?thesis by simp
next
  case (ss_granted c j)
  with inv_granted [OF inv] show ?thesis by simp
next
  case (ss_write c j f)
  with inv_write [OF inv] show ?thesis by simp
next
  case (ss_unlock c j m' k')
  with inv_unlock [OF inv ss_unlock(2-4)] show ?thesis by simp
next
  case (ss_wait c j v y cv' m' k')
  with inv_wait [OF inv ss_wait(2,4,5,3), of v] show ?thesis by simp
next
  case (ss_resume c v j k')
  with inv_resume [OF inv ss_resume(2,3)] show ?thesis by simp
next
  case (ss_notify c v cv' k')
  with inv_notify(1) [OF inv, of v] show ?thesis by simp
next
  case (ss_notify_all c v cv' k')
  with inv_notify(2) [OF inv, of v] show ?thesis by simp
next
  case (ss_down c i e' k')
  with inv_down [OF inv ss_down(2,4,3), of i] show ?thesis by simp
next
  case (ss_granted_down c i)
  with inv_go [OF inv running_not_queued [OF inv ss_granted_down(2)], of Outside] show ?thesis by simp
next
  case (ss_up c i e' k')
  with inv_up(1) [OF inv, of i] show ?thesis by simp
next
  case (ss_try i b e')
  with inv_try [OF inv] show ?thesis by blast
next
  case (ss_up_isr i e' k')
  with inv_up(2) [OF inv, of i] show ?thesis by simp
qed

lemma sync_reach_inv: "sync_reach ca idle s \<Longrightarrow> sync_inv idle s"
proof (induction rule: sync_reach.induct)
  case (sync_boot k x n)
  have "mutex_inv k (mutex_new y)" for y :: 'a by (simp add: mutex_inv_def mutex_new_def tl_new_def)
  moreover have "sema_ok k (sema_new (int (n i mod 2147483648)))" for i
    by (simp add: sema_ok_def sema_new_def tl_new_def)
  ultimately have "objects_ok k (sync_start k x n)" by (simp add: objects_ok_def sync_start_def condvar_new_def tl_new_def)
  moreover have "queue_of (sync_start k x n) b = []" for b
    by (cases b) (simp_all add: sync_start_def mutex_new_def condvar_new_def sema_new_def tl_new_def)
  then have "queues_ok (sync_start k x n)" by (simp add: queues_ok_def)
  moreover have "guards_ok (sync_start k x n)" by (simp add: guards_ok_def sync_start_def mutex_new_def)
  ultimately show ?case using live_inv_safe [OF kreach_live [OF sync_boot]] by (simp add: sync_inv_def sync_start_def)
next
  case (sync_next s s')
  with sync_step_inv show ?case by blast
qed

lemma create_before_launch:
  assumes b: "kboot ca k" and s: "s < TASK_MAX" "r < TASK_MAX" "s \<noteq> r" "status (TCBS k s) = Terminated" "status (TCBS k r) = Terminated"
    and f: "length f \<le> TASK_CLOSURE_SIZE" and cold: "CURRENT_TCB k = None"
  obtains t k' where "task_create ca f i p n k = Some (Inr t, k')" "status (TCBS k t) = Terminated" "set (READY_LIST k') = insert t (set (READY_LIST k))"
    "\<exists>s < TASK_MAX. status (TCBS k' s) = Terminated" "CURRENT_TCB k' = None"
proof -
  note K = kboot_inv [OF b]
  then have inv: "kernel_inv k" and st: "stacks_ok k" and wf: "wf_kernel k" by (simp_all add: kernel_inv_def)
  show thesis
  proof (rule alloc_tid_cases [OF wf])
    assume "\<forall>t < TASK_MAX. status (TCBS k t) \<noteq> Terminated"
    then show thesis using s by blast
  next
    fix t assume al: "alloc_tid k = (Some t, k\<lparr>TID_BITMAP := TID_BITMAP k OR push_bit t 1, TCBS := (TCBS k)(t := tcb_empty t)\<rparr>)"
      and t: "t < TASK_MAX" "status (TCBS k t) = Terminated"
    obtain stack k2 where k2: "k2 = (spawned t (created_tcb t f i p n (STACKS_BASE k + of_nat (PAGE_SIZE * t))) k)\<lparr>STACKS := (STACKS k)(t := stack)\<rparr>"
      "task_create ca f i p n k = do {
         k' \<leftarrow> (if CURRENT_TCB k \<noteq> None \<and> (\<forall>c. CURRENT_TCB k = Some c \<longrightarrow> p < pri k c)
               then yield_task k2 else Some k2); Some (Inr t, k') }"
      by (rule task_create_closed [OF inv st f al t, of i p n ca]) blast
    have "\<exists>s < TASK_MAX. status (TCBS k2 s) = Terminated"
      using s t(1) by (cases "s = t") (auto simp: k2(1) simp del: TASK_MAX_def)
    then show thesis using that [of t k2] k2(2) cold t(2) by (simp add: k2(1))
  qed
qed

text \<open>A started kernel in which a task other than the idle task runs.\<close>

lemma busy_reach: "\<exists>k idle c. kreach demo_addrs idle k \<and> CURRENT_TCB k = Some c \<and> c \<noteq> idle"
proof -
  have b0: "kboot demo_addrs (kernel_boot 0)" by (rule boot_start)
  obtain t k1 where k1: "task_create demo_addrs [] 32 5 ''a'' (kernel_boot 0) = Some (Inr t, k1)"
    "set (READY_LIST k1) = insert t (set (READY_LIST (kernel_boot 0)))" "\<exists>s < TASK_MAX. status (TCBS k1 s) = Terminated"
    by (rule create_before_launch [OF b0, of 0 1 "[]" 32 5 "''a''"]) (simp_all add: kernel_boot_def)
  have b1: "kboot demo_addrs k1" by (rule boot_create [OF b0 k1(1)])
  then have inv: "kernel_inv k1" "stacks_ok k1" "\<not> SCHED_READY k1" using kboot_inv by blast+
  then have wf: "wf_kernel k1" by (simp add: kernel_inv_def)
  obtain r k2 where k2: "task_create demo_addrs [] 32 PRI_MIN ''idle'' k1 = Some (r, k2)"
    "case r of Inl e \<Rightarrow> k2 = k1 \<and> {t. t < TASK_MAX \<and> status (TCBS k1 t) = Terminated} = {} | Inr i \<Rightarrow> create_post demo_addrs [] 32 PRI_MIN ''idle'' k1 i k2"
    using task_create_spec [OF inv(1,2), of "[]" demo_addrs 32 PRI_MIN "''idle''"] by (auto simp: returns_iff)
  then obtain i where i: "r = Inr i" "create_post demo_addrs [] 32 PRI_MIN ''idle'' k1 i k2" using k1(3) by (cases r) auto
  have t: "t \<in> set (READY_LIST k1)" using k1(2) by simp
  have it: "i \<in> set (READY_LIST k2)" "t \<in> set (READY_LIST k2)" "i \<noteq> t"
    using i(2) t fresh_not_listed(1) [OF wf, of i] by (auto simp: create_post_def)
  then obtain h hs where h: "READY_LIST k2 = h # hs" by (cases "READY_LIST k2") auto
  have "h < TASK_MAX"
  proof -
    have "kernel_inv k2" using boot_create [OF b1 k2(1)] kboot_inv by blast
    then show ?thesis using wf_kernel_ready_range [of k2] h by (auto simp: kernel_inv_def)
  qed
  then obtain k3 where k3: "sched_launch demo_addrs [] 32 k1 = Some k3" "READY_LIST k3 = READY_LIST k2" "CURRENT_TCB k3 = Some h"
    using k2(1) i(1) h by (simp add: sched_launch_def tl_is_empty_def tl_front_def)
  have "\<exists>x \<in> set (READY_LIST k3). h \<noteq> x" using it k3(2) by metis
  then show ?thesis using reach_launch [OF b1 k3(1)] k3(3) by blast
qed

text \<open>Only a task with a guard writes the data.\<close>

lemma mdata_kept:
  assumes inv: "sync_inv idle s" and step: "sync_step ca idle s s'" and d: "mdata (MTX s' j) \<noteq> mdata (MTX s j)"
  shows "\<exists>c. CURRENT_TCB (KER s) = Some c \<and> 0 < guards s j c"
  using step
proof cases
  note I = sync_invD [OF inv]
  case (ss_lock c i m' k')
  have "\<And>i. point_of s c \<noteq> InLock i" using ss_lock(4) by auto
  then have "mowner (MTX s i) = Some c \<Longrightarrow> mrecursive (MTX s i) \<noteq> - 1" using running_mutex(4) [OF inv ss_lock(2,5)] by blast
  from mutex_lock_safe [OF I(1,5) ss_lock(2,3) this] have "mdata m' = mdata (MTX s i)" using ss_lock(6) by simp
  then have "mdata (MTX s' j) = mdata (MTX s j)" using ss_lock(1) by (simp add: locked_def Let_def)
  with d show ?thesis by simp
next
  note I = sync_invD [OF inv]
  case (ss_unlock c i m' k')
  have "m' = dropped (MTX s i)"
    using mutex_drop_safe [OF I(1,5) ss_unlock(2) dropped_cases(1) [OF inv ss_unlock(2-4)]] ss_unlock(5) by simp
  then have "mdata (MTX s' j) = mdata (MTX s j)" using ss_unlock(1) by (simp add: dropped_def mdata_released)
  with d show ?thesis by simp
next
  note I = sync_invD [OF inv]
  case (ss_wait c i v y cv' m' k')
  have "set (queue_of s (Cv v)) \<inter> set (queue_of s (Mtx i)) = {}"
    using queues_waits [OF I(3), of _ "Cv v"] queues_waits [OF I(3), of _ "Mtx i"] by fastforce
  then have "m' = dropped (MTX s i)"
    using condvar_wait_safe [OF I(1,5) ss_wait(2) dropped_cases(1) [OF inv ss_wait(2,4,5)] I(6) _ ss_wait(3), of v] ss_wait(6) by simp
  then have "mdata (MTX s' j) = mdata (MTX s j)" using ss_wait(1) by (simp add: dropped_def mdata_released)
  with d show ?thesis by simp
next
  case (ss_write c i f)
  then show ?thesis using d by (auto split: if_splits)
qed (use d in \<open>simp_all add: downed_def\<close>)

subsection \<open>Properties\<close>

text \<open>C25. Mutual exclusion: in every interleaving of kernel calls, ticks, \<open>lock\<close> and guard drops of any number of
  mutexes, \<open>wait\<close>, \<open>notify\<close> and \<open>notify_all\<close> of condition variables and \<open>down\<close>, \<open>try_down\<close>, \<open>up\<close> and \<open>up_from_isr\<close> of
  semaphores, nested and recursive locks included, in which no \<open>down_timeout\<close> waits and no task that waits or holds a
  guard is ended (the code does not keep exclusion through a waiting \<open>down_timeout\<close>: \<open>timeout_breaks_exclusion\<close>), at most one task holds guards
  of a mutex; the mutex records it and the number of its guards. No task waits for a free mutex, the
  tasks in its wait queue are blocked inside \<open>lock\<close>, and every task inside \<open>lock\<close> is in the queue or has
  been given the mutex. A step changes the data of a mutex only when the running task holds a guard.\<close>

theorem mutual_exclusion:
  assumes "sync_reach ca idle s"
  shows "(\<forall>t u. 0 < guards s j t \<and> 0 < guards s j u \<longrightarrow> t = u)
     \<and> (\<forall>t. 0 < guards s j t \<longrightarrow> mowner (MTX s j) = Some t \<and> unat (mrecursive (MTX s j)) = guards s j t)
     \<and> (mowner (MTX s j) = None \<longrightarrow> mwait (MTX s j) = [])
     \<and> list_all (\<lambda>t. point_of s t = InLock j \<and> status (TCBS (KER s) t) = Blocked \<and> CURRENT_TCB (KER s) \<noteq> Some t) (mwait (MTX s j))
     \<and> (\<forall>t. point_of s t = InLock j \<longrightarrow> guards s j t = 0 \<and> (t \<in> set (mwait (MTX s j)) \<or> mowner (MTX s j) = Some t))
     \<and> (\<forall>s'. sync_step ca idle s s' \<and> mdata (MTX s' j) \<noteq> mdata (MTX s j)
          \<longrightarrow> (\<exists>c. CURRENT_TCB (KER s) = Some c \<and> 0 < guards s j c))"
proof -
  have inv: "sync_inv idle s" by (rule sync_reach_inv [OF assms])
  note I = sync_invD [OF inv] and G = guardsD [OF I(4)]
  have "point_of s t = InLock j \<and> status (TCBS (KER s) t) = Blocked \<and> CURRENT_TCB (KER s) \<noteq> Some t" if "t \<in> set (mwait (MTX s j))" for t
  proof -
    have "waits_on (point_of s t) = Some (Mtx j)" using queues_waits [OF I(3), of t "Mtx j"] that by simp
    then have "point_of s t = InLock j" by (cases "point_of s t") auto
    moreover have "waiting (KER s) (mwait (MTX s j))" using I(5) by (simp add: mutex_inv_def)
    ultimately show ?thesis using that running_not_queued [OF inv, of t "Mtx j"] by (auto simp: waiting_def)
  qed
  then have L: "list_all (\<lambda>t. point_of s t = InLock j \<and> status (TCBS (KER s) t) = Blocked \<and> CURRENT_TCB (KER s) \<noteq> Some t) (mwait (MTX s j))"
    by (simp add: list_all_iff)
  have N: "mowner (MTX s j) = None \<longrightarrow> mwait (MTX s j) = []" using I(5) [of j] by (auto simp: mutex_inv_def)
  have W: "\<forall>t. 0 < guards s j t \<longrightarrow> mowner (MTX s j) = Some t \<and> unat (mrecursive (MTX s j)) = guards s j t"
    using G(1,2) by blast
  then have U: "\<forall>t u. 0 < guards s j t \<and> 0 < guards s j u \<longrightarrow> t = u" by (metis option.inject)
  from L N W U G(5,6) mdata_kept [OF inv] show ?thesis by blast
qed

lemma mutual_exclusion_witness:
  "\<exists>s :: unit sync_state. \<exists>idle c. sync_reach demo_addrs idle s \<and> guards s 7 c = 1 \<and> mowner (MTX s 7) = Some c \<and> (\<forall>t. 0 < guards s 7 t \<longrightarrow> t = c)"
proof -
  obtain k idle c where k: "kreach demo_addrs idle k" "CURRENT_TCB k = Some c" "c \<noteq> idle" using busy_reach by blast
  let ?s = "sync_start k (\<lambda>j. ()) (\<lambda>i. 0)"
  have r: "sync_reach demo_addrs idle ?s" by (rule sync_boot [OF k(1)])
  have f: "KER ?s = k" "point_of ?s c = Outside" "guards ?s j t = 0" "MTX ?s 7 = mutex_new ()" for j t by (simp_all add: sync_start_def)
  have "wf_kernel k" using kreach_live [OF k(1)] by (simp add: live_inv_def kernel_inv_def)
  then have l: "mutex_lock (mutex_new ()) k = Some (\<lparr>mowner = Some c, mrecursive = 1, mwait = [], mdata = ()\<rparr>, k)"
    using current_tid_simp [OF _ k(2)] by (simp add: mutex_lock_def mutex_internal_lock_def mutex_new_def tl_new_def)
  have "sync_step demo_addrs idle ?s (locked 7 c \<lparr>mowner = Some c, mrecursive = 1, mwait = [], mdata = ()\<rparr> k ?s)"
    by (rule ss_lock) (use k l f in simp_all)
  from sync_next [OF r this] have r': "sync_reach demo_addrs idle (locked 7 c \<lparr>mowner = Some c, mrecursive = 1, mwait = [], mdata = ()\<rparr> k ?s)" .
  have g: "guards (locked 7 c \<lparr>mowner = Some c, mrecursive = 1, mwait = [], mdata = ()\<rparr> k ?s) 7 c = 1" by (simp add: locked_def f(3))
  note E = mutual_exclusion [OF r', of 7]
  show ?thesis
  proof (intro exI conjI allI impI)
    show "sync_reach demo_addrs idle (locked 7 c \<lparr>mowner = Some c, mrecursive = 1, mwait = [], mdata = ()\<rparr> k ?s)" by (rule r')
    show "guards (locked 7 c \<lparr>mowner = Some c, mrecursive = 1, mwait = [], mdata = ()\<rparr> k ?s) 7 c = 1" by (rule g)
    show "mowner (MTX (locked 7 c \<lparr>mowner = Some c, mrecursive = 1, mwait = [], mdata = ()\<rparr> k ?s) 7) = Some c"
      using conjunct1 [OF conjunct2 [OF E]] g by simp
    fix t assume "0 < guards (locked 7 c \<lparr>mowner = Some c, mrecursive = 1, mwait = [], mdata = ()\<rparr> k ?s) 7 t"
    then show "t = c" using conjunct1 [OF E] g by simp
  qed
qed

text \<open>C26. The kernel and its synchronisation objects never panic, whatever the priorities do to the order of the
  ready list, as long as no \<open>down_timeout\<close> waits and no task that waits or holds a guard is ended: in every state reachable
  that way the allowed calls of the kernel return, and a running task outside
  the primitives, other than the idle task, can lock every mutex, unlock and wait with every guard it holds, notify every
  condition variable, and call \<open>down\<close>, and \<open>up\<close> below 2^31 - 1 permits, on every semaphore; its \<open>down_timeout\<close> returns
  whether there was a permit, or goes on to wait only when there was none and ticks were given. \<open>try_down\<close> and \<open>up_from_isr\<close>
  return at any time, and a task that was woken inside \<open>wait\<close> can go on. Each of these steps,
  except the waiting \<open>down_timeout\<close>, leads to a reachable state.\<close>

theorem sync_never_panics:
  assumes "sync_reach ca idle s" and "CURRENT_TCB (KER s) = Some c"
  shows "safe_inv (KER s)
     \<and> (call_allowed idle call s \<longrightarrow> returns (\<lambda>k'. sync_reach ca idle (s\<lparr>KER := k'\<rparr>)) (kcall_run ca call (KER s)))
     \<and> (point_of s c = Outside \<and> c \<noteq> idle \<longrightarrow>
          (guards s j c < 4294967295 \<longrightarrow> returns (\<lambda>(m', k'). sync_reach ca idle (locked j c m' k' s)) (mutex_lock (MTX s j) (KER s)))
        \<and> (0 < guards s j c \<longrightarrow>
             returns (\<lambda>(m', k'). sync_reach ca idle (drop_guard j c (s\<lparr>MTX := (MTX s)(j := m'), KER := k'\<rparr>))) (mutex_guard_drop (MTX s j) (KER s))
           \<and> returns (\<lambda>(y, cv', m', k'). sync_reach ca idle (drop_guard j c (go c (InWait v y j)
                 (s\<lparr>CVS := (CVS s)(v := cv'), MTX := (MTX s)(j := m'), KER := k'\<rparr>)))) (condvar_wait_enter (CVS s v) (MTX s j) (KER s)))
        \<and> returns (\<lambda>(cv', k'). sync_reach ca idle (s\<lparr>CVS := (CVS s)(v := cv'), KER := k'\<rparr>)) (condvar_notify (CVS s v) (KER s))
        \<and> returns (\<lambda>(cv', k'). sync_reach ca idle (s\<lparr>CVS := (CVS s)(v := cv'), KER := k'\<rparr>)) (condvar_notify_all (CVS s v) (KER s))
        \<and> returns (\<lambda>(e', k'). sync_reach ca idle (downed i c e' k' s)) (sema_down (SEM s i) (KER s))
        \<and> (scount (SEM s i) < 2147483647 \<longrightarrow>
             returns (\<lambda>(e', k'). sync_reach ca idle (s\<lparr>SEM := (SEM s)(i := e'), KER := k'\<rparr>)) (sema_up (SEM s i) (KER s)))
        \<and> (case sema_down_timeout_try n (SEM s i) of
             (Some ok, e') \<Rightarrow> sync_reach ca idle (s\<lparr>SEM := (SEM s)(i := e')\<rparr>) \<and> (ok \<longleftrightarrow> 0 < scount (SEM s i))
           | (None, e') \<Rightarrow> e' = SEM s i \<and> scount (SEM s i) \<le> 0 \<and> 0 < n))
     \<and> (case sema_try_down (SEM s i) of (ok, e') \<Rightarrow> sync_reach ca idle (s\<lparr>SEM := (SEM s)(i := e')\<rparr>) \<and> (ok \<longleftrightarrow> 0 < scount (SEM s i)))
     \<and> (scount (SEM s i) < 2147483647 \<longrightarrow>
          returns (\<lambda>(e', k'). sync_reach ca idle (s\<lparr>SEM := (SEM s)(i := e'), KER := k'\<rparr>)) (sema_up_from_isr (SEM s i) (KER s)))
     \<and> (point_of s c = InWait v True j \<longrightarrow>
          returns (\<lambda>k'. sync_reach ca idle (go c (InWait v False j) (s\<lparr>KER := k'\<rparr>))) (condvar_wait_resume True (KER s)))
     \<and> (point_of s c = InWait v False j \<and> c \<noteq> idle \<and> guards s j c < 4294967295 \<longrightarrow>
          returns (\<lambda>(m', k'). sync_reach ca idle (locked j c m' k' s)) (mutex_lock (MTX s j) (KER s)))"
proof -
  have inv: "sync_inv idle s" by (rule sync_reach_inv [OF assms(1)])
  note I = sync_invD [OF inv] and c = assms(2) and N = sync_next [OF assms(1)]
  have call: "returns (\<lambda>k'. sync_reach ca idle (s\<lparr>KER := k'\<rparr>)) (kcall_run ca call (KER s))" if "call_allowed idle call s"
    using kcall_safe [OF I(1), of call ca] that N [OF ss_call [OF that]] by (auto simp: returns_iff call_allowed_def)
  have lock: "returns (\<lambda>(m', k'). sync_reach ca idle (locked j c m' k' s)) (mutex_lock (MTX s j) (KER s))"
    if "c \<noteq> idle" "point_of s c = Outside \<or> (\<exists>v. point_of s c = InWait v False j)" "guards s j c < 4294967295"
  proof -
    have "\<And>i. point_of s c \<noteq> InLock i" using that(2) by auto
    from inv_lock [OF inv c that(1) this that(3)] N [OF ss_lock [OF c that]] show ?thesis by (auto simp: returns_iff)
  qed
  have resume: "returns (\<lambda>k'. sync_reach ca idle (go c (InWait v False j) (s\<lparr>KER := k'\<rparr>))) (condvar_wait_resume True (KER s))"
    if "point_of s c = InWait v True j"
    using inv_resume [OF inv c that] N [OF ss_resume [OF c that]] by (auto simp: returns_iff)
  have drop: "returns (\<lambda>(m', k'). sync_reach ca idle (drop_guard j c (s\<lparr>MTX := (MTX s)(j := m'), KER := k'\<rparr>))) (mutex_guard_drop (MTX s j) (KER s))"
    and wait: "c \<noteq> idle \<Longrightarrow> returns (\<lambda>(y, cv', m', k'). sync_reach ca idle (drop_guard j c (go c (InWait v y j)
       (s\<lparr>CVS := (CVS s)(v := cv'), MTX := (MTX s)(j := m'), KER := k'\<rparr>)))) (condvar_wait_enter (CVS s v) (MTX s j) (KER s))"
    if "point_of s c = Outside" "0 < guards s j c"
    using inv_unlock [OF inv c that] N [OF ss_unlock [OF c that]] inv_wait [OF inv c that, of v] N [OF ss_wait [OF c _ that], of v]
    by (auto simp: returns_iff)
  have notify: "returns (\<lambda>(cv', k'). sync_reach ca idle (s\<lparr>CVS := (CVS s)(v := cv'), KER := k'\<rparr>)) (condvar_notify (CVS s v) (KER s))"
    "returns (\<lambda>(cv', k'). sync_reach ca idle (s\<lparr>CVS := (CVS s)(v := cv'), KER := k'\<rparr>)) (condvar_notify_all (CVS s v) (KER s))"
    "scount (SEM s i) < 2147483647 \<Longrightarrow> returns (\<lambda>(e', k'). sync_reach ca idle (s\<lparr>SEM := (SEM s)(i := e'), KER := k'\<rparr>)) (sema_up (SEM s i) (KER s))"
    if "point_of s c = Outside"
    using inv_notify [OF inv, of v] N [OF ss_notify [OF c that], of v] N [OF ss_notify_all [OF c that], of v] inv_up(1) [OF inv, of i] N [OF ss_up [OF c that], of i]
    by (auto simp: returns_iff)
  have down: "returns (\<lambda>(e', k'). sync_reach ca idle (downed i c e' k' s)) (sema_down (SEM s i) (KER s))" if "point_of s c = Outside" "c \<noteq> idle"
    using inv_down [OF inv c that, of i] N [OF ss_down [OF c that(2,1)], of i] by (auto simp: returns_iff)
  obtain ok e' where t: "sema_try_down (SEM s i) = (ok, e')" by (cases "sema_try_down (SEM s i)")
  then have ok: "ok \<longleftrightarrow> 0 < scount (SEM s i)" "\<not> ok \<Longrightarrow> e' = SEM s i" by (auto simp: sema_try_down_def split: if_splits)
  note T = N [OF ss_try [OF t]]
  have tried: "case sema_try_down (SEM s i) of (ok, e') \<Rightarrow> sync_reach ca idle (s\<lparr>SEM := (SEM s)(i := e')\<rparr>) \<and> (ok \<longleftrightarrow> 0 < scount (SEM s i))"
    using T t ok(1) by simp
  have timed: "case sema_down_timeout_try n (SEM s i) of
      (Some ok, e') \<Rightarrow> sync_reach ca idle (s\<lparr>SEM := (SEM s)(i := e')\<rparr>) \<and> (ok \<longleftrightarrow> 0 < scount (SEM s i))
    | (None, e') \<Rightarrow> e' = SEM s i \<and> scount (SEM s i) \<le> 0 \<and> 0 < n"
    using T t ok by (cases ok) (auto simp: sema_down_timeout_try_def unat_gt_0 word_gt_0)
  have isr: "returns (\<lambda>(e', k'). sync_reach ca idle (s\<lparr>SEM := (SEM s)(i := e'), KER := k'\<rparr>)) (sema_up_from_isr (SEM s i) (KER s))"
    if "scount (SEM s i) < 2147483647"
    using inv_up(2) [OF inv that] N [OF ss_up_isr [OF that]] by (auto simp: returns_iff)
  have "safe_inv (KER s)" using I(1) by (simp add: safe_live_def)
  with call lock resume drop wait notify down tried timed isr show ?thesis by blast
qed

lemma sync_never_panics_witness:
  "\<exists>k idle c. CURRENT_TCB k = Some c \<and> c \<noteq> idle
     \<and> returns (\<lambda>(m', k'). sync_reach demo_addrs idle (locked 3 c m' k' (sync_start k id (\<lambda>i. 0)))) (mutex_lock (mutex_new 3) k)
     \<and> returns (\<lambda>(e', k'). sync_reach demo_addrs idle (downed 0 c e' k' (sync_start k id (\<lambda>i. 0)))) (sema_down (sema_new 0) k)"
proof -
  obtain k idle c where k: "kreach demo_addrs idle k" "CURRENT_TCB k = Some c" "c \<noteq> idle" using busy_reach by blast
  let ?s = "sync_start k id (\<lambda>i. 0)"
  have f: "KER ?s = k" "point_of ?s c = Outside" "guards ?s j t = 0" "MTX ?s j = mutex_new j" "SEM ?s i = sema_new 0" for j t i
    by (simp_all add: sync_start_def)
  have r: "sync_reach demo_addrs idle ?s" by (rule sync_boot [OF k(1)])
  from sync_never_panics [OF r, unfolded f, OF k(2)] k(2,3)
  show ?thesis by (intro exI [of _ k] exI [of _ idle] exI [of _ c]) (simp add: f)
qed

end
