(* ===== verification/Mos_Timeout.thy ===== *)
theory Mos_Timeout
  imports Mos_Exclusion
begin

text \<open>
  Why the transition system of \<open>Mos_Exclusion\<close> leaves out a \<open>down_timeout\<close> that waits: a run of the operations of
  \<open>core/src/kernel/sync.rs\<close> from the launched kernel that ends with two tasks holding guards of one mutex. \<open>up\<close>
  does not take the task it wakes out of the sleeping list, so the old timeout still readies that task when it
  waits for something else, and \<open>Mutex::lock\<close> returns a guard whenever its caller runs again.
\<close>

subsection \<open>A launched kernel with two tasks\<close>

definition two_task_start :: "kernel option" where
  "two_task_start = do {
     (_, k) \<leftarrow> task_create demo_addrs [] 32 5 ''a'' (kernel_boot 0);
     (_, k) \<leftarrow> task_create demo_addrs [] 32 6 ''b'' k;
     sched_launch demo_addrs [] 32 k }"

text \<open>What the run below needs to know of that kernel; its stacks, names and addresses stay symbolic.\<close>

definition as_task :: "nat \<Rightarrow> task_status \<Rightarrow> u8 \<Rightarrow> tcb \<Rightarrow> tcb" where
  "as_task t st p x = \<lparr>sp = sp x, tcb_tid = t, status = st, priority = p, sub_priority = PRI_INV, time_slice = TIME_SLICE,
     wake_point = 0, tname = tname x, stack_bottom = stack_bottom x, closure_storage = closure_storage x,
     closure_invoker = closure_invoker x, thread_sema = thread_sema x, heap_stack_base = heap_stack_base x\<rparr>"

definition two_tasks :: "kernel \<Rightarrow> kernel" where
  "two_tasks k = \<lparr>TCBS = (TCBS k)(0 := as_task 0 Running 5 (TCBS k 0), 1 := as_task 1 Ready 6 (TCBS k 1), 2 := as_task 2 Ready PRI_MIN (TCBS k 2)),
     STACKS = STACKS k, READY_LIST = [0, 1, 2], BLOCKED_LIST = [], SLEEPING_LIST = [], OS_TICKS = 0, USER_NAME = USER_NAME k,
     TID_BITMAP = TID_BITMAP k, CURRENT_TCB = Some 0, SCHED_READY = True, STACKS_BASE = STACKS_BASE k, HEAP_STACKS = HEAP_STACKS k\<rparr>"

lemma two_task_start_facts:
  "map_option (\<lambda>k. (map (\<lambda>t. (tcb_tid (TCBS k t), status (TCBS k t), priority (TCBS k t), sub_priority (TCBS k t), time_slice (TCBS k t), wake_point (TCBS k t))) [0, 1, 2],
      READY_LIST k, BLOCKED_LIST k, SLEEPING_LIST k, OS_TICKS k, CURRENT_TCB k, SCHED_READY k)) two_task_start
   = Some ([(0, Running, 5, 255, 50, 0), (1, Ready, 6, 255, 50, 0), (2, Ready, 127, 255, 50, 0)], [0, 1, 2], [], [], 0, Some 0, True)"
  by code_simp

lemma two_tasks_same:
  assumes "map (\<lambda>t. (tcb_tid (TCBS k t), status (TCBS k t), priority (TCBS k t), sub_priority (TCBS k t), time_slice (TCBS k t), wake_point (TCBS k t))) [0, 1, 2]
      = [(0, Running, 5, 255, 50, 0), (1, Ready, 6, 255, 50, 0), (2, Ready, 127, 255, 50, 0)]"
    "READY_LIST k = [0, 1, 2]" "BLOCKED_LIST k = []" "SLEEPING_LIST k = []" "OS_TICKS k = 0" "CURRENT_TCB k = Some 0" "SCHED_READY k"
  shows "two_tasks k = k"
proof -
  have "as_task 0 Running 5 (TCBS k 0) = TCBS k 0" "as_task 1 Ready 6 (TCBS k 1) = TCBS k 1" "as_task 2 Ready PRI_MIN (TCBS k 2) = TCBS k 2"
    using assms(1) by (auto simp: as_task_def intro!: tcb.equality)
  then show ?thesis using assms by (intro kernel.equality) (simp_all add: two_tasks_def fun_upd_idem)
qed

lemma two_task_start_reach: "\<exists>k. kreach demo_addrs 2 k \<and> two_tasks k = k"
proof -
  obtain k where k: "two_task_start = Some k" using two_task_start_facts by (cases two_task_start) simp_all
  have e: "two_tasks k = k" by (rule two_tasks_same) (use two_task_start_facts [unfolded k] in simp_all)
  obtain r1 k1 r2 k2 where k1: "task_create demo_addrs [] 32 5 ''a'' (kernel_boot 0) = Some (r1, k1)"
    and k2: "task_create demo_addrs [] 32 6 ''b'' k1 = Some (r2, k2)" and l: "sched_launch demo_addrs [] 32 k2 = Some k"
    using k by (auto simp: two_task_start_def split: Option.bind_splits)
  have "kboot demo_addrs k2" by (rule boot_create [OF boot_create [OF boot_start k1] k2])
  moreover have "2 \<in> set (READY_LIST k)" by (subst e [symmetric]) (simp add: two_tasks_def)
  ultimately show ?thesis using reach_launch [OF _ l] e by blast
qed

subsection \<open>The run\<close>

text \<open>
  The task 0 waits on a semaphore for one tick at most; the task 1 locks the mutex and gives a permit, which hands
  the processor to the task 0; its \<open>down_timeout\<close> returns true; it locks the mutex and is queued; the tick comes.
\<close>

definition timeout_run :: "kernel \<Rightarrow> ((sema \<times> kernel) \<times> (unit mutex \<times> kernel) \<times> (sema \<times> kernel) \<times> (bool \<times> sema) \<times> (unit mutex \<times> kernel) \<times> kernel) option" where
  "timeout_run k0 = do {
     (e1, k1) \<leftarrow> sema_down_timeout_park 1 (sema_new 0) k0;
     (m2, k2) \<leftarrow> mutex_lock (mutex_new ()) k1;
     (e3, k3) \<leftarrow> sema_up e1 k2;
     f \<leftarrow> sema_down_timeout_finish e3 k3;
     (m4, k4) \<leftarrow> mutex_lock m2 k3;
     k5 \<leftarrow> systick_interrupt k4;
     Some ((e1, k1), (m2, k2), (e3, k3), f, (m4, k4), k5) }"

lemma timeout_run_result:
  "map_option (\<lambda>((e1, k1), (m2, k2), (e3, k3), f, (m4, k4), k5).
      (map CURRENT_TCB [k1, k2, k3, k4, k5], [swait e1, mwait m2, swait e3, mwait m4], [mowner m2, mowner m4], scount e1, f)) (timeout_run (two_tasks k))
   = Some ([Some 1, Some 1, Some 0, Some 1, Some 0], [[0], [], [], [0]], [Some 1, Some 1], - 1, True, \<lparr>scount = 0, swait = []\<rparr>)"
  by code_simp

subsection \<open>Two tasks in one mutex\<close>

text \<open>
  Every state after the waiting \<open>down_timeout\<close> of the task 0 follows by steps of the transition system and by the
  last critical section of that call, which finds the permit given to it.
\<close>

theorem timeout_breaks_exclusion:
  "\<exists>(s0 :: unit sync_state) e k s1 s2 s3 s4 s5 s6 s7. sync_reach demo_addrs 2 s0
     \<and> CURRENT_TCB (KER s0) = Some 0 \<and> point_of s0 0 = Outside
     \<and> sema_down_timeout_try 1 (SEM s0 0) = (None, SEM s0 0) \<and> sema_down_timeout_park 1 (SEM s0 0) (KER s0) = Some (e, k)
     \<and> s1 = downed 0 0 e k s0 \<and> CURRENT_TCB (KER s1) = Some 1
     \<and> sync_step demo_addrs 2 s1 s2 \<and> guards s2 0 1 = 1
     \<and> sync_step demo_addrs 2 s2 s3 \<and> CURRENT_TCB (KER s3) = Some 0
     \<and> sema_down_timeout_finish (SEM s3 0) (KER s3) = Some (True, SEM s3 0) \<and> s4 = go 0 Outside s3
     \<and> sync_step demo_addrs 2 s4 s5 \<and> point_of s5 0 = InLock 0
     \<and> sync_step demo_addrs 2 s5 s6 \<and> s6 = s5\<lparr>KER := KER s6\<rparr> \<and> CURRENT_TCB (KER s6) = Some 0
     \<and> sync_step demo_addrs 2 s6 s7 \<and> mowner (MTX s7 0) = Some 1 \<and> guards s7 0 0 = 1 \<and> guards s7 0 1 = 1"
proof -
  obtain k0 where k0: "kreach demo_addrs 2 k0" "two_tasks k0 = k0" using two_task_start_reach by blast
  have c0: "CURRENT_TCB k0 = Some 0" by (subst k0(2) [symmetric]) (simp add: two_tasks_def)
  note R = timeout_run_result [of k0, unfolded k0(2)]
  obtain e1 k1 m2 k2 e3 k3 f m4 k4 k5 where run: "timeout_run k0 = Some ((e1, k1), (m2, k2), (e3, k3), f, (m4, k4), k5)"
    using R by (cases "timeout_run k0") auto
  have r: "sema_down_timeout_park 1 (sema_new 0) k0 = Some (e1, k1)" "mutex_lock (mutex_new ()) k1 = Some (m2, k2)"
    "sema_up e1 k2 = Some (e3, k3)" "sema_down_timeout_finish e3 k3 = Some f" "mutex_lock m2 k3 = Some (m4, k4)" "systick_interrupt k4 = Some k5"
    using run by (auto simp: timeout_run_def split: Option.bind_splits)
  have c: "CURRENT_TCB k1 = Some 1" "CURRENT_TCB k2 = Some 1" "CURRENT_TCB k3 = Some 0" "CURRENT_TCB k4 = Some 1" "CURRENT_TCB k5 = Some 0"
    and w: "swait e1 = [0]" "mwait m2 = []" "swait e3 = []" "mwait m4 = [0]" "mowner m4 = Some 1" "scount e1 = - 1"
    and f: "f = (True, \<lparr>scount = 0, swait = []\<rparr>)"
    using R unfolding run by auto
  have f': "f = (True, e3)" using r(4) f w(3) by (auto simp: sema_down_timeout_finish_def tl_contains_def split: Option.bind_splits if_splits)
  define s0 where "s0 = sync_start k0 (\<lambda>_. ()) (\<lambda>_. 0)"
  have a0: "KER s0 = k0" "MTX s0 0 = mutex_new ()" "SEM s0 0 = sema_new 0" "point_of s0 = (\<lambda>t. Outside)" "guards s0 = (\<lambda>j t. 0)"
    by (simp_all add: s0_def sync_start_def)
  define s1 where "s1 = downed 0 0 e1 k1 s0"
  have a1: "KER s1 = k1" "MTX s1 0 = mutex_new ()" "SEM s1 0 = e1" "point_of s1 = (\<lambda>t. Outside)(0 := InDown 0)" "guards s1 = (\<lambda>j t. 0)"
    using w(1) a0 by (simp_all add: s1_def downed_def)
  define s2 where "s2 = locked 0 1 m2 k2 s1"
  have a2: "KER s2 = k2" "MTX s2 0 = m2" "SEM s2 0 = e1" "point_of s2 1 = Outside" "point_of s2 0 = InDown 0" "guards s2 0 1 = 1" "guards s2 0 0 = 0"
    using w(2) a1 by (simp_all add: s2_def locked_def)
  define s3 where "s3 = s2\<lparr>SEM := (SEM s2)(0 := e3), KER := k3\<rparr>"
  have a3: "KER s3 = k3" "MTX s3 = MTX s2" "SEM s3 0 = e3" "point_of s3 = point_of s2" "guards s3 = guards s2" by (simp_all add: s3_def)
  define s4 where "s4 = go 0 Outside s3"
  have a4: "KER s4 = k3" "MTX s4 0 = m2" "point_of s4 0 = Outside" "guards s4 = guards s2" using a2 a3 by (simp_all add: s4_def)
  define s5 where "s5 = locked 0 0 m4 k4 s4"
  have a5: "KER s5 = k4" "MTX s5 0 = m4" "point_of s5 0 = InLock 0" "guards s5 = guards s2" using w(4) a4 by (simp_all add: s5_def locked_def)
  define s6 where "s6 = s5\<lparr>KER := k5\<rparr>"
  have a6: "KER s6 = k5" "MTX s6 0 = m4" "point_of s6 0 = InLock 0" "guards s6 = guards s2" using a5 by (simp_all add: s6_def)
  have start: "sync_reach demo_addrs 2 s0" unfolding s0_def by (rule sync_boot [OF k0(1)])
  have S2: "sync_step demo_addrs 2 s1 s2" unfolding s2_def by (rule ss_lock) (use c a1 r in simp_all)
  have S3: "sync_step demo_addrs 2 s2 s3" unfolding s3_def by (rule ss_up [where c = 1]) (use c a2 r w in simp_all)
  have S5: "sync_step demo_addrs 2 s4 s5" unfolding s5_def by (rule ss_lock) (use c a4 a2 r in simp_all)
  have S6: "sync_step demo_addrs 2 s5 s6" unfolding s6_def by (rule ss_call [where c = KTick]) (use a5 r in \<open>simp_all add: call_allowed_def\<close>)
  have S7: "sync_step demo_addrs 2 s6 (add_guard 0 0 (go 0 Outside s6))" by (rule ss_granted) (use c a6 in simp_all)
  have tr: "sema_down_timeout_try 1 (SEM s0 0) = (None, SEM s0 0)" using a0 by (simp add: sema_down_timeout_try_def sema_try_down_def sema_new_def)
  show ?thesis
    by (rule exI [of _ s0], rule exI [of _ e1], rule exI [of _ k1], rule exI [of _ s1], rule exI [of _ s2], rule exI [of _ s3],
        rule exI [of _ s4], rule exI [of _ s5], rule exI [of _ s6], rule exI [of _ "add_guard 0 0 (go 0 Outside s6)"])
      (use start S2 S3 S5 S6 S7 tr a0 a1 a2 a3 a5 a6 c c0 r f' w s1_def s4_def in \<open>simp add: s6_def\<close>)
qed

end
