(* ===== verification/Mos_Heap.thy ===== *)
theory Mos_Heap
  imports Mos_Ring
begin

section \<open>Array heaps\<close>

text \<open>
  The sifting loops of an array heap over a strict comparison, on plain lists, and the interface of
  a priority queue that the timer queue of \<open>core/src/kernel/async_rt.rs\<close> provides.
\<close>

definition swap :: "nat \<Rightarrow> nat \<Rightarrow> 'a list \<Rightarrow> 'a list" where
  "swap i j xs = xs[i := xs ! j, j := xs ! i]"

lemma length_swap [simp]: "length (swap i j xs) = length xs"
  by (simp add: swap_def)

lemma mset_swap_eq [simp]: "i < length xs \<Longrightarrow> j < length xs \<Longrightarrow> mset (swap i j xs) = mset xs"
  by (simp add: swap_def mset_swap)

lemma set_swap_eq [simp]: "i < length xs \<Longrightarrow> j < length xs \<Longrightarrow> set (swap i j xs) = set xs"
  by (metis mset_swap_eq set_mset_mset)

lemma swap_nth:
  "i < length xs \<Longrightarrow> j < length xs \<Longrightarrow> k < length xs \<Longrightarrow>
   swap i j xs ! k = (if k = j then xs ! i else if k = i then xs ! j else xs ! k)"
  by (simp add: swap_def nth_list_update)

function sift_up :: "('a \<Rightarrow> 'a \<Rightarrow> bool) \<Rightarrow> nat \<Rightarrow> 'a list \<Rightarrow> 'a list" where
  "sift_up lt idx xs =
     (if 0 < idx \<and> lt (xs ! idx) (xs ! ((idx - 1) div 2))
      then sift_up lt ((idx - 1) div 2) (swap idx ((idx - 1) div 2) xs) else xs)"
  by pat_completeness auto
termination by (relation "measure (\<lambda>(lt, idx, xs). idx)") auto

declare sift_up.simps [simp del]

text \<open>The child that is smallest together with its parent, as the loop finds it.\<close>

definition min_child :: "('a \<Rightarrow> 'a \<Rightarrow> bool) \<Rightarrow> nat \<Rightarrow> 'a list \<Rightarrow> nat" where
  "min_child lt idx xs =
     (let s = (if 2 * idx + 1 < length xs \<and> lt (xs ! (2 * idx + 1)) (xs ! idx) then 2 * idx + 1 else idx)
      in if 2 * idx + 2 < length xs \<and> lt (xs ! (2 * idx + 2)) (xs ! s) then 2 * idx + 2 else s)"

lemma min_child_cases:
  "min_child lt idx xs = idx \<or> min_child lt idx xs = 2 * idx + 1 \<and> 2 * idx + 1 < length xs
   \<or> min_child lt idx xs = 2 * idx + 2 \<and> 2 * idx + 2 < length xs"
  by (auto simp: min_child_def Let_def)

function sift_down :: "('a \<Rightarrow> 'a \<Rightarrow> bool) \<Rightarrow> nat \<Rightarrow> 'a list \<Rightarrow> 'a list" where
  "sift_down lt idx xs =
     (if min_child lt idx xs \<noteq> idx
      then sift_down lt (min_child lt idx xs) (swap idx (min_child lt idx xs) xs) else xs)"
  by pat_completeness auto
termination
proof (relation "measure (\<lambda>(lt, idx, xs). length xs - idx)", goal_cases)
  case (2 lt idx xs)
  then show ?case using min_child_cases [of lt idx xs] by auto
qed simp

declare sift_down.simps [simp del]

subsection \<open>The heap order\<close>

definition heap_ok :: "('a \<Rightarrow> nat) \<Rightarrow> 'a list \<Rightarrow> bool" where
  "heap_ok key xs \<longleftrightarrow> (\<forall>i. 0 < i \<longrightarrow> i < length xs \<longrightarrow> key (xs ! ((i - 1) div 2)) \<le> key (xs ! i))"

text \<open>The heap order everywhere but between \<open>idx\<close> and its parent.\<close>

definition heap_up :: "('a \<Rightarrow> nat) \<Rightarrow> nat \<Rightarrow> 'a list \<Rightarrow> bool" where
  "heap_up key idx xs \<longleftrightarrow>
     (\<forall>i. 0 < i \<longrightarrow> i < length xs \<longrightarrow> i \<noteq> idx \<longrightarrow> key (xs ! ((i - 1) div 2)) \<le> key (xs ! i))
     \<and> (\<forall>i. 0 < idx \<longrightarrow> 0 < i \<longrightarrow> i < length xs \<longrightarrow> (i - 1) div 2 = idx
          \<longrightarrow> key (xs ! ((idx - 1) div 2)) \<le> key (xs ! i))"

text \<open>The heap order everywhere but between \<open>idx\<close> and its children.\<close>

definition heap_down :: "('a \<Rightarrow> nat) \<Rightarrow> nat \<Rightarrow> 'a list \<Rightarrow> bool" where
  "heap_down key idx xs \<longleftrightarrow>
     (\<forall>i. 0 < i \<longrightarrow> i < length xs \<longrightarrow> (i - 1) div 2 \<noteq> idx \<longrightarrow> key (xs ! ((i - 1) div 2)) \<le> key (xs ! i))
     \<and> (\<forall>i. 0 < idx \<longrightarrow> 0 < i \<longrightarrow> i < length xs \<longrightarrow> (i - 1) div 2 = idx
          \<longrightarrow> key (xs ! ((idx - 1) div 2)) \<le> key (xs ! i))"

definition lt_key :: "('a \<Rightarrow> 'a \<Rightarrow> bool) \<Rightarrow> ('a \<Rightarrow> nat) \<Rightarrow> 'a set \<Rightarrow> bool" where
  "lt_key lt key A \<longleftrightarrow> (\<forall>a \<in> A. \<forall>b \<in> A. lt a b \<longleftrightarrow> key a < key b)"

lemma lt_keyD: "lt_key lt key (set xs) \<Longrightarrow> i < length xs \<Longrightarrow> j < length xs \<Longrightarrow>
    lt (xs ! i) (xs ! j) \<longleftrightarrow> key (xs ! i) < key (xs ! j)"
  by (simp add: lt_key_def)

lemma sift_up_heap:
  assumes "lt_key lt key (set xs)" "idx < length xs" "heap_up key idx xs"
  shows "mset (sift_up lt idx xs) = mset xs \<and> heap_ok key (sift_up lt idx xs)"
  using assms
proof (induction lt idx xs rule: sift_up.induct)
  case (1 lt idx xs)
  let ?p = "(idx - 1) div 2"
  have p: "?p < length xs" using "1.prems"(2) by linarith
  show ?case
  proof (cases "0 < idx \<and> lt (xs ! idx) (xs ! ?p)")
    case True
    then have pl: "?p < idx" by auto
    have key: "key (xs ! idx) < key (xs ! ?p)"
      using True lt_keyD [OF "1.prems"(1,2) p] by blast
    let ?ys = "swap idx ?p xs"
    note nth = swap_nth [OF "1.prems"(2) p]
    have up: "heap_up key ?p ?ys"
      unfolding heap_up_def
    proof (intro conjI allI impI)
      fix i assume i: "0 < i" "i < length ?ys" "i \<noteq> ?p"
      then have l: "i < length xs" "(i - 1) div 2 < length xs" by auto
      have old: "i \<noteq> idx \<Longrightarrow> key (xs ! ((i - 1) div 2)) \<le> key (xs ! i)"
        using "1.prems"(3) i l unfolding heap_up_def by blast
      have child: "(i - 1) div 2 = idx \<Longrightarrow> key (xs ! ?p) \<le> key (xs ! i)"
        using "1.prems"(3) i l True unfolding heap_up_def by blast
      have ii: "(i - 1) div 2 \<noteq> i" using i(1) by auto
      define q where "q = (i - 1) div 2"
      show "key (?ys ! ((i - 1) div 2)) \<le> key (?ys ! i)"
      proof (cases "i = idx")
        case True
        then show ?thesis using nth [OF l(1)] nth [OF l(2)] key i(3) by simp
      next
        case False
        then have yi: "?ys ! i = xs ! i" using nth [OF l(1)] i(3) by simp
        have yq: "?ys ! q = (if q = ?p then xs ! idx else if q = idx then xs ! ?p else xs ! q)"
          using nth [OF l(2)] unfolding q_def .
        have old': "key (xs ! q) \<le> key (xs ! i)" using old [OF False] unfolding q_def .
        have child': "q = idx \<Longrightarrow> key (xs ! ?p) \<le> key (xs ! i)" using child unfolding q_def .
        have "key (?ys ! q) \<le> key (xs ! i)"
        proof (cases "q = ?p")
          case True
          with yq old' key show ?thesis by simp
        next
          case nqp: False
          show ?thesis
          proof (cases "q = idx")
            case True
            have "?ys ! q = xs ! ?p" unfolding yq if_not_P [OF nqp] by (rule if_P [OF True])
            with child' [OF True] show ?thesis by simp
          next
            case nqi: False
            have "?ys ! q = xs ! q" unfolding yq if_not_P [OF nqp] if_not_P [OF nqi] ..
            with old' show ?thesis by simp
          qed
        qed
        then show ?thesis unfolding yi q_def .
      qed
    next
      fix i assume i: "0 < ?p" "0 < i" "i < length ?ys" "(i - 1) div 2 = ?p"
      then have l: "i < length xs" by simp
      have l2: "(?p - 1) div 2 < length xs" using p by linarith
      have gp: "key (xs ! ((?p - 1) div 2)) \<le> key (xs ! ?p)"
        using "1.prems"(3) i(1) p pl unfolding heap_up_def by auto
      have sib: "i \<noteq> idx \<Longrightarrow> key (xs ! ?p) \<le> key (xs ! i)"
        using "1.prems"(3) i l unfolding heap_up_def by metis
      have gl: "(?p - 1) div 2 < ?p" using i(1) by linarith
      then have "i \<noteq> ?p" "(?p - 1) div 2 \<noteq> ?p" "(?p - 1) div 2 \<noteq> idx" using i(4) pl by auto
      then show "key (?ys ! ((?p - 1) div 2)) \<le> key (?ys ! i)"
        unfolding nth [OF l] nth [OF l2] using gp sib by (auto intro: order.trans)
    qed
    have "mset (sift_up lt ?p ?ys) = mset ?ys \<and> heap_ok key (sift_up lt ?p ?ys)"
      using "1.IH" [OF True] "1.prems"(1,2) p up by simp
    then show ?thesis
      using True "1.prems"(2) p by (simp add: sift_up.simps [of lt idx xs])
  next
    case False
    then have "heap_ok key xs"
      using "1.prems"(3) lt_keyD [OF "1.prems"(1,2) p] unfolding heap_up_def heap_ok_def
      by (metis linorder_not_less)
    moreover have "sift_up lt idx xs = xs" by (subst sift_up.simps) (rule if_not_P [OF False])
    ultimately show ?thesis by simp
  qed
qed

lemma heap_downD:
  assumes "heap_down key idx xs" "0 < i" "i < length xs"
  shows "(i - 1) div 2 \<noteq> idx \<Longrightarrow> key (xs ! ((i - 1) div 2)) \<le> key (xs ! i)"
    and "0 < idx \<Longrightarrow> (i - 1) div 2 = idx \<Longrightarrow> key (xs ! ((idx - 1) div 2)) \<le> key (xs ! i)"
  using assms unfolding heap_down_def by blast+

lemma min_child_min:
  assumes "lt_key lt key (set xs)" "idx < length xs"
  defines "s \<equiv> min_child lt idx xs"
  shows "s < length xs" "key (xs ! s) \<le> key (xs ! idx)" "s \<noteq> idx \<Longrightarrow> key (xs ! s) < key (xs ! idx)"
    "\<And>i. 0 < i \<Longrightarrow> i < length xs \<Longrightarrow> (i - 1) div 2 = idx \<Longrightarrow> key (xs ! s) \<le> key (xs ! i)"
    "s \<noteq> idx \<Longrightarrow> (s - 1) div 2 = idx \<and> 0 < s"
proof -
  note lt = lt_keyD [OF assms(1)]
  show sl: "s < length xs" using min_child_cases [of lt idx xs] assms(2) by (auto simp: s_def)
  show "key (xs ! s) \<le> key (xs ! idx)" "s \<noteq> idx \<Longrightarrow> key (xs ! s) < key (xs ! idx)"
    unfolding s_def min_child_def Let_def using assms(2) by (auto simp: lt split: if_splits)
  fix i assume i: "0 < i" "i < length xs" "(i - 1) div 2 = idx"
  then have "i = 2 * idx + 1 \<or> i = 2 * idx + 2" by linarith
  then show "key (xs ! s) \<le> key (xs ! i)"
    unfolding s_def min_child_def Let_def using assms(2) i(2) by (auto simp: lt split: if_splits)
next
  show "s \<noteq> idx \<Longrightarrow> (s - 1) div 2 = idx \<and> 0 < s"
    using min_child_cases [of lt idx xs] by (auto simp: s_def)
qed

lemma sift_down_heap:
  assumes "lt_key lt key (set xs)" "idx < length xs" "heap_down key idx xs"
  shows "mset (sift_down lt idx xs) = mset xs \<and> heap_ok key (sift_down lt idx xs)"
  using assms
proof (induction lt idx xs rule: sift_down.induct)
  case (1 lt idx xs)
  let ?s = "min_child lt idx xs"
  note min = min_child_min [OF "1.prems"(1,2)]
  note hd = heap_downD [OF "1.prems"(3)]
  show ?case
  proof (cases "?s = idx")
    case True
    then have "heap_ok key xs"
      using hd(1) min(4) unfolding heap_ok_def by metis
    with True show ?thesis by (simp add: sift_down.simps [of lt idx xs])
  next
    case False
    let ?ys = "swap idx ?s xs"
    note nth = swap_nth [OF "1.prems"(2) min(1)]
    note s = min(5) [OF False]
    have "heap_down key ?s ?ys"
      unfolding heap_down_def
    proof (intro conjI allI impI)
      fix i assume i: "0 < i" "i < length ?ys" "(i - 1) div 2 \<noteq> ?s"
      then have l: "i < length xs" "(i - 1) div 2 < length xs" by auto
      have ii: "(i - 1) div 2 \<noteq> i" using i(1) by auto
      define q where "q = (i - 1) div 2"
      have yi: "?ys ! i = (if i = ?s then xs ! idx else if i = idx then xs ! ?s else xs ! i)"
        by (rule nth [OF l(1)])
      have yq: "?ys ! q = (if q = ?s then xs ! idx else if q = idx then xs ! ?s else xs ! q)"
        using nth [OF l(2)] unfolding q_def .
      have qs: "q \<noteq> ?s" using i(3) unfolding q_def .
      have "key (?ys ! q) \<le> key (?ys ! i)"
      proof (cases "i = ?s")
        case True
        then have qi: "q = idx" using s unfolding q_def by simp
        have "?ys ! i = xs ! idx" unfolding yi by (rule if_P [OF True])
        moreover have "?ys ! q = xs ! ?s" unfolding yq if_not_P [OF qs] by (rule if_P [OF qi])
        ultimately show ?thesis using min(2) by simp
      next
        case nis: False
        show ?thesis
        proof (cases "q = idx")
          case True
          then have "i \<noteq> idx" using ii unfolding q_def by blast
          then have "?ys ! i = xs ! i" unfolding yi using nis by simp
          moreover have "?ys ! q = xs ! ?s" unfolding yq if_not_P [OF qs] by (rule if_P [OF True])
          ultimately show ?thesis using min(4) [OF i(1) l(1)] True unfolding q_def by simp
        next
          case nqi: False
          have yq': "?ys ! q = xs ! q" unfolding yq if_not_P [OF qs] if_not_P [OF nqi] ..
          have old: "key (xs ! q) \<le> key (xs ! i)" using hd(1) [OF i(1) l(1)] nqi unfolding q_def by simp
          show ?thesis
          proof (cases "i = idx")
            case True
            have "?ys ! i = xs ! ?s" unfolding yi if_not_P [OF nis] by (rule if_P [OF True])
            moreover have "key (xs ! q) \<le> key (xs ! ?s)"
            proof -
              have "key (xs ! ((idx - 1) div 2)) \<le> key (xs ! ?s)"
                using hd(2) [of ?s] min(1) s True i(1) by simp
              then show ?thesis using True unfolding q_def by simp
            qed
            ultimately show ?thesis using yq' by simp
          next
            case False
            then have "?ys ! i = xs ! i" unfolding yi using nis by simp
            then show ?thesis using yq' old by simp
          qed
        qed
      qed
      then show "key (?ys ! ((i - 1) div 2)) \<le> key (?ys ! i)" unfolding q_def .
    next
      fix i assume i: "0 < ?s" "0 < i" "i < length ?ys" "(i - 1) div 2 = ?s"
      then have l: "i < length xs" by simp
      have "i \<noteq> idx" "i \<noteq> ?s" using i s by auto
      moreover have "key (xs ! ?s) \<le> key (xs ! i)"
        using hd(1) [OF i(2) l] i(4) False by simp
      ultimately show "key (?ys ! ((?s - 1) div 2)) \<le> key (?ys ! i)"
        using s nth [OF l] nth [OF "1.prems"(2)] False by simp
    qed
    then have "mset (sift_down lt ?s ?ys) = mset ?ys \<and> heap_ok key (sift_down lt ?s ?ys)"
      using "1.IH" [OF False] "1.prems"(1,2) min(1) by simp
    then show ?thesis
      using False "1.prems"(2) min(1) by (simp add: sift_down.simps [of lt idx xs])
  qed
qed

lemma heap_ok_top:
  assumes "heap_ok key xs" "i < length xs"
  shows "key (xs ! 0) \<le> key (xs ! i)"
  using assms(2)
proof (induction i rule: less_induct)
  case (less i)
  show ?case
  proof (cases "i = 0")
    case False
    then have "(i - 1) div 2 < i" by linarith
    with less have "key (xs ! 0) \<le> key (xs ! ((i - 1) div 2))" by simp
    also have "\<dots> \<le> key (xs ! i)" using assms(1) less.prems False by (simp add: heap_ok_def)
    finally show ?thesis .
  qed simp
qed

lemma heap_up_append: "heap_ok key xs \<Longrightarrow> heap_up key (length xs) (xs @ [x])"
  by (auto simp: heap_ok_def heap_up_def nth_append)

lemma heap_down_replace:
  assumes "heap_ok key (x # xs)" "xs \<noteq> []"
  shows "heap_down key 0 (last xs # butlast xs)"
  unfolding heap_down_def
proof (intro conjI allI impI)
  fix i assume i: "0 < i" "i < length (last xs # butlast xs)" "(i - 1) div 2 \<noteq> 0"
  let ?ys = "last xs # butlast xs"
  have same: "?ys ! j = (x # xs) ! j" if "0 < j" "j < length xs" for j
    using that assms(2) by (cases j) (simp_all add: nth_butlast)
  have l: "i < length xs" "0 < (i - 1) div 2" "(i - 1) div 2 < length xs" using i assms(2) by auto
  then have "key ((x # xs) ! ((i - 1) div 2)) \<le> key ((x # xs) ! i)"
    using assms(1) i(1) unfolding heap_ok_def by (metis length_Cons less_SucI)
  then show "key (?ys ! ((i - 1) div 2)) \<le> key (?ys ! i)"
    using same [OF i(1) l(1)] same [OF l(2,3)] by simp
qed simp

subsection \<open>The interface of a bounded priority queue\<close>

fun drain :: "('q \<Rightarrow> ('a \<times> 'q) option) \<Rightarrow> nat \<Rightarrow> 'q \<Rightarrow> ('a list \<times> 'q) option" where
  "drain pop 0 q = Some ([], q)"
| "drain pop (Suc n) q = do { (x, q) \<leftarrow> pop q; (xs, q) \<leftarrow> drain pop n q; Some (x # xs, q) }"

locale prio_queue =
  fixes key :: "'a \<Rightarrow> nat"
    and ok :: "'a \<Rightarrow> bool"
    and cap :: nat
    and inv :: "'q \<Rightarrow> bool"
    and elems :: "'q \<Rightarrow> 'a multiset"
    and push :: "'a \<Rightarrow> 'q \<Rightarrow> 'q option"
    and pop :: "'q \<Rightarrow> ('a \<times> 'q) option"
  assumes push_law: "inv q \<Longrightarrow> ok x \<Longrightarrow>
        returns (\<lambda>q'. inv q' \<and> elems q' = (if size (elems q) < cap then add_mset x (elems q) else elems q)) (push x q)"
    and pop_law: "inv q \<Longrightarrow> elems q \<noteq> {#} \<Longrightarrow>
        returns (\<lambda>(x, q'). inv q' \<and> elems q = add_mset x (elems q') \<and> (\<forall>y \<in># elems q. key x \<le> key y)) (pop q)"
begin

text \<open>Taking everything out yields the elements in the order of their keys.\<close>

lemma drain_sorted:
  "inv q \<Longrightarrow> size (elems q) = n \<Longrightarrow>
   returns (\<lambda>(xs, q'). inv q' \<and> mset xs = elems q \<and> sorted (map key xs) \<and> elems q' = {#}) (drain pop n q)"
proof (induction n arbitrary: q)
  case (Suc n)
  then have "elems q \<noteq> {#}" by auto
  with pop_law [OF Suc.prems(1)] obtain x q1 where x: "pop q = Some (x, q1)" "inv q1"
    "elems q = add_mset x (elems q1)" "\<forall>y \<in># elems q. key x \<le> key y"
    by (auto simp: returns_iff)
  then have "size (elems q1) = n" using Suc.prems(2) by simp
  with Suc.IH [OF x(2)] obtain xs q2 where xs: "drain pop n q1 = Some (xs, q2)" "inv q2" "mset xs = elems q1"
    "sorted (map key xs)" "elems q2 = {#}"
    by (auto simp: returns_iff)
  have "\<forall>y \<in> set xs. key x \<le> key y" using x(3,4) xs(3) by (simp flip: set_mset_mset)
  with x xs show ?case by simp
qed simp

lemma push_list_elems:
  "inv q \<Longrightarrow> \<forall>x \<in> set xs. ok x \<Longrightarrow> size (elems q) + length xs \<le> cap \<Longrightarrow>
   returns (\<lambda>q'. inv q' \<and> elems q' = elems q + mset xs) (push_list push xs q)"
proof (induction xs arbitrary: q)
  case (Cons x xs)
  then obtain q1 where "push x q = Some q1" "inv q1" "elems q1 = add_mset x (elems q)"
    using push_law [of q x] by (auto simp: returns_iff)
  with Cons.IH [of q1] Cons.prems show ?case by simp
qed simp

text \<open>A priority queue sorts.\<close>

lemma sorts:
  assumes "inv q" "elems q = {#}" "\<forall>x \<in> set xs. ok x" "length xs \<le> cap"
  shows "returns (\<lambda>(ys, q'). inv q' \<and> mset ys = mset xs \<and> sorted (map key ys) \<and> elems q' = {#})
    (do { q \<leftarrow> push_list push xs q; drain pop (length xs) q })"
proof -
  obtain q1 where q1: "push_list push xs q = Some q1" "inv q1" "elems q1 = mset xs"
    using push_list_elems [OF assms(1,3)] assms(2,4) by (auto simp: returns_iff)
  with drain_sorted [OF q1(2), of "length xs"] show ?thesis by simp
qed

end

end
