(* ===== verification/Mos_Async.thy ===== *)
theory Mos_Async
  imports Mos_Heap Mos_Task
begin

section \<open>The async executor\<close>

text \<open>
  \<open>core/src/kernel/async_rt.rs\<close>: the pool of task slots, the wakers, the timer queue (an array heap
  over wake ticks compared modulo the wrap of the tick counter), the executor's polling round and
  the two futures of the module. A future is a value of a type \<open>'f\<close> and polling it is a parameter of
  the executor: \<open>poll f idx s\<close> is the outcome of the compiled state machine when it is polled with
  the waker of slot \<open>idx\<close> in state \<open>s\<close> (whether it is ready, the future after the call, and the state,
  in which it may have woken slots, registered timers and spawned futures; \<open>None\<close> when it panics). A
  waker is the index it carries.
\<close>

subsection \<open>Task slots and wakers\<close>

text \<open>
  \<open>TaskSlot\<close>: \<open>poll_fn\<close> and the storage together hold the future or nothing; \<open>sdrop\<close> tells whether
  \<open>drop_fn\<close> is set. The size and alignment assertions of \<open>spawn\<close> are checked at compile time.
\<close>

record 'f slot =
  sfuture :: "'f option"
  sdrop :: bool
  sready :: bool

record timer_entry =
  wake_tick :: u32
  waker_idx :: nat

record timer_queue =
  tdata :: "timer_entry cell list"
  tlen :: nat

record 'f async =
  pool :: "'f slot list"
  timers :: timer_queue
  init_flag :: bool

definition slot_empty :: "'f slot" where
  "slot_empty = \<lparr>sfuture = None, sdrop = False, sready = False\<rparr>"

definition slot_is_free :: "'f slot \<Rightarrow> bool" where
  "slot_is_free s = (sfuture s = None)"

definition slot_store :: "bool \<Rightarrow> 'f \<Rightarrow> 'f slot \<Rightarrow> 'f slot" where
  "slot_store needs_drop f s = s\<lparr>sfuture := Some f, sdrop := needs_drop, sready := True\<rparr>"

text \<open>\<open>clear\<close>; the first component is the future whose destructor runs.\<close>

definition slot_clear :: "'f slot \<Rightarrow> 'f option \<times> 'f slot" where
  "slot_clear s = (if sdrop s then sfuture s else None,
     s\<lparr>sfuture := None, sdrop := False, sready := False\<rparr>)"

definition waker_wake_by_ref :: "nat \<Rightarrow> 'f async \<Rightarrow> 'f async option" where
  "waker_wake_by_ref idx a =
     (if idx < ASYNC_POOL_MAX then do {
        s \<leftarrow> array_get (pool a) idx;
        p \<leftarrow> array_set (pool a) idx (s\<lparr>sready := True\<rparr>);
        Some (a\<lparr>pool := p\<rparr>) }
      else Some a)"

definition waker_wake :: "nat \<Rightarrow> 'f async \<Rightarrow> 'f async option" where
  "waker_wake idx a = waker_wake_by_ref idx a"

subsection \<open>The timer queue\<close>

definition tq_new :: timer_queue where
  "tq_new = \<lparr>tdata = replicate ASYNC_POOL_MAX Uninit, tlen = 0\<rparr>"

text \<open>The comparison \<open>(a.wrapping_sub(b) as i32) < 0\<close>, and the read of an initialised cell.\<close>

definition tick_before :: "u32 \<Rightarrow> u32 \<Rightarrow> bool" where
  "tick_before a b = (sint (a - b) < 0)"

definition cell_at :: "'a cell list \<Rightarrow> nat \<Rightarrow> 'a option" where
  "cell_at d i = do { c \<leftarrow> array_get d i; assume_init c }"

function tq_sift_up :: "nat \<Rightarrow> timer_entry cell list \<Rightarrow> timer_entry cell list option" where
  "tq_sift_up idx d =
     (if 0 < idx then
        let parent = (idx - 1) div 2 in do {
          e \<leftarrow> cell_at d idx;
          p \<leftarrow> cell_at d parent;
          if tick_before (wake_tick e) (wake_tick p) then do {
            d \<leftarrow> array_set d idx (Init p);
            d \<leftarrow> array_set d parent (Init e);
            tq_sift_up parent d }
          else Some d }
      else Some d)"
  by pat_completeness auto
termination by (relation "measure (\<lambda>(idx, d). idx)") auto

declare tq_sift_up.simps [simp del]

text \<open>One round of the loop of \<open>sift_down\<close>: the index \<open>smallest\<close>.\<close>

definition tq_smallest :: "nat \<Rightarrow> nat \<Rightarrow> timer_entry cell list \<Rightarrow> nat option" where
  "tq_smallest n idx d = do {
     let left = 2 * idx + 1;
     let right = 2 * idx + 2;
     smallest \<leftarrow> (if left < n then do {
         s \<leftarrow> cell_at d idx;
         l \<leftarrow> cell_at d left;
         Some (if tick_before (wake_tick l) (wake_tick s) then left else idx) } else Some idx);
     if right < n then do {
       s \<leftarrow> cell_at d smallest;
       r \<leftarrow> cell_at d right;
       Some (if tick_before (wake_tick r) (wake_tick s) then right else smallest) } else Some smallest }"

lemma tq_smallest_less: "tq_smallest n idx d = Some s \<Longrightarrow> s \<noteq> idx \<Longrightarrow> idx < s \<and> s < n"
  by (auto simp: tq_smallest_def Let_def split: if_splits Option.bind_splits)

function tq_sift_down :: "nat \<Rightarrow> nat \<Rightarrow> timer_entry cell list \<Rightarrow> timer_entry cell list option" where
  "tq_sift_down n idx d =
     (case tq_smallest n idx d of None \<Rightarrow> None
      | Some smallest \<Rightarrow>
          if smallest \<noteq> idx then do {
            e \<leftarrow> cell_at d idx;
            s \<leftarrow> cell_at d smallest;
            d \<leftarrow> array_set d idx (Init s);
            d \<leftarrow> array_set d smallest (Init e);
            tq_sift_down n smallest d }
          else Some d)"
  by pat_completeness auto
termination by (relation "measure (\<lambda>(n, idx, d). n - idx)") (auto dest!: tq_smallest_less)

declare tq_sift_down.simps [simp del]

definition tq_push :: "timer_entry \<Rightarrow> timer_queue \<Rightarrow> timer_queue option" where
  "tq_push entry q =
     (if ASYNC_POOL_MAX \<le> tlen q then Some q
      else do {
        d \<leftarrow> array_set (tdata q) (tlen q) (Init entry);
        let n = tlen q + 1;
        d \<leftarrow> tq_sift_up (n - 1) d;
        Some (q\<lparr>tdata := d, tlen := n\<rparr>) })"

text \<open>\<open>self.len -= 1\<close> wraps on an empty queue; the index is then out of range.\<close>

definition tq_pop_front :: "timer_queue \<Rightarrow> (timer_entry \<times> timer_queue) option" where
  "tq_pop_front q = do {
     first \<leftarrow> cell_at (tdata q) 0;
     let n = (if tlen q = 0 then 2 ^ 32 - 1 else tlen q - 1);
     if 0 < n then do {
       last_entry \<leftarrow> cell_at (tdata q) n;
       d \<leftarrow> array_set (tdata q) 0 (Init last_entry);
       d \<leftarrow> tq_sift_down n 0 d;
       Some (first, q\<lparr>tdata := d, tlen := n\<rparr>) }
     else Some (first, q\<lparr>tlen := n\<rparr>) }"

lemma tq_pop_front_len: "tq_pop_front q = Some (e, q') \<Longrightarrow> tlen q \<noteq> 0 \<Longrightarrow> tlen q' = tlen q - 1"
  by (auto simp: tq_pop_front_def Let_def split: if_splits Option.bind_splits)

function wake_expired :: "u32 \<Rightarrow> 'f async \<Rightarrow> 'f async option" where
  "wake_expired now a =
     (if 0 < tlen (timers a) then
        (case cell_at (tdata (timers a)) 0 of None \<Rightarrow> None
         | Some first \<Rightarrow>
             if 0 \<le> sint (now - wake_tick first) then
               (case tq_pop_front (timers a) of None \<Rightarrow> None
                | Some (entry, q) \<Rightarrow>
                    (case waker_wake (waker_idx entry) (a\<lparr>timers := q\<rparr>) of None \<Rightarrow> None
                     | Some a \<Rightarrow> wake_expired now a))
             else Some a)
      else Some a)"
  by pat_completeness auto
termination
proof (relation "measure (\<lambda>(now, a). tlen (timers a))", goal_cases)
  case (2 now a first x entry q a')
  then have "timers a' = q"
    by (auto simp: waker_wake_def waker_wake_by_ref_def split: if_splits Option.bind_splits)
  with 2 tq_pop_front_len [of "timers a" entry q] show ?case by simp
qed simp

declare wake_expired.simps [simp del]

subsection \<open>The executor\<close>

definition async_new :: "'f async" where
  "async_new = \<lparr>pool = replicate ASYNC_POOL_MAX slot_empty, timers = tq_new, init_flag = False\<rparr>"

text \<open>
  The body of the loop of \<open>poll_all\<close> for one slot; the flag tells whether it set \<open>did_work\<close>. The
  future is polled in place, so what it becomes is written back.
\<close>

definition poll_slot :: "('f \<Rightarrow> nat \<Rightarrow> 'f async \<Rightarrow> (bool \<times> 'f \<times> 'f async) option) \<Rightarrow> nat \<Rightarrow> 'f async
    \<Rightarrow> (bool \<times> 'f async) option" where
  "poll_slot poll idx a = do {
     s \<leftarrow> array_get (pool a) idx;
     (case sfuture s of
        None \<Rightarrow> Some (False, a)
      | Some f \<Rightarrow>
          if \<not> sready s then Some (False, a)
          else do {
            p \<leftarrow> array_set (pool a) idx (s\<lparr>sready := False\<rparr>);
            (ready, f', a') \<leftarrow> poll f idx (a\<lparr>pool := p\<rparr>);
            s' \<leftarrow> array_get (pool a') idx;
            let s' = s'\<lparr>sfuture := Some f'\<rparr>;
            p' \<leftarrow> array_set (pool a') idx (if ready then snd (slot_clear s') else s');
            Some (True, a'\<lparr>pool := p'\<rparr>) }) }"

fun poll_slots :: "('f \<Rightarrow> nat \<Rightarrow> 'f async \<Rightarrow> (bool \<times> 'f \<times> 'f async) option) \<Rightarrow> nat list \<Rightarrow> bool \<Rightarrow> 'f async
    \<Rightarrow> (bool \<times> 'f async) option" where
  "poll_slots poll [] did_work a = Some (did_work, a)"
| "poll_slots poll (idx # idxs) did_work a = do {
     (polled, a) \<leftarrow> poll_slot poll idx a;
     poll_slots poll idxs (did_work \<or> polled) a }"

definition poll_all :: "('f \<Rightarrow> nat \<Rightarrow> 'f async \<Rightarrow> (bool \<times> 'f \<times> 'f async) option) \<Rightarrow> u32 \<Rightarrow> 'f async
    \<Rightarrow> (bool \<times> 'f async) option" where
  "poll_all poll now a = do { a \<leftarrow> wake_expired now a; poll_slots poll [0..<ASYNC_POOL_MAX] False a }"

text \<open>\<open>ensure_init\<close> creates the executor task (a function pointer of no captured bytes) once.\<close>

definition ensure_init :: "code_addrs \<Rightarrow> u32 \<Rightarrow> 'f async \<Rightarrow> kernel \<Rightarrow> ('f async \<times> kernel) option" where
  "ensure_init ca executor_task a k =
     (if init_flag a then Some (a, k)
      else do {
        (r, k) \<leftarrow> task_create ca [] executor_task 1 ''async/exec'' k;
        Some (case r of Inr _ \<Rightarrow> a\<lparr>init_flag := True\<rparr> | Inl _ \<Rightarrow> a, k) })"

fun spawn_from :: "bool \<Rightarrow> 'f \<Rightarrow> nat list \<Rightarrow> 'f async \<Rightarrow> (bool \<times> 'f async) option" where
  "spawn_from needs_drop f [] a = Some (False, a)"
| "spawn_from needs_drop f (idx # idxs) a = do {
     s \<leftarrow> array_get (pool a) idx;
     if slot_is_free s then do {
       p \<leftarrow> array_set (pool a) idx (slot_store needs_drop f s);
       Some (True, a\<lparr>pool := p\<rparr>) }
     else spawn_from needs_drop f idxs a }"

definition async_spawn :: "code_addrs \<Rightarrow> u32 \<Rightarrow> bool \<Rightarrow> 'f \<Rightarrow> 'f async \<Rightarrow> kernel \<Rightarrow> (bool \<times> 'f async \<times> kernel) option" where
  "async_spawn ca executor_task needs_drop f a k = do {
     (a, k) \<leftarrow> ensure_init ca executor_task a k;
     (ok, a) \<leftarrow> spawn_from needs_drop f [0..<ASYNC_POOL_MAX] a;
     Some (ok, a, k) }"

subsection \<open>The futures of the module\<close>

record timer_fut =
  tf_wake_tick :: u32
  tf_registered :: bool

definition async_delay :: "u32 \<Rightarrow> u32 \<Rightarrow> timer_fut" where
  "async_delay now ms = \<lparr>tf_wake_tick = now + ms, tf_registered = False\<rparr>"

text \<open>\<open>Timer::poll\<close> with the waker of slot \<open>idx\<close>; the flag is \<open>Poll::Ready\<close>.\<close>

definition timer_poll :: "u32 \<Rightarrow> nat \<Rightarrow> timer_fut \<Rightarrow> 'f async \<Rightarrow> (bool \<times> timer_fut \<times> 'f async) option" where
  "timer_poll now idx t a =
     (if 0 \<le> sint (now - tf_wake_tick t) then Some (True, t, a)
      else if \<not> tf_registered t then do {
        q \<leftarrow> tq_push \<lparr>wake_tick = tf_wake_tick t, waker_idx = idx\<rparr> (timers a);
        Some (False, t\<lparr>tf_registered := True\<rparr>, a\<lparr>timers := q\<rparr>) }
      else Some (False, t, a))"

text \<open>\<open>YieldOnce\<close> is its flag \<open>yielded\<close>.\<close>

definition yield_now :: bool where
  "yield_now = False"

definition yield_once_poll :: "nat \<Rightarrow> bool \<Rightarrow> 'f async \<Rightarrow> (bool \<times> bool \<times> 'f async) option" where
  "yield_once_poll idx yielded a =
     (if yielded then Some (True, yielded, a)
      else do { a \<leftarrow> waker_wake_by_ref idx a; Some (False, True, a) })"

subsection \<open>The timer queue is a priority queue\<close>

text \<open>The entries of the queue, in heap order, and their keys relative to the base of a window.\<close>

definition tq_list :: "timer_queue \<Rightarrow> timer_entry list" where
  "tq_list q = concat (map (\<lambda>c. case c of Uninit \<Rightarrow> [] | Init e \<Rightarrow> [e]) (take (tlen q) (tdata q)))"

definition tq_key :: "u32 \<Rightarrow> timer_entry \<Rightarrow> nat" where
  "tq_key base e = unat (wake_tick e - base)"

definition in_window :: "u32 \<Rightarrow> u32 \<Rightarrow> bool" where
  "in_window base t \<longleftrightarrow> unat (t - base) < 2 ^ 31"

definition tq_ok :: "u32 \<Rightarrow> timer_entry \<Rightarrow> bool" where
  "tq_ok base e = in_window base (wake_tick e)"

definition earlier :: "timer_entry \<Rightarrow> timer_entry \<Rightarrow> bool" where
  "earlier e f = tick_before (wake_tick e) (wake_tick f)"

definition tq_inv :: "u32 \<Rightarrow> timer_queue \<Rightarrow> bool" where
  "tq_inv base q \<longleftrightarrow> length (tdata q) = ASYNC_POOL_MAX \<and> tlen q \<le> ASYNC_POOL_MAX
     \<and> take (tlen q) (tdata q) = map Init (tq_list q)
     \<and> heap_ok (tq_key base) (tq_list q) \<and> (\<forall>e \<in> set (tq_list q). tq_ok base e)"

lemma tick_before_window:
  "in_window base a \<Longrightarrow> in_window base b \<Longrightarrow> tick_before a b \<longleftrightarrow> unat (a - base) < unat (b - base)"
  unfolding tick_before_def in_window_def using sint_diff_window [of a base b] by simp

lemma expired_window:
  "in_window base now \<Longrightarrow> tq_ok base e \<Longrightarrow>
   (0 \<le> sint (now - wake_tick e)) = (tq_key base e \<le> unat (now - base))"
  using tick_before_window [of base now "wake_tick e"]
  by (simp add: tick_before_def tq_ok_def tq_key_def not_less [symmetric])

lemma earlier_lt_key: "\<forall>e \<in> A. tq_ok base e \<Longrightarrow> lt_key earlier (tq_key base) A"
  by (simp add: lt_key_def earlier_def tq_ok_def tq_key_def tick_before_window)

lemma tq_list_map_Init [simp]:
  "tq_list \<lparr>tdata = map Init xs @ r, tlen = length xs\<rparr> = xs"
  by (simp add: tq_list_def o_def)

lemma tq_data_split:
  "tq_inv base q \<Longrightarrow> tdata q = map Init (tq_list q) @ drop (tlen q) (tdata q)"
  by (metis append_take_drop_id tq_inv_def)

lemma tq_length: "tq_inv base q \<Longrightarrow> length (tq_list q) = tlen q"
  unfolding tq_inv_def by (metis length_map length_take min.absorb2)

lemma tq_invE:
  assumes "tq_inv base q"
  obtains xs r where "q = \<lparr>tdata = map Init xs @ r, tlen = length xs\<rparr>" "tq_list q = xs"
    "length xs + length r = 16" "heap_ok (tq_key base) xs" "\<forall>e \<in> set xs. tq_ok base e"
proof
  show "q = \<lparr>tdata = map Init (tq_list q) @ drop (tlen q) (tdata q), tlen = length (tq_list q)\<rparr>"
    using tq_data_split [OF assms] tq_length [OF assms] by (cases q) simp
  show "length (tq_list q) + length (drop (tlen q) (tdata q)) = 16"
    using assms tq_length [OF assms] by (auto simp: tq_inv_def)
qed (use assms in \<open>auto simp: tq_inv_def\<close>)

lemma tq_invI:
  "length xs + length r = 16 \<Longrightarrow> heap_ok (tq_key base) xs \<Longrightarrow> \<forall>e \<in> set xs. tq_ok base e \<Longrightarrow>
   tq_inv base \<lparr>tdata = map Init xs @ r, tlen = length xs\<rparr>"
  by (simp add: tq_inv_def)

text \<open>The loops on the array of cells compute the list loops of the heap theory.\<close>

lemma cell_at_Init [simp]: "i < length xs \<Longrightarrow> cell_at (map Init xs @ r) i = Some (xs ! i)"
  by (simp add: cell_at_def array_get_def nth_append)

lemma array_set_Init [simp]:
  "i < length xs \<Longrightarrow> array_set (map Init xs @ r) i (Init x) = Some (map Init (xs[i := x]) @ r)"
  by (simp add: array_set_def list_update_append1 map_update)

lemma tq_sift_up_list:
  "i < length xs \<Longrightarrow> tq_sift_up i (map Init xs @ r) = Some (map Init (sift_up earlier i xs) @ r)"
proof (induction i arbitrary: xs rule: less_induct)
  case (less i)
  have p: "(i - 1) div 2 < length xs" using less.prems by linarith
  show ?case
  proof (cases "0 < i \<and> earlier (xs ! i) (xs ! ((i - 1) div 2))")
    case True
    then have "tq_sift_up i (map Init xs @ r) = tq_sift_up ((i - 1) div 2) (map Init (swap i ((i - 1) div 2) xs) @ r)"
      using less.prems p
      by (simp add: tq_sift_up.simps [of i] Let_def earlier_def swap_def)
    moreover have "(i - 1) div 2 < i" using True by linarith
    ultimately show ?thesis
      using less.IH [of "(i - 1) div 2" "swap i ((i - 1) div 2) xs"] True p
      by (simp add: sift_up.simps [of earlier i xs])
  next
    case False
    then have "sift_up earlier i xs = xs" by (subst sift_up.simps) (rule if_not_P)
    with False less.prems p show ?thesis
      by (cases "i = 0") (auto simp: tq_sift_up.simps [of i] tq_sift_up.simps [of 0] Let_def simp flip: earlier_def)
  qed
qed

lemma tq_smallest_list:
  "i < length xs \<Longrightarrow> tq_smallest (length xs) i (map Init xs @ r) = Some (min_child earlier i xs)"
  by (auto simp: tq_smallest_def min_child_def earlier_def Let_def)

lemma tq_sift_down_list:
  "i < length xs \<Longrightarrow>
   tq_sift_down (length xs) i (map Init xs @ r) = Some (map Init (sift_down earlier i xs) @ r)"
proof (induction "length xs - i" arbitrary: i xs rule: less_induct)
  case (less i xs)
  let ?s = "min_child earlier i xs"
  have s: "?s < length xs" using min_child_cases [of earlier i xs] less.prems by auto
  show ?case
  proof (cases "?s = i")
    case True
    with less.prems show ?thesis
      by (simp add: tq_sift_down.simps [of _ i] tq_smallest_list sift_down.simps [of earlier i xs])
  next
    case False
    then have "tq_sift_down (length xs) i (map Init xs @ r)
        = tq_sift_down (length xs) ?s (map Init (swap i ?s xs) @ r)"
      using less.prems s by (simp add: tq_sift_down.simps [of _ i] tq_smallest_list swap_def)
    moreover have "i < ?s" using min_child_cases [of earlier i xs] False by auto
    ultimately show ?thesis using less.hyps [of "swap i ?s xs" ?s] less.prems False s by (simp add: sift_down.simps [of earlier i xs])
  qed
qed

lemma tq_push_spec:
  assumes "tq_inv base q" "tq_ok base e"
  shows "returns (\<lambda>q'. tq_inv base q' \<and> mset (tq_list q')
      = (if tlen q < ASYNC_POOL_MAX then add_mset e (mset (tq_list q)) else mset (tq_list q))) (tq_push e q)"
proof (rule tq_invE [OF assms(1)])
  fix xs r
  assume q: "q = \<lparr>tdata = map Init xs @ r, tlen = length xs\<rparr>" "tq_list q = xs"
    and l: "length xs + length r = 16" and h: "heap_ok (tq_key base) xs" and ok: "\<forall>e \<in> set xs. tq_ok base e"
  show ?thesis
  proof (cases r)
    case Nil
    with q l assms(1) show ?thesis by (simp add: tq_push_def)
  next
    case (Cons c cs)
    let ?ys = "sift_up earlier (length xs) (xs @ [e])"
    have lk: "lt_key earlier (tq_key base) (set (xs @ [e]))"
      by (rule earlier_lt_key) (use ok assms(2) in auto)
    have up: "mset ?ys = mset (xs @ [e])" "heap_ok (tq_key base) ?ys"
      using sift_up_heap [OF lk _ heap_up_append [OF h]] by auto
    then have len: "length ?ys = Suc (length xs)"
      by (metis length_append_singleton mset_eq_length)
    have "map Init xs @ Init e # cs = map Init (xs @ [e]) @ cs" by simp
    then have push: "tq_push e q = Some \<lparr>tdata = map Init ?ys @ cs, tlen = length ?ys\<rparr>"
      using q l Cons tq_sift_up_list [of "length xs" "xs @ [e]" cs] len
      by (simp add: tq_push_def array_set_def list_update_append)
    have "\<forall>x \<in> set ?ys. tq_ok base x"
      using up(1) ok assms(2) by (metis in_multiset_in_set mset_append set_mset_mset set_ConsD rotate1.simps(2) set_rotate1)
    then have "tq_inv base \<lparr>tdata = map Init ?ys @ cs, tlen = length ?ys\<rparr>"
      using l Cons len up(2) by (intro tq_invI) auto
    then show ?thesis using push up(1) q l Cons by simp
  qed
qed

lemma tq_pop_spec:
  assumes "tq_inv base q" "tq_list q \<noteq> []"
  shows "returns (\<lambda>(e, q'). tq_inv base q' \<and> mset (tq_list q) = add_mset e (mset (tq_list q'))
      \<and> e = hd (tq_list q) \<and> (\<forall>y \<in> set (tq_list q). tq_key base e \<le> tq_key base y)) (tq_pop_front q)"
proof (rule tq_invE [OF assms(1)])
  fix ys r
  assume q: "q = \<lparr>tdata = map Init ys @ r, tlen = length ys\<rparr>" "tq_list q = ys"
    and l: "length ys + length r = 16" and h: "heap_ok (tq_key base) ys" and ok: "\<forall>e \<in> set ys. tq_ok base e"
  obtain e xs where ys: "ys = e # xs" using assms(2) q(2) by (cases ys) auto
  have least: "\<forall>y \<in> set ys. tq_key base e \<le> tq_key base y"
    using heap_ok_top [OF h] ys by (metis in_set_conv_nth nth_Cons_0)
  show ?thesis
  proof (cases "xs = []")
    case True
    have "tq_inv base \<lparr>tdata = map Init [] @ Init e # r, tlen = length ([] :: timer_entry list)\<rparr>"
      using l ys True by (intro tq_invI) (auto simp: heap_ok_def)
    with True q ys least show ?thesis
      by (simp add: tq_pop_front_def cell_at_def array_get_def tq_list_def)
  next
    case False
    then obtain as a where xs: "xs = as @ [a]" by (cases xs rule: rev_cases) auto
    let ?zs = "a # as"
    let ?ws = "sift_down earlier 0 ?zs"
    have lk: "lt_key earlier (tq_key base) (set ?zs)"
      by (rule earlier_lt_key) (use ok ys xs in auto)
    have "heap_down (tq_key base) 0 ?zs"
      using heap_down_replace [OF h [unfolded ys] False] by (simp add: xs)
    then have down: "mset ?ws = mset xs" "heap_ok (tq_key base) ?ws"
      using sift_down_heap [OF lk] xs by auto
    then have len: "length ?ws = length xs" by (metis mset_eq_length)
    let ?q = "\<lparr>tdata = map Init ?ws @ Init a # r, tlen = length ?ws\<rparr>"
    have get: "cell_at (map Init ys @ r) 0 = Some e" "cell_at (map Init ys @ r) (length xs) = Some a"
      by (simp_all add: ys xs nth_append cell_at_def array_get_def)
    have set: "array_set (map Init ys @ r) 0 (Init a) = Some (map Init ?zs @ Init a # r)"
      by (simp add: ys xs array_set_def)
    have "tq_sift_down (length xs) 0 (map Init ?zs @ Init a # r) = Some (map Init ?ws @ Init a # r)"
      using tq_sift_down_list [of 0 ?zs "Init a # r"] xs by simp
    then have "tq_pop_front q = Some (e, ?q)"
      using get set len xs by (simp add: tq_pop_front_def q(1) ys del: list.map)
    moreover have "\<forall>x \<in> set ?ws. tq_ok base x"
      using down(1) ok ys by (metis set_mset_mset list.set_intros(2))
    then have "tq_inv base ?q"
      using l ys len down(2) by (intro tq_invI) auto
    ultimately show ?thesis using down(1) q(2) ys least by simp
  qed
qed

interpretation tq: prio_queue "tq_key base" "tq_ok base" ASYNC_POOL_MAX "tq_inv base"
    "\<lambda>q. mset (tq_list q)" tq_push tq_pop_front for base
proof
  fix q :: timer_queue and x
  assume i: "tq_inv base q" and "tq_ok base x"
  then show "returns (\<lambda>q'. tq_inv base q' \<and> mset (tq_list q')
      = (if size (mset (tq_list q)) < ASYNC_POOL_MAX then add_mset x (mset (tq_list q)) else mset (tq_list q)))
      (tq_push x q)"
    using tq_push_spec [of base q x] tq_length [OF i] by (simp add: size_mset)
next
  fix q :: timer_queue
  assume i: "tq_inv base q" and "mset (tq_list q) \<noteq> {#}"
  then show "returns (\<lambda>(x, q'). tq_inv base q' \<and> mset (tq_list q) = add_mset x (mset (tq_list q'))
      \<and> (\<forall>y \<in># mset (tq_list q). tq_key base x \<le> tq_key base y)) (tq_pop_front q)"
    using tq_pop_spec [OF i] by (auto elim!: returns_mono)
qed

lemma tq_new_inv [simp]: "tq_inv base tq_new"
  by (simp add: tq_inv_def tq_new_def tq_list_def heap_ok_def)

lemma tq_list_new [simp]: "tq_list tq_new = []"
  by (simp add: tq_list_def tq_new_def)

text \<open>C36. Timers whose wake ticks lie in one half of the range of the tick counter, wherever that
  half starts and however often the counter wraps inside it, leave the timer queue of the async
  executor in the order of their wake ticks, whatever order they were pushed in.\<close>

theorem timers_in_order:
  assumes "\<forall>e \<in> set es. unat (wake_tick e - base) < 2 ^ 31" and "length es \<le> ASYNC_POOL_MAX"
  shows "returns (\<lambda>(fs, q). mset fs = mset es \<and> sorted (map (\<lambda>e. unat (wake_tick e - base)) fs) \<and> tlen q = 0)
    (do { q \<leftarrow> push_list tq_push es tq_new; drain tq_pop_front (length es) q })"
proof -
  have "\<forall>e \<in> set es. tq_ok base e" using assms(1) by (simp add: tq_ok_def in_window_def)
  from tq.sorts [OF tq_new_inv _ this assms(2)]
  show ?thesis
    by (rule returns_mono) (auto simp: tq_key_def [of base, abs_def] dest: tq_length)
qed

definition demo_timers :: "timer_entry list" where
  "demo_timers = [\<lparr>wake_tick = 5, waker_idx = 1\<rparr>, \<lparr>wake_tick = - 3, waker_idx = 0\<rparr>]"

theorem timers_in_order_witness:
  "returns (\<lambda>(fs, q). mset fs = mset demo_timers \<and> sorted (map (\<lambda>e. unat (wake_tick e - (- 10))) fs) \<and> tlen q = 0)
    (do { q \<leftarrow> push_list tq_push demo_timers tq_new; drain tq_pop_front (length demo_timers) q })"
  by (rule timers_in_order) (simp_all add: demo_timers_def)

text \<open>The loop of \<open>wake_expired\<close>, entry by entry.\<close>

definition is_expired :: "u32 \<Rightarrow> timer_entry \<Rightarrow> bool" where
  "is_expired now e = (0 \<le> sint (now - wake_tick e))"

definition wake_slots :: "nat set \<Rightarrow> 'f slot list \<Rightarrow> 'f slot list" where
  "wake_slots W p = map (\<lambda>i. if i \<in> W then (p ! i)\<lparr>sready := True\<rparr> else p ! i) [0..<length p]"

lemma wake_slots_none [simp]: "wake_slots {} p = p"
  by (simp add: wake_slots_def map_nth)

lemma wake_slots_one: "i < length p \<Longrightarrow> p[i := (p ! i)\<lparr>sready := True\<rparr>] = wake_slots {i} p"
  by (rule nth_equalityI) (auto simp: wake_slots_def nth_list_update)

lemma wake_slots_twice [simp]: "wake_slots V (wake_slots W p) = wake_slots (V \<union> W) p"
  by (rule nth_equalityI) (auto simp: wake_slots_def)

lemma length_wake_slots [simp]: "length (wake_slots W p) = length p"
  by (simp add: wake_slots_def)

lemma waker_wake_in_pool:
  "length (pool a) = ASYNC_POOL_MAX \<Longrightarrow> i < ASYNC_POOL_MAX \<Longrightarrow>
   waker_wake i a = Some (a\<lparr>pool := wake_slots {i} (pool a)\<rparr>)"
  by (simp add: waker_wake_def waker_wake_by_ref_def array_get_def array_set_def wake_slots_one)

definition async_inv :: "u32 \<Rightarrow> 'f async \<Rightarrow> bool" where
  "async_inv base a \<longleftrightarrow> length (pool a) = ASYNC_POOL_MAX \<and> tq_inv base (timers a)
     \<and> (\<forall>e \<in> set (tq_list (timers a)). waker_idx e < ASYNC_POOL_MAX)"

lemma wake_expired_spec:
  assumes "async_inv base a" "in_window base now"
  shows "returns (\<lambda>a'. async_inv base a' \<and> init_flag a' = init_flag a
      \<and> mset (tq_list (timers a')) = filter_mset (\<lambda>e. \<not> is_expired now e) (mset (tq_list (timers a)))
      \<and> pool a' = wake_slots {i. \<exists>e \<in> set (tq_list (timers a)). is_expired now e \<and> waker_idx e = i} (pool a))
    (wake_expired now a)"
  using assms
proof (induction "tlen (timers a)" arbitrary: a rule: less_induct)
  case less
  let ?q = "timers a" and ?l = "tq_list (timers a)"
  from less.prems have inv: "tq_inv base ?q" and pool: "length (pool a) = ASYNC_POOL_MAX"
    and idx: "\<forall>e \<in> set ?l. waker_idx e < ASYNC_POOL_MAX"
    by (simp_all add: async_inv_def)
  have exp: "is_expired now e \<longleftrightarrow> tq_key base e \<le> unat (now - base)" if "e \<in> set ?l" for e
    using expired_window [OF less.prems(2)] inv that by (simp add: is_expired_def tq_inv_def)
  show ?case
  proof (cases ?l)
    case Nil
    then have "tlen ?q = 0" using tq_length [OF inv] by simp
    then have "wake_expired now a = Some a" by (simp add: wake_expired.simps [of now a])
    with less.prems Nil show ?thesis by simp
  next
    case (Cons e es)
    then have len: "0 < tlen ?q" using tq_length [OF inv] by simp
    from tq_pop_spec [OF inv] Cons obtain q' where pop: "tq_pop_front ?q = Some (e, q')"
      and q': "tq_inv base q'" "mset ?l = add_mset e (mset (tq_list q'))"
      and least: "\<forall>y \<in> set ?l. tq_key base e \<le> tq_key base y"
      by (auto simp: returns_iff)
    have first: "cell_at (tdata ?q) 0 = Some e"
      using pop by (auto simp: tq_pop_front_def Let_def split: if_splits Option.bind_splits)
    have el: "e \<in> set ?l" using Cons by simp
    have sub: "set (tq_list q') \<subseteq> set ?l" "set ?l = insert e (set (tq_list q'))"
      using q'(2) by (metis set_mset_add_mset_insert set_mset_mset subset_insertI)+
    show ?thesis
    proof (cases "is_expired now e")
      case True
      let ?a = "a\<lparr>timers := q', pool := wake_slots {waker_idx e} (pool a)\<rparr>"
      have "waker_wake (waker_idx e) (a\<lparr>timers := q'\<rparr>) = Some ?a"
        using waker_wake_in_pool [of "a\<lparr>timers := q'\<rparr>" "waker_idx e"] pool idx el by simp
      then have step: "wake_expired now a = wake_expired now ?a"
        using len first pop True by (simp add: wake_expired.simps [of now a] is_expired_def)
      have "tlen q' < tlen ?q" using tq_pop_front_len [OF pop] len by simp
      moreover have "async_inv base ?a"
        using q'(1) pool idx sub by (auto simp: async_inv_def)
      ultimately have "returns (\<lambda>a'. async_inv base a' \<and> init_flag a' = init_flag a
          \<and> mset (tq_list (timers a')) = filter_mset (\<lambda>e. \<not> is_expired now e) (mset (tq_list q'))
          \<and> pool a' = wake_slots {i. \<exists>e \<in> set (tq_list q'). is_expired now e \<and> waker_idx e = i}
              (wake_slots {waker_idx e} (pool a)))
        (wake_expired now ?a)"
        using less.hyps [of ?a] less.prems(2) by simp
      moreover have "{i. \<exists>e \<in> set (tq_list q'). is_expired now e \<and> waker_idx e = i} \<union> {waker_idx e}
          = {i. \<exists>e \<in> set ?l. is_expired now e \<and> waker_idx e = i}"
        using True sub(2) by auto
      ultimately show ?thesis unfolding step using q'(2) True by simp
    next
      case False
      then have stop: "wake_expired now a = Some a"
        using len first by (simp add: wake_expired.simps [of now a] is_expired_def)
      have "\<not> is_expired now y" if "y \<in> set ?l" for y
        using False exp [OF el] exp [OF that] least that by fastforce
      then have "filter_mset (\<lambda>e. \<not> is_expired now e) (mset ?l) = mset ?l"
        "{i. \<exists>e \<in> set ?l. is_expired now e \<and> waker_idx e = i} = {}"
        by (auto simp: filter_mset_eq_conv)
      then show ?thesis unfolding stop using less.prems(1) by (simp del: Collect_empty_eq)
    qed
  qed
qed

text \<open>C37. At the start of a polling round every timer that is due, and no other, leaves the timer
  queue, and exactly the slots of their wakers become ready; nothing else changes. The ticks are
  compared modulo the wrap of the counter: it is enough that the timers and the present lie in one
  half of its range.\<close>

theorem wake_expired_exact:
  assumes "async_inv base a" "in_window base now"
  shows "returns (\<lambda>a'. async_inv base a' \<and> init_flag a' = init_flag a
      \<and> mset (tq_list (timers a')) = filter_mset (\<lambda>e. \<not> is_expired now e) (mset (tq_list (timers a)))
      \<and> pool a' = wake_slots {i. \<exists>e \<in> set (tq_list (timers a)). is_expired now e \<and> waker_idx e = i} (pool a))
    (wake_expired now a)"
  using assms by (rule wake_expired_spec)

definition demo_async :: "nat async" where
  "demo_async = async_new\<lparr>timers := the (push_list tq_push demo_timers tq_new)\<rparr>"

lemma demo_async_inv: "async_inv (- 10) demo_async"
proof -
  have "\<forall>e \<in> set demo_timers. tq_ok (- 10) e"
    by (simp add: demo_timers_def tq_ok_def in_window_def)
  from tq.push_list_elems [OF tq_new_inv this]
  have "returns (\<lambda>q. tq_inv (- 10) q \<and> mset (tq_list q) = mset demo_timers) (push_list tq_push demo_timers tq_new)"
    by (simp add: demo_timers_def)
  then obtain q where "push_list tq_push demo_timers tq_new = Some q" "tq_inv (- 10) q"
    "set (tq_list q) = set demo_timers"
    by (auto simp: returns_iff dest: mset_eq_setD)
  then show ?thesis by (auto simp: demo_async_def async_inv_def async_new_def demo_timers_def)
qed

theorem wake_expired_exact_witness:
  "returns (\<lambda>a'. async_inv (- 10) a' \<and> init_flag a' = init_flag demo_async
      \<and> mset (tq_list (timers a')) = filter_mset (\<lambda>e. \<not> is_expired 0 e) (mset (tq_list (timers demo_async)))
      \<and> pool a' = wake_slots {i. \<exists>e \<in> set (tq_list (timers demo_async)). is_expired 0 e \<and> waker_idx e = i}
          (pool demo_async))
    (wake_expired 0 demo_async)"
  by (rule wake_expired_exact [OF demo_async_inv]) (simp add: in_window_def)

subsection \<open>The executor's round\<close>

text \<open>A slot the round polls: it is taken and its ready flag is set.\<close>

definition pollable :: "'f slot \<Rightarrow> bool" where
  "pollable s \<longleftrightarrow> \<not> slot_is_free s \<and> sready s"

text \<open>A future does not panic or change the size of the pool, as no function of the module does.\<close>

definition keeps_pool :: "('f \<Rightarrow> nat \<Rightarrow> 'f async \<Rightarrow> (bool \<times> 'f \<times> 'f async) option) \<Rightarrow> bool" where
  "keeps_pool poll \<longleftrightarrow> (\<forall>f i a. returns (\<lambda>(_, _, a'). length (pool a') = length (pool a)) (poll f i a))"

lemma poll_slot_idle:
  "i < length (pool a) \<Longrightarrow> \<not> pollable (pool a ! i) \<Longrightarrow> poll_slot poll i a = Some (False, a)"
  by (auto simp: poll_slot_def array_get_def pollable_def slot_is_free_def split: option.splits)

lemma poll_slot_busy:
  assumes "keeps_pool poll" "i < length (pool a)" "pollable (pool a ! i)"
  shows "returns (\<lambda>(d, a'). d \<and> length (pool a') = length (pool a)) (poll_slot poll i a)"
proof -
  obtain f where f: "sfuture (pool a ! i) = Some f" "sready (pool a ! i)"
    using assms(3) by (auto simp: pollable_def slot_is_free_def)
  let ?a = "a\<lparr>pool := (pool a)[i := (pool a ! i)\<lparr>sready := False\<rparr>]\<rparr>"
  obtain ready f' a1 where "poll f i ?a = Some (ready, f', a1)" "length (pool a1) = length (pool ?a)"
    using assms(1) unfolding keeps_pool_def by (fastforce simp: returns_iff)
  with f assms(2) show ?thesis by (simp add: poll_slot_def array_get_def array_set_def Let_def)
qed

lemma poll_slots_spec:
  assumes "keeps_pool poll" "\<forall>i \<in> set idxs. i < length (pool a)"
  shows "returns (\<lambda>(d, a'). length (pool a') = length (pool a)
      \<and> (d \<longleftrightarrow> w \<or> (\<exists>i \<in> set idxs. pollable (pool a ! i)))
      \<and> ((\<forall>i \<in> set idxs. \<not> pollable (pool a ! i)) \<longrightarrow> a' = a)) (poll_slots poll idxs w a)"
  using assms(2)
proof (induction idxs arbitrary: w a)
  case (Cons i idxs)
  show ?case
  proof (cases "pollable (pool a ! i)")
    case True
    with poll_slot_busy [OF assms(1)] Cons.prems obtain a1 where
      "poll_slot poll i a = Some (True, a1)" "length (pool a1) = length (pool a)"
      by (fastforce simp: returns_iff)
    with True Cons.IH [of a1 True] Cons.prems show ?thesis by (auto elim!: returns_mono)
  next
    case False
    with Cons.IH [of a w] Cons.prems show ?thesis
      by (auto simp: poll_slot_idle elim!: returns_mono)
  qed
qed simp

text \<open>A polling round never panics as long as no future panics or changes the pool's size;
  it reports work exactly when, once the due timers have woken their slots, a taken slot is ready,
  and when it reports none no future was polled: only then the executor task sleeps.\<close>

theorem poll_all_reports_work:
  assumes "keeps_pool poll" "async_inv base a" "in_window base now"
  shows "returns (\<lambda>(did_work, a'). length (pool a') = ASYNC_POOL_MAX
      \<and> returns (\<lambda>b. (did_work \<longleftrightarrow> (\<exists>i < ASYNC_POOL_MAX. pollable (pool b ! i)))
           \<and> (\<not> did_work \<longrightarrow> a' = b)) (wake_expired now a))
    (poll_all poll now a)"
proof -
  obtain b where b: "wake_expired now a = Some b" "length (pool b) = ASYNC_POOL_MAX"
    using wake_expired_spec [OF assms(2,3)] by (auto simp: returns_iff async_inv_def)
  have "\<forall>i \<in> set [0..<ASYNC_POOL_MAX]. i < length (pool b)" using b(2) by simp
  from poll_slots_spec [OF assms(1) this, of False] b show ?thesis
    by (auto simp: poll_all_def atLeast0LessThan lessThan_def elim!: returns_mono simp del: ASYNC_POOL_MAX_def)
qed

theorem poll_all_reports_work_witness:
  "returns (\<lambda>(did_work, a'). length (pool a') = ASYNC_POOL_MAX
      \<and> returns (\<lambda>b. (did_work \<longleftrightarrow> (\<exists>i < ASYNC_POOL_MAX. pollable (pool b ! i)))
           \<and> (\<not> did_work \<longrightarrow> a' = b)) (wake_expired 0 demo_async))
    (poll_all (\<lambda>f i a. Some (f = i, f, a)) 0 demo_async)"
  by (rule poll_all_reports_work [OF _ demo_async_inv]) (simp_all add: keeps_pool_def in_window_def)

subsection \<open>Spawning\<close>

lemma slot_store_eq: "slot_store d f s = \<lparr>sfuture = Some f, sdrop = d, sready = True\<rparr>"
  by (cases s) (simp add: slot_store_def)

lemma spawn_from_spec:
  assumes "\<forall>i \<in> set idxs. i < length (pool a)"
  shows "spawn_from d f idxs a =
    (case find (\<lambda>i. slot_is_free (pool a ! i)) idxs of
       None \<Rightarrow> Some (False, a)
     | Some i \<Rightarrow> Some (True, a\<lparr>pool := (pool a)[i := \<lparr>sfuture = Some f, sdrop = d, sready = True\<rparr>]\<rparr>))"
  using assms by (induction idxs) (simp_all add: array_get_def array_set_def slot_store_eq)

text \<open>Once the executor exists, spawning a future puts it into the first free slot, ready to be
  polled, and leaves every other slot, the timers and the kernel alone; when all slots are taken it
  fails and changes nothing.\<close>

theorem spawn_takes_first_free:
  assumes "init_flag a" "length (pool a) = ASYNC_POOL_MAX"
  shows "async_spawn ca executor needs_drop f a k =
    (case find (\<lambda>i. slot_is_free (pool a ! i)) [0..<ASYNC_POOL_MAX] of
       None \<Rightarrow> Some (False, a, k)
     | Some i \<Rightarrow>
         Some (True, a\<lparr>pool := (pool a)[i := \<lparr>sfuture = Some f, sdrop = needs_drop, sready = True\<rparr>]\<rparr>, k))"
  using assms
  by (simp add: async_spawn_def ensure_init_def spawn_from_spec split: option.split del: upt_conv_Cons_Cons)

theorem spawn_takes_first_free_witness:
  "async_spawn demo_addrs 64 True (7 :: nat) (async_new\<lparr>init_flag := True\<rparr>) (kernel_boot 0)
   = Some (True, async_new\<lparr>init_flag := True,
       pool := (replicate 16 slot_empty)[0 := \<lparr>sfuture = Some 7, sdrop = True, sready = True\<rparr>]\<rparr>, kernel_boot 0)"
proof -
  have "find (\<lambda>i. slot_is_free (replicate 16 (slot_empty :: nat slot) ! i)) [0..<16] = Some 0"
    by (simp add: upt_conv_Cons slot_empty_def slot_is_free_def)
  then show ?thesis
    using spawn_takes_first_free [of "async_new\<lparr>init_flag := True\<rparr>" demo_addrs 64 True "7 :: nat" "kernel_boot 0"]
    by (simp add: async_new_def)
qed

subsection \<open>Timers that do not fit\<close>

text \<open>C40. When the timer queue already holds its maximum of entries, a timer future that is polled for
  the first time still marks itself registered but its entry is dropped: the queue and the pool are
  unchanged, and every later poll before its tick does nothing, so no due timer will ever wake it.\<close>

theorem timer_lost_when_full:
  assumes "tlen (timers a) = ASYNC_POOL_MAX" "sint (now - tf_wake_tick t) < 0" "\<not> tf_registered t"
    and "sint (later - tf_wake_tick t) < 0"
  shows "do { (r, t, a) \<leftarrow> timer_poll now idx t a; timer_poll later idx t a }
    = Some (False, t\<lparr>tf_registered := True\<rparr>, a)"
  using assms by (simp add: timer_poll_def tq_push_def)

theorem timer_lost_when_full_witness:
  "do { (r, t, a) \<leftarrow> timer_poll 5 0 (async_delay 5 10)
          (async_new\<lparr>timers := \<lparr>tdata = replicate 16 (Init \<lparr>wake_tick = 9, waker_idx = 1\<rparr>), tlen = 16\<rparr>\<rparr> :: nat async);
        timer_poll 6 0 t a }
   = Some (False, (async_delay 5 10)\<lparr>tf_registered := True\<rparr>,
       async_new\<lparr>timers := \<lparr>tdata = replicate 16 (Init \<lparr>wake_tick = 9, waker_idx = 1\<rparr>), tlen = 16\<rparr>\<rparr>)"
  using timer_lost_when_full [of "async_new\<lparr>timers := \<lparr>tdata = replicate 16 (Init \<lparr>wake_tick = 9, waker_idx = 1\<rparr>), tlen = 16\<rparr>\<rparr>"
      5 "async_delay 5 10" 6 0]
  by (simp add: async_delay_def sint_neg_iff)

text \<open>The timer future as the executor polls it at tick \<open>now\<close>.\<close>

abbreviation timer_future :: "u32 \<Rightarrow> timer_fut \<Rightarrow> nat \<Rightarrow> 'f async \<Rightarrow> (bool \<times> timer_fut \<times> 'f async) option" where
  "timer_future now \<equiv> \<lambda>t idx. timer_poll now idx t"

end
