(* ===== verification/Mos_Exec.thy ===== *)
theory Mos_Exec
  imports Mos_Async
begin

section \<open>The executor task and the start of the async tests\<close>

text \<open>
  The loop of \<open>executor_task\<close> in \<open>core/src/kernel/async_rt.rs\<close>, which ties the async runtime to the
  kernel, and \<open>async_test\<close> of \<open>boards/esp32c6/src/tests.rs\<close>, which the BLE task calls when it starts the
  system. Polling is an argument: the code of the futures that applications write.
\<close>

subsection \<open>Operations\<close>

text \<open>One round of \<open>executor_task\<close>: poll, and sleep for a tick when there was nothing to do.\<close>

definition executor_round :: "('f \<Rightarrow> nat \<Rightarrow> 'f async \<Rightarrow> (bool \<times> 'f \<times> 'f async) option) \<Rightarrow> 'f async \<Rightarrow> kernel
    \<Rightarrow> ('f async \<times> kernel) option" where
  "executor_round poll a k = do {
     (did_work, a) \<leftarrow> poll_all poll (os_ticks k) a;
     k \<leftarrow> (if \<not> did_work then task_delay 1 k else Some k);
     Some (a, k) }"

text \<open>
  The loop of \<open>async_test\<close> over \<open>num, ..., 1\<close>: \<open>async_sum k\<close> is the future of the test with parameter
  \<open>k\<close>. The result is \<open>count\<close>, which is also what \<open>ASYNC_REMAINING\<close> is set to.
\<close>

fun async_test_from :: "code_addrs \<Rightarrow> u32 \<Rightarrow> bool \<Rightarrow> (nat \<Rightarrow> 'f) \<Rightarrow> nat \<Rightarrow> nat \<Rightarrow> 'f async \<Rightarrow> kernel
    \<Rightarrow> (nat \<times> 'f async \<times> kernel) option" where
  "async_test_from ca executor needs_drop async_sum 0 spawned_n a k = Some (spawned_n, a, k)"
| "async_test_from ca executor needs_drop async_sum (Suc n) spawned_n a k = do {
     (ok, a, k) \<leftarrow> async_spawn ca executor needs_drop (async_sum (Suc n)) a k;
     async_test_from ca executor needs_drop async_sum n (if ok then spawned_n + 1 else spawned_n) a k }"

definition async_test :: "code_addrs \<Rightarrow> u32 \<Rightarrow> bool \<Rightarrow> (nat \<Rightarrow> 'f) \<Rightarrow> nat \<Rightarrow> 'f async \<Rightarrow> kernel
    \<Rightarrow> (nat \<times> 'f async \<times> kernel) option" where
  "async_test ca executor needs_drop async_sum num a k = async_test_from ca executor needs_drop async_sum num 0 a k"

subsection \<open>The structure of the timer queue\<close>

text \<open>What every operation keeps whatever the ticks are, without a window: the live cells are initialised.\<close>

definition tq_shape :: "timer_queue \<Rightarrow> bool" where
  "tq_shape q \<longleftrightarrow> (\<exists>xs r. q = \<lparr>tdata = map Init xs @ r, tlen = length xs\<rparr> \<and> length xs + length r = 16)"

definition pool_shape :: "'f async \<Rightarrow> bool" where
  "pool_shape a \<longleftrightarrow> length (pool a) = ASYNC_POOL_MAX \<and> tq_shape (timers a)"

lemma pool_shape_new [simp]: "pool_shape async_new"
  by (auto simp: pool_shape_def async_new_def tq_shape_def tq_new_def)

lemma length_sift_up [simp]: "length (sift_up lt i xs) = length xs"
proof (induction lt i xs rule: sift_up.induct)
  case (1 lt idx xs)
  then show ?case by (cases "0 < idx \<and> lt (xs ! idx) (xs ! ((idx - 1) div 2))") (simp_all add: sift_up.simps [of lt idx xs])
qed

lemma length_sift_down [simp]: "length (sift_down lt i xs) = length xs"
proof (induction lt i xs rule: sift_down.induct)
  case (1 lt idx xs)
  then show ?case by (cases "min_child lt idx xs \<noteq> idx") (simp_all add: sift_down.simps [of lt idx xs])
qed

lemma tq_push_shape:
  assumes "tq_shape q"
  shows "returns tq_shape (tq_push e q)"
proof -
  obtain xs r where q: "q = \<lparr>tdata = map Init xs @ r, tlen = length xs\<rparr>" "length xs + length r = 16"
    using assms by (auto simp: tq_shape_def)
  show ?thesis
  proof (cases r)
    case Nil
    with q assms show ?thesis by (simp add: tq_push_def)
  next
    case (Cons c cs)
    let ?ys = "sift_up earlier (length xs) (xs @ [e])"
    have "map Init xs @ Init e # cs = map Init (xs @ [e]) @ cs" by simp
    then have "tq_push e q = Some \<lparr>tdata = map Init ?ys @ cs, tlen = length ?ys\<rparr>"
      using q Cons tq_sift_up_list [of "length xs" "xs @ [e]" cs]
      by (simp add: tq_push_def array_set_def list_update_append)
    moreover have "length ?ys + length cs = 16" using q(2) Cons by simp
    ultimately show ?thesis unfolding tq_shape_def by (simp del: length_sift_up) blast
  qed
qed

lemma tq_pop_shape:
  assumes "tq_shape q" "0 < tlen q"
  shows "returns (\<lambda>(e, q'). tq_shape q' \<and> cell_at (tdata q) 0 = Some e) (tq_pop_front q)"
proof -
  obtain ys r where q: "q = \<lparr>tdata = map Init ys @ r, tlen = length ys\<rparr>" "length ys + length r = 16"
    using assms by (auto simp: tq_shape_def)
  obtain e xs where ys: "ys = e # xs" using assms(2) q(1) by (cases ys) auto
  show ?thesis
  proof (cases xs rule: rev_cases)
    case Nil
    have "tq_shape \<lparr>tdata = Init e # r, tlen = 0\<rparr>"
      unfolding tq_shape_def using q(2) ys Nil by (intro exI [of _ "[]"] exI [of _ "Init e # r"]) simp
    with Nil q ys show ?thesis by (simp add: tq_pop_front_def cell_at_def array_get_def)
  next
    case (snoc as a)
    let ?ws = "sift_down earlier 0 (a # as)"
    have get: "cell_at (map Init ys @ r) 0 = Some e" "cell_at (map Init ys @ r) (length xs) = Some a"
      by (simp_all add: ys snoc nth_append cell_at_def array_get_def)
    have set: "array_set (map Init ys @ r) 0 (Init a) = Some (map Init (a # as) @ Init a # r)"
      by (simp add: ys snoc array_set_def)
    have "tq_sift_down (length xs) 0 (map Init (a # as) @ Init a # r) = Some (map Init ?ws @ Init a # r)"
      using tq_sift_down_list [of 0 "a # as" "Init a # r"] snoc by simp
    then have "tq_pop_front q = Some (e, \<lparr>tdata = map Init ?ws @ Init a # r, tlen = length ?ws\<rparr>)"
      using get set snoc by (simp add: tq_pop_front_def q(1) ys del: list.map)
    moreover have "tq_shape \<lparr>tdata = map Init ?ws @ Init a # r, tlen = length ?ws\<rparr>"
      unfolding tq_shape_def using q(2) ys snoc by (intro exI [of _ ?ws] exI [of _ "Init a # r"]) simp
    ultimately show ?thesis using get(1) q(1) by simp
  qed
qed

lemma wake_expired_shape:
  "pool_shape a \<Longrightarrow> returns (\<lambda>a'. pool_shape a' \<and> init_flag a' = init_flag a) (wake_expired now a)"
proof (induction "tlen (timers a)" arbitrary: a rule: less_induct)
  case less
  show ?case
  proof (cases "0 < tlen (timers a)")
    case True
    from less.prems have sh: "length (pool a) = ASYNC_POOL_MAX" "tq_shape (timers a)" by (simp_all add: pool_shape_def)
    obtain e q where pop: "tq_pop_front (timers a) = Some (e, q)" "tq_shape q" "cell_at (tdata (timers a)) 0 = Some e"
      using tq_pop_shape [OF sh(2) True] by (auto simp: returns_iff)
    have "returns (\<lambda>a'. pool_shape a' \<and> timers a' = q \<and> init_flag a' = init_flag a)
        (waker_wake (waker_idx e) (a\<lparr>timers := q\<rparr>))"
      using sh pop(2) by (simp add: waker_wake_def waker_wake_by_ref_def array_get_def array_set_def pool_shape_def)
    then obtain a' where w: "waker_wake (waker_idx e) (a\<lparr>timers := q\<rparr>) = Some a'" "pool_shape a'" "timers a' = q"
        "init_flag a' = init_flag a" by (rule returnsE) blast
    have "tlen q < tlen (timers a)" using tq_pop_front_len [OF pop(1)] True by simp
    with less.hyps [of a'] w True pop(1,3) less.prems show ?thesis
      by (simp add: wake_expired.simps [of now a])
  qed (use less.prems in \<open>simp add: wake_expired.simps [of now a]\<close>)
qed

subsection \<open>The executor never stops\<close>

text \<open>A future may push timers and wake slots, but does not panic and keeps the pool's structure.\<close>

definition poll_ok :: "('f \<Rightarrow> nat \<Rightarrow> 'f async \<Rightarrow> (bool \<times> 'f \<times> 'f async) option) \<Rightarrow> bool" where
  "poll_ok poll \<longleftrightarrow> (\<forall>f i a. pool_shape a \<longrightarrow> returns (\<lambda>(_, _, a'). pool_shape a') (poll f i a))"

lemma poll_slot_shape:
  assumes "poll_ok poll" "pool_shape a" "i < ASYNC_POOL_MAX"
  shows "returns (\<lambda>(_, a'). pool_shape a') (poll_slot poll i a)"
proof (cases "sfuture (pool a ! i) = None \<or> \<not> sready (pool a ! i)")
  case True
  with assms(2,3) show ?thesis by (auto simp: poll_slot_def array_get_def pool_shape_def split: option.split)
next
  case False
  then obtain f where f: "sfuture (pool a ! i) = Some f" "sready (pool a ! i)" by auto
  let ?a = "a\<lparr>pool := (pool a)[i := (pool a ! i)\<lparr>sready := False\<rparr>]\<rparr>"
  have "pool_shape ?a" using assms(2) by (simp add: pool_shape_def)
  then obtain ready f' a1 where "poll f i ?a = Some (ready, f', a1)" "pool_shape a1"
    using assms(1) unfolding poll_ok_def by (fastforce simp: returns_iff)
  with f assms(2,3) show ?thesis
    by (simp add: poll_slot_def array_get_def array_set_def Let_def pool_shape_def)
qed

lemma poll_slots_shape:
  "poll_ok poll \<Longrightarrow> pool_shape a \<Longrightarrow> \<forall>i \<in> set idxs. i < ASYNC_POOL_MAX \<Longrightarrow>
   returns (\<lambda>(_, a'). pool_shape a') (poll_slots poll idxs w a)"
proof (induction idxs arbitrary: w a)
  case (Cons i idxs)
  have "i < ASYNC_POOL_MAX" using Cons.prems(3) by simp
  then obtain d b where "poll_slot poll i a = Some (d, b)" "pool_shape b"
    by (rule returns_pairE [OF poll_slot_shape [OF Cons.prems(1,2)]])
  with Cons.IH [OF Cons.prems(1)] Cons.prems(3) show ?case by simp
qed simp

lemma poll_all_shape:
  assumes "poll_ok poll" "pool_shape a"
  shows "returns (\<lambda>(_, a'). pool_shape a') (poll_all poll now a)"
proof -
  obtain b where "wake_expired now a = Some b" "pool_shape b"
    using wake_expired_shape [OF assms(2), of now] by (auto simp: returns_iff)
  then show ?thesis using poll_slots_shape [OF assms(1), of b "[0..<ASYNC_POOL_MAX]"] by (simp add: poll_all_def)
qed

lemma executor_round_spec:
  assumes "poll_ok poll" "pool_shape a" "live_inv idle k" "CURRENT_TCB k \<noteq> Some idle"
  shows "returns (\<lambda>(a', k'). pool_shape a' \<and> live_inv idle k') (executor_round poll a k)"
proof -
  obtain w b where b: "poll_all poll (os_ticks k) a = Some (w, b)" "pool_shape b"
    by (rule returns_pairE [OF poll_all_shape [OF assms(1,2), of "os_ticks k"]])
  have "returns (live_inv idle) (task_delay 1 k)"
    using kcall_live [OF assms(3), of "KDelay 1" demo_addrs] assms(4) by simp
  then show ?thesis using b assms(3) by (auto simp: executor_round_def returns_iff)
qed

text \<open>The futures of the module: neither panics, and both keep the pool's structure.\<close>

lemma timer_poll_ok: "poll_ok (timer_future now)"
proof -
  have "returns (\<lambda>(_, _, a'). pool_shape a') (timer_poll now i t a)" if "pool_shape a" for t i and a :: "timer_fut async"
    using that tq_push_shape [of "timers a" "\<lparr>wake_tick = tf_wake_tick t, waker_idx = i\<rparr>"]
    by (auto simp: timer_poll_def pool_shape_def returns_iff)
  then show ?thesis by (simp add: poll_ok_def)
qed

lemma yield_once_ok: "poll_ok (\<lambda>y i. yield_once_poll i y)"
  by (simp add: poll_ok_def yield_once_poll_def waker_wake_by_ref_def array_get_def array_set_def pool_shape_def)

text \<open>C39. The executor task runs for ever: at any tick, also across the wrap of the tick counter, and
  whatever the futures do that neither panic nor break the pool's structure, a round of the executor
  returns, keeps that structure and the kernel's invariant, and only delays the calling task. The two
  futures of the module, the timer and the yield, are such futures: their polls return in every state of that structure.\<close>

theorem executor_never_panics:
  assumes "pool_shape a" "live_inv idle k" "CURRENT_TCB k \<noteq> Some idle"
  shows "poll_ok (timer_future now) \<and> poll_ok (\<lambda>y i. yield_once_poll i y)
    \<and> (poll_ok poll \<longrightarrow> returns (\<lambda>(a', k'). pool_shape a' \<and> live_inv idle k') (executor_round poll a k))"
  using executor_round_spec [OF _ assms] timer_poll_ok yield_once_ok by simp

subsection \<open>The async test\<close>

lemma async_spawn_ready:
  assumes "init_flag a" "pool_shape a"
  shows "returns (\<lambda>(ok, a', k'). k' = k \<and> pool_shape a' \<and> init_flag a'
      \<and> (ok \<longleftrightarrow> (\<exists>s \<in> set (pool a). slot_is_free s))
      \<and> length (filter slot_is_free (pool a')) = length (filter slot_is_free (pool a)) - 1)
    (async_spawn ca executor d f a k)"
proof -
  have len: "length (pool a) = 16" using assms(2) by (simp add: pool_shape_def)
  have e: "async_spawn ca executor d f a k = (case find (\<lambda>i. slot_is_free (pool a ! i)) [0..<16] of
       None \<Rightarrow> Some (False, a, k)
     | Some i \<Rightarrow> Some (True, a\<lparr>pool := (pool a)[i := \<lparr>sfuture = Some f, sdrop = d, sready = True\<rparr>]\<rparr>, k))"
    using assms(1) spawn_from_spec [of "[0..<16]" a d f] len
    by (simp add: async_spawn_def ensure_init_def split: option.split del: upt_conv_Cons_Cons upt_rec_numeral)
  show ?thesis
  proof (cases "find (\<lambda>i. slot_is_free (pool a ! i)) [0..<16]")
    case None
    then have "\<forall>s \<in> set (pool a). \<not> slot_is_free s" using len by (auto simp: find_None_iff set_conv_nth)
    moreover from this have "filter slot_is_free (pool a) = []" by simp
    ultimately show ?thesis unfolding e None using assms by simp
  next
    case (Some i)
    then have i: "i < length (pool a)" "slot_is_free (pool a ! i)" using len by (auto simp: find_Some_iff)
    let ?s = "\<lparr>sfuture = Some f, sdrop = d, sready = True\<rparr>"
    have split: "pool a = take i (pool a) @ pool a ! i # drop (Suc i) (pool a)" by (rule id_take_nth_drop [OF i(1)])
    have "length (filter slot_is_free (pool a)) = Suc (length (filter slot_is_free ((pool a)[i := ?s])))"
      unfolding upd_conv_take_nth_drop [OF i(1)] using i(2) by (subst split) (simp add: slot_is_free_def)
    moreover have "\<exists>s \<in> set (pool a). slot_is_free s" using i nth_mem by blast
    ultimately show ?thesis unfolding e Some using assms by (simp add: pool_shape_def)
  qed
qed

text \<open>With the executor running, \<open>async_test\<close> spawns as many futures as there are free slots.\<close>

lemma async_test_count:
  "init_flag a \<Longrightarrow> pool_shape a \<Longrightarrow>
   returns (\<lambda>(n, a', k'). n = spawned_n + min num (length (filter slot_is_free (pool a))) \<and> k' = k \<and> pool_shape a' \<and> init_flag a')
     (async_test_from ca executor d async_sum num spawned_n a k)"
proof (induction num arbitrary: spawned_n a)
  case (Suc num)
  obtain ok a1 where s: "async_spawn ca executor d (async_sum (Suc num)) a k = Some (ok, a1, k)" "pool_shape a1" "init_flag a1"
    "ok \<longleftrightarrow> (\<exists>s \<in> set (pool a). slot_is_free s)"
    "length (filter slot_is_free (pool a1)) = length (filter slot_is_free (pool a)) - 1"
    using async_spawn_ready [OF Suc.prems] by (fastforce simp: returns_iff)
  have "ok \<longleftrightarrow> 0 < length (filter slot_is_free (pool a))" using s(4) by (simp add: filter_empty_conv)
  note ih = Suc.IH [OF s(3,2), of "if ok then spawned_n + 1 else spawned_n"]
  have "(if ok then spawned_n + 1 else spawned_n) + min num (length (filter slot_is_free (pool a1)))
      = spawned_n + min (Suc num) (length (filter slot_is_free (pool a)))"
    using s(5) \<open>ok \<longleftrightarrow> 0 < length (filter slot_is_free (pool a))\<close>
    by (cases "length (filter slot_is_free (pool a))") (simp_all del: length_greater_0_conv length_0_conv)
  with ih s(1) show ?case by (simp only: async_test_from.simps bind.bind_lunit split_conv)
qed simp

theorem executor_never_panics_witness:
  "returns (\<lambda>(a', k'). pool_shape a' \<and> live_inv 1 k')
     (executor_round (timer_future 7) (async_new :: timer_fut async) demo_kernel)"
proof -
  have "live_inv 1 demo_kernel"
    using kernel_inv_demo stacks_ok_demo by (simp add: live_inv_def) (simp add: demo_kernel_def)
  moreover have "CURRENT_TCB demo_kernel \<noteq> Some 1" by simp
  ultimately show ?thesis
    using executor_never_panics [OF pool_shape_new, of 1 demo_kernel 7 "timer_future 7"] by blast
qed

end
