(* ===== verification/Mos_Delay.thy ===== *)
theory Mos_Delay
  imports Mos_Exec
begin

section \<open>Delays: from the spawn to the completion\<close>

text \<open>
  The async runtime of \<open>core/src/kernel/async_rt.rs\<close> with any number of delays: spawned at any time
  by the code of \<open>spawn\<close>, polled by the rounds of the executor, the tick counter running on and wrapping in
  between. Time is counted without a wrap (the counter of the kernel is the time modulo \<open>2 ^ 32\<close>), and
  \<open>D i\<close> is the time at which the delay in slot \<open>i\<close> is due.
\<close>

subsection \<open>Runs\<close>

text \<open>
  \<open>n\<close> is the time and \<open>r\<close> the time of the last round of the executor, less than half of the counter's range
  ago. A delay is less than that long, too: the comparison of ticks cannot tell more.
\<close>

inductive delays :: "nat \<Rightarrow> nat \<Rightarrow> (nat \<Rightarrow> nat) \<Rightarrow> timer_fut async \<Rightarrow> bool" where
  d_boot: "delays n n D async_new"
| d_tick: "delays n r D a \<Longrightarrow> n + 1 < r + 2147483648 \<Longrightarrow> delays (n + 1) r D a"
| d_spawn: "delays n r D a \<Longrightarrow> unat ms < 2147483648
     \<Longrightarrow> async_spawn ca executor needs_drop (async_delay (of_nat n) ms) a k = Some (ok, a', k')
     \<Longrightarrow> delays n r (\<lambda>i. if slot_is_free (pool a ! i) then n + unat ms else D i) a'"
| d_round: "delays n r D a \<Longrightarrow> poll_all (timer_future (of_nat n)) (of_nat n) a = Some (w, a') \<Longrightarrow> delays n n D a'"

inductive_cases delaysE: "delays n r D a"

subsection \<open>Ticks and times\<close>

lemma unat_tick_diff: "r \<le> n \<Longrightarrow> n < r + 4294967296 \<Longrightarrow> unat (of_nat n - of_nat r :: u32) = n - r"
  by (simp add: unat_of_nat take_bit_nat_eq_self flip: of_nat_diff)

lemma tick_due:
  assumes "d < n + 2147483648" "n < d + 2147483648"
  shows "0 \<le> sint (of_nat n - of_nat d :: u32) \<longleftrightarrow> d \<le> n"
proof (cases "d \<le> n")
  case True
  then show ?thesis using sint_diff_window [of "of_nat n" "of_nat d" "of_nat d"] unat_tick_diff [of d n] assms by force
next
  case False
  then show ?thesis using sint_diff_window [of "of_nat n" "of_nat n" "of_nat d"] unat_tick_diff [of n d] assms by force
qed

text \<open>A queue in one window is in a later one, when its timers are.\<close>

lemma tq_inv_rebase:
  assumes inv: "tq_inv b q" and late: "\<forall>e \<in> set (tq_list q). unat (b' - b) \<le> tq_key b e"
  shows "tq_inv b' q"
proof -
  have key: "tq_key b' e = tq_key b e - unat (b' - b)" if "e \<in> set (tq_list q)" for e
  proof -
    have "b' - b \<le> wake_tick e - b" using late that by (simp add: tq_key_def word_le_nat_alt)
    then have "unat ((wake_tick e - b) - (b' - b)) = unat (wake_tick e - b) - unat (b' - b)" by (rule unat_sub)
    then show ?thesis by (simp add: tq_key_def)
  qed
  then have "tq_ok b' e" if "e \<in> set (tq_list q)" for e
    using inv that unfolding tq_inv_def tq_ok_def in_window_def tq_key_def by fastforce
  moreover have "heap_ok (tq_key b') (tq_list q)"
    unfolding heap_ok_def
  proof (intro allI impI)
    fix i assume i: "0 < i" "i < length (tq_list q)"
    then have m: "tq_list q ! i \<in> set (tq_list q)" "tq_list q ! ((i - 1) div 2) \<in> set (tq_list q)" by auto
    have "tq_key b (tq_list q ! ((i - 1) div 2)) \<le> tq_key b (tq_list q ! i)" using inv i by (simp add: tq_inv_def heap_ok_def)
    then show "tq_key b' (tq_list q ! ((i - 1) div 2)) \<le> tq_key b' (tq_list q ! i)"
      unfolding key [OF m(1)] key [OF m(2)] by (rule diff_le_mono)
  qed
  ultimately show ?thesis using inv by (simp add: tq_inv_def)
qed

subsection \<open>The invariant\<close>

text \<open>A delay that is registered sleeps and its timer is in the queue; the others are ready to be polled.\<close>

definition registered_in :: "timer_fut slot \<Rightarrow> bool" where
  "registered_in s \<longleftrightarrow> (case sfuture s of None \<Rightarrow> False | Some t \<Rightarrow> tf_registered t)"

definition delay_slot :: "nat \<Rightarrow> nat \<Rightarrow> nat \<Rightarrow> timer_fut slot \<Rightarrow> bool" where
  "delay_slot n r d s \<longleftrightarrow> (case sfuture s of None \<Rightarrow> True
     | Some t \<Rightarrow> tf_wake_tick t = of_nat d \<and> r \<le> d
         \<and> (if tf_registered t then \<not> sready s \<and> r < d \<and> d < r + 2147483648 else sready s \<and> d < n + 2147483648))"

definition entry_of :: "(nat \<Rightarrow> nat) \<Rightarrow> nat \<Rightarrow> timer_entry" where
  "entry_of D i = \<lparr>wake_tick = of_nat (D i), waker_idx = i\<rparr>"

definition holds_timers :: "(nat \<Rightarrow> nat) \<Rightarrow> nat set \<Rightarrow> timer_fut async \<Rightarrow> bool" where
  "holds_timers D S a \<longleftrightarrow> mset (tq_list (timers a)) = image_mset (entry_of D) (mset_set S)"

definition delays_inv :: "nat \<Rightarrow> nat \<Rightarrow> (nat \<Rightarrow> nat) \<Rightarrow> timer_fut async \<Rightarrow> bool" where
  "delays_inv n r D a \<longleftrightarrow> length (pool a) = 16 \<and> tq_inv (of_nat r) (timers a) \<and> r \<le> n \<and> n < r + 2147483648
     \<and> (\<forall>i < 16. delay_slot n r (D i) (pool a ! i)) \<and> holds_timers D {i. i < 16 \<and> registered_in (pool a ! i)} a"

lemma holds_timers_set: "holds_timers D S a \<Longrightarrow> finite S \<Longrightarrow> set (tq_list (timers a)) = entry_of D ` S"
  unfolding holds_timers_def by (metis finite_set_mset_mset_set set_image_mset set_mset_mset)

lemma holds_timers_len: "holds_timers D S a \<Longrightarrow> length (tq_list (timers a)) = card S"
  unfolding holds_timers_def by (metis size_image_mset size_mset size_mset_set)

subsection \<open>A round of the executor\<close>

text \<open>The slots between two polls of the round: those before \<open>m\<close> have been polled, the others woken.\<close>

definition polled :: "nat \<Rightarrow> nat \<Rightarrow> timer_fut slot \<Rightarrow> timer_fut slot" where
  "polled n d s = (case sfuture s of None \<Rightarrow> s
     | Some t \<Rightarrow> if d \<le> n then slot_empty else s\<lparr>sready := False, sfuture := Some (t\<lparr>tf_registered := True\<rparr>)\<rparr>)"

definition woken :: "nat \<Rightarrow> nat \<Rightarrow> timer_fut slot \<Rightarrow> timer_fut slot" where
  "woken n d s = (if registered_in s \<and> d \<le> n then s\<lparr>sready := True\<rparr> else s)"

definition mid_pool :: "nat \<Rightarrow> (nat \<Rightarrow> nat) \<Rightarrow> nat \<Rightarrow> timer_fut slot list \<Rightarrow> timer_fut slot list" where
  "mid_pool n D m p = map (\<lambda>i. if i < m then polled n (D i) (p ! i) else woken n (D i) (p ! i)) [0..<16]"

definition mid_round :: "nat \<Rightarrow> (nat \<Rightarrow> nat) \<Rightarrow> timer_fut slot list \<Rightarrow> nat \<Rightarrow> timer_fut async \<Rightarrow> bool" where
  "mid_round n D p m b \<longleftrightarrow> pool b = mid_pool n D m p \<and> tq_inv (of_nat n) (timers b)
     \<and> holds_timers D {i. i < 16 \<and> n < D i \<and> registered_in (pool b ! i)} b"

definition has_work :: "nat \<Rightarrow> nat \<Rightarrow> timer_fut slot \<Rightarrow> bool" where
  "has_work n d s \<longleftrightarrow> \<not> slot_is_free s \<and> (d \<le> n \<or> \<not> registered_in s)"

lemma mid_pool_nth [simp]:
  "i < 16 \<Longrightarrow> mid_pool n D m p ! i = (if i < m then polled n (D i) (p ! i) else woken n (D i) (p ! i))"
  "length (mid_pool n D m p) = 16"
  by (simp_all add: mid_pool_def del: upt_conv_Cons_Cons upt_rec_numeral)

lemma mid_pool_step:
  assumes "m < 16"
  shows "mid_pool n D (Suc m) p = (mid_pool n D m p)[m := polled n (D m) (p ! m)]"
  by (rule nth_equalityI) (use assms in \<open>auto simp: nth_list_update\<close>)

text \<open>Changing slot \<open>m\<close>: the timers of the pool are the same, or one more.\<close>

lemma timers_same:
  assumes "holds_timers D {i. i < 16 \<and> n < D i \<and> registered_in (p ! i)} b" "length p = 16" "timers b' = timers b"
    and "n < D m \<Longrightarrow> registered_in s = registered_in (p ! m)"
  shows "holds_timers D {i. i < 16 \<and> n < D i \<and> registered_in (p[m := s] ! i)} b'"
proof -
  have "{i. i < 16 \<and> n < D i \<and> registered_in (p[m := s] ! i)} = {i. i < 16 \<and> n < D i \<and> registered_in (p ! i)}"
    using assms(2,4) by (metis nth_list_update_eq nth_list_update_neq)
  with assms(1,3) show ?thesis by (simp add: holds_timers_def)
qed

lemma timers_push:
  assumes hold: "holds_timers D {i. i < 16 \<and> n < D i \<and> registered_in (p ! i)} b" and p: "length p = 16"
    and m: "m < 16" "n < D m" "D m < n + 2147483648" "\<not> registered_in (p ! m)" and s: "registered_in s"
    and q: "tq_inv (of_nat n) (timers b)"
  shows "returns (\<lambda>q'. tq_inv (of_nat n) q' \<and> holds_timers D {i. i < 16 \<and> n < D i \<and> registered_in (p[m := s] ! i)} (b'\<lparr>timers := q'\<rparr>))
    (tq_push (entry_of D m) (timers b))"
proof -
  let ?S = "{i. i < 16 \<and> n < D i \<and> registered_in (p ! i)}"
  have S: "finite ?S" "m \<notin> ?S" "?S \<subseteq> {..<16} - {m}" using m(4) by auto
  then have "card ?S < 16" using m(1) card_mono [OF _ S(3)] by simp
  then have room: "tlen (timers b) < ASYNC_POOL_MAX" using holds_timers_len [OF hold] tq_length [OF q] by simp
  have ins: "{i. i < 16 \<and> n < D i \<and> registered_in (p[m := s] ! i)} = insert m ?S"
    using m p s by (auto simp: nth_list_update split: if_splits)
  have ok: "tq_ok (of_nat n) (entry_of D m)"
    using unat_tick_diff [of n "D m"] m(2,3) by (simp add: tq_ok_def in_window_def entry_of_def)
  show ?thesis
    unfolding ins by (rule returns_mono [OF tq_push_spec [OF q ok]]) (use hold S room in \<open>simp add: holds_timers_def\<close>)
qed

lemma cleared_slot: "snd (slot_clear s) = slot_empty"
  by (cases s) (simp add: slot_clear_def slot_empty_def)

lemma poll_mid:
  assumes m: "m < 16" and mid: "mid_round n D p m b" and slot: "delay_slot n r (D m) (p ! m)" and r: "r \<le> n" "n < r + 2147483648"
  shows "returns (\<lambda>(d, b'). d = has_work n (D m) (p ! m) \<and> mid_round n D p (Suc m) b') (poll_slot (timer_future (of_nat n)) m b)"
proof -
  let ?s = "woken n (D m) (p ! m)" and ?v = "polled n (D m) (p ! m)"
  from mid have p: "pool b = mid_pool n D m p" and q: "tq_inv (of_nat n) (timers b)"
    and hold: "holds_timers D {i. i < 16 \<and> n < D i \<and> registered_in (mid_pool n D m p ! i)} b" by (auto simp: mid_round_def)
  have s: "pool b ! m = ?s" "length (pool b) = 16" using m p by simp_all
  have reg: "registered_in ?s = registered_in (p ! m)" by (simp add: woken_def registered_in_def)
  have step: "mid_round n D p (Suc m) b'" if "pool b' = (mid_pool n D m p)[m := ?v]" "timers b' = timers b"
    "n < D m \<Longrightarrow> registered_in ?v = registered_in (p ! m)" for b'
    using timers_same [OF hold, of b' m ?v] that q m reg by (simp add: mid_round_def mid_pool_step)
  show ?thesis
  proof (cases "sfuture (p ! m)")
    case None
    then have v: "?v = ?s" by (simp add: polled_def woken_def registered_in_def)
    have "(mid_pool n D m p)[m := ?v] = mid_pool n D m p" using m v by (simp add: list_update_same_conv)
    then have "mid_round n D p (Suc m) b" by (intro step) (use p v reg in simp_all)
    moreover have "poll_slot (timer_future (of_nat n)) m b = Some (False, b)"
      by (rule poll_slot_idle) (use None s m in \<open>simp_all add: pollable_def slot_is_free_def woken_def\<close>)
    ultimately show ?thesis using None by (simp add: has_work_def slot_is_free_def)
  next
    case (Some t)
    then have t: "tf_wake_tick t = of_nat (D m)" "r \<le> D m" using slot by (simp_all add: delay_slot_def)
    have rin: "registered_in (p ! m) = tf_registered t" using Some by (simp add: registered_in_def)
    have hw: "has_work n (D m) (p ! m) = (D m \<le> n \<or> \<not> tf_registered t)" using Some rin by (simp add: has_work_def slot_is_free_def)
    show ?thesis
    proof (cases "D m \<le> n")
      case True
      then have rdy: "sready ?s" "sfuture ?s = Some t" using Some slot rin by (auto simp: woken_def delay_slot_def split: if_splits)
      have due: "0 \<le> sint (of_nat n - of_nat (D m) :: u32)" using tick_due [of "D m" n] True t(2) r by simp
      have v: "?v = slot_empty" using Some True by (simp add: polled_def)
      have "poll_slot (timer_future (of_nat n)) m b = Some (True, b\<lparr>pool := (pool b)[m := slot_empty]\<rparr>)"
        using m s rdy due t(1)
        by (simp add: poll_slot_def array_get_def array_set_def timer_poll_def cleared_slot Let_def)
      moreover have "mid_round n D p (Suc m) (b\<lparr>pool := (pool b)[m := slot_empty]\<rparr>)"
        by (rule step) (use p v True in simp_all)
      ultimately show ?thesis using hw True by simp
    next
      case late: False
      then have due: "\<not> 0 \<le> sint (of_nat n - of_nat (D m) :: u32)"
        using tick_due [of "D m" n] slot Some r by (auto simp: delay_slot_def split: if_splits)
      show ?thesis
      proof (cases "tf_registered t")
        case True
        have sl: "\<not> sready (p ! m)" using slot Some True by (simp add: delay_slot_def)
        have v: "?v = p ! m" "?s = p ! m" using Some True late sl by (simp_all add: polled_def woken_def)
        have "(mid_pool n D m p)[m := ?v] = mid_pool n D m p" using m v by (simp add: list_update_same_conv)
        then have "mid_round n D p (Suc m) b" by (intro step) (use p v reg in simp_all)
        moreover have "poll_slot (timer_future (of_nat n)) m b = Some (False, b)"
          by (rule poll_slot_idle) (use s m v sl in \<open>simp_all add: pollable_def\<close>)
        ultimately show ?thesis using hw True late by simp
      next
        case False
        have sl: "sready (p ! m)" "D m < n + 2147483648" using slot Some False by (simp_all add: delay_slot_def)
        have sv: "?s = p ! m" using rin False by (simp add: woken_def)
        let ?t = "t\<lparr>tf_registered := True\<rparr>"
        have v: "?v = (p ! m)\<lparr>sready := False, sfuture := Some ?t\<rparr>" using Some late by (simp add: polled_def)
        then have rv: "registered_in ?v" by (simp add: registered_in_def)
        let ?b = "b\<lparr>pool := (pool b)[m := ?v]\<rparr>"
        have nr: "\<not> registered_in (mid_pool n D m p ! m)" using m sv rin False by simp
        have "n < D m" using late by simp
        from timers_push [OF hold _ m this sl(2) nr rv q, of ?b] obtain q' where push: "tq_push (entry_of D m) (timers b) = Some q'" "tq_inv (of_nat n) q'"
          "holds_timers D {i. i < 16 \<and> n < D i \<and> registered_in ((mid_pool n D m p)[m := ?v] ! i)} (?b\<lparr>timers := q'\<rparr>)"
          by (auto simp: returns_iff)
        have "poll_slot (timer_future (of_nat n)) m b = Some (True, b\<lparr>timers := q', pool := (pool b)[m := ?v]\<rparr>)"
          using m s sv sl Some due t(1) False push(1) v
          by (simp add: poll_slot_def array_get_def array_set_def timer_poll_def entry_of_def Let_def)
        moreover have "mid_round n D p (Suc m) (b\<lparr>timers := q', pool := (pool b)[m := ?v]\<rparr>)"
          using push(2,3) p m by (simp add: mid_round_def mid_pool_step holds_timers_def)
        ultimately show ?thesis using hw False by simp
      qed
    qed
  qed
qed

lemma poll_rest:
  assumes "m \<le> 16" "mid_round n D p m b" "\<forall>i < 16. delay_slot n r (D i) (p ! i)" "r \<le> n" "n < r + 2147483648"
  shows "returns (\<lambda>(w', b'). w' = (w \<or> (\<exists>i. m \<le> i \<and> i < 16 \<and> has_work n (D i) (p ! i))) \<and> mid_round n D p 16 b')
    (poll_slots (timer_future (of_nat n)) [m..<16] w b)"
  using assms
proof (induction "16 - m" arbitrary: m w b)
  case 0
  then show ?case by auto
next
  case (Suc x)
  then have m: "m < 16" "[m..<16] = m # [Suc m..<16]" by (simp_all add: upt_conv_Cons)
  have all: "(\<exists>i. m \<le> i \<and> i < 16 \<and> has_work n (D i) (p ! i)) \<longleftrightarrow> has_work n (D m) (p ! m) \<or> (\<exists>i. Suc m \<le> i \<and> i < 16 \<and> has_work n (D i) (p ! i))"
    using m(1) by (metis Suc_le_eq le_neq_implies_less order_refl less_imp_le)
  obtain d b1 where "poll_slot (timer_future (of_nat n)) m b = Some (d, b1)" "d = has_work n (D m) (p ! m)" "mid_round n D p (Suc m) b1"
    by (rule returns_pairE [OF poll_mid [OF m(1) Suc.prems(2) _ Suc.prems(4,5)]]) (use Suc.prems(3) m(1) in blast)+
  with Suc.hyps(1) [of "Suc m" b1 "w \<or> d"] Suc.hyps(2) Suc.prems(3-5) m show ?case
    unfolding m(2) poll_slots.simps all by (simp add: disj_assoc del: upt_rec_numeral)
qed

text \<open>The round from the wake-up of the due timers on.\<close>

lemma delays_round:
  assumes "delays_inv n r D a"
  shows "returns (\<lambda>(w, a'). w = (\<exists>i < 16. has_work n (D i) (pool a ! i)) \<and> pool a' = mid_pool n D 16 (pool a) \<and> delays_inv n n D a')
    (poll_all (timer_future (of_nat n)) (of_nat n) a)"
proof -
  let ?R = "{i. i < 16 \<and> registered_in (pool a ! i)}"
  from assms have len: "length (pool a) = 16" and q: "tq_inv (of_nat r) (timers a)" and r: "r \<le> n" "n < r + 2147483648"
    and sl: "\<forall>i < 16. delay_slot n r (D i) (pool a ! i)" and hold: "holds_timers D ?R a"
    by (simp_all add: delays_inv_def)
  have R: "finite ?R" by simp
  note set = holds_timers_set [OF hold R]
  have win: "r < D i \<and> D i < r + 2147483648" if "i \<in> ?R" for i
    using sl that by (auto simp: delay_slot_def registered_in_def split: option.splits)
  have exp: "is_expired (of_nat n) (entry_of D i) \<longleftrightarrow> D i \<le> n" if "i \<in> ?R" for i
    using tick_due [of "D i" n] win [OF that] r by (simp add: is_expired_def entry_of_def)
  have ai: "async_inv (of_nat r) a" using len q set by (auto simp: async_inv_def entry_of_def)
  have iw: "in_window (of_nat r) (of_nat n)" using unat_tick_diff [of r n] r by (simp add: in_window_def)
  obtain b where b: "wake_expired (of_nat n) a = Some b" "async_inv (of_nat r) b"
    "mset (tq_list (timers b)) = filter_mset (\<lambda>e. \<not> is_expired (of_nat n) e) (mset (tq_list (timers a)))"
    "pool b = wake_slots {i. \<exists>e \<in> set (tq_list (timers a)). is_expired (of_nat n) e \<and> waker_idx e = i} (pool a)"
    by (rule returnsE [OF wake_expired_spec [OF ai iw]]) blast
  let ?L = "{i. i < 16 \<and> n < D i \<and> registered_in (pool a ! i)}"
  have "{i. \<exists>e \<in> set (tq_list (timers a)). is_expired (of_nat n) e \<and> waker_idx e = i} = {i \<in> ?R. D i \<le> n}"
    unfolding set using exp by (auto simp: entry_of_def)
  then have pb: "pool b = mid_pool n D 0 (pool a)"
    using b(4) len by (intro nth_equalityI) (auto simp: wake_slots_def woken_def)
  have reg: "registered_in (pool b ! i) = registered_in (pool a ! i)" if "i < 16" for i
    using that unfolding pb by (simp add: woken_def registered_in_def)
  have "mset (tq_list (timers b)) = image_mset (entry_of D) (filter_mset (\<lambda>i. \<not> D i \<le> n) (mset_set ?R))"
    unfolding b(3) hold [unfolded holds_timers_def] filter_mset_image_mset
    by (intro arg_cong [of _ _ "image_mset (entry_of D)"] filter_mset_cong refl) (use exp in auto)
  also have "filter_mset (\<lambda>i. \<not> D i \<le> n) (mset_set ?R) = mset_set {i \<in> ?R. \<not> D i \<le> n}" by (rule filter_mset_mset_set [OF R])
  also have "{i \<in> ?R. \<not> D i \<le> n} = {i. i < 16 \<and> n < D i \<and> registered_in (pool b ! i)}" using reg by auto
  finally have hb: "holds_timers D {i. i < 16 \<and> n < D i \<and> registered_in (pool b ! i)} b" by (simp add: holds_timers_def)
  have "finite {i. i < 16 \<and> n < D i \<and> registered_in (pool b ! i)}" by simp
  note setb = holds_timers_set [OF hb this]
  have "tq_inv (of_nat n) (timers b)"
  proof (rule tq_inv_rebase)
    show "tq_inv (of_nat r) (timers b)" using b(2) by (simp add: async_inv_def)
    show "\<forall>e \<in> set (tq_list (timers b)). unat (of_nat n - of_nat r :: u32) \<le> tq_key (of_nat r) e"
    proof
      fix e assume "e \<in> set (tq_list (timers b))"
      then obtain i where i: "e = entry_of D i" "i \<in> ?R" "n < D i" unfolding setb using reg by auto
      then show "unat (of_nat n - of_nat r :: u32) \<le> tq_key (of_nat r) e"
        using unat_tick_diff [of r n] unat_tick_diff [of r "D i"] win [OF i(2)] r by (simp add: tq_key_def entry_of_def)
    qed
  qed
  then have mid: "mid_round n D (pool a) 0 b" using pb hb by (simp add: mid_round_def)
  obtain w c where c: "poll_slots (timer_future (of_nat n)) [0..<16] False b = Some (w, c)"
    "w = (\<exists>i < 16. has_work n (D i) (pool a ! i))" "mid_round n D (pool a) 16 c"
    by (rule returns_pairE [OF poll_rest [OF _ mid sl r, of False]]) auto
  have "delays_inv n n D c"
  proof -
    have ps: "pool c ! i = polled n (D i) (pool a ! i)" if "i < 16" for i using c(3) that by (simp add: mid_round_def)
    have ds: "delay_slot n n (D i) (polled n (D i) (pool a ! i))" if "i < 16" for i
      using sl [rule_format, OF that] r
      by (auto simp: delay_slot_def polled_def slot_empty_def split: option.splits if_splits)
    have "{i. i < 16 \<and> n < D i \<and> registered_in (pool c ! i)} = {i. i < 16 \<and> registered_in (pool c ! i)}"
      using ps by (auto simp: polled_def registered_in_def slot_empty_def split: option.splits if_splits)
    moreover have "holds_timers D {i. i < 16 \<and> n < D i \<and> registered_in (pool c ! i)} c" using c(3) unfolding mid_round_def by blast
    ultimately have "holds_timers D {i. i < 16 \<and> registered_in (pool c ! i)} c" by argo
    moreover have "length (pool c) = 16" "tq_inv (of_nat n) (timers c)" using c(3) by (simp_all add: mid_round_def)
    ultimately show ?thesis using ds unfolding delays_inv_def by (simp add: ps)
  qed
  then show ?thesis using b(1) c by (simp add: poll_all_def mid_round_def del: upt_rec_numeral)
qed

subsection \<open>Every run\<close>

lemma spawned_pool:
  assumes "async_spawn ca executor nd f a k = Some (ok, a', k')" "length (pool a) = 16"
  shows "timers a' = timers a"
    and "case find (\<lambda>i. slot_is_free (pool a ! i)) [0..<16] of None \<Rightarrow> \<not> ok \<and> pool a' = pool a
      | Some i \<Rightarrow> ok \<and> pool a' = (pool a)[i := \<lparr>sfuture = Some f, sdrop = nd, sready = True\<rparr>]"
    and "pool a' = pool a \<or> (\<exists>i < 16. slot_is_free (pool a ! i) \<and> pool a' = (pool a)[i := \<lparr>sfuture = Some f, sdrop = nd, sready = True\<rparr>])"
proof -
  obtain a1 k1 where e: "ensure_init ca executor a k = Some (a1, k1)" "spawn_from nd f [0..<16] a1 = Some (ok, a')"
    using assms(1) by (auto simp: async_spawn_def split: Option.bind_splits simp del: upt_rec_numeral)
  then have a1: "pool a1 = pool a" "timers a1 = timers a"
    by (auto simp: ensure_init_def split: if_splits Option.bind_splits sum.splits)
  have "spawn_from nd f [0..<16] a1 = (case find (\<lambda>i. slot_is_free (pool a1 ! i)) [0..<16] of None \<Rightarrow> Some (False, a1)
     | Some i \<Rightarrow> Some (True, a1\<lparr>pool := (pool a1)[i := \<lparr>sfuture = Some f, sdrop = nd, sready = True\<rparr>]\<rparr>))"
    by (rule spawn_from_spec) (use a1 assms(2) in \<open>simp del: upt_rec_numeral\<close>)
  with e(2) a1 have c: "timers a' = timers a \<and> (case find (\<lambda>i. slot_is_free (pool a ! i)) [0..<16] of None \<Rightarrow> \<not> ok \<and> pool a' = pool a
      | Some i \<Rightarrow> ok \<and> pool a' = (pool a)[i := \<lparr>sfuture = Some f, sdrop = nd, sready = True\<rparr>])"
    by (cases "find (\<lambda>i. slot_is_free (pool a ! i)) [0..<16]") (auto simp del: upt_rec_numeral)
  then show "timers a' = timers a"
    "case find (\<lambda>i. slot_is_free (pool a ! i)) [0..<16] of None \<Rightarrow> \<not> ok \<and> pool a' = pool a
      | Some i \<Rightarrow> ok \<and> pool a' = (pool a)[i := \<lparr>sfuture = Some f, sdrop = nd, sready = True\<rparr>]" by blast+
  with c show "pool a' = pool a \<or> (\<exists>i < 16. slot_is_free (pool a ! i) \<and> pool a' = (pool a)[i := \<lparr>sfuture = Some f, sdrop = nd, sready = True\<rparr>])"
    by (cases "find (\<lambda>i. slot_is_free (pool a ! i)) [0..<16]") (auto simp: find_Some_iff simp del: upt_rec_numeral)
qed

lemma delays_inv_spawn:
  assumes inv: "delays_inv n r D a" and ms: "unat ms < 2147483648"
    and run: "async_spawn ca executor nd (async_delay (of_nat n) ms) a k = Some (ok, a', k')"
  shows "delays_inv n r (\<lambda>i. if slot_is_free (pool a ! i) then n + unat ms else D i) a'"
proof -
  let ?D = "\<lambda>i. if slot_is_free (pool a ! i) then n + unat ms else D i"
  from inv have len: "length (pool a) = 16" and r: "r \<le> n" "n < r + 2147483648" and sl: "\<forall>i < 16. delay_slot n r (D i) (pool a ! i)"
    and hold: "holds_timers D {i. i < 16 \<and> registered_in (pool a ! i)} a" by (simp_all add: delays_inv_def)
  note S = spawned_pool [OF run len]
  let ?f = "async_delay (of_nat n) ms"
  have new: "delay_slot n r (n + unat ms) \<lparr>sfuture = Some ?f, sdrop = nd, sready = True\<rparr>" for nd
    using r ms by (simp add: delay_slot_def async_delay_def)
  have old: "delay_slot n r (?D i) (pool a ! i)" if "i < 16" for i
    using sl that by (simp add: delay_slot_def slot_is_free_def)
  have ds: "delay_slot n r (?D i) (pool a' ! i)" if "i < 16" for i
    using S(3) old [OF that] new len that by (auto simp: nth_list_update)
  have rg: "registered_in (pool a' ! i) = registered_in (pool a ! i)" if "i < 16" for i
    using S(3) len that by (auto simp: nth_list_update registered_in_def slot_is_free_def async_delay_def split: if_splits)
  have "image_mset (entry_of ?D) (mset_set {i. i < 16 \<and> registered_in (pool a ! i)})
      = image_mset (entry_of D) (mset_set {i. i < 16 \<and> registered_in (pool a ! i)})"
    by (rule image_mset_cong) (auto simp: entry_of_def registered_in_def slot_is_free_def)
  moreover have "{i. i < 16 \<and> registered_in (pool a' ! i)} = {i. i < 16 \<and> registered_in (pool a ! i)}" using rg by blast
  ultimately have "holds_timers ?D {i. i < 16 \<and> registered_in (pool a' ! i)} a'"
    using hold by (simp add: holds_timers_def S(1))
  moreover have "length (pool a') = 16" using S(3) len by auto
  ultimately show ?thesis using inv ds S(1) by (simp add: delays_inv_def)
qed

lemma delays_reach_inv: "delays n r D a \<Longrightarrow> delays_inv n r D a"
proof (induction rule: delays.induct)
  case (d_boot n D)
  have "\<not> registered_in (pool async_new ! i)" if "i < 16" for i
    using that by (simp add: async_new_def slot_empty_def registered_in_def)
  then have "{i. i < 16 \<and> registered_in (pool async_new ! i)} = {}" by blast
  then have "holds_timers D {i. i < 16 \<and> registered_in (pool async_new ! i)} async_new"
    by (simp only: holds_timers_def) (simp add: async_new_def)
  then show ?case unfolding delays_inv_def
    by (simp add: async_new_def delay_slot_def slot_empty_def)
next
  case (d_tick n r D a)
  then show ?case
    by (fastforce simp: delays_inv_def delay_slot_def split: option.splits if_splits)
next
  case (d_spawn n r D a ms ca executor nd k ok a' k')
  then show ?case using delays_inv_spawn by blast
next
  case (d_round n r D a w a')
  then show ?case using delays_round [of n r D a] by simp
qed

subsection \<open>Property\<close>

lemma registered_taken: "registered_in s \<Longrightarrow> \<not> slot_is_free s"
  by (cases "sfuture s") (auto simp: registered_in_def slot_is_free_def)

lemma delays_card:
  assumes "delays_inv n n D a" "\<forall>i < 16. slot_is_free (pool a ! i) \<or> registered_in (pool a ! i)"
  shows "tlen (timers a) = card {i. i < 16 \<and> \<not> slot_is_free (pool a ! i)}"
proof -
  have "{i. i < 16 \<and> registered_in (pool a ! i)} = {i. i < 16 \<and> \<not> slot_is_free (pool a ! i)}"
    using assms(2) registered_taken by blast
  moreover have "holds_timers D {i. i < 16 \<and> registered_in (pool a ! i)} a" "tq_inv (of_nat n) (timers a)"
    using assms(1) by (simp_all add: delays_inv_def)
  ultimately show ?thesis using holds_timers_len [of D _ a] tq_length [of "of_nat n" "timers a"] by simp
qed

text \<open>C38. A runtime in which only delays are spawned, any number of them, whatever the times at which they were
  spawned and the executor's rounds take place, the tick counter wrapping in between, as long as the rounds are less
  than 2^31 ticks apart and the delays shorter than that: a delay takes the first free slot if there is
  one, and \<open>spawn\<close> reports the failure otherwise; every round returns; a delay keeps its slot in every round before its time and is completed and gives
  its slot free in the first round at or after it; a round reports work exactly when a
  delay is due or was not polled before; and after a round every delay that still
  waits has its timer in the queue, which holds nothing else, so that no timer is lost
  (with futures that register several timers one can be: \<open>timer_lost_when_full\<close>).\<close>

theorem async_delay_exact:
  assumes "delays n r D a"
  shows "returns (\<lambda>(w, a'). delays n n D a'
      \<and> (\<forall>i < ASYNC_POOL_MAX. slot_is_free (pool a' ! i) \<longleftrightarrow> slot_is_free (pool a ! i) \<or> D i \<le> n)
      \<and> (w \<longleftrightarrow> (\<exists>i < ASYNC_POOL_MAX. \<not> slot_is_free (pool a ! i) \<and> (D i \<le> n \<or> \<not> registered_in (pool a ! i))))
      \<and> tlen (timers a') = card {i. i < ASYNC_POOL_MAX \<and> \<not> slot_is_free (pool a' ! i)})
    (poll_all (timer_future (of_nat n)) (of_nat n) a)
  \<and> (unat ms < 2147483648 \<and> async_spawn ca executor needs_drop (async_delay (of_nat n) ms) a k = Some (ok, b, k') \<longrightarrow>
      delays n r (\<lambda>i. if slot_is_free (pool a ! i) then n + unat ms else D i) b
      \<and> (case find (\<lambda>i. slot_is_free (pool a ! i)) [0..<ASYNC_POOL_MAX] of
           None \<Rightarrow> \<not> ok \<and> pool b = pool a
         | Some i \<Rightarrow> ok \<and> pool b = (pool a)[i := \<lparr>sfuture = Some (async_delay (of_nat n) ms), sdrop = needs_drop, sready = True\<rparr>]))"
proof -
  note inv = delays_reach_inv [OF assms]
  obtain w a' where R: "poll_all (timer_future (of_nat n)) (of_nat n) a = Some (w, a')"
    "w = (\<exists>i < 16. has_work n (D i) (pool a ! i))" "pool a' = mid_pool n D 16 (pool a)" "delays_inv n n D a'"
    by (rule returns_pairE [OF delays_round [OF inv]]) blast
  have p: "slot_is_free (pool a' ! i) \<longleftrightarrow> slot_is_free (pool a ! i) \<or> D i \<le> n" "slot_is_free (pool a' ! i) \<or> registered_in (pool a' ! i)"
    if "i < 16" for i
    using that unfolding R(3) by (auto simp: polled_def slot_is_free_def registered_in_def slot_empty_def split: option.splits)
  have "tlen (timers a') = card {i. i < 16 \<and> \<not> slot_is_free (pool a' ! i)}" by (rule delays_card [OF R(4)]) (use p(2) in blast)
  with R(1,2) p(1) d_round [OF assms R(1)] have "returns (\<lambda>(w, a'). delays n n D a'
      \<and> (\<forall>i < ASYNC_POOL_MAX. slot_is_free (pool a' ! i) \<longleftrightarrow> slot_is_free (pool a ! i) \<or> D i \<le> n)
      \<and> (w \<longleftrightarrow> (\<exists>i < ASYNC_POOL_MAX. \<not> slot_is_free (pool a ! i) \<and> (D i \<le> n \<or> \<not> registered_in (pool a ! i))))
      \<and> tlen (timers a') = card {i. i < ASYNC_POOL_MAX \<and> \<not> slot_is_free (pool a' ! i)})
    (poll_all (timer_future (of_nat n)) (of_nat n) a)" by (simp add: has_work_def)
  moreover have len: "length (pool a) = 16" using inv by (simp add: delays_inv_def)
  ultimately show ?thesis
    using d_spawn [OF assms, of ms ca executor needs_drop k ok b k'] spawned_pool(2) [OF _ len, of ca executor needs_drop _ k ok b k']
    unfolding ASYNC_POOL_MAX_def by blast
qed

text \<open>A delay of 7 ticks spawned just before the counter wraps.\<close>

lemma async_delay_exact_witness:
  "\<exists>D a. delays 4294967295 4294967295 D a \<and> D 0 = 4294967302 \<and> \<not> slot_is_free (pool a ! 0)
     \<and> returns (\<lambda>(w, a'). w \<and> \<not> slot_is_free (pool a' ! 0)) (poll_all (timer_future (- 1)) (- 1) a)"
proof -
  let ?n = "4294967295 :: nat" and ?a = "async_new :: timer_fut async"
  let ?D = "\<lambda>i :: nat. if slot_is_free (pool ?a ! i) then ?n + unat (7 :: u32) else 0"
  have tick: "of_nat ?n = (- 1 :: u32)" by simp
  have "returns (\<lambda>r. True) (task_create demo_addrs [] 64 1 ''async/exec'' demo_kernel)"
    using task_create_spec [OF kernel_inv_demo stacks_ok_demo, of "[]" demo_addrs 64 1 "''async/exec''"] by (rule returns_mono) simp_all
  then obtain r k where "task_create demo_addrs [] 64 1 ''async/exec'' demo_kernel = Some (r, k)" by (auto simp: returns_iff)
  then obtain a1 where a1: "ensure_init demo_addrs 64 ?a demo_kernel = Some (a1, k)" "pool a1 = pool ?a"
    by (cases r) (simp_all add: ensure_init_def async_new_def)
  have f: "find (\<lambda>i. slot_is_free (pool ?a ! i)) [0..<ASYNC_POOL_MAX] = Some 0"
    by (simp add: upt_conv_Cons async_new_def slot_empty_def slot_is_free_def)
  have "\<forall>i \<in> set [0..<16]. i < length (pool a1)" by (simp add: a1(2) del: upt_rec_numeral) (simp add: async_new_def)
  from spawn_from_spec [OF this] a1(1) obtain ok b where
    b: "async_spawn demo_addrs 64 False (async_delay (of_nat ?n) 7) ?a demo_kernel = Some (ok, b, k)"
    using f by (simp add: async_spawn_def a1(2) del: upt_rec_numeral)
  have ms: "unat (7 :: u32) < 2147483648" by simp
  from async_delay_exact [OF d_boot [of ?n "\<lambda>i. 0"], THEN conjunct2, rule_format, OF conjI, OF ms b] f
  have d: "delays ?n ?n ?D b" and pb: "pool b = (pool ?a)[0 := \<lparr>sfuture = Some (async_delay (of_nat ?n) 7), sdrop = False, sready = True\<rparr>]"
    by (simp_all del: upt_rec_numeral)
  have taken: "\<not> slot_is_free (pool b ! 0)" "\<not> registered_in (pool b ! 0)"
    by (simp_all add: pb async_new_def slot_is_free_def registered_in_def async_delay_def)
  have D0: "?D 0 = 4294967302" by (simp add: async_new_def slot_is_free_def slot_empty_def)
  with d obtain D where D: "delays ?n ?n D b" "D 0 = 4294967302" by blast
  have "returns (\<lambda>(w, a'). w \<and> \<not> slot_is_free (pool a' ! 0)) (poll_all (timer_future (- 1)) (- 1) b)"
    by (rule returns_mono [OF async_delay_exact [OF D(1), THEN conjunct1, unfolded tick]])
      (use taken D(2) in \<open>auto split: prod.splits intro!: exI [of _ 0]\<close>)
  with D taken(1) show ?thesis by blast
qed

end
