(* ===== verification/Mos_Ipc.thy ===== *)
theory Mos_Ipc
  imports Mos_Queue Mos_Sync
begin

section \<open>Message queues\<close>

text \<open>
  \<open>core/src/kernel/ipc.rs\<close>: a ring of messages with the tasks that wait to send and to receive.
  \<open>send\<close> and \<open>recv\<close> are split at their critical sections: the first attempt, the three parts of
  \<open>wait_on\<close> (\<open>Task::delay\<close> is the middle one), and the second attempt after a wake-up. The ring
  interprets the interface \<open>bounded_fifo\<close>. A waiting task is in a wait list and asleep at once.
\<close>

datatype ipc_status = IpcOk | IpcTimeOut

record 'a msg_queue =
  mqbuf :: "'a cell list"
  mqhead :: nat
  mqtail :: nat
  mqlen :: nat
  senders :: task_list
  receivers :: task_list

definition mq_new :: "nat \<Rightarrow> 'a msg_queue" where
  "mq_new N = \<lparr>mqbuf = replicate N Uninit, mqhead = 0, mqtail = 0, mqlen = 0,
     senders = tl_new, receivers = tl_new\<rparr>"

definition mq_capacity :: "'a msg_queue \<Rightarrow> nat" where
  "mq_capacity q = length (mqbuf q)"

definition mq_push :: "'a \<Rightarrow> 'a msg_queue \<Rightarrow> 'a msg_queue option" where
  "mq_push msg q =
     (if mqlen q < mq_capacity q then do {
        b \<leftarrow> array_set (mqbuf q) (mqtail q) (Init msg);
        Some (q\<lparr>mqbuf := b, mqtail := (mqtail q + 1) mod mq_capacity q, mqlen := mqlen q + 1\<rparr>) }
      else Some q)"

definition mq_pop :: "'a msg_queue \<Rightarrow> ('a option \<times> 'a msg_queue) option" where
  "mq_pop q =
     (if 0 < mqlen q then do {
        c \<leftarrow> array_get (mqbuf q) (mqhead q);
        msg \<leftarrow> assume_init c;
        Some (Some msg, q\<lparr>mqhead := (mqhead q + 1) mod mq_capacity q, mqlen := mqlen q - 1\<rparr>) }
      else Some (None, q))"

subsection \<open>Waiting and waking\<close>

text \<open>The first critical section of \<open>wait_on\<close>; \<open>Some IpcTimeOut\<close> is the early return.\<close>

definition wait_on_enter :: "u32 \<Rightarrow> task_list \<Rightarrow> kernel \<Rightarrow> (ipc_status option \<times> task_list) option" where
  "wait_on_enter timeout_ticks wl k =
     (if timeout_ticks = 0 then Some (Some IpcTimeOut, wl)
      else do {
        cr_tid \<leftarrow> current_tid k;
        t \<leftarrow> tcb_at k cr_tid;
        wl \<leftarrow> insert_by_priority k cr_tid (priority t) wl;
        Some (None, wl) })"

definition wait_on_finish :: "task_list \<Rightarrow> kernel \<Rightarrow> (ipc_status \<times> task_list) option" where
  "wait_on_finish wl k = do {
     cr_tid \<leftarrow> current_tid k;
     if tl_contains cr_tid wl then Some (IpcTimeOut, tl_remove cr_tid wl) else Some (IpcOk, wl) }"

definition try_wake_up :: "task_list \<Rightarrow> kernel \<Rightarrow> (task_list \<times> kernel) option" where
  "try_wake_up wl k =
     (case tl_pop_front wl of
        (None, wl) \<Rightarrow> Some (wl, k)
      | (Some woken_tid, wl) \<Rightarrow> do {
          k \<leftarrow> modify_tcb woken_tid (\<lambda>t. t\<lparr>wake_point := 0xFFFFFFFF, status := Ready\<rparr>) k;
          let k = k\<lparr>SLEEPING_LIST := tl_remove woken_tid (SLEEPING_LIST k)\<rparr>;
          t \<leftarrow> tcb_at k woken_tid;
          k \<leftarrow> ready_insert woken_tid (priority t) k;
          k \<leftarrow> (if CURRENT_TCB k \<noteq> None then do {
                 cr_tid \<leftarrow> current_tid k;
                 c \<leftarrow> tcb_at k cr_tid;
                 if priority t < priority c then yield_task k else Some k }
               else Some k);
          Some (wl, k) })"

subsection \<open>Sending and receiving\<close>

text \<open>The first attempt of \<open>send\<close>: the flag is \<open>is_full\<close>.\<close>

definition send_first :: "'a \<Rightarrow> 'a msg_queue \<Rightarrow> kernel \<Rightarrow> (bool \<times> 'a msg_queue \<times> kernel) option" where
  "send_first msg q k =
     (if mqlen q < mq_capacity q then do {
        q \<leftarrow> mq_push msg q;
        (wl, k) \<leftarrow> try_wake_up (receivers q) k;
        Some (False, q\<lparr>receivers := wl\<rparr>, k) }
      else Some (True, q, k))"

text \<open>\<open>wait_on(&mut inner.senders, timeout)\<close>, up to and after the delay.\<close>

definition send_wait :: "u32 \<Rightarrow> 'a msg_queue \<Rightarrow> kernel \<Rightarrow> (ipc_status option \<times> 'a msg_queue) option" where
  "send_wait timeout q k = do {
     (r, wl) \<leftarrow> wait_on_enter timeout (senders q) k;
     Some (r, q\<lparr>senders := wl\<rparr>) }"

definition send_woken :: "'a msg_queue \<Rightarrow> kernel \<Rightarrow> (ipc_status \<times> 'a msg_queue) option" where
  "send_woken q k = do {
     (r, wl) \<leftarrow> wait_on_finish (senders q) k;
     Some (r, q\<lparr>senders := wl\<rparr>) }"

text \<open>The last critical section of \<open>send\<close>, after the status \<open>IpcOk\<close>: \<open>Inl\<close> is the error.\<close>

definition send_last ::
    "'a \<Rightarrow> 'a msg_queue \<Rightarrow> kernel \<Rightarrow> ((ipc_status + unit) \<times> 'a msg_queue \<times> kernel) option" where
  "send_last msg q k =
     (if mqlen q < mq_capacity q then do {
        q \<leftarrow> mq_push msg q;
        (wl, k) \<leftarrow> try_wake_up (receivers q) k;
        Some (Inr (), q\<lparr>receivers := wl\<rparr>, k) }
      else Some (Inl IpcTimeOut, q, k))"

definition recv_first :: "'a msg_queue \<Rightarrow> kernel \<Rightarrow> ('a option \<times> 'a msg_queue \<times> kernel) option" where
  "recv_first q k =
     (if 0 < mqlen q then do {
        (msg, q) \<leftarrow> mq_pop q;
        (wl, k) \<leftarrow> try_wake_up (senders q) k;
        Some (msg, q\<lparr>senders := wl\<rparr>, k) }
      else Some (None, q, k))"

definition recv_wait :: "u32 \<Rightarrow> 'a msg_queue \<Rightarrow> kernel \<Rightarrow> (ipc_status option \<times> 'a msg_queue) option" where
  "recv_wait timeout q k = do {
     (r, wl) \<leftarrow> wait_on_enter timeout (receivers q) k;
     Some (r, q\<lparr>receivers := wl\<rparr>) }"

definition recv_woken :: "'a msg_queue \<Rightarrow> kernel \<Rightarrow> (ipc_status \<times> 'a msg_queue) option" where
  "recv_woken q k = do {
     (r, wl) \<leftarrow> wait_on_finish (receivers q) k;
     Some (r, q\<lparr>receivers := wl\<rparr>) }"

definition recv_last :: "'a msg_queue \<Rightarrow> kernel \<Rightarrow> ((ipc_status + 'a) \<times> 'a msg_queue \<times> kernel) option" where
  "recv_last q k = do {
     (msg, q) \<leftarrow> mq_pop q;
     (case msg of
        Some msg \<Rightarrow> do {
          (wl, k) \<leftarrow> try_wake_up (senders q) k;
          Some (Inr msg, q\<lparr>senders := wl\<rparr>, k) }
      | None \<Rightarrow> Some (Inl IpcTimeOut, q, k)) }"

subsection \<open>The ring of messages\<close>

text \<open>The ring part is the ring queue of \<open>Mos_Queue\<close>; its invariant and its contents carry over.\<close>

definition mq_ring :: "'a msg_queue \<Rightarrow> 'a queue" where
  "mq_ring q = \<lparr>qdata = mqbuf q, qhead = mqhead q, qtail = mqtail q, qlen = mqlen q\<rparr>"

definition mq_inv :: "'a msg_queue \<Rightarrow> bool" where
  "mq_inv q \<longleftrightarrow> queue_inv (mq_ring q)"

definition mq_list :: "'a msg_queue \<Rightarrow> 'a list" where
  "mq_list q = queue_list (mq_ring q)"

lemma mq_capacity_ring: "queue_capacity (mq_ring q) = mq_capacity q"
  by (simp add: queue_capacity_def mq_capacity_def mq_ring_def)

lemma length_mq_list [simp]: "length (mq_list q) = mqlen q"
  by (simp add: mq_list_def mq_ring_def)

lemma mq_fields [simp]:
  "mq_inv (q\<lparr>senders := a\<rparr>) = mq_inv q" "mq_inv (q\<lparr>receivers := a\<rparr>) = mq_inv q"
  "mq_list (q\<lparr>senders := a\<rparr>) = mq_list q" "mq_list (q\<lparr>receivers := a\<rparr>) = mq_list q"
  by (simp_all add: mq_inv_def mq_list_def mq_ring_def)

lemma mq_inv_new: "mq_inv (mq_new N)" "mq_list (mq_new N) = []"
  using queue_inv_new [of N] by (simp_all add: mq_inv_def mq_list_def mq_ring_def mq_new_def queue_new_def)

lemma mq_push_spec:
  assumes "mq_inv q"
  shows "returns (\<lambda>q'. mq_inv q' \<and> mq_capacity q' = mq_capacity q \<and> senders q' = senders q
       \<and> receivers q' = receivers q
       \<and> mq_list q' = (if length (mq_list q) < mq_capacity q then mq_list q @ [x] else mq_list q)) (mq_push x q)"
  using queue_push_law [of "mq_ring q" x] assms
  by (cases "array_set (mqbuf q) (mqtail q) (Init x)")
    (auto simp: mq_inv_def mq_list_def mq_push_def queue_push_def queue_full_def mq_capacity_def
      queue_capacity_def mq_ring_def split: if_splits)

lemma mq_pop_spec:
  assumes "mq_inv q" "mq_list q = x # xs"
  shows "returns (\<lambda>(r, q'). r = Some x \<and> mq_inv q' \<and> mq_capacity q' = mq_capacity q \<and> senders q' = senders q
       \<and> receivers q' = receivers q \<and> mq_list q' = xs) (mq_pop q)"
  using queue_front_cell [of "mq_ring q" x xs] queue_advance [of "mq_ring q" x xs] assms
  by (simp add: mq_inv_def mq_list_def mq_pop_def mq_capacity_def queue_capacity_def mq_ring_def)

interpretation mq: bounded_fifo mq_capacity mq_list mq_inv mq_push mq_pop
proof (unfold_locales, goal_cases)
  case (1 q)
  then show ?case by (simp add: mq_inv_def queue_inv_def mq_ring_def mq_capacity_def)
next
  case (2 q x)
  then show ?case using mq_push_spec [of q x] by (auto elim!: returns_mono)
next
  case (3 q)
  then have "mqlen q = 0" by (metis length_mq_list list.size(3))
  then show ?case by (simp add: mq_pop_def)
next
  case (4 q x xs)
  then show ?case using mq_pop_spec [of q x xs] by (auto elim!: returns_mono)
qed

subsection \<open>Waking a waiter\<close>

text \<open>A task that waits for a message queue sleeps meanwhile.\<close>

definition sleepers :: "kernel \<Rightarrow> task_list \<Rightarrow> bool" where
  "sleepers k wl \<longleftrightarrow> distinct wl \<and> set wl \<subseteq> set (SLEEPING_LIST k)"

definition unsleep :: "nat \<Rightarrow> kernel \<Rightarrow> kernel" where
  "unsleep t k = k\<lparr>TCBS := (TCBS k)(t := (TCBS k t)\<lparr>wake_point := 0xFFFFFFFF\<rparr>),
     SLEEPING_LIST := remove1 t (SLEEPING_LIST k)\<rparr>"

lemma unsleep_fields [simp]:
  "READY_LIST (unsleep t k) = READY_LIST k" "BLOCKED_LIST (unsleep t k) = BLOCKED_LIST k"
  "SLEEPING_LIST (unsleep t k) = remove1 t (SLEEPING_LIST k)" "CURRENT_TCB (unsleep t k) = CURRENT_TCB k"
  "SCHED_READY (unsleep t k) = SCHED_READY k" "TID_BITMAP (unsleep t k) = TID_BITMAP k"
  "status (TCBS (unsleep t k) s) = status (TCBS k s)" "tcb_tid (TCBS (unsleep t k) s) = tcb_tid (TCBS k s)"
  "pri (unsleep t k) s = pri k s"
  by (simp_all add: unsleep_def)

lemma kernel_inv_unsleep:
  assumes inv: "kernel_inv k" and t: "t \<in> set (SLEEPING_LIST k)"
  shows "kernel_inv (unsleep t k)"
proof -
  from inv have wf: "wf_kernel k" by (simp add: kernel_inv_def)
  have tm: "t < TASK_MAX" "status (TCBS k t) = Blocked"
    using wf_kernel_sleeping_range [OF wf] wf_kernel_parked [OF wf] t by auto
  have nl: "t \<notin> set (BLOCKED_LIST k)" using wf_kernel_disjoint(2) [OF wf, of t] t by blast
  have d: "distinct (READY_LIST (unsleep t k) @ BLOCKED_LIST (unsleep t k) @ SLEEPING_LIST (unsleep t k))"
    using wf by (auto simp: wf_kernel_def wf_lists_def dest: notin_set_remove1)
  have "wf_kernel (unsleep t k)"
    by (rule wf_kernel_move [OF wf tm(1) d])
      (use wf tm nl in \<open>simp_all add: wf_kernel_tid wf_kernel_bit wf_kernel_ready_iff wf_kernel_distinct del: TASK_MAX_def\<close>)
  moreover have "ready_sorted (unsleep t k) = ready_sorted k" by (rule ready_sorted_cong) simp_all
  ultimately show ?thesis using inv by (simp add: kernel_inv_def current_ready_def)
qed

lemma kernel_inv_wake_sleeper:
  assumes "kernel_inv k" "w \<in> set (SLEEPING_LIST k)"
  shows "kernel_inv (make_ready w (unsleep w k))" and "w < TASK_MAX"
proof -
  from assms(1) have wf: "wf_kernel k" by (simp add: kernel_inv_def)
  show "w < TASK_MAX" using wf_kernel_sleeping_range [OF wf] assms(2) by blast
  then show "kernel_inv (make_ready w (unsleep w k))"
    using wf_kernel_parked [OF wf] wf_kernel_disjoint(2) [OF wf, of w] wf_kernel_distinct(3) [OF wf] assms(2)
    by (intro kernel_inv_make_ready [OF kernel_inv_unsleep [OF assms]]) auto
qed

lemma try_wake_up_closed:
  assumes inv: "kernel_inv k" and w: "w \<in> set (SLEEPING_LIST k)"
  shows "try_wake_up (w # ws) k = do {
     k' \<leftarrow> (if CURRENT_TCB k \<noteq> None \<and> (\<forall>c. CURRENT_TCB k = Some c \<longrightarrow> pri k w < pri k c)
           then yield_task (make_ready w (unsleep w k)) else Some (make_ready w (unsleep w k)));
     Some (ws, k') }"
proof -
  note inv1 = kernel_inv_unsleep [OF assms] and inv2 = kernel_inv_wake_sleeper(1) [OF assms]
    and wm = kernel_inv_wake_sleeper(2) [OF assms]
  from inv have wf: "wf_kernel k" by (simp add: kernel_inv_def)
  from inv1 inv2 have wf1: "wf_kernel (unsleep w k)" and wf2: "wf_kernel (make_ready w (unsleep w k))"
    by (simp_all add: kernel_inv_def)
  have nr: "w \<notin> set (READY_LIST (unsleep w k))" using wf_kernel_disjoint(1) [OF wf, of w] w by auto
  let ?k1 = "k\<lparr>TCBS := (TCBS k)(w := (TCBS k w)\<lparr>wake_point := 0xFFFFFFFF, status := Ready\<rparr>),
      SLEEPING_LIST := remove1 w (SLEEPING_LIST k)\<rparr>"
  have "?k1 = (unsleep w k)\<lparr>TCBS := (TCBS (unsleep w k))(w := (TCBS (unsleep w k) w)\<lparr>status := Ready\<rparr>)\<rparr>"
    by (simp add: unsleep_def)
  then have ins: "ready_insert w (pri k w) ?k1 = Some (make_ready w (unsleep w k))"
    using ready_insert_make_ready [OF wf1 wm nr, of ?k1] by simp
  have cur: "current_tid (make_ready w (unsleep w k)) = Some c \<and> c < TASK_MAX" if "CURRENT_TCB k = Some c" for c
    using current_tid_simp [OF wf2, of c] wf_kernel_current [OF wf, of c] that by simp
  show ?thesis
    using wm ins cur
    by (cases "CURRENT_TCB k") (auto simp: try_wake_up_def tl_pop_front_def unsleep_def)
qed

lemma try_wake_up_spec:
  assumes inv: "kernel_inv k" and wl: "sleepers k wl"
  shows "returns (\<lambda>(wl', k'). kernel_inv k' \<and> wl' = tl wl \<and> set (READY_LIST k) \<union> set (take 1 wl) \<subseteq> set (READY_LIST k')
           \<and> (if wl = [] then k' = k else True)) (try_wake_up wl k)"
proof (cases wl)
  case Nil
  then show ?thesis using inv by (simp add: try_wake_up_def tl_pop_front_def)
next
  case (Cons w ws)
  then have w: "w \<in> set (SLEEPING_LIST k)" using wl by (simp add: sleepers_def)
  note inv2 = kernel_inv_wake_sleeper(1) [OF inv w]
  show ?thesis
    unfolding Cons try_wake_up_closed [OF inv w] returns_bind
    by (rule sched.yield_if [OF kernel_inv_mid [OF inv2] inv2])
      (use yield_frameD(6) [of "make_ready w (unsleep w k)"] in auto)
qed

subsection \<open>Properties\<close>

text \<open>A sender that sends a batch while there is room, and a receiver that takes \<open>n\<close> messages.\<close>

fun send_all :: "'a list \<Rightarrow> 'a msg_queue \<Rightarrow> kernel \<Rightarrow> (bool \<times> 'a msg_queue \<times> kernel) option" where
  "send_all [] q k = Some (False, q, k)"
| "send_all (x # xs) q k = do {
     (full, q, k) \<leftarrow> send_first x q k;
     if full then Some (True, q, k) else send_all xs q k }"

fun recv_all :: "nat \<Rightarrow> 'a msg_queue \<Rightarrow> kernel \<Rightarrow> ('a list \<times> 'a msg_queue \<times> kernel) option" where
  "recv_all 0 q k = Some ([], q, k)"
| "recv_all (Suc n) q k = do {
     (r, q, k) \<leftarrow> recv_first q k;
     (case r of None \<Rightarrow> Some ([], q, k)
      | Some x \<Rightarrow> do { (xs, q, k) \<leftarrow> recv_all n q k; Some (x # xs, q, k) }) }"

definition calm :: "'a msg_queue \<Rightarrow> bool" where
  "calm q \<longleftrightarrow> mq_inv q \<and> senders q = [] \<and> receivers q = []"

lemma try_wake_up_Nil [simp]: "try_wake_up [] k = Some ([], k)"
  by (simp add: try_wake_up_def tl_pop_front_def)

lemma send_first_calm:
  assumes "calm q" "mqlen q < mq_capacity q"
  shows "returns (\<lambda>(full, q', k'). \<not> full \<and> k' = k \<and> calm q' \<and> mq_capacity q' = mq_capacity q
     \<and> mq_list q' = mq_list q @ [x]) (send_first x q k)"
  using mq_push_spec [of q x] assms
  by (auto simp: send_first_def calm_def mq_capacity_def elim!: returns_mono)

lemma send_all_calm:
  "calm q \<Longrightarrow> mqlen q + length xs \<le> mq_capacity q \<Longrightarrow>
   returns (\<lambda>(full, q', k'). \<not> full \<and> k' = k \<and> calm q' \<and> mq_list q' = mq_list q @ xs) (send_all xs q k)"
proof (induction xs arbitrary: q)
  case (Cons x xs)
  obtain q1 where q1: "send_first x q k = Some (False, q1, k)" "calm q1" "mq_capacity q1 = mq_capacity q"
    "mq_list q1 = mq_list q @ [x]"
    using send_first_calm [OF Cons.prems(1), where x = x and k = k] Cons.prems(2) by (auto simp: returns_iff)
  have "mqlen q1 = Suc (mqlen q)" using q1(4) by (metis length_append_singleton length_mq_list)
  with Cons.IH [OF q1(2)] q1 Cons.prems(2) show ?case by simp
qed simp

lemma recv_first_calm:
  assumes "calm q" "mq_list q = x # xs"
  shows "returns (\<lambda>(r, q', k'). r = Some x \<and> k' = k \<and> calm q' \<and> mq_list q' = xs) (recv_first q k)"
proof -
  have "mqlen q \<noteq> 0" using assms(2) by (metis length_Cons length_mq_list nat.distinct(1))
  with mq_pop_spec [of q x xs] assms show ?thesis by (auto simp: recv_first_def calm_def returns_iff)
qed

lemma recv_all_calm:
  "calm q \<Longrightarrow> mq_list q = xs \<Longrightarrow>
   returns (\<lambda>(ys, q', k'). ys = xs \<and> k' = k \<and> calm q' \<and> mq_list q' = []) (recv_all (length xs) q k)"
proof (induction xs arbitrary: q)
  case (Cons x xs)
  obtain q1 where q1: "recv_first q k = Some (Some x, q1, k)" "calm q1" "mq_list q1 = xs"
    using recv_first_calm [OF Cons.prems, of k] by (auto simp: returns_iff)
  with Cons.IH [OF q1(2,3)] show ?case by (auto simp: returns_iff)
qed simp

text \<open>C34. Messages are delivered in order: on a queue with no waiting task, a batch that fits is
  accepted without blocking and returned by as many receives in the order sent, and the scheduler
  state does not change.\<close>

theorem ipc_in_order:
  assumes "mq_inv q" and "senders q = []" and "receivers q = []" and "mq_list q = []"
    and "length xs \<le> mq_capacity q"
  shows "returns (\<lambda>(full, q1, k1). \<not> full \<and> k1 = k \<and> mq_list q1 = xs
           \<and> returns (\<lambda>(ys, q2, k2). ys = xs \<and> k2 = k \<and> mq_list q2 = []) (recv_all (length xs) q1 k1))
         (send_all xs q k)"
proof -
  have q: "calm q" "mqlen q = 0" using assms by (simp_all add: calm_def flip: length_mq_list)
  have "returns (\<lambda>(full, q', k'). \<not> full \<and> k' = k \<and> calm q' \<and> mq_list q' = mq_list q @ xs) (send_all xs q k)"
    using q(2) assms(5) by (intro send_all_calm [OF q(1)]) simp
  moreover have "returns (\<lambda>(ys, q2, k2). ys = xs \<and> k2 = k \<and> mq_list q2 = []) (recv_all (length xs) q1 k)"
    if "calm q1" "mq_list q1 = xs" for q1
    using recv_all_calm [OF that, of k] by (auto elim!: returns_mono)
  ultimately show ?thesis using assms(4) by (auto elim!: returns_mono)
qed

lemma ipc_in_order_witness:
  "returns (\<lambda>(full, q1, k1). returns (\<lambda>(ys, q2, k2). ys = [5, 6 :: u8]) (recv_all 2 q1 k1))
     (send_all [5, 6] (mq_new 2) demo_kernel)"
proof -
  have "mq_inv (mq_new 2 :: u8 msg_queue)" "mq_list (mq_new 2 :: u8 msg_queue) = []" by (rule mq_inv_new)+
  from ipc_in_order [OF this(1) _ _ this(2), of "[5, 6]" demo_kernel] show ?thesis
    by (auto simp: mq_new_def tl_new_def mq_capacity_def numeral_2_eq_2 elim!: returns_mono)
qed

text \<open>C35. \<open>send\<close> and \<open>recv\<close> with waiting tasks: on a queue that is not full the message is appended
  and the first waiting receiver, taken off its wait list and out of the sleeping list, becomes
  ready; on a full queue nothing changes. \<open>recv\<close> does the same on the other side. The invariants of
  the ring and of the kernel are kept and nothing panics.\<close>

theorem ipc_hands_over:
  assumes "kernel_inv k" and "mq_inv q" and "sleepers k (senders q)" and "sleepers k (receivers q)"
  shows "returns (\<lambda>(full, q', k'). kernel_inv k' \<and> mq_inv q'
           \<and> (if length (mq_list q) < mq_capacity q
              then \<not> full \<and> mq_list q' = mq_list q @ [msg] \<and> receivers q' = tl (receivers q)
                \<and> set (take 1 (receivers q)) \<subseteq> set (READY_LIST k')
              else full \<and> q' = q \<and> k' = k)) (send_first msg q k)
     \<and> returns (\<lambda>(r, q', k'). kernel_inv k' \<and> mq_inv q'
           \<and> (case mq_list q of [] \<Rightarrow> r = None \<and> q' = q \<and> k' = k
              | x # xs \<Rightarrow> r = Some x \<and> mq_list q' = xs \<and> senders q' = tl (senders q)
                  \<and> set (take 1 (senders q)) \<subseteq> set (READY_LIST k'))) (recv_first q k)"
proof
  show "returns (\<lambda>(full, q', k'). kernel_inv k' \<and> mq_inv q'
           \<and> (if length (mq_list q) < mq_capacity q
              then \<not> full \<and> mq_list q' = mq_list q @ [msg] \<and> receivers q' = tl (receivers q)
                \<and> set (take 1 (receivers q)) \<subseteq> set (READY_LIST k')
              else full \<and> q' = q \<and> k' = k)) (send_first msg q k)"
  proof (cases "mqlen q < mq_capacity q")
    case True
    then obtain q1 where q1: "mq_push msg q = Some q1" "mq_inv q1" "receivers q1 = receivers q"
      "mq_list q1 = mq_list q @ [msg]"
      using mq_push_spec [OF assms(2), of msg] by (auto simp: returns_iff)
    obtain k' where "try_wake_up (receivers q) k = Some (tl (receivers q), k')" "kernel_inv k'"
      "set (take 1 (receivers q)) \<subseteq> set (READY_LIST k')"
      using try_wake_up_spec [OF assms(1,4)] by (auto simp: returns_iff)
    with q1 True show ?thesis by (simp add: send_first_def)
  next
    case False
    with assms show ?thesis by (simp add: send_first_def)
  qed
  show "returns (\<lambda>(r, q', k'). kernel_inv k' \<and> mq_inv q'
           \<and> (case mq_list q of [] \<Rightarrow> r = None \<and> q' = q \<and> k' = k
              | x # xs \<Rightarrow> r = Some x \<and> mq_list q' = xs \<and> senders q' = tl (senders q)
                  \<and> set (take 1 (senders q)) \<subseteq> set (READY_LIST k'))) (recv_first q k)"
  proof (cases "mq_list q")
    case Nil
    then have "mqlen q = 0" by (metis length_mq_list list.size(3))
    with Nil assms show ?thesis by (simp add: recv_first_def)
  next
    case (Cons x xs)
    then have "mqlen q \<noteq> 0" by (metis length_Cons length_mq_list nat.distinct(1))
    moreover obtain q1 where q1: "mq_pop q = Some (Some x, q1)" "mq_inv q1" "senders q1 = senders q" "mq_list q1 = xs"
      using mq_pop_spec [OF assms(2) Cons] by (auto simp: returns_iff)
    moreover obtain k' where "try_wake_up (senders q) k = Some (tl (senders q), k')" "kernel_inv k'"
      "set (take 1 (senders q)) \<subseteq> set (READY_LIST k')"
      using try_wake_up_spec [OF assms(1,3)] by (auto simp: returns_iff)
    ultimately show ?thesis using Cons by (simp add: recv_first_def)
  qed
qed

lemma sleepers_demo: "sleepers demo_kernel [2]"
  by (simp add: sleepers_def demo_kernel_def)

lemma ipc_hands_over_witness:
  "returns (\<lambda>(full, q', k'). \<not> full \<and> receivers q' = [] \<and> 2 \<in> set (READY_LIST k'))
     (send_first (9 :: u8) ((mq_new 4)\<lparr>receivers := [2]\<rparr>) demo_kernel)"
proof -
  let ?q = "(mq_new 4 :: u8 msg_queue)\<lparr>receivers := [2]\<rparr>"
  have q: "mq_inv ?q" "mq_list ?q = []" by (simp_all add: mq_inv_new)
  have s: "sleepers demo_kernel (senders ?q)" "sleepers demo_kernel (receivers ?q)"
    using sleepers_demo by (simp_all add: mq_new_def tl_new_def sleepers_def)
  have c: "mq_capacity ?q = 4" by (simp add: mq_capacity_def mq_new_def)
  show ?thesis
    by (rule returns_mono [OF conjunct1 [OF ipc_hands_over [OF kernel_inv_demo q(1) s]]]) (use q(2) c in \<open>auto simp: mq_new_def\<close>)
qed

text \<open>Between queueing itself and falling asleep in \<open>delay\<close> a waiting task is ready and in the
  wait list; a message that arrives then makes \<open>try_wake_up\<close> insert it into the ready list a second
  time (and the same happens to a task whose timeout has just ended).\<close>

theorem ipc_wakes_ready_task_twice:
  assumes "wf_kernel k" and "w \<in> set (READY_LIST k)" and "length (READY_LIST k) < TASK_MAX"
    and "CURRENT_TCB k = Some c" and "pri k c \<le> pri k w"
  shows "returns (\<lambda>(wl', k'). count (mset (READY_LIST k')) w = 2 \<and> \<not> wf_kernel k') (try_wake_up (w # ws) k)"
proof -
  have w: "w < TASK_MAX" "w \<notin> set (SLEEPING_LIST k)"
    using ready_not_terminated [OF assms(1,2)] wf_kernel_disjoint(1) [OF assms(1,2)] by simp_all
  have c: "c < TASK_MAX" "tcb_tid (TCBS k c) = c" using wf_kernel_current [OF assms(1,4)] by simp_all
  let ?k1 = "k\<lparr>TCBS := (TCBS k)(w := (TCBS k w)\<lparr>wake_point := 0xFFFFFFFF, status := Ready\<rparr>),
      SLEEPING_LIST := remove1 w (SLEEPING_LIST k)\<rparr>"
  define p where "p = (\<lambda>t. pri k w < pri ?k1 t)"
  have ins: "ready_insert w (pri k w) ?k1 = Some (?k1\<lparr>READY_LIST := insert_before p w (READY_LIST k)\<rparr>)"
    using ready_insert_before [of ?k1 w "pri k w"] wf_kernel_ready_range [OF assms(1)] assms(3)
    by (simp add: p_def del: fun_upd_apply)
  have "current_tid (?k1\<lparr>READY_LIST := insert_before p w (READY_LIST k)\<rparr>) = Some c"
    using c assms(4) by (auto simp: current_tid_def current_tcb_def)
  then have eq: "try_wake_up (w # ws) k = Some (ws, ?k1\<lparr>READY_LIST := insert_before p w (READY_LIST k)\<rparr>)"
    using w(1) c assms(4,5) ins by (auto simp: try_wake_up_def tl_pop_front_def not_less Let_def)
  have "\<not> wf_kernel (?k1\<lparr>READY_LIST := insert_before p w (READY_LIST k)\<rparr>)"
    using wf_kernel_distinct(1) [of "?k1\<lparr>READY_LIST := insert_before p w (READY_LIST k)\<rparr>"] assms(2) by auto
  moreover have "count (mset (READY_LIST k)) w = 1"
    using wf_kernel_distinct(1) [OF assms(1)] assms(2) by (simp add: distinct_count_atmost_1)
  ultimately show ?thesis unfolding eq by simp
qed

lemma ipc_wakes_ready_task_twice_witness:
  "returns (\<lambda>(wl', k'). count (mset (READY_LIST k')) 1 = 2) (try_wake_up [1] demo_kernel)"
  using ipc_wakes_ready_task_twice [OF demo_wf(1), of 1 0 "[]"]
  by (auto simp: demo_kernel_def elim!: returns_mono)

end
