(* ===== verification/Mos_Riscv.thy ===== *)
theory Mos_Riscv
  imports Mos_Sched
begin

section \<open>The context switch in assembly\<close>

text \<open>
  \<open>core/src/arch/riscv.rs\<close>: the trap handler and \<open>start_first_task\<close> as lists of RV32 instructions,
  run by an interpreter of the instructions they use. All jumps of the handler are forward, so a
  jump drops instructions up to its label and execution terminates by the length of the program.
  Memory is word-addressed; the addresses the linker gives to the symbols and the effect of the two
  called functions are arguments.
\<close>

subsection \<open>The machine\<close>

datatype symbol = S_CURRENT_TCB_PTR | S_SCHED_READY | S_ISR_STACK_TOP
datatype callee = C_mos_trap_dispatch | C_next_tcb
datatype csr = MEPC | MSTATUS | MCAUSE | MTVEC

text \<open>Registers are named by their number: 1 is \<open>ra\<close>, 2 \<open>sp\<close>, 5 and 6 \<open>t0\<close> and \<open>t1\<close>, 8 \<open>s0\<close>,
  10 and 11 \<open>a0\<close> and \<open>a1\<close>. Labels are the local labels of the assembler.\<close>

datatype instr =
    Addi nat nat u32 | Ori nat nat u32 | Andi nat nat u32 | Mv nat nat
  | La nat symbol | Lw nat u32 nat | Lbu nat u32 nat | Sw nat u32 nat
  | Csrr nat csr | Csrw csr nat
  | Beqz nat nat | Bgez nat nat | J nat | Label nat | Call callee | Mret

record machine =
  gpr :: "nat \<Rightarrow> u32"
  csrs :: "csr \<Rightarrow> u32"
  mem :: "u32 \<Rightarrow> u32"
  pc :: u32
  privilege :: u32

lemma machine_update_order:
  "m\<lparr>csrs := C, gpr := R\<rparr> = m\<lparr>gpr := R, csrs := C\<rparr>" "m\<lparr>mem := M, gpr := R\<rparr> = m\<lparr>gpr := R, mem := M\<rparr>"
  "m\<lparr>mem := M, csrs := C\<rparr> = m\<lparr>csrs := C, mem := M\<rparr>"
  by simp_all

definition set_gpr :: "nat \<Rightarrow> u32 \<Rightarrow> machine \<Rightarrow> machine" where
  "set_gpr r v m = (if r = 0 then m else m\<lparr>gpr := (gpr m)(r := v)\<rparr>)"

definition load_byte :: "(u32 \<Rightarrow> u32) \<Rightarrow> u32 \<Rightarrow> u32" where
  "load_byte M a = drop_bit (8 * unat (a AND 3)) (M (a AND NOT 3)) AND 0xFF"

fun step :: "(symbol \<Rightarrow> u32) \<Rightarrow> (callee \<Rightarrow> machine \<Rightarrow> machine) \<Rightarrow> instr \<Rightarrow> machine \<Rightarrow> machine" where
  "step adr call (Addi rd rs i) m = set_gpr rd (gpr m rs + i) m"
| "step adr call (Ori rd rs i) m = set_gpr rd (gpr m rs OR i) m"
| "step adr call (Andi rd rs i) m = set_gpr rd (gpr m rs AND i) m"
| "step adr call (Mv rd rs) m = set_gpr rd (gpr m rs) m"
| "step adr call (La rd s) m = set_gpr rd (adr s) m"
| "step adr call (Lw rd off rs) m = set_gpr rd (mem m (gpr m rs + off)) m"
| "step adr call (Lbu rd off rs) m = set_gpr rd (load_byte (mem m) (gpr m rs + off)) m"
| "step adr call (Sw rs off rb) m = m\<lparr>mem := (mem m)(gpr m rb + off := gpr m rs)\<rparr>"
| "step adr call (Csrr rd c) m = set_gpr rd (csrs m c) m"
| "step adr call (Csrw c rs) m = m\<lparr>csrs := (csrs m)(c := gpr m rs)\<rparr>"
| "step adr call (Call f) m = call f m"
| "step adr call i m = m"

text \<open>
  \<open>mret\<close> returns to \<open>mepc\<close> in the mode of \<open>MPP\<close> (bits 11 and 12), moves \<open>MPIE\<close> (bit 7) to \<open>MIE\<close>
  (bit 3), sets \<open>MPIE\<close> and clears \<open>MPP\<close>. A trap does the converse on entry.
\<close>

definition mret :: "machine \<Rightarrow> machine" where
  "mret m = (let s = csrs m MSTATUS;
                 s' = (if bit s 7 then s OR 8 else s AND NOT 8)
             in m\<lparr>pc := csrs m MEPC, privilege := drop_bit 11 s AND 3,
                  csrs := (csrs m)(MSTATUS := (s' OR 0x80) AND NOT 0x1800)\<rparr>)"

definition take_trap :: "u32 \<Rightarrow> machine \<Rightarrow> machine" where
  "take_trap cause m = (let s = csrs m MSTATUS;
                            s' = (if bit s 3 then s OR 0x80 else s AND NOT 0x80)
     in m\<lparr>privilege := 3,
          csrs := (csrs m)(MEPC := pc m, MCAUSE := cause,
            MSTATUS := (s' AND NOT 8 AND NOT 0x1800) OR push_bit 11 (privilege m AND 3))\<rparr>)"

definition goto :: "nat \<Rightarrow> instr list \<Rightarrow> instr list" where
  "goto l is = dropWhile (\<lambda>i. i \<noteq> Label l) is"

lemma length_goto [termination_simp]: "length (goto l is) < Suc (length is)"
  by (simp add: goto_def length_dropWhile_le le_imp_less_Suc)

lemma goto_simps [simp]:
  "goto l [] = []" "goto l (Label l # is) = Label l # is" "i \<noteq> Label l \<Longrightarrow> goto l (i # is) = goto l is"
  by (simp_all add: goto_def)

text \<open>Execution up to \<open>mret\<close>; a program that ends without it has no result.\<close>

fun exec :: "(symbol \<Rightarrow> u32) \<Rightarrow> (callee \<Rightarrow> machine \<Rightarrow> machine) \<Rightarrow> instr list \<Rightarrow> machine \<Rightarrow> machine option" where
  "exec adr call [] m = None"
| "exec adr call (i # is) m =
     (case i of
        Mret \<Rightarrow> Some (mret m)
      | J l \<Rightarrow> exec adr call (goto l is) m
      | Beqz r l \<Rightarrow> (if gpr m r = 0 then exec adr call (goto l is) m else exec adr call is m)
      | Bgez r l \<Rightarrow> (if 0 \<le> sint (gpr m r) then exec adr call (goto l is) m else exec adr call is m)
      | _ \<Rightarrow> exec adr call is (step adr call i m))"

subsection \<open>The programs\<close>

definition save_regs :: "instr list" where
  "save_regs = [
     Sw 1 4 2, Sw 3 8 2, Sw 4 12 2, Sw 5 16 2, Sw 6 20 2, Sw 7 24 2, Sw 8 28 2, Sw 9 32 2,
     Sw 10 36 2, Sw 11 40 2, Sw 12 44 2, Sw 13 48 2, Sw 14 52 2, Sw 15 56 2, Sw 16 60 2, Sw 17 64 2,
     Sw 18 68 2, Sw 19 72 2, Sw 20 76 2, Sw 21 80 2, Sw 22 84 2, Sw 23 88 2, Sw 24 92 2, Sw 25 96 2,
     Sw 26 100 2, Sw 27 104 2, Sw 28 108 2, Sw 29 112 2, Sw 30 116 2, Sw 31 120 2]"

definition restore_regs :: "instr list" where
  "restore_regs = [
     Lw 1 4 2, Lw 3 8 2, Lw 4 12 2, Lw 5 16 2, Lw 6 20 2, Lw 7 24 2, Lw 8 28 2, Lw 9 32 2,
     Lw 10 36 2, Lw 11 40 2, Lw 12 44 2, Lw 13 48 2, Lw 14 52 2, Lw 15 56 2, Lw 16 60 2, Lw 17 64 2,
     Lw 18 68 2, Lw 19 72 2, Lw 20 76 2, Lw 21 80 2, Lw 22 84 2, Lw 23 88 2, Lw 24 92 2, Lw 25 96 2,
     Lw 26 100 2, Lw 27 104 2, Lw 28 108 2, Lw 29 112 2, Lw 30 116 2, Lw 31 120 2]"

definition save_context :: "instr list" where
  "save_context =
     [Addi 2 2 (- 128)] @ save_regs @ [Csrr 5 MEPC, Sw 5 0 2, Csrr 5 MSTATUS, Sw 5 124 2]"

definition restore_context :: "instr list" where
  "restore_context =
     [Lw 5 124 2, Ori 5 5 0x80, Andi 5 5 (- 9), Csrw MSTATUS 5, Lw 5 0 2, Csrw MEPC 5]
     @ restore_regs @ [Addi 2 2 128, Mret]"

definition start_first_task :: "instr list" where
  "start_first_task =
     [La 5 S_CURRENT_TCB_PTR, Lw 6 0 5, Lw 2 0 6] @ restore_context"

definition trap_entry :: "instr list" where
  "trap_entry =
     [La 5 S_SCHED_READY, Lbu 5 0 5, Beqz 5 1,
      La 5 S_CURRENT_TCB_PTR, Lw 6 0 5, Sw 2 0 6,
      Label 1,
      Mv 8 2,
      Csrr 10 MCAUSE, Bgez 10 6,
      La 5 S_ISR_STACK_TOP, Lw 2 0 5,
      Label 6,
      Mv 11 8]"

definition trap_exit :: "instr list" where
  "trap_exit =
     [La 5 S_SCHED_READY, Lbu 5 0 5, Beqz 5 8, Beqz 10 8,
      Call C_next_tcb,
      La 5 S_CURRENT_TCB_PTR, Lw 6 0 5, Lw 2 0 6, J 2,
      Label 8,
      Mv 2 8,
      Label 2]"

text \<open>The handler behind its vector table of 32 jumps.\<close>

definition trap_handler :: "instr list" where
  "trap_handler = replicate 32 (J 3) @ [Label 3] @ save_context @ trap_entry @ [Call C_mos_trap_dispatch]
     @ trap_exit @ restore_context"

definition ISR_STACK_SIZE :: u32 where [simp]: "ISR_STACK_SIZE = 8192"

text \<open>\<open>install_trap_handler\<close> with the addresses of \<open>ISR_STACK\<close> and of the handler.\<close>

definition install_trap_handler :: "(symbol \<Rightarrow> u32) \<Rightarrow> u32 \<Rightarrow> u32 \<Rightarrow> machine \<Rightarrow> machine" where
  "install_trap_handler adr isr_stack handler m =
     (let m = m\<lparr>mem := (mem m)(adr S_ISR_STACK_TOP := isr_stack + ISR_STACK_SIZE)\<rparr>;
          m = set_gpr 5 handler m;
          m = set_gpr 5 (gpr m 5 AND (- 4)) m
      in m\<lparr>csrs := (csrs m)(MTVEC := gpr m 5)\<rparr>)"

subsection \<open>The frame\<close>

text \<open>Word \<open>j\<close> of the frame of a context, and of the frame at an address.\<close>

definition frame_reg :: "nat \<Rightarrow> nat" where
  "frame_reg j = (if j = 1 then 1 else j + 1)"

definition frame_at :: "(u32 \<Rightarrow> u32) \<Rightarrow> u32 \<Rightarrow> nat \<Rightarrow> u32" where
  "frame_at M a j = M (a + 4 * of_nat j)"

definition context_word :: "machine \<Rightarrow> nat \<Rightarrow> u32" where
  "context_word m j = (if j = 0 then csrs m MEPC else if j = 31 then csrs m MSTATUS else gpr m (frame_reg j))"

definition frame_addrs :: "u32 \<Rightarrow> u32 set" where
  "frame_addrs a = (\<lambda>j. a + 4 * of_nat j) ` {..<CONTEXT_WORDS}"

text \<open>The registers that \<open>mret\<close> leaves a task with, when it is resumed from the frame at \<open>a\<close>.\<close>

definition resumed_gpr :: "(u32 \<Rightarrow> u32) \<Rightarrow> u32 \<Rightarrow> (nat \<Rightarrow> u32) \<Rightarrow> nat \<Rightarrow> u32" where
  "resumed_gpr M a R r = (if r = 2 then a + 128 else if r = 1 then frame_at M a 1
     else if 3 \<le> r \<and> r < 32 then frame_at M a (r - 1) else R r)"

definition resumed_status :: "u32 \<Rightarrow> u32" where
  "resumed_status w = (w OR 0x80) AND (- 9)"

lemma fold_upd_in:
  "inj_on f (set js) \<Longrightarrow> j \<in> set js \<Longrightarrow> fold (\<lambda>j R. R(f j := v j)) js R (f j) = v j"
proof (induction js rule: rev_induct)
  case (snoc i js)
  show ?case
  proof (cases "f j = f i")
    case True
    with snoc.prems have "j = i" by (auto simp: inj_on_def)
    then show ?thesis by simp
  next
    case False
    with snoc.prems have "j \<in> set js" by auto
    with False snoc show ?thesis by (simp add: inj_on_def)
  qed
qed simp

lemma fold_upd_notin:
  "x \<notin> f ` set js \<Longrightarrow> fold (\<lambda>j R. R(f j := v j)) js R x = R x"
  by (induction js rule: rev_induct) auto

lemma frame_reg_simps [simp]: "frame_reg j \<noteq> 0" "frame_reg j \<noteq> 2"
  by (auto simp: frame_reg_def)

lemma frame_reg_inj: "inj_on frame_reg {1..<31}"
  by (auto simp: frame_reg_def inj_on_def split: if_splits)

lemma exec_loads:
  "gpr m 2 = a \<Longrightarrow> mem m = M \<Longrightarrow> exec adr call (map (\<lambda>j. Lw (frame_reg j) (4 * of_nat j) 2) js @ rest) m
   = exec adr call rest (m\<lparr>gpr := fold (\<lambda>j R. R(frame_reg j := frame_at M a j)) js (gpr m)\<rparr>)"
proof (induction js arbitrary: m)
  case (Cons j js)
  have "set_gpr (frame_reg j) v m = m\<lparr>gpr := (gpr m)(frame_reg j := v)\<rparr>" for v
    by (simp add: set_gpr_def)
  then show ?case using Cons by (simp add: frame_at_def)
qed simp

lemma exec_stores:
  "exec adr call (map (\<lambda>j. Sw (frame_reg j) (4 * of_nat j) 2) js @ rest) m
   = exec adr call rest (m\<lparr>mem := fold (\<lambda>j M. M(gpr m 2 + 4 * of_nat j := gpr m (frame_reg j))) js (mem m)\<rparr>)"
  by (induction js arbitrary: m) simp_all

lemma frame_indices: "[1..<31] = [1, 2, 3, 4, 5, 6, 7, 8, 9, 10, 11, 12, 13, 14, 15, 16, 17, 18, 19, 20, 21,
    22, 23, 24, 25, 26, 27, 28, 29, 30]"
  by (simp add: upt_conv_Cons)

lemma restore_regs_eq: "restore_regs = map (\<lambda>j. Lw (frame_reg j) (4 * of_nat j) 2) [1..<31]"
  unfolding frame_indices by (simp add: restore_regs_def frame_reg_def)

lemma save_regs_eq: "save_regs = map (\<lambda>j. Sw (frame_reg j) (4 * of_nat j) 2) [1..<31]"
  unfolding frame_indices by (simp add: save_regs_def frame_reg_def)

lemma frame_reg_image: "r \<in> frame_reg ` set [1..<31] \<longleftrightarrow> r = 1 \<or> 3 \<le> r \<and> r < 32"
proof
  assume r: "r = 1 \<or> 3 \<le> r \<and> r < 32"
  then have "r = frame_reg (if r = 1 then 1 else r - 1)" by (auto simp: frame_reg_def)
  moreover have "(if r = 1 then 1 else r - 1) \<in> set [1..<31]" using r by auto
  ultimately show "r \<in> frame_reg ` set [1..<31]" by (rule image_eqI)
qed (auto simp: frame_reg_def split: if_splits)

lemma resumed_gpr_fold:
  "(fold (\<lambda>j R. R(frame_reg j := frame_at M a j)) [1..<31] R)(2 := a + 128) = resumed_gpr M a R"
proof
  fix r
  let ?F = "fold (\<lambda>j R. R(frame_reg j := frame_at M a j)) [1..<31] R"
  show "(?F(2 := a + 128)) r = resumed_gpr M a R r"
  proof (cases "r \<in> frame_reg ` set [1..<31]")
    case True
    then obtain j where j: "j \<in> set [1..<31]" "r = frame_reg j" by blast
    have "?F (frame_reg j) = frame_at M a j"
      by (rule fold_upd_in [OF _ j(1)]) (use frame_reg_inj in simp)
    then have f: "(?F(2 := a + 128)) (frame_reg j) = frame_at M a j" by simp
    have "resumed_gpr M a R (frame_reg j) = frame_at M a j"
      using j(1) by (auto simp: resumed_gpr_def frame_reg_def)
    with f show ?thesis unfolding j(2) by simp
  next
    case False
    from fold_upd_notin [OF this] False show ?thesis
      unfolding frame_reg_image resumed_gpr_def by auto
  qed
qed

lemma exec_restore:
  "exec adr call (restore_regs @ [Addi 2 2 128, Mret]) m
   = Some (mret (m\<lparr>gpr := resumed_gpr (mem m) (gpr m 2) (gpr m)\<rparr>))"
proof -
  let ?R = "fold (\<lambda>j R. R(frame_reg j := frame_at (mem m) (gpr m 2) j)) [1..<31] (gpr m)"
  have "?R 2 = gpr m 2" by (rule fold_upd_notin) (simp only: frame_reg_image, simp)
  then have "exec adr call (restore_regs @ [Addi 2 2 128, Mret]) m = Some (mret (m\<lparr>gpr := ?R(2 := gpr m 2 + 128)\<rparr>))"
    unfolding restore_regs_eq exec_loads [OF refl refl] by (simp add: set_gpr_def)
  then show ?thesis unfolding resumed_gpr_fold .
qed

lemma unat_frame_offset: "j < 1000 \<Longrightarrow> unat (4 * of_nat j :: u32) = 4 * j"
proof -
  assume "j < 1000"
  then have "unat (of_nat (4 * j) :: u32) = 4 * j" by (simp add: unat_of_nat del: of_nat_mult)
  then show ?thesis by simp
qed

lemma frame_addr_inj:
  assumes "i < 32" "j < 32" "a + 4 * of_nat i = a + (4 * of_nat j :: u32)"
  shows "i = j"
  using arg_cong [OF assms(3) [unfolded add_left_cancel], of unat] assms(1,2)
  by (simp add: unat_frame_offset)

subsection \<open>Running the programs\<close>

text \<open>After the stores of the handler the frame below the stack pointer holds the interrupted context.\<close>

abbreviation frame_of :: "machine \<Rightarrow> u32" where
  "frame_of m \<equiv> gpr m 2 - 128"

definition saves :: "machine \<Rightarrow> (u32 \<Rightarrow> u32) \<Rightarrow> bool" where
  "saves m M \<longleftrightarrow> (\<forall>j < CONTEXT_WORDS. frame_at M (frame_of m) j = context_word m j)
     \<and> (\<forall>x. x \<notin> frame_addrs (frame_of m) \<longrightarrow> M x = mem m x)"

lemma exec_save:
  "\<exists>M. saves m M \<and> exec adr call (save_context @ rest) m
     = exec adr call rest (m\<lparr>gpr := (gpr m)(2 := frame_of m, 5 := csrs m MSTATUS), mem := M\<rparr>)"
proof (intro exI conjI)
  let ?a = "frame_of m" and ?R = "(gpr m)(2 := frame_of m)"
  let ?f = "\<lambda>j. ?a + 4 * of_nat j"
  let ?F = "fold (\<lambda>j M. M(?f j := ?R (frame_reg j))) [1..<31] (mem m)"
  let ?M = "?F(?a := csrs m MEPC, ?a + 124 := csrs m MSTATUS)"
  show "exec adr call (save_context @ rest) m
     = exec adr call rest (m\<lparr>gpr := ?R(5 := csrs m MSTATUS), mem := ?M\<rparr>)"
    unfolding save_context_def save_regs_eq append_assoc
    by (simp add: set_gpr_def exec_stores del: upt_Suc)
  have inj: "inj_on ?f (set [1..<31])"
    by (rule inj_onI) (auto intro: frame_addr_inj [of _ _ "?a"])
  have ne: "?f j \<noteq> ?f i" if "j < 32" "i < 32" "j \<noteq> i" for i j
    using frame_addr_inj [OF that(1,2)] that(3) by blast
  show "saves m ?M"
    unfolding saves_def
  proof (intro conjI allI impI)
    fix j assume "j < CONTEXT_WORDS"
    then have j: "j < 32" by simp
    show "frame_at ?M ?a j = context_word m j"
    proof (cases "j = 0 \<or> j = 31")
      case True
      then show ?thesis by (auto simp: frame_at_def context_word_def)
    next
      case False
      then have "?F (?f j) = ?R (frame_reg j)" using j by (intro fold_upd_in [OF inj]) auto
      moreover have "?f j \<noteq> ?a" using ne [OF j, of 0] False by simp
      moreover have "?f j \<noteq> ?a + 124" using ne [OF j, of 31] False by simp
      ultimately show ?thesis using False
        by (simp only: frame_at_def context_word_def fun_upd_apply if_False) simp
    qed
  next
    fix x assume x: "x \<notin> frame_addrs ?a"
    then have "x \<notin> ?f ` set [1..<31]" by (auto simp: frame_addrs_def)
    then have "?F x = mem m x" by (rule fold_upd_notin)
    moreover have nx: "x \<noteq> ?f j" if "j < 32" for j using x that by (auto simp: frame_addrs_def)
    have "x \<noteq> ?a" "x \<noteq> ?a + 124" using nx [of 0] nx [of 31] by simp_all
    ultimately show "?M x = mem m x" by (simp only: fun_upd_apply if_False)
  qed
qed

definition ready_flag :: "(symbol \<Rightarrow> u32) \<Rightarrow> (u32 \<Rightarrow> u32) \<Rightarrow> bool" where
  "ready_flag adr M \<longleftrightarrow> load_byte M (adr S_SCHED_READY) \<noteq> 0"

text \<open>The registers the callee of a C function keeps, and zero.\<close>

definition callee_saved :: "nat set" where
  "callee_saved = {0, 2, 3, 4, 8, 9, 18, 19, 20, 21, 22, 23, 24, 25, 26, 27}"

text \<open>The machine on which the dispatch function is called.\<close>

definition dispatch_mem :: "(symbol \<Rightarrow> u32) \<Rightarrow> u32 \<Rightarrow> (u32 \<Rightarrow> u32) \<Rightarrow> u32 \<Rightarrow> u32" where
  "dispatch_mem adr a M = (if ready_flag adr M then M(M (adr S_CURRENT_TCB_PTR) := a) else M)"

definition dispatch_stack :: "(symbol \<Rightarrow> u32) \<Rightarrow> u32 \<Rightarrow> u32 \<Rightarrow> (u32 \<Rightarrow> u32) \<Rightarrow> u32" where
  "dispatch_stack adr cause a M = (if 0 \<le> sint cause then a else M (adr S_ISR_STACK_TOP))"

lemma exec_entry:
  "\<exists>R. R 2 = dispatch_stack adr (csrs m MCAUSE) (gpr m 2) (dispatch_mem adr (gpr m 2) (mem m))
     \<and> R 8 = gpr m 2 \<and> R 10 = csrs m MCAUSE \<and> R 11 = gpr m 2
     \<and> (\<forall>r \<in> callee_saved - {2, 8}. R r = gpr m r)
     \<and> exec adr call (trap_entry @ rest) m
       = exec adr call rest (m\<lparr>gpr := R, mem := dispatch_mem adr (gpr m 2) (mem m)\<rparr>)"
proof -
  let ?a = "gpr m 2" and ?M = "dispatch_mem adr (gpr m 2) (mem m)"
  let ?R1 = "if ready_flag adr (mem m) then (gpr m)(5 := adr S_CURRENT_TCB_PTR, 6 := mem m (adr S_CURRENT_TCB_PTR))
     else (gpr m)(5 := 0)"
  let ?R2 = "?R1(8 := ?a, 10 := csrs m MCAUSE)"
  let ?R3 = "if 0 \<le> sint (csrs m MCAUSE) then ?R2 else ?R2(5 := adr S_ISR_STACK_TOP, 2 := ?M (adr S_ISR_STACK_TOP))"
  have "exec adr call (trap_entry @ rest) m = exec adr call rest (m\<lparr>gpr := ?R3(11 := ?a), mem := ?M\<rparr>)"
    by (simp add: trap_entry_def set_gpr_def ready_flag_def dispatch_mem_def machine_update_order)
  then show ?thesis
    by (intro exI [of _ "?R3(11 := ?a)"] conjI) (auto simp: dispatch_stack_def callee_saved_def)
qed

text \<open>What the task finds whose frame is at \<open>a\<close>.\<close>

definition resume_at :: "u32 \<Rightarrow> machine \<Rightarrow> machine" where
  "resume_at a m = mret (m\<lparr>gpr := resumed_gpr (mem m) a (gpr m),
     csrs := (csrs m)(MSTATUS := resumed_status (frame_at (mem m) a 31), MEPC := frame_at (mem m) a 0)\<rparr>)"

lemma resumed_gpr_t0 [simp]: "resumed_gpr M a (R(2 := v, 5 := w)) = resumed_gpr M a R" "resumed_gpr M a (R(5 := w)) = resumed_gpr M a R"
  by (auto simp: resumed_gpr_def fun_eq_iff)

lemma exec_restore_context:
  "exec adr call restore_context m = Some (resume_at (gpr m 2) m)"
proof -
  have "exec adr call restore_context m
      = exec adr call (restore_regs @ [Addi 2 2 128, Mret])
          (m\<lparr>gpr := (gpr m)(5 := frame_at (mem m) (gpr m 2) 0),
             csrs := (csrs m)(MSTATUS := resumed_status (frame_at (mem m) (gpr m 2) 31), MEPC := frame_at (mem m) (gpr m 2) 0)\<rparr>)"
    unfolding restore_context_def by (simp add: set_gpr_def frame_at_def resumed_status_def)
  then show ?thesis unfolding exec_restore by (simp add: resume_at_def machine_update_order)
qed

lemma exec_exit_stay:
  assumes "\<not> (ready_flag adr (mem m) \<and> gpr m 10 \<noteq> 0)"
  shows "\<exists>R. R 0 = gpr m 0 \<and> exec adr call (trap_exit @ restore_context) m
     = Some (resume_at (gpr m 8) (m\<lparr>gpr := R\<rparr>))"
proof -
  let ?R = "(gpr m)(5 := load_byte (mem m) (adr S_SCHED_READY), 2 := gpr m 8)"
  have "exec adr call (trap_exit @ restore_context) m = exec adr call restore_context (m\<lparr>gpr := ?R\<rparr>)"
    using assms by (auto simp: trap_exit_def set_gpr_def ready_flag_def)
  then show ?thesis by (intro exI [of _ ?R]) (simp add: exec_restore_context)
qed

lemma exec_exit_switch:
  assumes "ready_flag adr (mem m)" "gpr m 10 \<noteq> 0"
  shows "\<exists>R n R'. (\<forall>r. r \<noteq> 5 \<longrightarrow> R r = gpr m r) \<and> n = call C_next_tcb (m\<lparr>gpr := R\<rparr>) \<and> R' 0 = gpr n 0
     \<and> exec adr call (trap_exit @ restore_context) m
       = Some (resume_at (mem n (mem n (adr S_CURRENT_TCB_PTR))) (n\<lparr>gpr := R'\<rparr>))"
proof -
  let ?R = "(gpr m)(5 := load_byte (mem m) (adr S_SCHED_READY))"
  let ?n = "call C_next_tcb (m\<lparr>gpr := ?R\<rparr>)"
  let ?R' = "(gpr ?n)(5 := adr S_CURRENT_TCB_PTR, 6 := mem ?n (adr S_CURRENT_TCB_PTR),
      2 := mem ?n (mem ?n (adr S_CURRENT_TCB_PTR)))"
  have "exec adr call (trap_exit @ restore_context) m = exec adr call restore_context (?n\<lparr>gpr := ?R'\<rparr>)"
    using assms by (simp add: trap_exit_def set_gpr_def ready_flag_def)
  then show ?thesis
    by (intro exI [of _ ?R] exI [of _ ?n] exI [of _ ?R']) (simp add: exec_restore_context)
qed

lemma exec_vector: "i < 32 \<Longrightarrow> exec adr call (drop i trap_handler) m = exec adr call
    (save_context @ trap_entry @ [Call C_mos_trap_dispatch] @ trap_exit @ restore_context) m"
proof -
  have goto: "goto 3 (replicate n (J 3) @ is) = goto 3 is" for n "is"
    by (induction n) auto
  assume "i < 32"
  then have d: "drop i trap_handler = J 3 # replicate (31 - i) (J 3) @ [Label 3] @ save_context @ trap_entry
      @ [Call C_mos_trap_dispatch] @ trap_exit @ restore_context"
    unfolding trap_handler_def
    by (simp add: drop_append drop_replicate Suc_diff_Suc [of _ 31, symmetric] replicate_app_Cons_same flip: replicate_Suc)
  show ?thesis unfolding d by (simp add: goto)
qed

lemma bits_resumed_status: "bit (resumed_status w) 7" "\<not> bit (resumed_status w) 3"
  "drop_bit 11 (resumed_status w) = drop_bit 11 w"
proof -
  have r: "resumed_status w = (w OR 2 ^ 7) AND NOT (2 ^ 3)" by (simp add: resumed_status_def)
  have b: "bit (resumed_status w) n \<longleftrightarrow> (bit w n \<or> n = 7) \<and> n \<noteq> 3" for n
    unfolding r bit_and_not_pow2 by (subst bit_or_pow2) simp_all
  show "bit (resumed_status w) 7" "\<not> bit (resumed_status w) 3" by (simp_all add: b)
  show "drop_bit 11 (resumed_status w) = drop_bit 11 w"
    by (rule bit_word_eqI) (simp add: bit_drop_bit_eq b)
qed

lemma resume_at_simps [simp]:
  "gpr (resume_at a m) = resumed_gpr (mem m) a (gpr m)" "mem (resume_at a m) = mem m"
  "pc (resume_at a m) = frame_at (mem m) a 0" "bit (csrs (resume_at a m) MSTATUS) 3"
  "privilege (resume_at a m) = drop_bit 11 (frame_at (mem m) a 31) AND 3"
  using bits_resumed_status [of "frame_at (mem m) a 31"]
  by (simp_all add: resume_at_def mret_def Let_def bit_simps)

subsection \<open>A trap that does not switch\<close>

text \<open>
  The calling convention: a called function keeps the callee-saved registers and the stack pointer.
  \<open>keeps call f A\<close>: it does not write the words of \<open>A\<close>.
\<close>

definition abi :: "(callee \<Rightarrow> machine \<Rightarrow> machine) \<Rightarrow> callee \<Rightarrow> bool" where
  "abi call f \<longleftrightarrow> (\<forall>m. \<forall>r \<in> callee_saved. gpr (call f m) r = gpr m r)"

definition keeps :: "(callee \<Rightarrow> machine \<Rightarrow> machine) \<Rightarrow> callee \<Rightarrow> u32 set \<Rightarrow> bool" where
  "keeps call f A \<longleftrightarrow> (\<forall>m. \<forall>x \<in> A. mem (call f m) x = mem m x)"

text \<open>The frame at \<open>a\<close> without its first word, which the dispatch function may advance.\<close>

definition frame_tail :: "u32 \<Rightarrow> u32 set" where
  "frame_tail a = frame_addrs a - {a}"

lemma frame_tail_word: "0 < j \<Longrightarrow> j < 32 \<Longrightarrow> a + 4 * of_nat j \<in> frame_tail a"
  using frame_addr_inj [of j 0 a] by (auto simp: frame_tail_def frame_addrs_def)

lemma frame_word_addr: "j < 32 \<Longrightarrow> a + 4 * of_nat j \<in> frame_addrs a"
  by (auto simp: frame_addrs_def)

text \<open>What the entry of the handler establishes before it calls the dispatch function.\<close>

lemma exec_until_dispatch:
  assumes "mem m (adr S_CURRENT_TCB_PTR) \<notin> frame_addrs (frame_of m)"
    and "adr S_CURRENT_TCB_PTR \<notin> frame_addrs (frame_of m)"
  obtains d M where "gpr d 8 = frame_of m" "gpr d 11 = frame_of m" "gpr d 10 = csrs m MCAUSE" "gpr d 0 = gpr m 0"
    "\<forall>j < 32. frame_at (mem d) (frame_of m) j = context_word m j"
    "mem d = dispatch_mem adr (frame_of m) M" "saves m M"
    "\<And>i. i < 32 \<Longrightarrow> exec adr call (drop i trap_handler) m
       = exec adr call (trap_exit @ restore_context) (call C_mos_trap_dispatch d)"
proof -
  let ?a = "frame_of m"
  obtain M where M: "saves m M" and e1: "exec adr call (save_context @ trap_entry @ [Call C_mos_trap_dispatch] @ trap_exit @ restore_context) m
     = exec adr call (trap_entry @ [Call C_mos_trap_dispatch] @ trap_exit @ restore_context)
        (m\<lparr>gpr := (gpr m)(2 := ?a, 5 := csrs m MSTATUS), mem := M\<rparr>)"
    using exec_save [of m adr call] by blast
  let ?m1 = "m\<lparr>gpr := (gpr m)(2 := ?a, 5 := csrs m MSTATUS), mem := M\<rparr>"
  obtain R where R: "R 8 = ?a" "R 10 = csrs m MCAUSE" "R 11 = ?a" "\<forall>r \<in> callee_saved - {2, 8}. R r = gpr ?m1 r"
    and e2: "exec adr call (trap_entry @ [Call C_mos_trap_dispatch] @ trap_exit @ restore_context) ?m1
      = exec adr call ([Call C_mos_trap_dispatch] @ trap_exit @ restore_context)
          (?m1\<lparr>gpr := R, mem := dispatch_mem adr ?a M\<rparr>)"
    using exec_entry [of adr ?m1 call] by (auto simp del: exec.simps)
  let ?d = "?m1\<lparr>gpr := R, mem := dispatch_mem adr ?a M\<rparr>"
  have cur: "M (adr S_CURRENT_TCB_PTR) = mem m (adr S_CURRENT_TCB_PTR)"
    using M assms(2) by (simp add: saves_def)
  have "dispatch_mem adr ?a M x = M x" if "x \<in> frame_addrs ?a" for x
    using assms(1) that by (auto simp: dispatch_mem_def cur)
  then have fr: "\<forall>j < 32. frame_at (mem ?d) ?a j = context_word m j"
    using M frame_word_addr [of _ ?a] by (simp add: saves_def frame_at_def)
  have "gpr ?d 0 = gpr m 0" using R(4) by (simp add: callee_saved_def)
  then show thesis
    using that [of ?d M] R fr M e1 e2 by (simp add: exec_vector)
qed

text \<open>C10. A trap whose dispatch asks for no switch is transparent to the interrupted code: through
  whichever of the 32 vector slots it enters, the handler returns with every register as it was, in
  the mode it came from, with interrupts enabled, at the program counter the dispatch left in the
  frame (advanced by an \<open>ecall\<close>, unchanged by an interrupt). The dispatch function is assumed to
  follow the calling convention and to keep the rest of the frame; the current task's control block
  must not overlap the frame.\<close>

theorem trap_transparent:
  assumes "abi call C_mos_trap_dispatch" "keeps call C_mos_trap_dispatch (frame_tail (gpr m 2 - 128))"
    and "\<forall>m. gpr (call C_mos_trap_dispatch m) 10 = 0"
    and "adr S_CURRENT_TCB_PTR \<notin> frame_addrs (gpr m 2 - 128)"
    and "mem m (adr S_CURRENT_TCB_PTR) \<notin> frame_addrs (gpr m 2 - 128)"
    and "i < 32"
  shows "returns (\<lambda>m'. (\<forall>r < 32. gpr m' r = gpr m r) \<and> pc m' = mem m' (gpr m 2 - 128)
      \<and> bit (csrs m' MSTATUS) 3 \<and> privilege m' = drop_bit 11 (csrs m MSTATUS) AND 3)
    (exec adr call (drop i trap_handler) m)"
proof -
  let ?a = "frame_of m"
  obtain d where d: "gpr d 8 = ?a" "gpr d 0 = gpr m 0" "\<forall>j < 32. frame_at (mem d) ?a j = context_word m j"
    and run: "exec adr call (drop i trap_handler) m
      = exec adr call (trap_exit @ restore_context) (call C_mos_trap_dispatch d)"
    using exec_until_dispatch [where m = m and adr = adr and call = call, OF assms(5,4)] assms(6) by metis
  let ?e = "call C_mos_trap_dispatch d"
  have g: "gpr ?e 8 = ?a" "gpr ?e 0 = gpr m 0"
    using assms(1) d(1,2) by (simp_all add: abi_def callee_saved_def)
  have fr: "frame_at (mem ?e) ?a j = context_word m j" if "0 < j" "j < 32" for j
    using assms(2) frame_tail_word [OF that] d(3) that by (simp add: keeps_def frame_at_def)
  obtain R where R: "R 0 = gpr ?e 0"
    "exec adr call (trap_exit @ restore_context) ?e = Some (resume_at (gpr ?e 8) (?e\<lparr>gpr := R\<rparr>))"
    using exec_exit_stay [of adr ?e call] assms(3) by auto
  have "resumed_gpr (mem ?e) ?a R r = gpr m r" if "r < 32" for r
    using that fr [of 1] fr [of "r - 1"] R(1) g(2)
    by (cases "r = 0") (auto simp: resumed_gpr_def context_word_def frame_reg_def)
  then show ?thesis
    using R(2) g(1) fr [of 31] unfolding run by (simp add: frame_at_def context_word_def)
qed

text \<open>The dispatch of an \<open>ecall\<close> before the scheduler runs, on a machine with a scratch frame.\<close>

definition demo_adr :: "symbol \<Rightarrow> u32" where
  "demo_adr s = (case s of S_CURRENT_TCB_PTR \<Rightarrow> 0x100 | S_SCHED_READY \<Rightarrow> 0x104 | S_ISR_STACK_TOP \<Rightarrow> 0x108)"

definition demo_call :: "callee \<Rightarrow> machine \<Rightarrow> machine" where
  "demo_call f m = (case f of
     C_mos_trap_dispatch \<Rightarrow> m\<lparr>gpr := (gpr m)(10 := 0), mem := (mem m)(0x1F80 := mem m 0x1F80 + 4)\<rparr>
   | C_next_tcb \<Rightarrow> m)"

definition demo_machine :: machine where
  "demo_machine = \<lparr>gpr = (\<lambda>r. if r = 2 then 0x2000 else of_nat r), csrs = (\<lambda>_. 0x1888), mem = (\<lambda>_. 0),
     pc = 0, privilege = 3\<rparr>"

lemma frame_addrs_bound:
  assumes "unat x < unat a" "unat a < 4294967000"
  shows "x \<notin> frame_addrs a"
proof
  assume "x \<in> frame_addrs a"
  then obtain j where j: "j < 32" "x = a + 4 * of_nat j" by (auto simp: frame_addrs_def)
  then have "unat x = unat a + 4 * j"
    using assms(2) unat_frame_offset [of j] j(1) by (simp add: unat_word_ariths(1))
  with assms(1) show False by simp
qed

theorem trap_transparent_witness:
  "returns (\<lambda>m'. (\<forall>r < 32. gpr m' r = gpr demo_machine r) \<and> pc m' = mem m' (gpr demo_machine 2 - 128)
      \<and> bit (csrs m' MSTATUS) 3 \<and> privilege m' = drop_bit 11 (csrs demo_machine MSTATUS) AND 3)
    (exec demo_adr demo_call (drop 20 trap_handler) demo_machine)"
proof (rule trap_transparent)
  show "abi demo_call C_mos_trap_dispatch"
    by (auto simp: abi_def demo_call_def callee_saved_def)
qed (simp_all add: keeps_def demo_call_def demo_machine_def demo_adr_def frame_tail_def frame_addrs_bound)

subsection \<open>A trap that switches\<close>

text \<open>
  The machine represents a kernel state: the \<open>SCHED_READY\<close> byte, \<open>CURRENT_TCB_PTR\<close> and the stack
  pointers at the start of the control blocks, which lie at \<open>tcb_addr\<close>.
\<close>

definition represents :: "(symbol \<Rightarrow> u32) \<Rightarrow> (nat \<Rightarrow> u32) \<Rightarrow> kernel \<Rightarrow> machine \<Rightarrow> bool" where
  "represents adr tcb_addr k m \<longleftrightarrow> ready_flag adr (mem m) = SCHED_READY k
     \<and> (\<forall>c. CURRENT_TCB k = Some c \<longrightarrow> mem m (adr S_CURRENT_TCB_PTR) = tcb_addr c)
     \<and> (\<forall>t < TASK_MAX. mem m (tcb_addr t) = sp (TCBS k t))"

text \<open>The kernel's words: none of them lies in the frame at \<open>a\<close>, and no two coincide.\<close>

definition separate :: "(symbol \<Rightarrow> u32) \<Rightarrow> (nat \<Rightarrow> u32) \<Rightarrow> u32 \<Rightarrow> bool" where
  "separate adr tcb_addr a \<longleftrightarrow> adr S_CURRENT_TCB_PTR \<notin> frame_addrs a \<and> adr S_SCHED_READY AND NOT 3 \<notin> frame_addrs a
     \<and> (\<forall>t < TASK_MAX. tcb_addr t \<notin> frame_addrs a \<and> tcb_addr t \<noteq> adr S_CURRENT_TCB_PTR
          \<and> tcb_addr t \<noteq> adr S_SCHED_READY AND NOT 3
          \<and> (\<forall>u < TASK_MAX. tcb_addr t = tcb_addr u \<longrightarrow> t = u))"

text \<open>The handler's \<open>sw sp, 0(t1)\<close>.\<close>

definition save_sp :: "u32 \<Rightarrow> nat \<Rightarrow> kernel \<Rightarrow> kernel" where
  "save_sp a c k = k\<lparr>TCBS := (TCBS k)(c := (TCBS k c)\<lparr>sp := a\<rparr>)\<rparr>"

lemma represents_save_sp:
  assumes "represents adr tcb_addr k m" "separate adr tcb_addr (frame_of m)" "saves m M"
    "CURRENT_TCB k = Some c" "c < TASK_MAX" "SCHED_READY k" "mem d = dispatch_mem adr (frame_of m) M"
  shows "represents adr tcb_addr (save_sp (frame_of m) c k) d"
proof -
  have same: "M x = mem m x" if "x \<notin> frame_addrs (frame_of m)" for x
    using assms(3) that by (simp add: saves_def)
  have flag: "ready_flag adr M = ready_flag adr (mem m)"
    using assms(2) same by (simp add: ready_flag_def load_byte_def separate_def)
  have cur: "M (adr S_CURRENT_TCB_PTR) = tcb_addr c"
    using assms(1,2,4) same by (simp add: represents_def separate_def)
  have d: "mem d = M(tcb_addr c := frame_of m)"
    using assms(1,6,7) flag cur by (simp add: dispatch_mem_def represents_def)
  show ?thesis
    unfolding represents_def
  proof (intro conjI allI impI)
    show "ready_flag adr (mem d) = SCHED_READY (save_sp (frame_of m) c k)"
      using assms(1,2,5) flag by (auto simp: d ready_flag_def load_byte_def separate_def save_sp_def represents_def)
    fix c' assume "CURRENT_TCB (save_sp (frame_of m) c k) = Some c'"
    then show "mem d (adr S_CURRENT_TCB_PTR) = tcb_addr c'"
      using assms(2,4,5) cur by (auto simp: d save_sp_def separate_def)
  next
    fix t assume t: "t < TASK_MAX"
    then have "tcb_addr t = tcb_addr c \<longleftrightarrow> t = c" using assms(2,5) by (auto simp: separate_def)
    moreover have "M (tcb_addr t) = sp (TCBS k t)"
      using assms(1,2) t same by (simp add: represents_def separate_def)
    ultimately show "mem d (tcb_addr t) = sp (TCBS (save_sp (frame_of m) c k) t)"
      by (simp add: d save_sp_def)
  qed
qed

text \<open>C9. A trap that switches implements the kernel model: if the dispatch function turns the kernel
  state into \<open>kd\<close> and asks for a switch, and \<open>next_tcb\<close> turns \<open>kd\<close> into \<open>kn\<close> as the model says, then
  the machine after the trap represents \<open>kn\<close>, runs in the registers and at the program counter of the
  frame that the stack pointer of \<open>kn\<close>'s current task points to, with interrupts enabled, and the
  interrupted task's context lies complete in its frame, to which its control block points, ready for
  the switch back. The two called functions are assumed to be compiled faithfully, to follow the
  calling convention and to keep the frame.\<close>

theorem trap_switches:
  assumes rep: "represents adr tcb_addr k m" and sep: "separate adr tcb_addr (gpr m 2 - 128)"
    and cur: "CURRENT_TCB k = Some c" "c < TASK_MAX" "SCHED_READY k"
    and dispatch: "abi call C_mos_trap_dispatch" "keeps call C_mos_trap_dispatch (frame_tail (gpr m 2 - 128))"
      "\<forall>d. represents adr tcb_addr (save_sp (gpr m 2 - 128) c k) d \<longrightarrow>
         represents adr tcb_addr kd (call C_mos_trap_dispatch d) \<and> gpr (call C_mos_trap_dispatch d) 10 \<noteq> 0"
    and switch: "abi call C_next_tcb" "keeps call C_next_tcb (frame_addrs (gpr m 2 - 128))"
      "SCHED_READY kd" "next_tcb kd = Some kn" "CURRENT_TCB kn = Some c'" "c' < TASK_MAX"
      "\<forall>d. represents adr tcb_addr kd d \<longrightarrow> represents adr tcb_addr kn (call C_next_tcb d)"
    and i: "i < 32"
  shows "returns (\<lambda>m'. represents adr tcb_addr kn m'
      \<and> (\<forall>r < 32. gpr m' r = resumed_gpr (mem m') (sp (TCBS kn c')) (gpr m) r)
      \<and> pc m' = mem m' (sp (TCBS kn c')) \<and> bit (csrs m' MSTATUS) 3
      \<and> (\<forall>j. 0 < j \<and> j < 32 \<longrightarrow> frame_at (mem m') (gpr m 2 - 128) j = context_word m j))
    (exec adr call (drop i trap_handler) m)"
proof -
  let ?a = "frame_of m"
  have "mem m (adr S_CURRENT_TCB_PTR) \<notin> frame_addrs ?a" "adr S_CURRENT_TCB_PTR \<notin> frame_addrs ?a"
    using rep sep cur by (auto simp: represents_def separate_def)
  from exec_until_dispatch [where m = m and adr = adr and call = call, OF this]
  obtain d M where d: "gpr d 0 = gpr m 0" "\<forall>j < 32. frame_at (mem d) ?a j = context_word m j"
    "mem d = dispatch_mem adr ?a M" "saves m M"
    and run: "exec adr call (drop i trap_handler) m
      = exec adr call (trap_exit @ restore_context) (call C_mos_trap_dispatch d)"
    using i by metis
  let ?e = "call C_mos_trap_dispatch d"
  have "represents adr tcb_addr (save_sp ?a c k) d"
    by (rule represents_save_sp [OF rep sep d(4) cur d(3)])
  with dispatch(3) have e: "represents adr tcb_addr kd ?e" "gpr ?e 10 \<noteq> 0" by blast+
  then have "ready_flag adr (mem ?e)" using switch(3) by (simp add: represents_def)
  from exec_exit_switch [where call = call, OF this e(2)] obtain R n R' where n:
    "\<forall>r. r \<noteq> 5 \<longrightarrow> R r = gpr ?e r" "n = call C_next_tcb (?e\<lparr>gpr := R\<rparr>)" "R' 0 = gpr n 0"
    "exec adr call (trap_exit @ restore_context) ?e
      = Some (resume_at (mem n (mem n (adr S_CURRENT_TCB_PTR))) (n\<lparr>gpr := R'\<rparr>))"
    by blast
  have "represents adr tcb_addr kd (?e\<lparr>gpr := R\<rparr>)" using e(1) by (simp add: represents_def)
  with switch(7) n(2) have kn: "represents adr tcb_addr kn n" by blast
  with switch(5,6) have sp: "mem n (mem n (adr S_CURRENT_TCB_PTR)) = sp (TCBS kn c')"
    by (auto simp: represents_def)
  have "gpr n 0 = gpr m 0"
    using switch(1) dispatch(1) n(1,2) d(1) by (simp add: abi_def callee_saved_def)
  then have g: "resumed_gpr (mem n) b R' r = resumed_gpr (mem n) b (gpr m) r" if "r < 32" for b r
    using n(3) that by (cases "r = 0") (auto simp: resumed_gpr_def)
  have "frame_at (mem n) ?a j = context_word m j" if "0 < j" "j < 32" for j
    using switch(2) dispatch(2) frame_tail_word [OF that] frame_word_addr [OF that(2)] d(2) that n(2)
    by (simp add: keeps_def frame_at_def)
  then show ?thesis
    unfolding run using n(4) kn sp g by (simp add: represents_def frame_at_def)
qed

subsection \<open>The first task\<close>

text \<open>C11. The first task starts as its control block says: from a stack that \<open>init_stack_frame\<close> prepared
  and whose address the current control block holds, \<open>start_first_task\<close> enters the entry point with
  the argument in \<open>a0\<close>, the exit stub as return address, the stack pointer at the top of the stack,
  every other register zero, in machine mode with interrupts enabled.\<close>

theorem first_task_starts:
  assumes frame: "init_stack_frame base stack entry argv exit_fn = Some (s, stack')"
    and stack: "\<forall>i < length stack'. mem m (base + 4 * of_nat i) = stack' ! i"
    and tcb: "mem m (mem m (adr S_CURRENT_TCB_PTR)) = s"
  shows "returns (\<lambda>m'. pc m' = entry \<and> gpr m' 1 = exit_fn \<and> gpr m' 10 = argv
      \<and> gpr m' 2 = base + 4 * of_nat (length stack)
      \<and> (\<forall>r < 32. r \<notin> {0, 1, 2, 10} \<longrightarrow> gpr m' r = 0)
      \<and> privilege m' = 3 \<and> bit (csrs m' MSTATUS) 3)
    (exec adr call start_first_task m)"
proof -
  have len: "32 < length stack"
    using frame init_stack_frame_spec [of stack base entry argv exit_fn] by (auto split: if_splits)
  then obtain f where f: "length stack = f + 32" by (metis add.commute less_imp_add_positive)
  with len frame init_stack_frame_spec [of stack base entry argv exit_fn]
  have s: "s = base + of_nat (4 * f)" "length stack' = f + 32"
    "drop f stack' = map (frame_word entry argv exit_fn) [0..<32]"
    by auto
  have word: "frame_at (mem m) s j = frame_word entry argv exit_fn j" if "j < 32" for j
  proof -
    have "s + 4 * of_nat j = base + 4 * of_nat (f + j)" by (simp add: s(1) algebra_simps)
    then have "frame_at (mem m) s j = mem m (base + 4 * of_nat (f + j))" by (simp add: frame_at_def algebra_simps)
    also have "\<dots> = stack' ! (f + j)" using stack s(2) that by (simp del: of_nat_add)
    also have "\<dots> = drop f stack' ! j" using s(2) by simp
    also have "\<dots> = frame_word entry argv exit_fn j" unfolding s(3) using that by simp
    finally show ?thesis .
  qed
  let ?R = "(gpr m)(5 := adr S_CURRENT_TCB_PTR, 6 := mem m (adr S_CURRENT_TCB_PTR), 2 := s)"
  have "exec adr call start_first_task m = exec adr call restore_context (m\<lparr>gpr := ?R\<rparr>)"
    using tcb by (simp add: start_first_task_def set_gpr_def)
  then have run: "exec adr call start_first_task m = Some (resume_at s (m\<lparr>gpr := ?R\<rparr>))"
    by (simp add: exec_restore_context)
  have top: "s + 128 = base + 4 * of_nat (length stack)"
    by (simp add: s(1) f)
  show ?thesis
    unfolding run using word top by (auto simp: resumed_gpr_def frame_word_def)
qed

definition demo_stack :: "u32 list" where
  "demo_stack = snd (the (init_stack_frame 0x1000 (replicate 33 0) 0x4000 7 0x5000))"

definition demo_stack_machine :: machine where
  "demo_stack_machine = demo_machine\<lparr>mem := \<lambda>x.
     if unat (x - 0x1000) < 132 then demo_stack ! (unat (x - 0x1000) div 4)
     else if x = 0x100 then 0x300 else 0x1004\<rparr>"

lemma demo_stack_frame:
  "init_stack_frame 0x1000 (replicate 33 0) 0x4000 7 0x5000 = Some (0x1004, demo_stack)" "length demo_stack = 33"
  using init_stack_frame_spec [of "replicate 33 0" "0x1000" "0x4000" 7 "0x5000"]
  by (auto simp: demo_stack_def returns_iff)

theorem first_task_starts_witness:
  "returns (\<lambda>m'. pc m' = 0x4000 \<and> gpr m' 1 = 0x5000 \<and> gpr m' 10 = 7
      \<and> gpr m' 2 = 0x1000 + 4 * of_nat (length (replicate 33 (0 :: u32)))
      \<and> (\<forall>r < 32. r \<notin> {0, 1, 2, 10} \<longrightarrow> gpr m' r = 0)
      \<and> privilege m' = 3 \<and> bit (csrs m' MSTATUS) 3)
    (exec demo_adr demo_call start_first_task demo_stack_machine)"
proof (rule first_task_starts [OF demo_stack_frame(1)])
  show "\<forall>i < length demo_stack. mem demo_stack_machine (0x1000 + 4 * of_nat i) = demo_stack ! i"
    by (simp add: demo_stack_frame demo_stack_machine_def unat_frame_offset)
  show "mem demo_stack_machine (mem demo_stack_machine (demo_adr S_CURRENT_TCB_PTR)) = 0x1004"
    by (simp add: demo_stack_machine_def demo_adr_def)
qed

text \<open>The yield of task 0 to task 1, both ready, on a machine whose control blocks lie at 0x300 and up.\<close>

definition demo_tcbs :: "nat \<Rightarrow> u32" where
  "demo_tcbs t = 0x300 + 4 * of_nat t"

definition yielding_kernel :: kernel where
  "yielding_kernel = (kernel_boot 0)\<lparr>
     TCBS := (\<lambda>t. (tcb_empty t)\<lparr>status := (if t = 0 then Running else if t = 1 then Ready else Terminated), sp := 0x3000\<rparr>),
     READY_LIST := [0, 1], TID_BITMAP := 3, CURRENT_TCB := Some 0, SCHED_READY := True\<rparr>"

definition yield_machine :: machine where
  "yield_machine = demo_machine\<lparr>mem := \<lambda>x. if x = 0x100 then 0x300 else if x = 0x104 then 1 else 0x3000\<rparr>"

definition yield_call :: "callee \<Rightarrow> machine \<Rightarrow> machine" where
  "yield_call f m = (case f of
     C_mos_trap_dispatch \<Rightarrow> m\<lparr>gpr := (gpr m)(10 := 1), mem := (mem m)(0x1F80 := mem m 0x1F80 + 4)\<rparr>
   | C_next_tcb \<Rightarrow> m\<lparr>mem := (mem m)(0x100 := 0x304)\<rparr>)"

definition switching_kernel :: kernel where
  "switching_kernel = save_sp 0x1F80 0 yielding_kernel"

definition switched_kernel :: kernel where
  "switched_kernel = the (next_tcb switching_kernel)"

lemma switched_kernel:
  "next_tcb switching_kernel = Some switched_kernel" "CURRENT_TCB switched_kernel = Some 1"
  "SCHED_READY switched_kernel" "\<forall>t < TASK_MAX. sp (TCBS switched_kernel t) = sp (TCBS switching_kernel t)"
proof -
  have "next_tcb switching_kernel \<noteq> None" by code_simp
  then show "next_tcb switching_kernel = Some switched_kernel" by (auto simp: switched_kernel_def)
  show "CURRENT_TCB switched_kernel = Some 1" "SCHED_READY switched_kernel" by code_simp+
  have "list_all (\<lambda>t. sp (TCBS switched_kernel t) = sp (TCBS switching_kernel t)) [0..<16]" by code_simp
  then show "\<forall>t < TASK_MAX. sp (TCBS switched_kernel t) = sp (TCBS switching_kernel t)"
    by (simp add: list_all_iff)
qed

lemma demo_separate: "separate demo_adr demo_tcbs 0x1F80"
proof -
  have t: "unat (demo_tcbs t) = 0x300 + 4 * t" if "t < 16" for t
    using unat_frame_offset [of t] that by (simp add: demo_tcbs_def unat_word_ariths(1))
  have "demo_tcbs t \<notin> frame_addrs 0x1F80" if "t < 16" for t
    by (rule frame_addrs_bound) (use t [OF that] that in simp_all)
  moreover have "demo_tcbs t \<noteq> 0x100" "demo_tcbs t \<noteq> 0x104" if "t < 16" for t
    using arg_cong [of "demo_tcbs t" _ unat] t [OF that] by fastforce+
  moreover have "t = u" if "t < 16" "u < 16" "demo_tcbs t = demo_tcbs u" for t u
    using arg_cong [OF that(3), of unat] t [OF that(1)] t [OF that(2)] by linarith
  moreover have "0x100 \<notin> frame_addrs 0x1F80" "0x104 \<notin> frame_addrs 0x1F80"
    by (rule frame_addrs_bound; simp)+
  ultimately show ?thesis by (simp add: separate_def demo_adr_def)
qed

lemma represents_mem:
  "represents adr tcb_addr k m \<Longrightarrow> (\<And>x. x \<in> {adr S_CURRENT_TCB_PTR, adr S_SCHED_READY AND NOT 3} \<union> tcb_addr ` {..<TASK_MAX}
     \<Longrightarrow> mem m' x = mem m x) \<Longrightarrow> represents adr tcb_addr k m'"
  by (auto simp: represents_def ready_flag_def load_byte_def)

theorem trap_switches_witness:
  "returns (\<lambda>m'. represents demo_adr demo_tcbs switched_kernel m'
      \<and> (\<forall>r < 32. gpr m' r = resumed_gpr (mem m') (sp (TCBS switched_kernel 1)) (gpr yield_machine) r)
      \<and> pc m' = mem m' (sp (TCBS switched_kernel 1)) \<and> bit (csrs m' MSTATUS) 3
      \<and> (\<forall>j. 0 < j \<and> j < 32 \<longrightarrow> frame_at (mem m') (gpr yield_machine 2 - 128) j = context_word yield_machine j))
    (exec demo_adr yield_call (drop 3 trap_handler) yield_machine)"
proof (rule trap_switches [where c = 0 and c' = 1 and k = yielding_kernel and kd = switching_kernel])
  have a: "gpr yield_machine 2 - 128 = 0x1F80" by (simp add: yield_machine_def demo_machine_def)
  show "separate demo_adr demo_tcbs (gpr yield_machine 2 - 128)" unfolding a by (rule demo_separate)
  have ne: "demo_tcbs t \<noteq> 0x100 \<and> demo_tcbs t \<noteq> 0x104 \<and> demo_tcbs t \<noteq> 0x1F80" if "t < 16" for t
    using demo_separate that frame_word_addr [of 0 "0x1F80"] by (auto simp: separate_def demo_adr_def)
  then show "represents demo_adr demo_tcbs yielding_kernel yield_machine"
    by (auto simp: represents_def ready_flag_def load_byte_def demo_adr_def yield_machine_def yielding_kernel_def demo_tcbs_def)
  show "\<forall>d. represents demo_adr demo_tcbs (save_sp (gpr yield_machine 2 - 128) 0 yielding_kernel) d \<longrightarrow>
         represents demo_adr demo_tcbs switching_kernel (yield_call C_mos_trap_dispatch d)
         \<and> gpr (yield_call C_mos_trap_dispatch d) 10 \<noteq> 0"
    unfolding a using ne
    by (auto simp: switching_kernel_def yield_call_def demo_adr_def elim!: represents_mem)
  show "\<forall>d. represents demo_adr demo_tcbs switching_kernel d \<longrightarrow>
         represents demo_adr demo_tcbs switched_kernel (yield_call C_next_tcb d)"
    using ne switched_kernel
    by (auto simp: represents_def yield_call_def demo_adr_def ready_flag_def load_byte_def switching_kernel_def
        save_sp_def yielding_kernel_def demo_tcbs_def)
  show "abi yield_call C_mos_trap_dispatch" "abi yield_call C_next_tcb"
    "keeps yield_call C_mos_trap_dispatch (frame_tail (gpr yield_machine 2 - 128))"
    "keeps yield_call C_next_tcb (frame_addrs (gpr yield_machine 2 - 128))"
    using frame_addrs_bound [of "0x100" "0x1F80"]
    unfolding a by (auto simp: abi_def keeps_def yield_call_def callee_saved_def frame_tail_def)
qed (simp_all add: switched_kernel, simp_all add: switching_kernel_def save_sp_def yielding_kernel_def)

end
