(* ===== verification/Mos_Bsp.thy ===== *)
theory Mos_Bsp
  imports Mos_Prelude
begin

section \<open>Board support: the system timer\<close>

text \<open>
  \<open>boards/esp32c6/src/bsp.rs\<close>. Memory-mapped registers are a map from their addresses to words, and
  a volatile write updates it. The wait for the counter's snapshot, the loop on bit 29 of \<open>UNIT0_OP\<close>,
  is the hardware's answer: an argument \<open>latch\<close> that gives the registers after the wait, \<open>None\<close> when
  the snapshot never becomes valid and the loop does not end. The driver calls of \<open>esp-hal\<close> in
  \<open>init_systimer\<close> are arguments.
\<close>

type_synonym io = "u32 \<Rightarrow> u32"

definition SYSTICK_CPU_INT :: u32 where [simp]: "SYSTICK_CPU_INT = 20"
definition SYSTIMER_PERIOD :: u32 where [simp]: "SYSTIMER_PERIOD = 16000"

definition CONF :: u32 where [simp]: "CONF = 0x6000a000"
definition UNIT0_OP :: u32 where [simp]: "UNIT0_OP = 0x6000a004"
definition UNIT0_VALUE_LO :: u32 where [simp]: "UNIT0_VALUE_LO = 0x6000a008"
definition UNIT0_VALUE_HI :: u32 where [simp]: "UNIT0_VALUE_HI = 0x6000a00C"
definition TARGET0_HI :: u32 where [simp]: "TARGET0_HI = 0x6000a01C"
definition TARGET0_LO :: u32 where [simp]: "TARGET0_LO = 0x6000a020"
definition COMP0_LOAD :: u32 where [simp]: "COMP0_LOAD = 0x6000a050"
definition REAL_TARGET0_LO :: u32 where [simp]: "REAL_TARGET0_LO = 0x6000a074"
definition REAL_TARGET0_HI :: u32 where [simp]: "REAL_TARGET0_HI = 0x6000a078"
definition INT_ENA :: u32 where [simp]: "INT_ENA = 0x6000a064"
definition INT_CLR :: u32 where [simp]: "INT_CLR = 0x6000a06C"
definition PCR_SYSTIMER_CONF :: u32 where [simp]: "PCR_SYSTIMER_CONF = 0x60096054"
definition PCR_SYSTIMER_FUNC_CLK :: u32 where [simp]: "PCR_SYSTIMER_FUNC_CLK = 0x60096058"
definition PCR_MSPI_CONF :: u32 where [simp]: "PCR_MSPI_CONF = 0x60096018"
definition PCR_CACHE_CONF :: u32 where [simp]: "PCR_CACHE_CONF = 0x60096104"
definition MXINT_ENABLE :: u32 where [simp]: "MXINT_ENABLE = 0x20001000"
definition MXINT_CLEAR :: u32 where [simp]: "MXINT_CLEAR = 0x20001008"

subsection \<open>Clocks\<close>

definition ensure_systimer_clock :: "io \<Rightarrow> bool \<times> io" where
  "ensure_systimer_clock io =
     (let conf = io PCR_SYSTIMER_CONF;
          bad = (conf AND 0x1 = 0 \<or> conf AND 0x2 \<noteq> 0);
          io = (if bad then io(PCR_SYSTIMER_CONF := (conf OR 0x1) AND NOT 0x2) else io);
          func_clk = io PCR_SYSTIMER_FUNC_CLK;
          off = (func_clk AND push_bit 22 1 = 0);
          io = (if off then io(PCR_SYSTIMER_FUNC_CLK := func_clk OR push_bit 22 1) else io)
      in (bad \<or> off, io))"

text \<open>\<open>recover_peripheral_clocks\<close>; \<open>LAST_FENCED_MEPC\<close> is the second component of the state.\<close>

definition recover_peripheral_clocks :: "u32 \<Rightarrow> io \<Rightarrow> u32 \<Rightarrow> bool \<times> io \<times> u32" where
  "recover_peripheral_clocks mepc io last_fenced =
     (let (repaired, io) = ensure_systimer_clock io;
          mspi = io PCR_MSPI_CONF;
          bad = (mspi AND 0x5 \<noteq> 0x5 \<or> mspi AND 0x2 \<noteq> 0);
          io = (if bad then io(PCR_MSPI_CONF := (mspi OR 0x5) AND NOT 0x2) else io);
          repaired = (repaired \<or> bad);
          cache = io PCR_CACHE_CONF;
          bad = (cache AND 0x1 = 0 \<or> cache AND 0x2 \<noteq> 0);
          io = (if bad then io(PCR_CACHE_CONF := (cache OR 0x1) AND NOT 0x2) else io);
          repaired = (repaired \<or> bad);
          in_flash = (0x42000000 \<le> mepc \<and> mepc < 0x44000000)
      in if repaired then (True, io, mepc)
         else if in_flash \<and> last_fenced \<noteq> mepc then (True, io, mepc)
         else (False, io, last_fenced))"

subsection \<open>The alarm\<close>

text \<open>One period on: \<open>overflowing_add\<close> on the low word, the carry into 20 bits of the high word.\<close>

definition add_period :: "u32 \<Rightarrow> u32 \<Rightarrow> u32 \<times> u32" where
  "add_period lo hi =
     (let carry = (2 ^ 32 \<le> unat lo + unat SYSTIMER_PERIOD)
      in (lo + SYSTIMER_PERIOD, if carry then (hi + 1) AND 0xFFFFF else hi))"

definition join64 :: "u32 \<Rightarrow> u32 \<Rightarrow> u64" where
  "join64 hi lo = push_bit 32 (ucast hi) OR ucast lo"

text \<open>The loop that skips missed periods. It breaks after 101 rounds.\<close>

lemma missed_decreases: "\<not> 100 < (missed :: u32) + 1 \<Longrightarrow> unat (100 - missed) < unat (101 - missed)"
proof -
  assume a: "\<not> 100 < missed + 1"
  then have nz: "101 - missed \<noteq> 0" by auto
  have "100 - missed = 101 - missed - 1" by simp
  also have "unat \<dots> = unat (101 - missed) - 1" by (rule unat_minus_one [OF nz])
  also have "\<dots> < unat (101 - missed)" using nz by (simp add: unat_gt_0)
  finally show ?thesis .
qed

function skip_missed :: "u64 \<Rightarrow> u32 \<Rightarrow> u32 \<Rightarrow> u32 \<Rightarrow> u32 \<times> u32 \<times> u32" where
  "skip_missed cur_val next_lo next_hi missed =
     (if cur_val < join64 next_hi next_lo then (next_lo, next_hi, missed)
      else (case add_period next_lo next_hi of (lo, hi) \<Rightarrow>
        if 100 < missed + 1 then (lo, hi, missed + 1)
        else skip_missed cur_val lo hi (missed + 1)))"
  by pat_completeness auto

termination
  by (relation "measure (\<lambda>(cur_val, lo, hi, missed). unat (101 - missed))") (auto intro: missed_decreases)

declare skip_missed.simps [simp del]

definition systick_isr :: "(io \<Rightarrow> io option) \<Rightarrow> io \<Rightarrow> (u32 \<times> io) option" where
  "systick_isr latch io = do {
     let io = snd (ensure_systimer_clock io);
     let io = io(INT_CLR := 0x1);
     let io = io(CONF := io CONF AND NOT (push_bit 24 1));
     let (next_lo, next_hi) = add_period (io REAL_TARGET0_LO) (io REAL_TARGET0_HI);
     io \<leftarrow> latch (io(UNIT0_OP := push_bit 30 1));
     let cur_val = join64 (io UNIT0_VALUE_HI) (io UNIT0_VALUE_LO);
     let (next_lo, next_hi, missed) = skip_missed cur_val next_lo next_hi 0;
     let io = io(TARGET0_LO := next_lo, TARGET0_HI := next_hi, COMP0_LOAD := 1);
     let io = io(CONF := io CONF OR push_bit 24 1);
     let io = io(INT_ENA := io INT_ENA OR 0x1);
     Some (missed, io) }"

text \<open>\<open>ensure_systick_enabled\<close>; the final \<open>csrsi mstatus\<close> sets the \<open>MIE\<close> bit of its argument.\<close>

definition ensure_systick_enabled :: "(io \<Rightarrow> io option) \<Rightarrow> io \<Rightarrow> u32 \<Rightarrow> (bool \<times> io \<times> u32) option" where
  "ensure_systick_enabled latch io mstatus = do {
     let (fixed, io) = ensure_systimer_clock io;
     let en = io MXINT_ENABLE;
     let bad = (en AND push_bit (unat SYSTICK_CPU_INT) 1 = 0);
     let io = (if bad then io(MXINT_ENABLE := en OR push_bit (unat SYSTICK_CPU_INT) 1) else io);
     let fixed = (fixed \<or> bad);
     let int_ena = io INT_ENA;
     let bad = (int_ena AND 0x1 = 0);
     let io = (if bad then io(INT_ENA := int_ena OR 0x1) else io);
     let fixed = (fixed \<or> bad);
     let conf = io CONF;
     (fixed, io) \<leftarrow>
       (if conf AND push_bit 24 1 = 0
        then do {
          io \<leftarrow> latch (io(UNIT0_OP := push_bit 30 1));
          let (next_lo, next_hi) = add_period (io UNIT0_VALUE_LO) (io UNIT0_VALUE_HI);
          let io = io(TARGET0_LO := next_lo, TARGET0_HI := next_hi, COMP0_LOAD := 1);
          Some (True, io(CONF := conf OR push_bit 24 1)) }
        else Some (fixed, io));
     Some (fixed, io, mstatus OR 0x8) }"

text \<open>\<open>enable_cpu_int_and_mie\<close> on the interrupt controller and the \<open>mie\<close> register.\<close>

definition enable_cpu_int_and_mie :: "io \<Rightarrow> u32 \<Rightarrow> io \<times> u32" where
  "enable_cpu_int_and_mie io mie =
     (io(MXINT_ENABLE := io MXINT_ENABLE OR push_bit (unat SYSTICK_CPU_INT) 1), mie OR push_bit 11 1)"

text \<open>
  The calls of the vendor's timer and interrupt drivers, each on the device registers: the first four
  take the number of the CPU interrupt, \<open>alarm_load\<close> a time in microseconds; its result is dropped.
\<close>

record systimer_driver =
  int_map :: "u32 \<Rightarrow> io \<Rightarrow> io"
  int_set_priority :: "u32 \<Rightarrow> nat \<Rightarrow> io \<Rightarrow> io"
  int_set_edge :: "u32 \<Rightarrow> io \<Rightarrow> io"
  int_clear :: "u32 \<Rightarrow> io \<Rightarrow> io"
  systimer_new :: "io \<Rightarrow> io"
  alarm_auto_reload :: "bool \<Rightarrow> io \<Rightarrow> io"
  alarm_clear :: "io \<Rightarrow> io"
  alarm_load :: "u64 \<Rightarrow> io \<Rightarrow> io"
  alarm_start :: "io \<Rightarrow> io"
  alarm_enable_interrupt :: "bool \<Rightarrow> io \<Rightarrow> io"

definition init_systimer :: "systimer_driver \<Rightarrow> io \<Rightarrow> u32 \<Rightarrow> io \<times> u32" where
  "init_systimer drv io mie =
     (let io = int_map drv 20 io;
          io = int_set_priority drv 20 3 io;
          io = int_set_edge drv 20 io;
          io = int_clear drv 20 io;
          (io, mie) = enable_cpu_int_and_mie io mie;
          io = systimer_new drv io;
          io = alarm_auto_reload drv False io;
          io = alarm_clear drv io;
          io = alarm_load drv 1000 io;
          io = alarm_start drv io;
          io = alarm_enable_interrupt drv True io
      in (io, mie))"

text \<open>The drivers of the timer do not touch the interrupt controller, so the tick interrupt ends up enabled.\<close>

lemma init_systimer_enables:
  assumes "\<And>io. systimer_new drv io MXINT_ENABLE = io MXINT_ENABLE" "\<And>b io. alarm_auto_reload drv b io MXINT_ENABLE = io MXINT_ENABLE"
    and "\<And>io. alarm_clear drv io MXINT_ENABLE = io MXINT_ENABLE" "\<And>t io. alarm_load drv t io MXINT_ENABLE = io MXINT_ENABLE"
    and "\<And>io. alarm_start drv io MXINT_ENABLE = io MXINT_ENABLE" "\<And>b io. alarm_enable_interrupt drv b io MXINT_ENABLE = io MXINT_ENABLE"
  shows "bit (fst (init_systimer drv io mie) MXINT_ENABLE) (unat SYSTICK_CPU_INT)" and "bit (snd (init_systimer drv io mie)) 11"
  using assms by (simp_all add: init_systimer_def enable_cpu_int_and_mie_def Let_def bit_simps)

subsection \<open>The counter as a number\<close>

definition ticks64 :: "u32 \<Rightarrow> u32 \<Rightarrow> nat" where
  "ticks64 hi lo = unat hi * 2 ^ 32 + unat lo"

lemma unat_join64: "unat (join64 hi lo) = ticks64 hi lo"
proof -
  have h: "unat hi < 4294967296" and l: "unat lo < 4294967296"
    using unsigned_less [of hi] unsigned_less [of lo] by simp_all
  have "join64 hi lo = push_bit 32 (ucast hi) + ucast lo"
    unfolding join64_def
    by (rule disjunctive_add [symmetric]) (auto simp: bit_simps dest: bit_imp_le_length)
  also have "push_bit 32 (ucast hi :: u64) = ucast hi * 4294967296"
    by (simp add: push_bit_eq_mult)
  finally show ?thesis
    using h l by (simp add: ticks64_def unat_word_ariths unsigned_ucast_eq take_bit_nat_eq_self)
qed

lemma unat_and_20: "unat ((w :: u32) AND 0xFFFFF) = unat w mod 1048576"
proof -
  have "(0xFFFFF :: u32) = mask 20" by (simp add: mask_eq_exp_minus_1)
  then have "w AND 0xFFFFF = take_bit 20 w" by (simp add: take_bit_eq_mask)
  then show ?thesis by (simp add: unsigned_take_bit_eq take_bit_eq_mod unat_mod)
qed

lemma add_period_ticks:
  assumes "ticks64 hi lo + 16000 < 4503599627370496"
  shows "ticks64 (snd (add_period lo hi)) (fst (add_period lo hi)) = ticks64 hi lo + 16000"
proof -
  have l: "unat lo < 4294967296" using unsigned_less [of lo] by simp
  have h: "unat hi * 4294967296 + unat lo + 16000 < 4503599627370496" using assms by (simp add: ticks64_def)
  show ?thesis
  proof (cases "4294967296 \<le> unat lo + 16000")
    case True
    then have "unat hi + 1 < 1048576" using h by linarith
    then have "unat ((hi + 1) AND 0xFFFFF) = unat hi + 1"
      unfolding unat_and_20 by (simp add: unat_word_ariths)
    moreover have "unat (lo + 16000) = unat lo + 16000 - 4294967296"
      using True l by (simp add: unat_word_ariths le_mod_geq)
    ultimately show ?thesis using True by (simp add: add_period_def ticks64_def)
  next
    case False
    then have "unat (lo + 16000) = unat lo + 16000" by (simp add: unat_word_ariths)
    with False show ?thesis by (simp add: add_period_def ticks64_def)
  qed
qed

lemma skip_missed_spec:
  assumes "ticks64 hi lo + 16000 * (101 - unat missed) < 4503599627370496" "unat missed \<le> 100"
    "skip_missed c lo hi missed = (lo', hi', missed')"
  shows "unat missed' = unat missed + min (101 - unat missed)
        (if unat c < ticks64 hi lo then 0 else (unat c - ticks64 hi lo) div 16000 + 1)
      \<and> ticks64 hi' lo' = ticks64 hi lo + 16000 * (unat missed' - unat missed)"
  using assms
proof (induction c lo hi missed rule: skip_missed.induct)
  case (1 c lo hi missed)
  note unf = "1.prems"(3) [unfolded skip_missed.simps [of c lo hi missed]]
  have less: "c < join64 hi lo \<longleftrightarrow> unat c < ticks64 hi lo"
    by (simp add: word_less_nat_alt unat_join64)
  obtain l h where lh: "add_period lo hi = (l, h)" by (cases "add_period lo hi")
  have t: "ticks64 h l = ticks64 hi lo + 16000"
    using add_period_ticks [of hi lo] lh "1.prems"(1,2) by simp
  have m: "unat (missed + 1) = unat missed + 1" using "1.prems"(2) by (simp add: unat_word_ariths)
  then have m100: "100 < missed + 1 \<longleftrightarrow> unat missed = 100"
    using "1.prems"(2) by (auto simp: word_less_nat_alt)
  show ?case
  proof (cases "unat c < ticks64 hi lo")
    case True
    with unf less show ?thesis by auto
  next
    case False
    have d: "(unat c - ticks64 hi lo) div 16000 + 1
        = 1 + (if unat c < ticks64 h l then 0 else (unat c - ticks64 h l) div 16000 + 1)"
      using False unfolding t by (cases "unat c < ticks64 hi lo + 16000") (auto simp: div_if [of "unat c - ticks64 hi lo"])
    show ?thesis
    proof (cases "unat missed = 100")
      case True
      with unf less False lh m100 m t show ?thesis by auto
    next
      case nf: False
      then have "skip_missed c l h (missed + 1) = (lo', hi', missed')"
        using unf less False lh m100 by auto
      then have "unat missed' = unat (missed + 1) + min (101 - unat (missed + 1))
            (if unat c < ticks64 h l then 0 else (unat c - ticks64 h l) div 16000 + 1)
          \<and> ticks64 hi' lo' = ticks64 h l + 16000 * (unat missed' - unat (missed + 1))"
        using "1.IH" [of l h] less False lh m100 nf t m "1.prems"(1,2) by simp
      moreover have "101 - unat missed = Suc (100 - unat missed)" using "1.prems"(2) by simp
      ultimately show ?thesis using d False nf t m "1.prems"(2) by auto
    qed
  qed
qed

text \<open>The hardware's snapshot: it answers, shows the counter value \<open>c\<close> and writes nothing else.\<close>

definition latches :: "(io \<Rightarrow> io option) \<Rightarrow> nat \<Rightarrow> bool" where
  "latches latch c \<longleftrightarrow> (\<forall>io. returns (\<lambda>io'. ticks64 (io' UNIT0_VALUE_HI) (io' UNIT0_VALUE_LO) = c
     \<and> (\<forall>a. a \<notin> {UNIT0_OP, UNIT0_VALUE_LO, UNIT0_VALUE_HI} \<longrightarrow> io' a = io a)) (latch io))"

text \<open>The instant of the alarm that fired, and of the one that was set.\<close>

definition fired_at :: "io \<Rightarrow> nat" where
  "fired_at io = ticks64 (io REAL_TARGET0_HI) (io REAL_TARGET0_LO)"

definition set_for :: "io \<Rightarrow> nat" where
  "set_for io = ticks64 (io TARGET0_HI) (io TARGET0_LO)"

text \<open>The timer chain from the clock gates to the alarm: the clocks run, the comparator and its
  interrupt are enabled.\<close>

definition clock_runs :: "io \<Rightarrow> bool" where
  "clock_runs io \<longleftrightarrow> bit (io PCR_SYSTIMER_CONF) 0 \<and> \<not> bit (io PCR_SYSTIMER_CONF) 1 \<and> bit (io PCR_SYSTIMER_FUNC_CLK) 22"

definition alarm_armed :: "io \<Rightarrow> bool" where
  "alarm_armed io \<longleftrightarrow> clock_runs io \<and> bit (io CONF) 24 \<and> bit (io INT_ENA) 0"

lemma and_low_bits [simp]:
  "(w AND 1 = 0) = (\<not> bit (w :: u32) 0)" "(w AND 2 = 0) = (\<not> bit w 1)"
  "(w AND 4194304 = 0) = (\<not> bit w 22)" "(w AND 1048576 = 0) = (\<not> bit w 20)"
  using and_pow2_eq_0_iff [of w 0] and_pow2_eq_0_iff [of w 1] and_pow2_eq_0_iff [of w 22] and_pow2_eq_0_iff [of w 20]
  by simp_all

lemma bit_set_bits:
  "bit ((w :: u32) OR 1) n = (bit w n \<or> n = 0)" "bit (w OR 4194304) n = (bit w n \<or> n = 22)"
  "bit (w OR 16777216) n = (bit w n \<or> n = 24)" "bit (w OR 1048576) n = (bit w n \<or> n = 20)"
  "bit (w AND - 3) n = (bit w n \<and> n \<noteq> 1)"
  using bit_or_pow2 [of 0 w n] bit_or_pow2 [of 22 w n] bit_or_pow2 [of 24 w n] bit_or_pow2 [of 20 w n]
    bit_and_not_pow2 [of w 1 n]
  by simp_all

lemma ensure_systimer_clock_spec:
  "clock_runs (snd (ensure_systimer_clock io))"
  "a \<notin> {PCR_SYSTIMER_CONF, PCR_SYSTIMER_FUNC_CLK} \<Longrightarrow> snd (ensure_systimer_clock io) a = io a"
  "fst (ensure_systimer_clock io) = (\<not> clock_runs io)"
  "clock_runs io \<Longrightarrow> snd (ensure_systimer_clock io) = io"
  by (auto simp: ensure_systimer_clock_def Let_def clock_runs_def bit_set_bits)

lemma systick_isr_spec:
  assumes "latches latch c" "fired_at io + 16000 * 102 < 2 ^ 52"
  shows "returns (\<lambda>(missed, io'). unat missed = min 101 ((c - fired_at io) div 16000)
      \<and> set_for io' = fired_at io + 16000 * (unat missed + 1)
      \<and> ((c - fired_at io) div 16000 \<le> 100 \<longrightarrow> c < set_for io') \<and> alarm_armed io'
      \<and> (\<forall>a. a \<in> {MXINT_ENABLE, MXINT_CLEAR, PCR_MSPI_CONF, PCR_CACHE_CONF} \<longrightarrow> io' a = io a))
    (systick_isr latch io)"
proof -
  define io1 where "io1 = (snd (ensure_systimer_clock io))(INT_CLR := 0x1)"
  define io2 where "io2 = io1(CONF := io1 CONF AND NOT (push_bit 24 1))"
  obtain lo hi where lh: "add_period (io REAL_TARGET0_LO) (io REAL_TARGET0_HI) = (lo, hi)"
    by (cases "add_period (io REAL_TARGET0_LO) (io REAL_TARGET0_HI)")
  have t: "ticks64 hi lo = fired_at io + 16000"
    using add_period_ticks [of "io REAL_TARGET0_HI" "io REAL_TARGET0_LO"] lh assms(2) by (simp add: fired_at_def)
  obtain io3 where io3: "latch (io2(UNIT0_OP := push_bit 30 1)) = Some io3"
    "ticks64 (io3 UNIT0_VALUE_HI) (io3 UNIT0_VALUE_LO) = c"
    "\<And>a. a \<notin> {UNIT0_OP, UNIT0_VALUE_LO, UNIT0_VALUE_HI} \<Longrightarrow> io3 a = io2 a"
    using assms(1) unfolding latches_def by (fastforce simp: returns_iff)
  let ?c = "join64 (io3 UNIT0_VALUE_HI) (io3 UNIT0_VALUE_LO)"
  obtain lo' hi' missed where sk: "skip_missed ?c lo hi 0 = (lo', hi', missed)" by (metis prod_cases3)
  have "unat missed = min 101 (if c < fired_at io + 16000 then 0 else (c - (fired_at io + 16000)) div 16000 + 1)
      \<and> ticks64 hi' lo' = fired_at io + 16000 + 16000 * unat missed"
    using skip_missed_spec [OF _ _ sk, unfolded unat_join64 t io3(2)] assms(2) by simp
  moreover have "(if c < fired_at io + 16000 then 0 else (c - (fired_at io + 16000)) div 16000 + 1)
      = (c - fired_at io) div 16000"
    by (auto simp: div_if [of "c - fired_at io"])
  ultimately have m: "unat missed = min 101 ((c - fired_at io) div 16000)"
    "ticks64 hi' lo' = fired_at io + 16000 * (unat missed + 1)" by simp_all
  have "c - fired_at io < 16000 + (c - fired_at io) div 16000 * 16000"
    by (rule dividend_less_div_times) simp
  then have "c - fired_at io < 16000 * ((c - fired_at io) div 16000 + 1)" by simp
  then have c: "c < fired_at io + 16000 * ((c - fired_at io) div 16000 + 1)" by linarith
  define io4 where "io4 = io3(TARGET0_LO := lo', TARGET0_HI := hi', COMP0_LOAD := 1)"
  define io5 where "io5 = io4(CONF := io4 CONF OR push_bit 24 1)"
  define io6 where "io6 = io5(INT_ENA := io5 INT_ENA OR 0x1)"
  have run: "systick_isr latch io = Some (missed, io6)"
    using io3(1) sk lh
    by (simp add: systick_isr_def Let_def io6_def io5_def io4_def io2_def io1_def ensure_systimer_clock_spec(2))
  have keep: "io6 a = io a" if "a \<in> {MXINT_ENABLE, MXINT_CLEAR, PCR_MSPI_CONF, PCR_CACHE_CONF}" for a
    using that io3(3) by (auto simp: io6_def io5_def io4_def io2_def io1_def ensure_systimer_clock_spec(2))
  have "io6 PCR_SYSTIMER_CONF = snd (ensure_systimer_clock io) PCR_SYSTIMER_CONF"
    "io6 PCR_SYSTIMER_FUNC_CLK = snd (ensure_systimer_clock io) PCR_SYSTIMER_FUNC_CLK"
    using io3(3) by (simp_all add: io6_def io5_def io4_def io2_def io1_def)
  then have "alarm_armed io6"
    using ensure_systimer_clock_spec(1) [of io]
    by (simp add: alarm_armed_def clock_runs_def) (simp add: io6_def io5_def bit_set_bits)
  moreover have "set_for io6 = ticks64 hi' lo'" by (simp add: set_for_def io6_def io5_def io4_def)
  ultimately show ?thesis unfolding run using m c keep by auto
qed

end
