(* ===== verification/Mos_Print.thy ===== *)
theory Mos_Print
  imports Mos_Text
begin

section \<open>The printing layer and its RTT back end\<close>

text \<open>
  \<open>core/src/print.rs\<close> and \<open>boards/esp32c6/src/print_rtt.rs\<close>. The kernel prints through two function
  pointers that the board registers; a function pointer is a function on the state \<open>'s\<close> of the back
  end. \<open>fmt::Arguments\<close> is the list of the pieces that the formatter hands to \<open>write_str\<close>, one after
  the other. The channels belong to \<open>rtt_target\<close>: \<open>write\<close> and \<open>read\<close> of a channel are arguments.
\<close>

type_synonym arguments = "string list"

subsection \<open>The hooks of the kernel\<close>

record 's print_hooks =
  PRINT_FN :: "(arguments \<Rightarrow> 's \<Rightarrow> 's) option"
  GETCHAR_FN :: "('s \<Rightarrow> u8 option \<times> 's) option"

definition no_hooks :: "'s print_hooks" where
  "no_hooks = \<lparr>PRINT_FN = None, GETCHAR_FN = None\<rparr>"

definition register_print_fn :: "(arguments \<Rightarrow> 's \<Rightarrow> 's) \<Rightarrow> 's print_hooks \<Rightarrow> 's print_hooks" where
  "register_print_fn f h = h\<lparr>PRINT_FN := Some f\<rparr>"

definition register_getchar_fn :: "('s \<Rightarrow> u8 option \<times> 's) \<Rightarrow> 's print_hooks \<Rightarrow> 's print_hooks" where
  "register_getchar_fn f h = h\<lparr>GETCHAR_FN := Some f\<rparr>"

definition kgetchar_nonblock :: "'s print_hooks \<Rightarrow> 's \<Rightarrow> u8 option \<times> 's" where
  "kgetchar_nonblock h s = (case GETCHAR_FN h of Some f \<Rightarrow> f s | None \<Rightarrow> (None, s))"

text \<open>\<open>_print\<close> and the two macros; \<open>kprintln!()\<close> without arguments prints the line feed only.\<close>

definition print_fmt :: "'s print_hooks \<Rightarrow> arguments \<Rightarrow> 's \<Rightarrow> 's" where
  "print_fmt h args s = (case PRINT_FN h of Some f \<Rightarrow> f args s | None \<Rightarrow> s)"

definition kprint :: "'s print_hooks \<Rightarrow> arguments \<Rightarrow> 's \<Rightarrow> 's" where
  "kprint h args s = print_fmt h args s"

definition kprintln :: "'s print_hooks \<Rightarrow> arguments option \<Rightarrow> 's \<Rightarrow> 's" where
  "kprintln h args s =
     (case args of
        None \<Rightarrow> print_fmt h [[CHR 0x0A]] s
      | Some args \<Rightarrow> print_fmt h [[CHR 0x0A]] (print_fmt h args s))"

subsection \<open>Formatting into a writer\<close>

text \<open>\<open>fmt::Write::write_fmt\<close>: the pieces in order, up to the first that \<open>write_str\<close> rejects.\<close>

fun write_fmt :: "(string \<Rightarrow> 'w \<Rightarrow> (bool \<times> 'w) option) \<Rightarrow> arguments \<Rightarrow> 'w \<Rightarrow> (bool \<times> 'w) option" where
  "write_fmt write_str [] w = Some (True, w)"
| "write_fmt write_str (s # args) w = do {
     (ok, w) \<leftarrow> write_str s w;
     if ok then write_fmt write_str args w else Some (False, w) }"

subsection \<open>The RTT back end\<close>

record ('u, 'd) rtt_ops =
  up_write :: "u8 list \<Rightarrow> 'u \<Rightarrow> nat \<times> 'u"
  down_read :: "u8 list \<Rightarrow> 'd \<Rightarrow> nat \<times> u8 list \<times> 'd"

record ('u, 'd) rtt =
  RTT_CHANNEL :: "'u option"
  RTT_DOWN_CHANNEL :: "'d option"

definition rtt_closed :: "('u, 'd) rtt" where
  "rtt_closed = \<lparr>RTT_CHANNEL = None, RTT_DOWN_CHANNEL = None\<rparr>"

definition rtt_write_str :: "('u, 'd) rtt_ops \<Rightarrow> string \<Rightarrow> ('u, 'd) rtt \<Rightarrow> (bool \<times> ('u, 'd) rtt) option" where
  "rtt_write_str io s r = Some
     (True, case RTT_CHANNEL r of
        Some ch \<Rightarrow> r\<lparr>RTT_CHANNEL := Some (snd (up_write io (to_bytes s) ch))\<rparr>
      | None \<Rightarrow> r)"

definition rtt_print :: "('u, 'd) rtt_ops \<Rightarrow> arguments \<Rightarrow> ('u, 'd) rtt \<Rightarrow> ('u, 'd) rtt" where
  "rtt_print io args r = (case write_fmt (rtt_write_str io) args r of Some (_, r) \<Rightarrow> r | None \<Rightarrow> r)"

text \<open>A read of one byte into \<open>buf = [0; 1]\<close>.\<close>

definition rtt_getchar :: "('u, 'd) rtt_ops \<Rightarrow> ('u, 'd) rtt \<Rightarrow> u8 option \<times> ('u, 'd) rtt" where
  "rtt_getchar io r =
     (case RTT_DOWN_CHANNEL r of
        Some down \<Rightarrow>
          let (n, buf, down) = down_read io [0] down;
              r = r\<lparr>RTT_DOWN_CHANNEL := Some down\<rparr>
          in if 0 < n then (Some (hd buf), r) else (None, r)
      | None \<Rightarrow> (None, r))"

definition kputchar :: "('u, 'd) rtt_ops \<Rightarrow> u8 \<Rightarrow> ('u, 'd) rtt \<Rightarrow> ('u, 'd) rtt" where
  "kputchar io c r =
     (case RTT_CHANNEL r of
        Some ch \<Rightarrow> r\<lparr>RTT_CHANNEL := Some (snd (up_write io [c] ch))\<rparr>
      | None \<Rightarrow> r)"

text \<open>\<open>init\<close> with the channels that \<open>rtt_init!\<close> sets up.\<close>

definition rtt_init :: "('u, 'd) rtt_ops \<Rightarrow> 'u \<Rightarrow> 'd \<Rightarrow> ('u, 'd) rtt print_hooks \<Rightarrow> ('u, 'd) rtt
    \<Rightarrow> ('u, 'd) rtt print_hooks \<times> ('u, 'd) rtt" where
  "rtt_init io up down h r =
     (let r = r\<lparr>RTT_CHANNEL := Some up, RTT_DOWN_CHANNEL := Some down\<rparr>
      in (register_getchar_fn (rtt_getchar io) (register_print_fn (rtt_print io) h), r))"

subsection \<open>What is printed\<close>

text \<open>
  A writer that takes the bytes of every piece: \<open>shown\<close> is what it has kept of them, the first
  \<open>cap\<close> bytes. Such a writer cannot tell how a text was cut into pieces.
\<close>

locale text_writer =
  fixes write_str :: "string \<Rightarrow> 'w \<Rightarrow> (bool \<times> 'w) option"
    and shown :: "'w \<Rightarrow> u8 list"
    and ok :: "'w \<Rightarrow> bool"
    and cap :: nat
  assumes bound_law: "ok w \<Longrightarrow> length (shown w) \<le> cap"
    and write_law: "ok w \<Longrightarrow> returns (\<lambda>(e, w'). e \<and> ok w' \<and> shown w' = take cap (shown w @ to_bytes s)) (write_str s w)"
begin

lemma take_again: "take n (take n xs @ ys) = take n (xs @ ys)"
  by (cases "n \<le> length xs") auto

lemma write_fmt_shows:
  "ok w \<Longrightarrow> returns (\<lambda>(e, w'). e \<and> ok w' \<and> shown w' = take cap (shown w @ to_bytes (concat args)))
     (write_fmt write_str args w)"
proof (induction args arbitrary: w)
  case Nil
  with bound_law [of w] show ?case by (simp add: to_bytes_def)
next
  case (Cons s args)
  from write_law [OF Cons.prems, of s] obtain v where v: "write_str s w = Some (True, v)" "ok v"
    "shown v = take cap (shown w @ to_bytes s)" by (auto simp: returns_iff)
  have "take cap (shown v @ to_bytes (concat args)) = take cap (shown w @ to_bytes (concat (s # args)))"
    unfolding v(3) take_again by (simp add: to_bytes_def)
  with Cons.IH [OF v(2)] v(1) show ?case by simp
qed

text \<open>Every split of a text shows the same.\<close>

lemma pieces_irrelevant:
  assumes "ok w" "concat args = concat args'"
  shows "map_option (shown \<circ> snd) (write_fmt write_str args w) = map_option (shown \<circ> snd) (write_fmt write_str args' w)"
  using write_fmt_shows [OF assms(1), of args] write_fmt_shows [OF assms(1), of args'] assms(2)
  by (auto simp: returns_iff)

end

lemma write_fmt_rtt:
  "write_fmt (rtt_write_str io) args r
   = Some (True, r\<lparr>RTT_CHANNEL := map_option (fold (\<lambda>s ch. snd (up_write io (to_bytes s) ch)) args) (RTT_CHANNEL r)\<rparr>)"
proof (induction args arbitrary: r)
  case Nil
  show ?case by (cases r) (simp add: option.map_id0 [unfolded id_def])
next
  case (Cons s args)
  let ?r = "r\<lparr>RTT_CHANNEL := map_option (\<lambda>ch. snd (up_write io (to_bytes s) ch)) (RTT_CHANNEL r)\<rparr>"
  have "rtt_write_str io s r = Some (True, ?r)"
    by (cases "RTT_CHANNEL r") (simp_all add: rtt_write_str_def)
  with Cons.IH [of ?r] show ?case by (simp add: option.map_comp o_def)
qed

lemma rtt_print_fold:
  "rtt_print io args r = r\<lparr>RTT_CHANNEL := map_option (fold (\<lambda>s ch. snd (up_write io (to_bytes s) ch)) args) (RTT_CHANNEL r)\<rparr>"
  by (simp add: rtt_print_def write_fmt_rtt)

text \<open>The debug console: before a back end is registered, printing does nothing and reading finds
  nothing; after \<open>init\<close>, a \<open>kprintln\<close> of the kernel writes each piece of the text to the up channel in
  order and a line feed behind them, leaves the down channel alone, and a non-blocking read returns the
  byte the down channel delivers, if it delivers one.\<close>

theorem console_backend:
  "kprintln no_hooks args s = s \<and> kgetchar_nonblock no_hooks s = (None, s)
   \<and> (let (h, r) = rtt_init io up down h0 r0
      in kprintln h (Some pieces) r
           = r\<lparr>RTT_CHANNEL := Some (fold (\<lambda>p ch. snd (up_write io (to_bytes p) ch)) (pieces @ [[CHR 0x0A]]) up)\<rparr>
         \<and> fst (kgetchar_nonblock h r)
           = (case down_read io [0] down of (n, buf, _) \<Rightarrow> if 0 < n then Some (hd buf) else None))"
  by (cases args) (simp_all add: kprintln_def print_fmt_def no_hooks_def kgetchar_nonblock_def rtt_init_def
    register_print_fn_def register_getchar_fn_def rtt_print_fold rtt_getchar_def Let_def split: prod.split)

end
