(* ===== verification/Mos_Trap.thy ===== *)
theory Mos_Trap
  imports Mos_Bsp Mos_Sched Mos_Print
begin

section \<open>The trap dispatch\<close>

text \<open>
  \<open>boards/esp32c6/src/trap.rs\<close>: \<open>_mos_trap_dispatch\<close> on the kernel state, the registers of the
  board, the saved frame (a list of words, the first the saved program counter, the second the
  return address) and the statics of the trap code. The handler that \<open>esp-hal\<close> registers for other
  peripherals is an argument \<open>hal\<close>, as is the timer's snapshot \<open>latch\<close>. The result is \<open>None\<close> where
  the function does not return: an unrecoverable fault prints its diagnosis and waits for ever.
\<close>

record board =
  kern :: kernel
  io_regs :: io
  frame :: "u32 list"
  YIELD_FROM_ISR :: bool
  IN_ISR :: bool
  TRAP_INT_COUNT :: u32
  TRAP_LAST_MCAUSE :: u32
  TRAP_SYSTICK_COUNT :: u32
  LAST_FENCED_MEPC :: u32

definition yield_task_from_isr :: "board \<Rightarrow> board" where
  "yield_task_from_isr b = b\<lparr>YIELD_FROM_ISR := True\<rparr>"

definition is_esp_hal_cpu_int :: "u32 \<Rightarrow> bool" where
  "is_esp_hal_cpu_int code \<longleftrightarrow> code = 1 \<or> code = 2 \<or> code = 5 \<or> code = 6 \<or> 9 \<le> code \<and> code \<le> 19"

text \<open>The loop over the missed ticks and the present one.\<close>

fun tick_times :: "nat \<Rightarrow> u32 \<Rightarrow> kernel \<Rightarrow> (u32 \<times> kernel) option" where
  "tick_times 0 r k = Some (r, k)"
| "tick_times (Suc n) r k = do { (t, k) \<leftarrow> systick_tick k; tick_times n (r OR t) k }"

text \<open>The register write that turns the systick interrupt back on.\<close>

definition enable_systick_int :: "io \<Rightarrow> io" where
  "enable_systick_int io =
     (let en = io MXINT_ENABLE
      in if en AND push_bit (unat SYSTICK_CPU_INT) 1 = 0
         then io(MXINT_ENABLE := en OR push_bit (unat SYSTICK_CPU_INT) 1) else io)"

text \<open>The exceptions: an \<open>ecall\<close> steps over itself and asks for a switch; a jump to an invalid address
  returns to the caller; a fault behind which a clock was off is retried.\<close>

definition dispatch_exception :: "u32 \<Rightarrow> board \<Rightarrow> (u32 \<times> board) option" where
  "dispatch_exception code b = do {
     fault_mepc \<leftarrow> array_get (frame b) 0;
     if code = 11 then do {
       f \<leftarrow> array_set (frame b) 0 (fault_mepc + 4);
       Some (1, b\<lparr>frame := f\<rparr>) }
     else do {
       fault_ra \<leftarrow> array_get (frame b) 1;
       if (code = 1 \<or> code = 2) \<and> fault_mepc < 0x40000000 then do {
         f \<leftarrow> array_set (frame b) 0 fault_ra;
         Some (0, b\<lparr>frame := f\<rparr>) }
       else if code = 1 \<or> code = 2 \<or> code = 5 \<or> code = 7 then
         (let (repaired, io, last) = recover_peripheral_clocks fault_mepc (io_regs b) (LAST_FENCED_MEPC b)
          in if repaired then Some (0, b\<lparr>io_regs := io, LAST_FENCED_MEPC := last\<rparr>) else None)
       else None } }"

text \<open>
  The diagnosis before the halt, line by line: \<open>frame_addr\<close> is the address of the frame, \<open>regs\<close> the
  clock registers, \<open>flash\<close> the code memory, read as half words, and \<open>bt_mac_entry\<close> the entry of
  \<open>esp-hal\<close>'s table of handlers.
\<close>

definition fault_report :: "u32 \<Rightarrow> u32 \<Rightarrow> u32 list \<Rightarrow> (u32 \<Rightarrow> u32) \<Rightarrow> (u32 \<Rightarrow> u16) \<Rightarrow> u32 \<Rightarrow> arguments list option" where
  "fault_report mcause frame_addr f regs flash bt_mac_entry = do {
     fault_mepc \<leftarrow> array_get f 0;
     ra \<leftarrow> array_get f 1;
     a0 \<leftarrow> array_get f 9;
     a5 \<leftarrow> array_get f 14;
     s2 \<leftarrow> array_get f 17;
     status_word \<leftarrow> array_get f 31;
     Some (
       [[''FAULT: mcause=0x'', hex_word 8 mcause, '' mepc=0x'', hex_word 8 fault_mepc],
        [''  sp(frame)=0x'', hex_word 8 frame_addr, '' ra=0x'', hex_word 8 ra],
        [''  a0=0x'', hex_word 8 a0, '' a5=0x'', hex_word 8 a5, '' s2=0x'', hex_word 8 s2],
        [''  PCR: systimer=0x'', hex_word 8 (regs 0x60096054), '' mspi=0x'', hex_word 8 (regs 0x60096018),
         '' cache=0x'', hex_word 8 (regs 0x60096104)]]
       @ (if 0x40000000 \<le> fault_mepc \<and> fault_mepc < 0x44000000
          then [[''  instr@mepc=0x'', hex_word 4 (ucast (flash (fault_mepc AND NOT 1)) :: u32),
                 '' mstatus=0x'', hex_word 8 status_word]]
          else [])
       @ [[''  EXT_INT[4]=0x'', hex_word 8 bt_mac_entry, '' (BT_MAC handler)'']]) }"

lemma fault_report_total: "length f = 32 \<Longrightarrow> fault_report mcause a f regs flash e \<noteq> None"
  by (simp add: fault_report_def array_get_def)

text \<open>The interrupts, after the flags and counters of the entry. A shift amount is taken modulo 32.\<close>

definition dispatch_interrupt :: "(u32 \<Rightarrow> board \<Rightarrow> board) \<Rightarrow> (io \<Rightarrow> io option) \<Rightarrow> u32 \<Rightarrow> board \<Rightarrow> (u32 \<times> board) option" where
  "dispatch_interrupt hal latch code b =
     (if code = SYSTICK_CPU_INT then do {
        (missed, io) \<leftarrow> systick_isr latch (io_regs b);
        let b = b\<lparr>io_regs := io, TRAP_SYSTICK_COUNT := TRAP_SYSTICK_COUNT b + (1 + missed)\<rparr>;
        (r, k) \<leftarrow> tick_times (unat missed + 1) 0 (kern b);
        Some (r, b\<lparr>kern := k\<rparr>) }
      else if is_esp_hal_cpu_int code then
        (let b = hal code b;
             io = snd (ensure_systimer_clock (io_regs b))
         in Some (0, b\<lparr>io_regs := enable_systick_int io\<rparr>))
      else
        (let io = (io_regs b)(MXINT_CLEAR := push_bit (unat (code AND 31)) 1);
             io = io(MXINT_ENABLE := io MXINT_ENABLE AND NOT (push_bit (unat (code AND 31)) 1));
             io = snd (ensure_systimer_clock io)
         in Some (0, b\<lparr>io_regs := enable_systick_int io\<rparr>)))"

definition trap_dispatch :: "(u32 \<Rightarrow> board \<Rightarrow> board) \<Rightarrow> (io \<Rightarrow> io option) \<Rightarrow> u32 \<Rightarrow> board \<Rightarrow> (u32 \<times> board) option" where
  "trap_dispatch hal latch mcause b =
     (let is_interrupt = (mcause AND 0x80000000 \<noteq> 0);
          code = mcause AND 0x7FFFFFFF
      in if \<not> is_interrupt then dispatch_exception code b
         else do {
           let b = b\<lparr>IN_ISR := True, TRAP_INT_COUNT := TRAP_INT_COUNT b + 1, TRAP_LAST_MCAUSE := mcause\<rparr>;
           (ret, b) \<leftarrow> dispatch_interrupt hal latch code b;
           let ret = (if YIELD_FROM_ISR b then 1 else ret);
           Some (ret, b\<lparr>YIELD_FROM_ISR := False, IN_ISR := False\<rparr>) })"

text \<open>The handler of \<open>Mos_Riscv\<close> around it, on the kernel state.\<close>

definition board_trap :: "(u32 \<Rightarrow> board \<Rightarrow> board) \<Rightarrow> (io \<Rightarrow> io option) \<Rightarrow> u32 \<Rightarrow> board \<Rightarrow> board option" where
  "board_trap hal latch mcause b = do {
     (r, b) \<leftarrow> trap_dispatch hal latch mcause b;
     if SCHED_READY (kern b) \<and> r \<noteq> 0 then do { k \<leftarrow> next_tcb (kern b); Some (b\<lparr>kern := k\<rparr>) } else Some b }"

subsection \<open>Time\<close>

lemma tick_times_spec:
  assumes "kernel_inv k" "CURRENT_TCB k = Some c"
  shows "returns (\<lambda>(r, k'). kernel_inv k' \<and> CURRENT_TCB k' = Some c \<and> OS_TICKS k' = OS_TICKS k + of_nat n)
    (tick_times n r0 k)"
  using assms
proof (induction n arbitrary: r0 k)
  case (Suc n)
  then have rdy: "wf_kernel k" "SCHED_READY k" by (auto simp: kernel_inv_def current_ready_def)
  from systick_tick_closed [OF rdy(1) Suc.prems(2) rdy(2)]
  obtain t where "systick_tick k = Some (t, ticked c k)" by blast
  then have run: "tick_times (Suc n) r0 k = tick_times n (r0 OR t) (ticked c k)" by simp
  have "returns (\<lambda>(r, k'). kernel_inv k' \<and> CURRENT_TCB k' = Some c \<and> OS_TICKS k' = OS_TICKS (ticked c k) + of_nat n)
      (tick_times n (r0 OR t) (ticked c k))"
    by (rule Suc.IH) (use Suc.prems in \<open>simp_all add: kernel_inv_ticked\<close>)
  then show ?case unfolding run by (rule returns_mono) (auto simp: algebra_simps)
qed simp

lemma systick_cause [simp]: "(0x80000014 :: u32) AND 0x80000000 = 0x80000000" "(0x80000014 :: u32) AND 0x7FFFFFFF = 20"
  by simp_all

text \<open>C12. Time does not drift: a timer interrupt, however late it is served within 101 periods of its
  alarm, advances the tick counter by the number of periods that have begun since, and sets the next
  alarm exactly that many periods after the last one and after the present, with the timer chain
  armed; the kernel's invariant holds after the switch it may cause. Beyond 101 periods the excess is
  left to the next interrupt.\<close>

theorem late_systick_keeps_time:
  fixes b :: board
  assumes "kernel_inv (kern b)" "CURRENT_TCB (kern b) \<noteq> None" "latches latch c" "fired_at (io_regs b) + 16000 * 102 < 2 ^ 52"
  shows "returns (\<lambda>b'. kernel_inv (kern b')
      \<and> (let n = 1 + min 101 ((c - fired_at (io_regs b)) div 16000)
         in OS_TICKS (kern b') = OS_TICKS (kern b) + of_nat n \<and> set_for (io_regs b') = fired_at (io_regs b) + 16000 * n
            \<and> TRAP_SYSTICK_COUNT b' = TRAP_SYSTICK_COUNT b + of_nat n)
      \<and> ((c - fired_at (io_regs b)) div 16000 \<le> 100 \<longrightarrow> c < set_for (io_regs b'))
      \<and> alarm_armed (io_regs b') \<and> \<not> YIELD_FROM_ISR b' \<and> \<not> IN_ISR b')
    (board_trap hal latch 0x80000014 b)"
proof -
  let ?b = "b\<lparr>IN_ISR := True, TRAP_INT_COUNT := TRAP_INT_COUNT b + 1, TRAP_LAST_MCAUSE := 0x80000014\<rparr>"
  obtain c0 where c0: "CURRENT_TCB (kern b) = Some c0" using assms(2) by auto
  obtain missed io where m: "systick_isr latch (io_regs b) = Some (missed, io)"
    "unat missed = min 101 ((c - fired_at (io_regs b)) div 16000)"
    "set_for io = fired_at (io_regs b) + 16000 * (unat missed + 1)"
    "(c - fired_at (io_regs b)) div 16000 \<le> 100 \<longrightarrow> c < set_for io" "alarm_armed io"
    using systick_isr_spec [OF assms(3,4)] by (rule returns_pairE) blast
  define n where "n = unat missed + 1"
  from tick_times_spec [OF assms(1) c0, of n 0] obtain r k where k: "tick_times n 0 (kern b) = Some (r, k)"
    "kernel_inv k" "CURRENT_TCB k = Some c0" "OS_TICKS k = OS_TICKS (kern b) + of_nat n"
    by (rule returns_pairE) blast
  let ?b1 = "?b\<lparr>io_regs := io, TRAP_SYSTICK_COUNT := TRAP_SYSTICK_COUNT b + (1 + missed), kern := k\<rparr>"
  have "dispatch_interrupt hal latch 20 ?b = Some (r, ?b1)"
    using m(1) k(1) unfolding n_def by (simp add: dispatch_interrupt_def del: tick_times.simps)
  then obtain r' where d: "trap_dispatch hal latch 0x80000014 b = Some (r', ?b1\<lparr>YIELD_FROM_ISR := False, IN_ISR := False\<rparr>)"
    by (simp add: trap_dispatch_def)
  have n: "1 + min 101 ((c - fired_at (io_regs b)) div 16000) = n" using m(2) by (simp add: n_def)
  from k(2) have rdy: "SCHED_READY k" "wf_kernel k" "ready_sorted k" using k(3) by (auto simp: kernel_inv_def current_ready_def)
  have "returns kernel_inv (next_tcb k)"
    using next_tcb_inv [OF rdy(2,3) k(3) rdy(1)] kernel_inv_woken_ready [OF k(2,3)] by simp
  then obtain k' where k': "next_tcb k = Some k'" "kernel_inv k'" by (auto simp: returns_iff)
  have "OS_TICKS k' = OS_TICKS k"
    using sched_frameD [OF next_tcb_frame [OF rdy(2) k(3) k'(1)]] by simp
  then obtain k2 where k2: "board_trap hal latch 0x80000014 b
      = Some (?b1\<lparr>YIELD_FROM_ISR := False, IN_ISR := False, kern := k2\<rparr>)"
    "kernel_inv k2" "OS_TICKS k2 = OS_TICKS k"
    using that [of k] that [of k'] d k(2) k' rdy(1) by (cases "r' = 0") (auto simp: board_trap_def)
  show ?thesis
    unfolding k2(1) n Let_def using k2(2,3) k(4) m(3-5) by (simp add: n_def)
qed

text \<open>A late interrupt on the demonstration kernel: the alarm was due at 16000, it is 40000.\<close>

definition demo_board :: board where
  "demo_board = \<lparr>kern = demo_kernel, io_regs = (\<lambda>a. if a = REAL_TARGET0_LO then 16000 else 0),
     frame = replicate 32 0, YIELD_FROM_ISR = False, IN_ISR = False, TRAP_INT_COUNT = 0, TRAP_LAST_MCAUSE = 0,
     TRAP_SYSTICK_COUNT = 0, LAST_FENCED_MEPC = 0\<rparr>"

definition demo_latch :: "io \<Rightarrow> io option" where
  "demo_latch io = Some (io(UNIT0_VALUE_LO := 40000, UNIT0_VALUE_HI := 0))"

lemma demo_latches: "latches demo_latch 40000"
  by (simp add: latches_def demo_latch_def ticks64_def)

theorem late_systick_keeps_time_witness:
  "returns (\<lambda>b'. kernel_inv (kern b')
      \<and> (let n = 1 + min 101 ((40000 - fired_at (io_regs demo_board)) div 16000)
         in OS_TICKS (kern b') = OS_TICKS (kern demo_board) + of_nat n
            \<and> set_for (io_regs b') = fired_at (io_regs demo_board) + 16000 * n
            \<and> TRAP_SYSTICK_COUNT b' = TRAP_SYSTICK_COUNT demo_board + of_nat n)
      \<and> ((40000 - fired_at (io_regs demo_board)) div 16000 \<le> 100 \<longrightarrow> 40000 < set_for (io_regs b'))
      \<and> alarm_armed (io_regs b') \<and> \<not> YIELD_FROM_ISR b' \<and> \<not> IN_ISR b')
    (board_trap (\<lambda>c b. b) demo_latch 0x80000014 demo_board)"
  by (rule late_systick_keeps_time)
    (simp_all add: demo_board_def kernel_inv_demo demo_latches fired_at_def ticks64_def)

subsection \<open>Faults\<close>

lemma bit_5: "bit (5 :: u32) n \<longleftrightarrow> n = 0 \<or> n = 2"
proof -
  have "(5 :: u32) = 2 ^ 0 OR 2 ^ 2" by simp
  then show ?thesis by (simp only: bit_or_pow2 len_num1 len_bit0) (auto simp: bit_1_iff)
qed

lemma and_5: "(w AND 5 = 5) = (bit (w :: u32) 0 \<and> bit w 2)"
proof
  assume "w AND 5 = 5"
  then have "bit (w AND 5) n = bit (5 :: u32) n" for n by simp
  then have "(bit w n \<and> (n = 0 \<or> n = 2)) = (n = 0 \<or> n = 2)" for n unfolding bit_and_iff bit_5 .
  from this [of 0] this [of 2] show "bit w 0 \<and> bit w 2" by simp
next
  assume b: "bit w 0 \<and> bit w 2"
  show "w AND 5 = 5"
    by (rule bit_word_eqI) (unfold bit_and_iff bit_5, use b in blast)
qed

lemma bit_or_5: "bit ((w :: u32) OR 5) n = (bit w n \<or> n = 0 \<or> n = 2)"
  unfolding bit_or_iff bit_5 ..

lemma recover_spec:
  assumes "recover_peripheral_clocks mepc io l = (True, io', l')"
  shows "l' = mepc \<and> recover_peripheral_clocks mepc io' l' = (False, io', l')"
proof -
  define io1 where "io1 = snd (ensure_systimer_clock io)"
  define mspi where "mspi = io PCR_MSPI_CONF"
  define io2 where "io2 = (if mspi AND 5 \<noteq> 5 \<or> mspi AND 2 \<noteq> 0 then io1(PCR_MSPI_CONF := (mspi OR 5) AND NOT 2) else io1)"
  define cache where "cache = io PCR_CACHE_CONF"
  define io3 where "io3 = (if cache AND 1 = 0 \<or> cache AND 2 \<noteq> 0 then io2(PCR_CACHE_CONF := (cache OR 1) AND NOT 2) else io2)"
  have m: "io1 PCR_MSPI_CONF = mspi" by (simp add: io1_def mspi_def ensure_systimer_clock_spec(2))
  have c: "io2 PCR_CACHE_CONF = cache" by (simp add: io2_def io1_def cache_def ensure_systimer_clock_spec(2))
  have "io' = io3" "l' = mepc"
    using assms m c
    by (auto simp: recover_peripheral_clocks_def Let_def io3_def io2_def io1_def case_prod_unfold split: if_splits)
  moreover have "clock_runs io3"
    using ensure_systimer_clock_spec(1) [of io] by (simp add: clock_runs_def io3_def io2_def io1_def)
  moreover have "bit (io3 PCR_MSPI_CONF) 0" "\<not> bit (io3 PCR_MSPI_CONF) 1" "bit (io3 PCR_MSPI_CONF) 2"
    using m by (auto simp: io3_def io2_def and_5 bit_set_bits bit_or_5)
  moreover have "bit (io3 PCR_CACHE_CONF) 0" "\<not> bit (io3 PCR_CACHE_CONF) 1"
    using c by (auto simp: io3_def bit_set_bits)
  ultimately show ?thesis
    by (simp add: recover_peripheral_clocks_def Let_def case_prod_unfold ensure_systimer_clock_spec(3,4) and_5)
qed

text \<open>C13. No fault is retried for ever: when the dispatch has repaired a fault behind which a clock was
  off or the instruction cache was stale, and the same instruction faults again on the board as the
  repair left it, the dispatch does not return but halts.\<close>

theorem fault_retry_bounded:
  assumes "trap_dispatch hal latch cause b = Some (0, b')" "cause \<in> {1, 2, 5, 7}"
    and "frame b = mepc # ra # ws" "\<not> mepc < 0x40000000" "cause' \<in> {1, 2, 5, 7}"
  shows "frame b' = frame b \<and> trap_dispatch hal latch cause' b' = None"
proof -
  have dispatch: "trap_dispatch hal latch x d
      = (let (repaired, io, last) = recover_peripheral_clocks mepc (io_regs d) (LAST_FENCED_MEPC d)
         in if repaired then Some (0, d\<lparr>io_regs := io, LAST_FENCED_MEPC := last\<rparr>) else None)"
    if "x \<in> {1, 2, 5, 7}" "frame d = mepc # ra # ws" for x d
    using that assms(4) by (auto simp: trap_dispatch_def dispatch_exception_def array_get_def Let_def)
  obtain r io l where rec: "recover_peripheral_clocks mepc (io_regs b) (LAST_FENCED_MEPC b) = (r, io, l)"
    by (metis prod_cases3)
  with assms(1) dispatch [OF assms(2,3)] have r: r and b': "b' = b\<lparr>io_regs := io, LAST_FENCED_MEPC := l\<rparr>"
    by (auto split: if_splits)
  from recover_spec [of mepc _ _ io l] rec r
  have "recover_peripheral_clocks mepc (io_regs b') (LAST_FENCED_MEPC b') = (False, io, l)"
    by (simp add: b')
  then show ?thesis using dispatch [OF assms(5), of b'] assms(3) by (simp add: b')
qed

theorem fault_retry_bounded_witness:
  "let b = demo_board\<lparr>frame := [0x42000010, 0x42000000, 0]\<rparr>;
       b' = snd (the (trap_dispatch (\<lambda>c b. b) demo_latch 5 b))
   in frame b' = frame b \<and> trap_dispatch (\<lambda>c b. b) demo_latch 7 b' = None"
proof -
  let ?b = "demo_board\<lparr>frame := [0x42000010, 0x42000000, 0]\<rparr>"
  have "\<exists>b'. trap_dispatch (\<lambda>c b. b) demo_latch 5 ?b = Some (0, b')"
    by (simp add: trap_dispatch_def dispatch_exception_def array_get_def recover_peripheral_clocks_def
        ensure_systimer_clock_def demo_board_def Let_def)
  then obtain b' where "trap_dispatch (\<lambda>c b. b) demo_latch 5 ?b = Some (0, b')" ..
  with fault_retry_bounded [OF this, of "0x42000010" "0x42000000" "[0]" 7] show ?thesis by simp
qed

subsection \<open>Other interrupts\<close>

lemma enable_systick_int_spec:
  "bit (enable_systick_int io MXINT_ENABLE) 20" "a \<noteq> MXINT_ENABLE \<Longrightarrow> enable_systick_int io a = io a"
  by (auto simp: enable_systick_int_def Let_def bit_set_bits)

text \<open>How the dispatch splits the cause.\<close>

definition interrupt_code :: "u32 \<Rightarrow> bool \<times> u32" where
  "interrupt_code mcause = (mcause AND 0x80000000 \<noteq> 0, mcause AND 0x7FFFFFFF)"

lemma interrupt_code_or:
  assumes "code < 0x80000000"
  shows "interrupt_code (0x80000000 OR code) = (True, code)"
proof -
  have m: "(0x7FFFFFFF :: u32) = mask 31" by (simp add: mask_eq_exp_minus_1)
  have "(0x80000000 OR code) AND 0x7FFFFFFF = take_bit 31 (0x80000000 OR code)"
    unfolding m by (simp only: take_bit_eq_mask)
  also have "\<dots> = take_bit 31 (0x80000000 :: u32) OR take_bit 31 code" by (simp only: take_bit_or)
  also have "take_bit 31 (0x80000000 :: u32) = 0" by simp
  also have "take_bit 31 code = code"
    using assms by (intro word_unat_eq_iff [THEN iffD2]) (simp add: unsigned_take_bit_eq take_bit_nat_eq_self word_less_nat_alt)
  finally have c: "(0x80000000 OR code) AND 0x7FFFFFFF = code" by simp
  have "bit (0x80000000 OR code) 31" by (simp add: bit_or_iff)
  then have "(0x80000000 OR code) AND 0x80000000 \<noteq> 0"
    using and_pow2_eq_0_iff [of "0x80000000 OR code" 31] by simp
  with c show ?thesis by (simp add: interrupt_code_def)
qed

text \<open>C14. Whatever a foreign interrupt handler does to the board, and also for an interrupt nobody
  claims, the dispatch returns with the timer interrupt enabled in the interrupt controller and the
  timer's clocks running, so preemption survives; it asks for a switch exactly when a handler asked
  for one with \<open>yield_task_from_isr\<close>, and clears that request and the in-interrupt flag.\<close>

theorem foreign_interrupt_keeps_systick:
  assumes "code < 0x80000000" "code \<noteq> SYSTICK_CPU_INT"
  shows "returns (\<lambda>(ret, b'). bit (io_regs b' MXINT_ENABLE) 20 \<and> clock_runs (io_regs b')
      \<and> \<not> YIELD_FROM_ISR b' \<and> \<not> IN_ISR b'
      \<and> (let b1 = b\<lparr>IN_ISR := True, TRAP_INT_COUNT := TRAP_INT_COUNT b + 1, TRAP_LAST_MCAUSE := 0x80000000 OR code\<rparr>
         in ret = (if YIELD_FROM_ISR (if is_esp_hal_cpu_int code then hal code b1 else b1) then 1 else 0)))
    (trap_dispatch hal latch (0x80000000 OR code) b)"
proof -
  let ?mc = "0x80000000 OR code"
  let ?b1 = "b\<lparr>IN_ISR := True, TRAP_INT_COUNT := TRAP_INT_COUNT b + 1, TRAP_LAST_MCAUSE := ?mc\<rparr>"
  have i: "interrupt_code ?mc = (True, code)" by (rule interrupt_code_or [OF assms(1)])
  obtain b2 where b2: "dispatch_interrupt hal latch code ?b1 = Some (0, b2)"
    "bit (io_regs b2 MXINT_ENABLE) 20" "clock_runs (io_regs b2)"
    "YIELD_FROM_ISR b2 = YIELD_FROM_ISR (if is_esp_hal_cpu_int code then hal code ?b1 else ?b1)"
  proof (cases "is_esp_hal_cpu_int code")
    case True
    let ?b = "hal code ?b1"
    have "clock_runs (enable_systick_int (snd (ensure_systimer_clock (io_regs ?b))))"
      using ensure_systimer_clock_spec(1) [of "io_regs ?b"] by (simp add: clock_runs_def enable_systick_int_spec(2))
    then show thesis
      using True assms(2) enable_systick_int_spec(1)
      by (intro that [of "?b\<lparr>io_regs := enable_systick_int (snd (ensure_systimer_clock (io_regs ?b)))\<rparr>"])
        (simp_all add: dispatch_interrupt_def Let_def)
  next
    case False
    let ?io = "(io_regs b)(MXINT_CLEAR := push_bit (unat (code AND 31)) 1)"
    let ?io = "?io(MXINT_ENABLE := ?io MXINT_ENABLE AND NOT (push_bit (unat (code AND 31)) 1))"
    have "clock_runs (enable_systick_int (snd (ensure_systimer_clock ?io)))"
      using ensure_systimer_clock_spec(1) [of ?io] by (simp add: clock_runs_def enable_systick_int_spec(2))
    then show thesis
      using False assms(2) enable_systick_int_spec(1)
      by (intro that [of "?b1\<lparr>io_regs := enable_systick_int (snd (ensure_systimer_clock ?io))\<rparr>"])
        (simp_all add: dispatch_interrupt_def Let_def)
  qed
  then show ?thesis
    using i by (auto simp: trap_dispatch_def interrupt_code_def Let_def)
qed

theorem foreign_interrupt_keeps_systick_witness:
  "returns (\<lambda>(ret, b'). bit (io_regs b' MXINT_ENABLE) 20 \<and> clock_runs (io_regs b')
      \<and> \<not> YIELD_FROM_ISR b' \<and> \<not> IN_ISR b'
      \<and> (let b1 = demo_board\<lparr>IN_ISR := True, TRAP_INT_COUNT := TRAP_INT_COUNT demo_board + 1,
               TRAP_LAST_MCAUSE := 0x80000000 OR 5\<rparr>
         in ret = (if YIELD_FROM_ISR (if is_esp_hal_cpu_int 5 then yield_task_from_isr b1 else b1) then 1 else 0)))
    (trap_dispatch (\<lambda>c. yield_task_from_isr) demo_latch (0x80000000 OR 5) demo_board)"
  by (rule foreign_interrupt_keeps_systick [of 5 demo_board "\<lambda>c. yield_task_from_isr"]) simp_all

end
