(* ===== verification/Mos_Rtos.thy ===== *)
theory Mos_Rtos
  imports Mos_Task
begin

section \<open>The adapter for the wireless stack\<close>

text \<open>
  \<open>boards/esp32c6/src/rtos_adapter.rs\<close>: the scheduler interface of \<open>esp-wifi\<close> on top of the kernel. The
  wireless stack sees a task as a pointer to a boxed handle, larger than a control block because it
  writes to the handle's front. \<open>boxes\<close> is the heap of these boxes by address, \<open>fresh\<close> the address that
  \<open>Box::new\<close> returns; using a freed box is undefined behaviour, \<open>None\<close>. The printed messages are left out.
\<close>

definition FAT_HANDLE_SIZE :: nat where "FAT_HANDLE_SIZE = 512"

record fat_handle =
  opaque :: "u8 list"
  mos_tid :: nat
  fh_sema :: u32

text \<open>A \<open>*mut c_void\<close> of the interface: null, the static dummy handle, or a box. A thread semaphore is
  the field of a handle, or the static of a caller that is no task.\<close>

datatype handle = NullHandle | DummyHandle | Fat nat
datatype sema_ptr = DummySema | HandleSema nat

record rtos =
  rt_kern :: kernel
  RTOS_ADAPTER_READY :: bool
  FAT_HANDLES :: "nat option list"
  boxes :: "(nat \<times> fat_handle) list"


definition get_or_create_fat_handle :: "((nat \<times> fat_handle) list \<Rightarrow> nat) \<Rightarrow> nat \<Rightarrow> rtos \<Rightarrow> (nat \<times> rtos) option" where
  "get_or_create_fat_handle fresh tid st = do {
     h \<leftarrow> array_get (FAT_HANDLES st) tid;
     case h of
       Some a \<Rightarrow> Some (a, st)
     | None \<Rightarrow> do {
         let a = fresh (boxes st);
         let fh = \<lparr>opaque = replicate (FAT_HANDLE_SIZE - 8) 0, mos_tid = tid, fh_sema = 0\<rparr>;
         hs \<leftarrow> array_set (FAT_HANDLES st) tid (Some a);
         Some (a, st\<lparr>FAT_HANDLES := hs, boxes := (a, fh) # boxes st\<rparr>) } }"

definition rtos_enable :: "rtos \<Rightarrow> rtos" where
  "rtos_enable st = st\<lparr>RTOS_ADAPTER_READY := True\<rparr>"

definition rtos_disable :: "rtos \<Rightarrow> rtos" where
  "rtos_disable st = st\<lparr>RTOS_ADAPTER_READY := False\<rparr>"

definition rtos_yield_task :: "rtos \<Rightarrow> rtos option" where
  "rtos_yield_task st =
     (if CURRENT_TCB (rt_kern st) = None then Some st
      else do { k \<leftarrow> yield_task (rt_kern st); Some (st\<lparr>rt_kern := k\<rparr>) })"


definition rtos_task_create ::
    "((nat \<times> fat_handle) list \<Rightarrow> nat) \<Rightarrow> code_addrs \<Rightarrow> u32 \<Rightarrow> u32 \<Rightarrow> u32 \<Rightarrow> nat \<Rightarrow> rtos \<Rightarrow> (handle \<times> rtos) option" where
  "rtos_task_create fresh ca stack_addr task param task_stack_size st = do {
     let stack_size = max task_stack_size 4096;
     let (pr, name) = (if 8192 \<le> task_stack_size then (4, ''blob/tmr'') else (2, ''blob/ctrl''));
     (r, k) \<leftarrow> task_create_raw ca stack_addr task param pr name stack_size (rt_kern st);
     let st = st\<lparr>rt_kern := k\<rparr>;
     case r of
       Inr h \<Rightarrow> do {
         t \<leftarrow> tcb_at k h;
         (a, st) \<leftarrow> get_or_create_fat_handle fresh (tcb_tid t) st;
         Some (Fat a, st) }
     | Inl e \<Rightarrow> Some (NullHandle, st) }"


definition rtos_current_task_thread_semaphore :: "((nat \<times> fat_handle) list \<Rightarrow> nat) \<Rightarrow> rtos \<Rightarrow> (sema_ptr \<times> rtos) option" where
  "rtos_current_task_thread_semaphore fresh st =
     (if CURRENT_TCB (rt_kern st) = None then Some (DummySema, st)
      else do {
        tid \<leftarrow> current_tid (rt_kern st);
        (a, st) \<leftarrow> get_or_create_fat_handle fresh tid st;
        Some (HandleSema a, st) })"

subsection \<open>The table of handles\<close>


definition designates :: "rtos \<Rightarrow> nat \<Rightarrow> nat \<Rightarrow> bool" where
  "designates st a tid \<longleftrightarrow> (\<exists>fh. map_of (boxes st) a = Some fh \<and> mos_tid fh = tid)"

definition handles_ok :: "rtos \<Rightarrow> bool" where
  "handles_ok st \<longleftrightarrow> length (FAT_HANDLES st) = 16 \<and> (\<forall>t < 16. \<forall>a. FAT_HANDLES st ! t = Some a \<longrightarrow> designates st a t)"

lemma designates_unique: "designates st a t \<Longrightarrow> designates st a t' \<Longrightarrow> t = t'"
  by (auto simp: designates_def)





lemma rtos_create_cases:
  assumes "live_inv i (rt_kern st)"
  obtains (full) k where "rtos_task_create fresh ca addr task param sz st = Some (NullHandle, st\<lparr>rt_kern := k\<rparr>)"
      "live_inv i k" "{t. t < TASK_MAX \<and> status (TCBS (rt_kern st) t) = Terminated} = {}"
    | (made) k t where "rtos_task_create fresh ca addr task param sz st
        = get_or_create_fat_handle fresh t (st\<lparr>rt_kern := k\<rparr>) \<bind> (\<lambda>(a, st). Some (Fat a, st))"
      "live_inv i k" "t < 16" "status (TCBS (rt_kern st) t) = Terminated" "t \<in> set (READY_LIST k)"
      "priority (TCBS k t) = (if 8192 \<le> sz then 4 else 2)"
proof -
  let ?pr = "if 8192 \<le> sz then 4 else (2 :: u8)" and ?n = "if 8192 \<le> sz then ''blob/tmr'' else ''blob/ctrl''"
  let ?k = "rt_kern st"
  have i: "kernel_inv ?k" "stacks_ok ?k" "SCHED_READY ?k" "i \<in> set (READY_LIST ?k)" using assms by (simp_all add: live_inv_def)
  have sz: "CONTEXT_WORDS < max sz 4096 div 4" using div_le_mono [of 4096 "max sz 4096" 4] by simp
  obtain r k where k: "task_create_raw ca addr task param ?pr ?n (max sz 4096) ?k = Some (r, k)"
    and post: "kernel_inv k \<and> stacks_ok k \<and> SCHED_READY k = SCHED_READY ?k
           \<and> CURRENT_TCB k = CURRENT_TCB ?k \<and> length (HEAP_STACKS k) = length (HEAP_STACKS ?k) + 1
           \<and> set (READY_LIST ?k) \<subseteq> set (READY_LIST k) \<and> (case r of
             Inl e \<Rightarrow> {t. t < TASK_MAX \<and> status (TCBS ?k t) = Terminated} = {} \<and> TCBS k = TCBS ?k
           | Inr t \<Rightarrow> t < TASK_MAX \<and> status (TCBS ?k t) = Terminated \<and> t \<in> set (READY_LIST k)
               \<and> priority (TCBS k t) = ?pr \<and> heap_stack_base (TCBS k t) = addr)"
    by (rule returns_pairE [OF task_create_raw_spec [OF i(1,2) sz]]) blast
  have live: "live_inv i k" using post i(3,4) by (auto simp: live_inv_def)
  have run: "rtos_task_create fresh ca addr task param sz st = (let st = st\<lparr>rt_kern := k\<rparr> in case r of
       Inr h \<Rightarrow> do { t \<leftarrow> tcb_at k h; (a, st) \<leftarrow> get_or_create_fat_handle fresh (tcb_tid t) st; Some (Fat a, st) }
     | Inl e \<Rightarrow> Some (NullHandle, st))"
    using k by (simp add: rtos_task_create_def split: if_splits)
  show thesis
  proof (cases r)
    case (Inl e)
    then show thesis using full [of k] run live post by simp
  next
    case (Inr t)
    have t: "t < 16" "status (TCBS ?k t) = Terminated" "t \<in> set (READY_LIST k)" "priority (TCBS k t) = ?pr"
      using post Inr by simp_all
    have wf: "wf_kernel k" using live by (simp add: live_inv_def kernel_inv_def)
    have "tcb_tid (TCBS k t) = t" using wf_kernel_tid [OF wf] ready_not_terminated [OF wf t(3)] t(1) by simp
    then have "rtos_task_create fresh ca addr task param sz st
        = get_or_create_fat_handle fresh t (st\<lparr>rt_kern := k\<rparr>) \<bind> (\<lambda>(a, st). Some (Fat a, st))"
      using t(1) Inr by (simp add: run tcb_at_def)
    then show thesis using made [of t k] live t by simp
  qed
qed


text \<open>A task that ends otherwise leaves its handle: when the table has a handle for every dead
  identifier, a new task of the wireless stack gets an old handle, with the thread semaphore of the
  task that had the identifier before.\<close>

theorem handle_outlives_task:
  assumes "live_inv i (rt_kern st)" "handles_ok st"
    and "\<forall>t < 16. status (TCBS (rt_kern st) t) = Terminated \<longrightarrow> FAT_HANDLES st ! t \<noteq> None"
  shows "returns (\<lambda>(h, st'). h \<noteq> DummyHandle \<and> boxes st' = boxes st \<and> FAT_HANDLES st' = FAT_HANDLES st)
    (rtos_task_create fresh ca addr task param sz st)"
proof (rule rtos_create_cases [OF assms(1), of fresh ca addr task param sz], goal_cases)
  case (2 k t)
  then obtain a where "FAT_HANDLES st ! t = Some a" using assms(3) by auto
  then show ?case using 2(1,3) assms(2) by (simp add: get_or_create_fat_handle_def array_get_def handles_ok_def)
qed simp








end
