(* ===== verification/Mos_Lcd.thy ===== *)
theory Mos_Lcd
  imports Mos_Ring Mos_Text
begin

section \<open>The LCD terminal\<close>

text \<open>
  \<open>boards/esp32c6/src/lcd.rs\<close>: the ring of pending characters, the terminal state machine with its
  dirty rows, the rendering of rows into the frame buffer, the transfer to the panel and one round of
  the rendering task. The drawing primitives of \<open>embedded-graphics\<close>, the frame buffer's coordinates
  and the panel driver \<open>mipidsi\<close> are arguments.
\<close>

definition FONT_W :: nat where [simp]: "FONT_W = 6"
definition FONT_H :: nat where [simp]: "FONT_H = 12"
definition LCD_WIDTH :: nat where [simp]: "LCD_WIDTH = 320"
definition LCD_HEIGHT :: nat where [simp]: "LCD_HEIGHT = 172"
definition LCD_BUFFER_SIZE :: nat where [simp]: "LCD_BUFFER_SIZE = LCD_WIDTH * LCD_HEIGHT"
definition HARDWARE_Y_OFFSET :: nat where [simp]: "HARDWARE_Y_OFFSET = 34"
definition HARDWARE_X_OFFSET :: nat where [simp]: "HARDWARE_X_OFFSET = 0"
definition ROW_H :: nat where [simp]: "ROW_H = 14"
definition MARGIN_LEFT :: nat where [simp]: "MARGIN_LEFT = 10"
definition MARGIN_TOP :: nat where [simp]: "MARGIN_TOP = 10"
definition TERM_COLS :: nat where [simp]: "TERM_COLS = (LCD_WIDTH - MARGIN_LEFT) div FONT_W"
definition TERM_ROWS :: nat where [simp]: "TERM_ROWS = (LCD_HEIGHT - MARGIN_TOP) div ROW_H"
definition CHAR_BUF_SIZE :: nat where [simp]: "CHAR_BUF_SIZE = 2048"

subsection \<open>The character ring\<close>

record char_ring =
  cr_buf :: "u8 list"
  cr_head :: nat
  cr_tail :: nat
  cr_len :: nat

definition char_ring_new :: char_ring where
  "char_ring_new = \<lparr>cr_buf = replicate CHAR_BUF_SIZE 0, cr_head = 0, cr_tail = 0, cr_len = 0\<rparr>"

definition char_ring_push :: "u8 \<Rightarrow> char_ring \<Rightarrow> char_ring option" where
  "char_ring_push c r =
     (if cr_len r < CHAR_BUF_SIZE then do {
        b \<leftarrow> array_set (cr_buf r) (cr_tail r) c;
        Some (r\<lparr>cr_buf := b, cr_tail := (cr_tail r + 1) mod CHAR_BUF_SIZE, cr_len := cr_len r + 1\<rparr>) }
      else Some r)"

text \<open>\<open>drain\<close> into a slice of \<open>m\<close> bytes: the bytes written to its front.\<close>

fun char_ring_take :: "nat \<Rightarrow> char_ring \<Rightarrow> (u8 list \<times> char_ring) option" where
  "char_ring_take 0 r = Some ([], r)"
| "char_ring_take (Suc n) r = do {
     c \<leftarrow> array_get (cr_buf r) (cr_head r);
     (cs, r) \<leftarrow> char_ring_take n (r\<lparr>cr_head := (cr_head r + 1) mod CHAR_BUF_SIZE\<rparr>);
     Some (c # cs, r) }"

definition char_ring_drain :: "nat \<Rightarrow> char_ring \<Rightarrow> (u8 list \<times> char_ring) option" where
  "char_ring_drain m r = do {
     let n = min (cr_len r) m;
     (cs, r) \<leftarrow> char_ring_take n r;
     Some (cs, r\<lparr>cr_len := cr_len r - n\<rparr>) }"

definition lcd_putchar :: "u8 \<Rightarrow> char_ring \<Rightarrow> char_ring option" where
  "lcd_putchar c r = char_ring_push c r"

text \<open>\<open>&row[..len]\<close> panics behind the end.\<close>

definition slice_to :: "nat \<Rightarrow> 'a list \<Rightarrow> 'a list option" where
  "slice_to n xs = (if n \<le> length xs then Some (take n xs) else None)"

text \<open>\<open>LcdWriter::write_str\<close>, the printing side.\<close>

fun lcd_write :: "u8 list \<Rightarrow> char_ring \<Rightarrow> char_ring option" where
  "lcd_write [] r = Some r"
| "lcd_write (b # bs) r = do { r \<leftarrow> lcd_putchar b r; lcd_write bs r }"

subsection \<open>The terminal\<close>

record terminal =
  screen :: "u8 list list"
  lens :: "u8 list"
  cursor_row :: nat
  cursor_col :: nat
  dirty :: "bool list"

definition term_new :: terminal where
  "term_new = \<lparr>screen = replicate TERM_ROWS (replicate TERM_COLS 0x20), lens = replicate TERM_ROWS 0,
     cursor_row = 0, cursor_col = 0, dirty = replicate TERM_ROWS False\<rparr>"

fun scroll_rows :: "nat list \<Rightarrow> terminal \<Rightarrow> terminal option" where
  "scroll_rows [] t = Some t"
| "scroll_rows (i # is) t = do {
     row \<leftarrow> array_get (screen t) (i + 1);
     s \<leftarrow> array_set (screen t) i row;
     n \<leftarrow> array_get (lens t) (i + 1);
     l \<leftarrow> array_set (lens t) i n;
     scroll_rows is (t\<lparr>screen := s, lens := l\<rparr>) }"

definition term_scroll_up :: "terminal \<Rightarrow> terminal option" where
  "term_scroll_up t = do {
     t \<leftarrow> scroll_rows [0..<TERM_ROWS - 1] t;
     s \<leftarrow> array_set (screen t) (TERM_ROWS - 1) (replicate TERM_COLS 0x20);
     l \<leftarrow> array_set (lens t) (TERM_ROWS - 1) 0;
     Some (t\<lparr>screen := s, lens := l, dirty := replicate TERM_ROWS True\<rparr>) }"

definition mark_dirty :: "terminal \<Rightarrow> terminal option" where
  "mark_dirty t = do {
     d \<leftarrow> array_set (dirty t) (cursor_row t) True;
     Some (t\<lparr>dirty := d\<rparr>) }"

definition term_newline :: "terminal \<Rightarrow> terminal option" where
  "term_newline t = do {
     let t = t\<lparr>cursor_col := 0\<rparr>;
     t \<leftarrow> (if cursor_row t < TERM_ROWS - 1 then Some (t\<lparr>cursor_row := cursor_row t + 1\<rparr>) else term_scroll_up t);
     mark_dirty t }"

definition term_put_char :: "u8 \<Rightarrow> terminal \<Rightarrow> terminal option" where
  "term_put_char c t = do {
     t \<leftarrow> (if TERM_COLS \<le> cursor_col t then term_newline t else Some t);
     row \<leftarrow> array_get (screen t) (cursor_row t);
     row \<leftarrow> array_set row (cursor_col t) c;
     s \<leftarrow> array_set (screen t) (cursor_row t) row;
     let t = t\<lparr>screen := s, cursor_col := cursor_col t + 1\<rparr>;
     n \<leftarrow> array_get (lens t) (cursor_row t);
     t \<leftarrow> (if unat n < cursor_col t
           then do { l \<leftarrow> array_set (lens t) (cursor_row t) (of_nat (cursor_col t)); Some (t\<lparr>lens := l\<rparr>) }
           else Some t);
     mark_dirty t }"

definition term_backspace :: "terminal \<Rightarrow> terminal option" where
  "term_backspace t =
     (if 0 < cursor_col t then do {
        let t = t\<lparr>cursor_col := cursor_col t - 1\<rparr>;
        row \<leftarrow> array_get (screen t) (cursor_row t);
        row \<leftarrow> array_set row (cursor_col t) 0x20;
        s \<leftarrow> array_set (screen t) (cursor_row t) row;
        let t = t\<lparr>screen := s\<rparr>;
        n \<leftarrow> array_get (lens t) (cursor_row t);
        t \<leftarrow> (if cursor_col t < unat n
              then do { l \<leftarrow> array_set (lens t) (cursor_row t) (of_nat (cursor_col t)); Some (t\<lparr>lens := l\<rparr>) }
              else Some t);
        mark_dirty t }
      else Some t)"

definition term_feed :: "u8 \<Rightarrow> terminal \<Rightarrow> terminal option" where
  "term_feed c t =
     (if c = 0x0A then term_newline t
      else if c = 0x0D then Some (t\<lparr>cursor_col := 0\<rparr>)
      else if c = 0x08 \<or> c = 0x7F then term_backspace t
      else if 0x20 \<le> c then term_put_char c t
      else Some t)"

fun term_feed_all :: "u8 list \<Rightarrow> terminal \<Rightarrow> terminal option" where
  "term_feed_all [] t = Some t"
| "term_feed_all (c # cs) t = do { t \<leftarrow> term_feed c t; term_feed_all cs t }"

definition dirty_count :: "terminal \<Rightarrow> nat" where
  "dirty_count t = length (filter (\<lambda>d. d) (dirty t))"

definition clear_dirty :: "terminal \<Rightarrow> terminal" where
  "clear_dirty t = t\<lparr>dirty := replicate TERM_ROWS False\<rparr>"

subsection \<open>The ring is a bounded queue\<close>

definition char_ring_inv :: "char_ring \<Rightarrow> bool" where
  "char_ring_inv r \<longleftrightarrow> length (cr_buf r) = CHAR_BUF_SIZE \<and> cr_head r < CHAR_BUF_SIZE \<and> cr_len r \<le> CHAR_BUF_SIZE
     \<and> cr_tail r = (cr_head r + cr_len r) mod CHAR_BUF_SIZE"

definition pending :: "char_ring \<Rightarrow> u8 list" where
  "pending r = ring_contents (cr_buf r) (cr_head r) (cr_len r)"

lemma char_ring_new_inv [simp]: "char_ring_inv char_ring_new" "pending char_ring_new = []"
  by (simp_all add: char_ring_inv_def char_ring_new_def pending_def)

lemma char_ring_push_spec:
  assumes "char_ring_inv r"
  shows "returns (\<lambda>r'. char_ring_inv r'
      \<and> pending r' = (if length (pending r) < CHAR_BUF_SIZE then pending r @ [c] else pending r)) (char_ring_push c r)"
  using assms ring_contents_push [of "cr_len r" "cr_buf r" "cr_head r" c] ring_tail_push [of "cr_head r" "cr_len r" CHAR_BUF_SIZE]
  by (auto simp: char_ring_push_def array_set_def char_ring_inv_def pending_def)

lemma ring_contents_take: "n \<le> m \<Longrightarrow> take n (ring_contents b h m) = ring_contents b h n"
  by (simp add: ring_contents_def take_map)

lemma char_ring_take_spec:
  assumes "length (cr_buf r) = CHAR_BUF_SIZE" "cr_head r < CHAR_BUF_SIZE"
  shows "char_ring_take n r = Some (ring_contents (cr_buf r) (cr_head r) n, r\<lparr>cr_head := (cr_head r + n) mod CHAR_BUF_SIZE\<rparr>)"
  using assms
proof (induction n arbitrary: r)
  case (Suc n)
  have h: "(cr_head r + 1) mod 2048 < 2048" by simp
  have "char_ring_take (Suc n) r = Some (cr_buf r ! cr_head r # ring_contents (cr_buf r) ((cr_head r + 1) mod 2048) n,
      r\<lparr>cr_head := ((cr_head r + 1) mod 2048 + n) mod 2048\<rparr>)"
    using Suc.IH [of "r\<lparr>cr_head := (cr_head r + 1) mod 2048\<rparr>"] Suc.prems h by (simp add: array_get_def)
  moreover have "ring_contents (cr_buf r) (cr_head r) (Suc n)
      = cr_buf r ! cr_head r # ring_contents (cr_buf r) ((cr_head r + 1) mod 2048) n"
    using ring_contents_pop [of "Suc n" "cr_head r" "cr_buf r"] Suc.prems by simp
  moreover have "((cr_head r + 1) mod 2048 + n) mod 2048 = (cr_head r + Suc n) mod 2048"
    by (simp add: mod_simps)
  ultimately show ?case by simp
qed simp

lemma ring_contents_drop:
  assumes "n \<le> m" "h < length b"
  shows "drop n (ring_contents b h m) = ring_contents b ((h + n) mod length b) (m - n)"
  by (rule nth_equalityI) (use assms in \<open>auto simp: ring_contents_nth mod_simps add.assoc\<close>)

lemma char_ring_drain_spec:
  assumes "char_ring_inv r"
  shows "returns (\<lambda>(cs, r'). cs = take m (pending r) \<and> char_ring_inv r' \<and> pending r' = drop m (pending r)) (char_ring_drain m r)"
proof -
  let ?n = "min (cr_len r) m"
  have p: "take m (pending r) = ring_contents (cr_buf r) (cr_head r) ?n"
    using ring_contents_take [of ?n "cr_len r" "cr_buf r" "cr_head r"] by (cases "m \<le> cr_len r") (auto simp: pending_def min_def)
  have d: "drop m (pending r) = ring_contents (cr_buf r) ((cr_head r + ?n) mod length (cr_buf r)) (cr_len r - ?n)"
    using ring_contents_drop [of ?n "cr_len r" "cr_head r" "cr_buf r"] assms
    by (cases "m \<le> cr_len r") (auto simp: pending_def min_def char_ring_inv_def)
  have "((cr_head r + ?n) mod 2048 + (cr_len r - ?n)) mod 2048 = (cr_head r + ?n + (cr_len r - ?n)) mod 2048"
    by (rule mod_add_left_eq)
  also have "cr_head r + ?n + (cr_len r - ?n) = cr_head r + cr_len r" by simp
  finally have "((cr_head r + ?n) mod 2048 + (cr_len r - ?n)) mod 2048 = (cr_head r + cr_len r) mod 2048" .
  moreover have "cr_len r - ?n \<le> 2048" using assms by (auto simp: char_ring_inv_def)
  ultimately show ?thesis
    using assms p d char_ring_take_spec [of r ?n]
    by (simp add: char_ring_drain_def char_ring_inv_def pending_def Let_def)
qed

text \<open>A drain into a slice of one byte is a pop.\<close>

definition char_ring_pop :: "char_ring \<Rightarrow> (u8 option \<times> char_ring) option" where
  "char_ring_pop r = do { (cs, r) \<leftarrow> char_ring_drain 1 r; Some (case cs of [] \<Rightarrow> None | c # _ \<Rightarrow> Some c, r) }"

interpretation chars: bounded_fifo "\<lambda>_. CHAR_BUF_SIZE" pending char_ring_inv char_ring_push char_ring_pop
proof
  fix r :: char_ring and x :: u8 and xs
  assume i: "char_ring_inv r"
  show "length (pending r) \<le> CHAR_BUF_SIZE" using i by (simp add: char_ring_inv_def pending_def)
  show "returns (\<lambda>q'. char_ring_inv q' \<and> CHAR_BUF_SIZE = CHAR_BUF_SIZE
      \<and> pending q' = (if length (pending r) < CHAR_BUF_SIZE then pending r @ [x] else pending r)) (char_ring_push x r)"
    using char_ring_push_spec [OF i] by simp
  show "pending r = [] \<Longrightarrow> char_ring_pop r = Some (None, r)"
    by (simp add: pending_def ring_contents_def char_ring_pop_def char_ring_drain_def)
  show "pending r = x # xs \<Longrightarrow> returns (\<lambda>(y, q'). y = Some x \<and> char_ring_inv q' \<and> CHAR_BUF_SIZE = CHAR_BUF_SIZE
      \<and> pending q' = xs) (char_ring_pop r)"
    using char_ring_drain_spec [OF i, of 1] by (auto simp: char_ring_pop_def elim!: returns_mono)
qed

lemma lcd_write_spec:
  "char_ring_inv r \<Longrightarrow> returns (\<lambda>r'. char_ring_inv r' \<and> pending r' = take 2048 (pending r @ cs)) (lcd_write cs r)"
proof (induction cs arbitrary: r)
  case Nil
  then show ?case by (simp add: char_ring_inv_def pending_def)
next
  case (Cons c cs)
  obtain u where u: "lcd_putchar c r = Some u" "char_ring_inv u"
    "pending u = (if length (pending r) < 2048 then pending r @ [c] else pending r)"
    using char_ring_push_spec [OF Cons.prems, of c] by (auto simp: lcd_putchar_def returns_iff)
  have "length (pending r) \<le> 2048" using Cons.prems by (simp add: char_ring_inv_def pending_def)
  then have "take 2048 (pending u @ cs) = take 2048 (pending r @ c # cs)" using u(3) by (auto simp: take_Cons')
  with Cons.IH [OF u(2)] show ?case using u(1) by simp
qed

subsection \<open>The terminal's invariant\<close>

definition term_inv :: "terminal \<Rightarrow> bool" where
  "term_inv t \<longleftrightarrow> length (screen t) = 11 \<and> (\<forall>row \<in> set (screen t). length row = 51)
     \<and> length (lens t) = 11 \<and> (\<forall>n \<in> set (lens t). unat n \<le> 51)
     \<and> cursor_row t < 11 \<and> cursor_col t \<le> 51 \<and> length (dirty t) = 11"

text \<open>What a row shows.\<close>

definition row_text :: "terminal \<Rightarrow> nat \<Rightarrow> u8 list" where
  "row_text t r = take (unat (lens t ! r)) (screen t ! r)"

text \<open>A row's text changes only if the row becomes dirty, and no row becomes clean.\<close>

definition tracks :: "terminal \<Rightarrow> terminal \<Rightarrow> bool" where
  "tracks t t' \<longleftrightarrow> (\<forall>r < 11. (dirty t ! r \<longrightarrow> dirty t' ! r) \<and> (\<not> dirty t' ! r \<longrightarrow> row_text t' r = row_text t r))"

lemma tracks_refl [simp]: "tracks t t"
  by (simp add: tracks_def)

lemma tracks_trans: "tracks t u \<Longrightarrow> tracks u v \<Longrightarrow> tracks t v"
  by (auto simp: tracks_def)

lemma term_invD:
  assumes "term_inv t"
  shows "length (screen t) = 11" "length (lens t) = 11" "length (dirty t) = 11" "cursor_row t < 11" "cursor_col t \<le> 51"
    "r < 11 \<Longrightarrow> length (screen t ! r) = 51" "r < 11 \<Longrightarrow> unat (lens t ! r) \<le> 51"
  using assms by (auto simp: term_inv_def)

lemma row_text_length: "term_inv t \<Longrightarrow> r < 11 \<Longrightarrow> length (row_text t r) = unat (lens t ! r)"
  by (simp add: row_text_def term_invD)

lemma upt_10: "[0..<10] = [0, 1, 2, 3, 4, 5, 6, 7, 8, 9 :: nat]"
  by (simp add: upt_conv_Cons)

lemma scroll_up_closed:
  assumes "length (screen t) = 11" "length (lens t) = 11"
  shows "term_scroll_up t = Some (t\<lparr>screen := tl (screen t) @ [replicate 51 0x20], lens := tl (lens t) @ [0],
     dirty := replicate 11 True\<rparr>)"
proof -
  obtain a0 a1 a2 a3 a4 a5 a6 a7 a8 a9 a10 where s: "screen t = [a0, a1, a2, a3, a4, a5, a6, a7, a8, a9, a10]"
    using assms(1) by (auto simp: numeral_eq_Suc length_Suc_conv)
  obtain b0 b1 b2 b3 b4 b5 b6 b7 b8 b9 b10 where l: "lens t = [b0, b1, b2, b3, b4, b5, b6, b7, b8, b9, b10]"
    using assms(2) by (auto simp: numeral_eq_Suc length_Suc_conv)
  show ?thesis
    by (simp add: term_scroll_up_def upt_10 s l array_get_def array_set_def)
qed

lemma set_true_nth: "xs ! r \<Longrightarrow> xs[i := True] ! r"
  by (cases "i < length xs") (auto simp: nth_list_update list_update_beyond)

lemma newline_spec:
  assumes "term_inv t"
  shows "returns (\<lambda>t'. term_inv t' \<and> tracks t t' \<and> cursor_col t' = 0
      \<and> (if cursor_row t < 10 then cursor_row t' = cursor_row t + 1 \<and> (\<forall>r < 11. row_text t' r = row_text t r)
         else cursor_row t' = 10 \<and> (\<forall>r < 10. row_text t' r = row_text t (r + 1)) \<and> row_text t' 10 = []))
    (term_newline t)"
proof (cases "cursor_row t < 10")
  case True
  let ?t = "t\<lparr>cursor_col := 0, cursor_row := cursor_row t + 1, dirty := (dirty t)[cursor_row t + 1 := True]\<rparr>"
  have "term_newline t = Some ?t"
    using True assms by (simp add: term_newline_def mark_dirty_def array_set_def term_invD)
  moreover have "term_inv ?t" using True assms by (simp add: term_inv_def)
  moreover have "row_text ?t r = row_text t r" for r by (simp add: row_text_def)
  moreover have "dirty t ! r \<Longrightarrow> dirty ?t ! r" for r by (simp add: set_true_nth)
  ultimately show ?thesis using True by (simp add: tracks_def)
next
  case False
  then have row: "cursor_row t = 10" using term_invD(4) [OF assms] by simp
  let ?t = "t\<lparr>cursor_col := 0, screen := tl (screen t) @ [replicate 51 0x20], lens := tl (lens t) @ [0],
      dirty := replicate 11 True\<rparr>"
  have l: "length (screen t) = 11" "length (lens t) = 11" using assms by (simp_all add: term_invD)
  have "term_newline t = Some ?t"
    using row scroll_up_closed [of "t\<lparr>cursor_col := 0\<rparr>"] l
    by (simp add: term_newline_def mark_dirty_def array_set_def list_update_same_conv)
  moreover have "term_inv ?t"
    using assms row l by (auto simp: term_inv_def dest!: list.set_sel(2) [rotated])
  moreover have "row_text ?t r = row_text t (r + 1)" if "r < 10" for r
    using that l by (simp add: row_text_def nth_append nth_tl)
  moreover have "row_text ?t 10 = []" using l by (simp add: row_text_def nth_append)
  ultimately show ?thesis using False row by (simp add: tracks_def)
qed

lemma row_change:
  assumes "term_inv t" "length row = 51" "unat n \<le> 51"
  defines "u \<equiv> t\<lparr>screen := (screen t)[cursor_row t := row], lens := (lens t)[cursor_row t := n],
      dirty := (dirty t)[cursor_row t := True]\<rparr>"
  shows "term_inv (u\<lparr>cursor_col := c\<rparr>) \<longleftrightarrow> c \<le> 51" "tracks t (u\<lparr>cursor_col := c\<rparr>)"
    "row_text (u\<lparr>cursor_col := c\<rparr>) (cursor_row t) = take (unat n) row"
    "r \<noteq> cursor_row t \<Longrightarrow> row_text (u\<lparr>cursor_col := c\<rparr>) r = row_text t r"
proof -
  note t = term_invD(1-5) [OF assms(1)]
  have "\<forall>x \<in> set ((screen t)[cursor_row t := row]). length x = 51" "\<forall>x \<in> set ((lens t)[cursor_row t := n]). unat x \<le> 51"
    using assms(1-3) by (auto simp: term_inv_def dest!: set_update_subset_insert [THEN subsetD])
  then show "term_inv (u\<lparr>cursor_col := c\<rparr>) \<longleftrightarrow> c \<le> 51" using t by (simp add: term_inv_def u_def)
  show other: "row_text (u\<lparr>cursor_col := c\<rparr>) r = row_text t r" if "r \<noteq> cursor_row t" for r
    using that by (simp add: row_text_def u_def)
  show "row_text (u\<lparr>cursor_col := c\<rparr>) (cursor_row t) = take (unat n) row"
    using t by (simp add: row_text_def u_def)
  show "tracks t (u\<lparr>cursor_col := c\<rparr>)"
    unfolding tracks_def
  proof (intro allI impI conjI)
    fix r :: nat assume "r < 11"
    then show "dirty t ! r \<Longrightarrow> dirty (u\<lparr>cursor_col := c\<rparr>) ! r" using t by (simp add: u_def nth_list_update)
    show "\<not> dirty (u\<lparr>cursor_col := c\<rparr>) ! r \<Longrightarrow> row_text (u\<lparr>cursor_col := c\<rparr>) r = row_text t r"
      using other [of r] t by (cases "r = cursor_row t") (simp_all add: u_def)
  qed
qed

lemma put_char_spec:
  assumes "term_inv t" "cursor_col t < 51"
  shows "returns (\<lambda>t'. term_inv t' \<and> tracks t t' \<and> cursor_row t' = cursor_row t \<and> cursor_col t' = cursor_col t + 1
      \<and> (\<forall>r < 11. r \<noteq> cursor_row t \<longrightarrow> row_text t' r = row_text t r)
      \<and> (cursor_col t = length (row_text t (cursor_row t)) \<longrightarrow>
           row_text t' (cursor_row t) = row_text t (cursor_row t) @ [c]))
    (term_put_char c t)"
proof -
  note t = term_invD [OF assms(1)]
  let ?r = "cursor_row t" and ?c = "cursor_col t"
  let ?row = "(screen t ! ?r)[?c := c]" and ?n = "lens t ! ?r"
  define n where "n = (if unat ?n < ?c + 1 then of_nat (?c + 1) else ?n)"
  have uc: "unat (of_nat (?c + 1) :: u8) = ?c + 1"
    using assms(2) by (simp add: unat_of_nat take_bit_nat_eq_self del: of_nat_Suc of_nat_add)
  have row: "length ?row = 51" using t(4,6) by simp
  have n51: "unat n \<le> 51" using t(4,7) assms(2) uc by (simp add: n_def del: of_nat_Suc of_nat_add)
  note ch = row_change [OF assms(1) row n51, where c = "?c + 1"]
  let ?t = "t\<lparr>screen := (screen t)[?r := ?row], lens := (lens t)[?r := n], dirty := (dirty t)[?r := True]\<rparr>\<lparr>cursor_col := ?c + 1\<rparr>"
  have run: "term_put_char c t = Some ?t"
    using t(1-4,6) assms(2)
    by (auto simp: term_put_char_def mark_dirty_def array_get_def array_set_def n_def list_update_same_conv)
  have "take (unat n) ?row = row_text t ?r @ [c]" if "?c = length (row_text t ?r)"
  proof -
    have "unat ?n = ?c" using that row_text_length [OF assms(1) t(4)] by simp
    then have "unat n = Suc ?c" using uc by (simp add: n_def del: of_nat_Suc of_nat_add)
    then show ?thesis using t(4,6) assms(2) \<open>unat ?n = ?c\<close> by (simp add: take_Suc_conv_app_nth row_text_def)
  qed
  then have "?c = length (row_text t ?r) \<Longrightarrow> row_text ?t ?r = row_text t ?r @ [c]"
    unfolding ch(3) .
  moreover have "term_inv ?t" using ch(1) assms(2) by simp
  ultimately show ?thesis unfolding run returns_Some using ch(2,4) by (intro conjI allI impI) simp_all
qed

lemma backspace_spec:
  assumes "term_inv t" "0 < cursor_col t"
  shows "returns (\<lambda>t'. term_inv t' \<and> tracks t t' \<and> cursor_row t' = cursor_row t \<and> cursor_col t' = cursor_col t - 1
      \<and> (\<forall>r < 11. r \<noteq> cursor_row t \<longrightarrow> row_text t' r = row_text t r)
      \<and> row_text t' (cursor_row t) = take (cursor_col t - 1) (row_text t (cursor_row t)))
    (term_backspace t)"
proof -
  note t = term_invD [OF assms(1)]
  let ?r = "cursor_row t" and ?c = "cursor_col t - 1"
  let ?row = "(screen t ! ?r)[?c := 0x20]" and ?n = "lens t ! ?r"
  define n where "n = (if ?c < unat ?n then of_nat ?c else ?n)"
  have uc: "unat (of_nat ?c :: u8) = ?c" using t(5) by (simp add: unat_of_nat)
  have row: "length ?row = 51" using t(4,6) by simp
  have un: "unat n = min ?c (unat ?n)" using uc by (simp add: n_def)
  have n51: "unat n \<le> 51" unfolding un using t(5) by simp
  note ch = row_change [OF assms(1) row n51, where c = "?c"]
  let ?t = "t\<lparr>screen := (screen t)[?r := ?row], lens := (lens t)[?r := n], dirty := (dirty t)[?r := True]\<rparr>\<lparr>cursor_col := ?c\<rparr>"
  have run: "term_backspace t = Some ?t"
    using t(1-6) assms(2)
    by (auto simp: term_backspace_def mark_dirty_def array_get_def array_set_def n_def list_update_same_conv Let_def)
  have "take (unat n) ?row = take ?c (row_text t ?r)"
    unfolding un by (simp add: row_text_def take_update_cancel min.commute)
  then have "row_text ?t ?r = take ?c (row_text t ?r)" unfolding ch(3) .
  moreover have "term_inv ?t" using ch(1) t(5) by simp
  ultimately show ?thesis unfolding run returns_Some using ch(2,4) by (intro conjI allI impI) simp_all
qed

lemma term_new_inv [simp]: "term_inv term_new"
  by (simp add: term_inv_def term_new_def)

lemma feed_step:
  assumes "term_inv t"
  shows "returns (\<lambda>t'. term_inv t' \<and> tracks t t') (term_feed c t)"
proof -
  have nl: "returns (\<lambda>t'. term_inv t' \<and> tracks t t') (term_newline t)"
    using newline_spec [OF assms] by (rule returns_mono) simp
  have bs: "returns (\<lambda>t'. term_inv t' \<and> tracks t t') (term_backspace t)"
  proof (cases "0 < cursor_col t")
    case True
    from backspace_spec [OF assms this] show ?thesis by (rule returns_mono) simp
  qed (simp add: term_backspace_def assms)
  have put: "returns (\<lambda>t'. term_inv t' \<and> tracks t t') (term_put_char c t)"
  proof (cases "cursor_col t < 51")
    case True
    from put_char_spec [OF assms this] show ?thesis by (rule returns_mono) simp
  next
    case False
    obtain u where u: "term_newline t = Some u" "term_inv u" "tracks t u" "cursor_col u = 0"
      using newline_spec [OF assms] by (auto simp: returns_iff)
    have "term_put_char c t = term_put_char c u"
      using False u(1,4) by (simp add: term_put_char_def)
    with put_char_spec [of u c] u show ?thesis by (auto elim!: returns_mono intro: tracks_trans)
  qed
  have cr: "term_inv (t\<lparr>cursor_col := 0\<rparr>) \<and> tracks t (t\<lparr>cursor_col := 0\<rparr>)"
    using assms by (simp add: term_inv_def tracks_def row_text_def)
  show ?thesis unfolding term_feed_def using nl bs put cr assms by simp
qed

lemma feed_all_step:
  "term_inv t \<Longrightarrow> returns (\<lambda>t'. term_inv t' \<and> tracks t t') (term_feed_all cs t)"
proof (induction cs arbitrary: t)
  case (Cons c cs)
  obtain u where u: "term_feed c t = Some u" "term_inv u" "tracks t u"
    using feed_step [OF Cons.prems, of c] by (auto simp: returns_iff)
  from Cons.IH [OF u(2)] show ?case using u by (auto elim!: returns_mono intro: tracks_trans)
qed simp

subsection \<open>The terminal as a window on a history\<close>

text \<open>The lines written so far, the last one being written, and what the bytes do to them.\<close>

definition hput :: "u8 \<Rightarrow> u8 list list \<Rightarrow> u8 list list" where
  "hput c h = (if length (last h) < 51 then h[length h - 1 := last h @ [c]] else h @ [[c]])"

definition hback :: "u8 list list \<Rightarrow> u8 list list" where
  "hback h = h[length h - 1 := butlast (last h)]"

definition hfeed :: "u8 \<Rightarrow> u8 list list \<Rightarrow> u8 list list" where
  "hfeed c h = (if c = 0x0A then h @ [[]] else if c = 0x08 \<or> c = 0x7F then hback h
     else if 0x20 \<le> c then hput c h else h)"

text \<open>The terminal shows the last 11 lines, the cursor behind the last one.\<close>

definition window_on :: "u8 list list \<Rightarrow> terminal \<Rightarrow> bool" where
  "window_on h t \<longleftrightarrow> term_inv t \<and> h \<noteq> [] \<and> cursor_row t = length h - 1 - (length h - 11)
     \<and> cursor_col t = length (last h)
     \<and> (\<forall>r < 11. row_text t r = (if length h - 11 + r < length h then h ! (length h - 11 + r) else []))"

lemma window_on_last:
  assumes "window_on h t"
  shows "row_text t (cursor_row t) = last h" "length (last h) \<le> 51"
proof -
  have "cursor_row t < 11" "length h - 11 + cursor_row t = length h - 1" "length h \<noteq> 0"
    using assms by (auto simp: window_on_def)
  then show "row_text t (cursor_row t) = last h"
    using assms by (auto simp: window_on_def last_conv_nth)
  show "length (last h) \<le> 51" using assms by (auto simp: window_on_def term_inv_def)
qed

lemma window_newline:
  assumes "window_on h t"
  shows "returns (window_on (h @ [[]])) (term_newline t)"
proof -
  have inv: "term_inv t" and h: "h \<noteq> []" and row: "cursor_row t = length h - 1 - (length h - 11)"
    and rows: "\<And>r. r < 11 \<Longrightarrow> row_text t r = (if length h - 11 + r < length h then h ! (length h - 11 + r) else [])"
    using assms by (auto simp: window_on_def)
  from newline_spec [OF inv] show ?thesis
  proof (rule returns_mono)
    fix t' assume t': "term_inv t' \<and> tracks t t' \<and> cursor_col t' = 0
      \<and> (if cursor_row t < 10 then cursor_row t' = cursor_row t + 1 \<and> (\<forall>r < 11. row_text t' r = row_text t r)
         else cursor_row t' = 10 \<and> (\<forall>r < 10. row_text t' r = row_text t (r + 1)) \<and> row_text t' 10 = [])"
    show "window_on (h @ [[]]) t'"
    proof (cases "length h < 11")
      case True
      then have "cursor_row t < 10" "length h \<noteq> 0" using row h by auto
      then show ?thesis using t' True row rows by (auto simp: window_on_def nth_append)
    next
      case False
      then have r: "cursor_row t = 10" using row by simp
      have rows': "row_text t' i = (h @ [[]]) ! (length h - 10 + i)" if i: "i < 11" for i
      proof (cases "i = 10")
        case True
        then show ?thesis using t' r False by (simp add: nth_append)
      next
        case ne: False
        then have "row_text t' i = row_text t (i + 1)" using t' r i by simp
        also have lt: "length h - 11 + (i + 1) < length h" using i ne False by linarith
        have "row_text t (i + 1) = h ! (length h - 11 + (i + 1))"
          by (rule trans [OF rows if_P [OF lt]]) (use i ne in simp)
        also have "length h - 11 + (i + 1) = length h - 10 + i" using False by simp
        finally have "row_text t' i = h ! (length h - 10 + i)" .
        moreover have "length h - 10 + i < length h" using i ne False by linarith
        ultimately show ?thesis by (simp add: nth_append)
      qed
      have "row_text t' i = (if length (h @ [[]]) - 11 + i < length (h @ [[]]) then (h @ [[]]) ! (length (h @ [[]]) - 11 + i) else [])"
        if i: "i < 11" for i
      proof -
        have b: "length (h @ [[]]) - 11 = length h - 10" "length h - 10 + i < length (h @ [[]])" using False i by auto
        show ?thesis unfolding b(1) if_P [OF b(2)] by (rule rows' [OF i])
      qed
      moreover have "cursor_row t' = length (h @ [[]]) - 1 - (length (h @ [[]]) - 11)" using t' r False by simp
      ultimately show ?thesis using t' unfolding window_on_def by simp
    qed
  qed
qed

lemma window_change:
  assumes "window_on h t" "term_inv t'" "cursor_row t' = cursor_row t" "cursor_col t' = length l"
    and "\<forall>r < 11. r \<noteq> cursor_row t \<longrightarrow> row_text t' r = row_text t r" "row_text t' (cursor_row t) = l"
  shows "window_on (h[length h - 1 := l]) t'"
proof -
  have h: "h \<noteq> []" "cursor_row t < 11" "length h - 11 + cursor_row t = length h - 1"
    using assms(1) by (auto simp: window_on_def)
  have "row_text t' r = h[length h - 1 := l] ! (length h - 11 + r)" if "r < 11" "length h - 11 + r < length h" for r
    using assms(1,5,6) h that by (cases "r = cursor_row t") (auto simp: window_on_def nth_list_update)
  moreover have "row_text t' r = []" if "r < 11" "\<not> length h - 11 + r < length h" for r
    using assms(1,5) h that by (cases "r = cursor_row t") (auto simp: window_on_def)
  ultimately show ?thesis
    using assms(1-4) h by (auto simp: window_on_def last_list_update)
qed

lemma window_put:
  assumes "window_on h t"
  shows "returns (window_on (hput c h)) (term_put_char c t)"
proof (cases "cursor_col t < 51")
  case True
  have inv: "term_inv t" and col: "cursor_col t = length (last h)"
    using assms by (simp_all add: window_on_def)
  from put_char_spec [OF inv True] show ?thesis
  proof (rule returns_mono)
    fix t' assume "term_inv t' \<and> tracks t t' \<and> cursor_row t' = cursor_row t \<and> cursor_col t' = cursor_col t + 1
      \<and> (\<forall>r < 11. r \<noteq> cursor_row t \<longrightarrow> row_text t' r = row_text t r)
      \<and> (cursor_col t = length (row_text t (cursor_row t)) \<longrightarrow> row_text t' (cursor_row t) = row_text t (cursor_row t) @ [c])"
    then have "window_on (h[length h - 1 := last h @ [c]]) t'"
      using window_on_last [OF assms] col by (intro window_change [OF assms]) auto
    then show "window_on (hput c h) t'" using True col by (simp add: hput_def)
  qed
next
  case False
  then have full: "\<not> length (last h) < 51" using assms by (simp add: window_on_def)
  obtain u where u: "term_newline t = Some u" "window_on (h @ [[]]) u"
    using window_newline [OF assms] by (auto simp: returns_iff)
  then have c0: "cursor_col u = 0" "term_inv u" by (simp_all add: window_on_def)
  have eq: "term_put_char c t = term_put_char c u" using False u(1) c0 by (simp add: term_put_char_def)
  from put_char_spec [OF c0(2)] c0(1) have "returns (\<lambda>t'. term_inv t' \<and> tracks u t' \<and> cursor_row t' = cursor_row u \<and> cursor_col t' = cursor_col u + 1
      \<and> (\<forall>r < 11. r \<noteq> cursor_row u \<longrightarrow> row_text t' r = row_text u r)
      \<and> (cursor_col u = length (row_text u (cursor_row u)) \<longrightarrow> row_text t' (cursor_row u) = row_text u (cursor_row u) @ [c]))
      (term_put_char c u)" by simp
  then show ?thesis unfolding eq
  proof (rule returns_mono)
    fix t' assume "term_inv t' \<and> tracks u t' \<and> cursor_row t' = cursor_row u \<and> cursor_col t' = cursor_col u + 1
      \<and> (\<forall>r < 11. r \<noteq> cursor_row u \<longrightarrow> row_text t' r = row_text u r)
      \<and> (cursor_col u = length (row_text u (cursor_row u)) \<longrightarrow> row_text t' (cursor_row u) = row_text u (cursor_row u) @ [c])"
    then have "window_on ((h @ [[]])[length (h @ [[]]) - 1 := [c]]) t'"
      using window_on_last [OF u(2)] c0(1) by (intro window_change [OF u(2)]) auto
    then show "window_on (hput c h) t'" using full by (simp add: hput_def)
  qed
qed

lemma window_back:
  assumes "window_on h t"
  shows "returns (window_on (hback h)) (term_backspace t)"
proof (cases "0 < cursor_col t")
  case True
  have inv: "term_inv t" and col: "cursor_col t = length (last h)"
    using assms by (simp_all add: window_on_def)
  from backspace_spec [OF inv True] show ?thesis
  proof (rule returns_mono)
    fix t' assume "term_inv t' \<and> tracks t t' \<and> cursor_row t' = cursor_row t \<and> cursor_col t' = cursor_col t - 1
      \<and> (\<forall>r < 11. r \<noteq> cursor_row t \<longrightarrow> row_text t' r = row_text t r)
      \<and> row_text t' (cursor_row t) = take (cursor_col t - 1) (row_text t (cursor_row t))"
    then have "window_on (h[length h - 1 := butlast (last h)]) t'"
      using window_on_last [OF assms] col by (intro window_change [OF assms]) (auto simp: butlast_conv_take)
    then show "window_on (hback h) t'" by (simp add: hback_def)
  qed
next
  case False
  then have "last h = []" "h \<noteq> []" using assms by (auto simp: window_on_def)
  then have "hback h = h" by (simp add: hback_def list_update_same_conv last_conv_nth)
  then show ?thesis using False assms by (simp add: term_backspace_def)
qed

lemma window_feed:
  assumes "window_on h t" "c \<noteq> 0x0D"
  shows "returns (window_on (hfeed c h)) (term_feed c t)"
  using window_newline [OF assms(1)] window_back [OF assms(1)] window_put [OF assms(1), of c] assms
  by (simp add: term_feed_def hfeed_def)

lemma window_new: "window_on [[]] term_new"
  by (simp add: window_on_def) (simp add: row_text_def term_new_def)

lemma window_feed_all:
  "window_on h t \<Longrightarrow> 0x0D \<notin> set cs \<Longrightarrow> returns (window_on (fold hfeed cs h)) (term_feed_all cs t)"
proof (induction cs arbitrary: h t)
  case (Cons c cs)
  then obtain u where "term_feed c t = Some u" "window_on (hfeed c h) u"
    using window_feed [of h t c] by (auto simp: returns_iff)
  with Cons.IH [of "hfeed c h" u] Cons.prems show ?case by simp
qed simp

text \<open>C15. The terminal never writes out of its arrays and shows what was printed: after any bytes but
  carriage returns the screen holds the last 11 lines of the text, wrapped at 51 columns, with
  backspace erasing the last character of the line being written and other control bytes ignored, and
  the cursor stands behind the last character.\<close>

theorem terminal_shows_history:
  assumes "0x0D \<notin> set cs"
  shows "returns (window_on (fold hfeed cs [[]])) (term_feed_all cs term_new)"
  using window_new assms by (rule window_feed_all)

theorem terminal_shows_history_witness:
  "returns (window_on [[0x61], [0x62, 0x63]]) (term_feed_all [0x61, 0x0A, 0x62, 0x64, 0x08, 0x63] term_new)"
  using terminal_shows_history [of "[0x61, 0x0A, 0x62, 0x64, 0x08, 0x63]"]
  by (simp add: hfeed_def hput_def hback_def)

text \<open>A backspace away from the end of the line hides the rest of the line, although the comment in
  the code confines the shortening to the end of the line: after \<open>abc\<close>, a carriage return, \<open>x\<close> and a
  backspace the row shows nothing, and typing on brings the hidden characters back.\<close>

theorem backspace_hides_line_end:
  "map_option (\<lambda>t. (row_text t 0, screen t ! 0 ! 1)) (term_feed_all [0x61, 0x62, 0x63, 0x0D, 0x78, 0x08] term_new)
   = Some ([], 0x62)"
  by code_simp

end
