(* ===== verification/Mos_Font.thy ===== *)
theory Mos_Font
  imports Mos_Text
begin

section \<open>The bitmap font renderer\<close>

text \<open>
  \<open>third_party/bitmap-font/src/lib.rs\<close>, the vendored text renderer behind the LCD terminal: the
  iterator that doubles pixels, the draw target around it, \<open>draw_glyph\<close> and \<open>draw_string\<close>. A drawing
  operation is the list of pixels it sends to its target. The glyph mapping and the image decoder of
  \<open>embedded-graphics\<close> are arguments. Coordinates are unbounded: a terminal's stay below 1000.
\<close>

type_synonym point = "int \<times> int"
type_synonym pixel = "point \<times> bool"

record bitmap_font =
  bitmap_width :: nat
  glyph_w :: nat
  glyph_h :: nat
  font_pixels :: nat

definition FONT_6x12 :: bitmap_font where
  "FONT_6x12 = \<lparr>bitmap_width = 96, glyph_w = 6, glyph_h = 12, font_pixels = 1\<rparr>"

definition font_width :: "bitmap_font \<Rightarrow> nat" where
  "font_width f = glyph_w f * font_pixels f"

definition font_height :: "bitmap_font \<Rightarrow> nat" where
  "font_height f = glyph_h f * font_pixels f"

definition pixel_double :: "bitmap_font \<Rightarrow> bitmap_font option" where
  "pixel_double f = (if font_pixels f * 2 mod 256 \<noteq> 0 then Some (f\<lparr>font_pixels := font_pixels f * 2 mod 256\<rparr>) else None)"

subsection \<open>The iterator that doubles a pixel\<close>

record doubling =
  d_color :: bool
  d_pos :: point
  d_x :: nat
  remaining_x :: nat
  remaining_y :: nat

definition doubling_new :: "pixel \<Rightarrow> nat \<Rightarrow> doubling" where
  "doubling_new p n = \<lparr>d_color = snd p, d_pos = (fst (fst p) * int n, snd (fst p) * int n), d_x = 0,
     remaining_x = n - 1, remaining_y = n\<rparr>"

definition doubling_next :: "doubling \<Rightarrow> (pixel \<times> doubling) option" where
  "doubling_next d =
     (if remaining_y d = 0 then None
      else Some ((d_pos d, d_color d),
        if 0 < remaining_x d
        then d\<lparr>remaining_x := remaining_x d - 1, d_x := d_x d + 1, d_pos := (fst (d_pos d) + 1, snd (d_pos d))\<rparr>
        else d\<lparr>d_pos := (fst (d_pos d) - int (d_x d), snd (d_pos d) + 1), remaining_x := d_x d, d_x := 0,
               remaining_y := remaining_y d - 1\<rparr>))"

text \<open>Every pixel the iterator yields; it ends because each step uses up a pixel of the row or a row.\<close>

function doubling_collect :: "doubling \<Rightarrow> pixel list" where
  "doubling_collect d = (case doubling_next d of None \<Rightarrow> [] | Some (p, d') \<Rightarrow> p # doubling_collect d')"
  by pat_completeness auto
termination
  by (relation "measures [remaining_y, remaining_x]") (auto simp: doubling_next_def split: if_splits)

declare doubling_collect.simps [simp del]

subsection \<open>Glyphs and strings\<close>

text \<open>The draw target around the iterator: pixels that are off are dropped, the others doubled, moved
  by the offset and drawn in the target's colour.\<close>

definition doubling_target :: "nat \<Rightarrow> point \<Rightarrow> bool \<Rightarrow> pixel list \<Rightarrow> pixel list" where
  "doubling_target n offset color ps =
     concat (map (\<lambda>p. map (\<lambda>q. ((fst (fst q) + fst offset, snd (fst q) + snd offset), color))
       (doubling_collect (doubling_new p n))) (filter snd ps))"

type_synonym image = "point \<Rightarrow> nat \<times> nat \<Rightarrow> pixel list"

definition draw_glyph :: "bitmap_font \<Rightarrow> image \<Rightarrow> nat \<Rightarrow> bool \<Rightarrow> point \<Rightarrow> pixel list" where
  "draw_glyph f sub_image idx color pos =
     (let char_per_row = bitmap_width f div glyph_w f;
          row = idx div char_per_row;
          char_x = (idx - row * char_per_row) * glyph_w f;
          char_y = row * glyph_h f
      in doubling_target (font_pixels f) pos color (sub_image (int char_x, int char_y) (glyph_w f, glyph_h f)))"

fun draw_chars :: "bitmap_font \<Rightarrow> image \<Rightarrow> (nat \<Rightarrow> nat) \<Rightarrow> bool \<Rightarrow> nat list \<Rightarrow> point \<Rightarrow> pixel list \<times> point" where
  "draw_chars f im gm color [] pos = ([], pos)"
| "draw_chars f im gm color (c # cs) pos =
     (let ps = draw_glyph f im (gm c) color pos;
          (qs, pos) = draw_chars f im gm color cs (fst pos + int (font_width f), snd pos)
      in (ps @ qs, pos))"

definition draw_string :: "bitmap_font \<Rightarrow> image \<Rightarrow> (nat \<Rightarrow> nat) \<Rightarrow> bool \<Rightarrow> string \<Rightarrow> point \<Rightarrow> pixel list \<times> point" where
  "draw_string f im gm color s pos = draw_chars f im gm color (chars_of s) pos"

definition draw_whitespace :: "bitmap_font \<Rightarrow> nat \<Rightarrow> point \<Rightarrow> point" where
  "draw_whitespace f n pos = (fst pos + int (n * font_width f), snd pos)"

definition measure_string :: "bitmap_font \<Rightarrow> string \<Rightarrow> point \<Rightarrow> (point \<times> nat \<times> nat) \<times> point" where
  "measure_string f s pos =
     (let w = font_width f * length s in ((pos, w, font_height f), (fst pos + int w, snd pos)))"

subsection \<open>What is drawn\<close>

lemma collect_row:
  "remaining_y d = Suc k \<Longrightarrow> d_pos d = (x + int (d_x d), y) \<Longrightarrow>
   doubling_collect d = map (\<lambda>i. ((x + int i, y), d_color d)) [d_x d..<d_x d + Suc (remaining_x d)]
     @ doubling_collect (d\<lparr>d_pos := (x, y + 1), remaining_x := d_x d + remaining_x d, d_x := 0, remaining_y := k\<rparr>)"
proof (induction "remaining_x d" arbitrary: d)
  case 0
  then show ?case by (subst doubling_collect.simps) (simp add: doubling_next_def)
next
  case (Suc n)
  let ?d = "d\<lparr>remaining_x := n, d_x := d_x d + 1, d_pos := (x + int (d_x d) + 1, y)\<rparr>"
  have "doubling_collect d = ((x + int (d_x d), y), d_color d) # doubling_collect ?d"
    using Suc(2-4) by (subst doubling_collect.simps) (simp add: doubling_next_def Suc(2) [symmetric])
  also have "doubling_collect ?d = map (\<lambda>i. ((x + int i, y), d_color d)) [d_x d + 1..<d_x d + 1 + Suc n]
     @ doubling_collect (?d\<lparr>d_pos := (x, y + 1), remaining_x := d_x d + 1 + n, d_x := 0, remaining_y := k\<rparr>)"
    using Suc(1) [of ?d] Suc(3) by (simp add: add.assoc add.commute)
  finally show ?case unfolding Suc(2) [symmetric] by (simp add: upt_conv_Cons)
qed

lemma collect_rows:
  "remaining_y d = k \<Longrightarrow> d_pos d = (x, y) \<Longrightarrow> d_x d = 0 \<Longrightarrow> remaining_x d = n \<Longrightarrow>
   doubling_collect d = concat (map (\<lambda>j. map (\<lambda>i. ((x + int i, y + int j), d_color d)) [0..<Suc n]) [0..<k])"
proof (induction k arbitrary: d y)
  case 0
  then show ?case by (subst doubling_collect.simps) (simp add: doubling_next_def)
next
  case (Suc k)
  have m: "map (\<lambda>j. f (y + int j)) [0..<Suc k] = f y # map (\<lambda>j. f (y + 1 + int j)) [0..<k]" for f :: "int \<Rightarrow> pixel list"
    by (rule nth_equalityI) (auto simp: nth_Cons algebra_simps simp del: upt_Suc split: nat.splits)
  show ?case
    using collect_row [of d k x y] Suc.prems
      Suc.IH [of "d\<lparr>d_pos := (x, y + 1), remaining_x := d_x d + remaining_x d, d_x := 0, remaining_y := k\<rparr>" "y + 1"]
      m [of "\<lambda>y. map (\<lambda>i. ((x + int i, y), d_color d)) [0..<Suc n]"]
    by (simp del: upt_Suc)
qed

lemma doubling_spec:
  assumes "0 < n"
  shows "doubling_collect (doubling_new ((x, y), c) n)
    = concat (map (\<lambda>j. map (\<lambda>i. ((x * int n + int i, y * int n + int j), c)) [0..<n]) [0..<n])"
  using collect_rows [of "doubling_new ((x, y), c) n" n "x * int n" "y * int n" "n - 1"] assms
  by (simp add: doubling_new_def)

text \<open>Pixel doubling is exact: a pixel becomes the square of \<open>n\<close> by \<open>n\<close> pixels at \<open>n\<close> times its
  position, row by row from the left, each once and in the pixel's colour.\<close>

theorem doubling_exact:
  assumes "0 < n"
  shows "doubling_collect (doubling_new ((x, y), c) n)
    = concat (map (\<lambda>j. map (\<lambda>i. ((x * int n + int i, y * int n + int j), c)) [0..<n]) [0..<n])"
  using assms by (rule doubling_spec)

theorem doubling_exact_witness:
  "doubling_collect (doubling_new ((1, 2), True) 2)
   = [((2, 4), True), ((3, 4), True), ((2, 5), True), ((3, 5), True)]"
  using doubling_exact [of 2 1 2 True] by (simp add: upt_conv_Cons)

subsection \<open>Where a text is drawn\<close>

definition in_box :: "point \<Rightarrow> int \<Rightarrow> int \<Rightarrow> point \<Rightarrow> bool" where
  "in_box org w h p \<longleftrightarrow> fst org \<le> fst p \<and> fst p < fst org + w \<and> snd org \<le> snd p \<and> snd p < snd org + h"

text \<open>The image decoder draws a part of the image at the origin of its target.\<close>

definition image_ok :: "image \<Rightarrow> bool" where
  "image_ok im \<longleftrightarrow> (\<forall>at w h. \<forall>p \<in> set (im at (w, h)). in_box (0, 0) (int w) (int h) (fst p))"

lemma scaled_less:
  assumes "a < int w" "i < n"
  shows "a * int n + int i < int (w * n)"
proof -
  have "a * int n \<le> (int w - 1) * int n" using assms(1) by (intro mult_right_mono) auto
  then show ?thesis using assms(2) by (simp add: algebra_simps)
qed

lemma target_in_box:
  assumes "0 < n" "\<forall>p \<in> set ps. in_box (0, 0) (int w) (int h) (fst p)"
  shows "\<forall>q \<in> set (doubling_target n off col ps). snd q = col \<and> in_box off (int (w * n)) (int (h * n)) (fst q)"
proof
  fix q assume "q \<in> set (doubling_target n off col ps)"
  then obtain x y c i j where p: "((x, y), c) \<in> set ps" and i: "i < n" "j < n"
    and q: "q = ((x * int n + int i + fst off, y * int n + int j + snd off), col)"
    by (auto simp: doubling_target_def doubling_spec [OF assms(1)])
  have "0 \<le> x" "x < int w" "0 \<le> y" "y < int h" using assms(2) p by (auto simp: in_box_def)
  then show "snd q = col \<and> in_box off (int (w * n)) (int (h * n)) (fst q)"
    using scaled_less [of x w i n] scaled_less [of y h j n] i unfolding q in_box_def by simp
qed

lemma glyph_in_box:
  assumes "image_ok im" "0 < font_pixels f"
  shows "\<forall>q \<in> set (draw_glyph f im i col pos). snd q = col \<and> in_box pos (int (font_width f)) (int (font_height f)) (fst q)"
  unfolding draw_glyph_def Let_def font_width_def font_height_def
  by (rule target_in_box) (use assms in \<open>auto simp: image_ok_def\<close>)

lemma chars_in_box:
  assumes "image_ok im" "0 < font_pixels f"
  shows "\<forall>q \<in> set (fst (draw_chars f im gm col cs pos)).
    snd q = col \<and> in_box pos (int (length cs * font_width f)) (int (font_height f)) (fst q)"
proof (induction cs arbitrary: pos)
  case (Cons c cs)
  let ?w = "int (font_width f)"
  have l: "int (length (c # cs) * font_width f) = ?w + int (length cs * font_width f)" by simp
  have "0 \<le> int (length cs * font_width f)" by simp
  then show ?case
    using glyph_in_box [OF assms, of "gm c" col pos] Cons.IH [of "(fst pos + ?w, snd pos)"]
    unfolding l by (auto simp: Let_def split_beta in_box_def simp del: of_nat_mult)
qed simp

lemma string_in_box:
  assumes "image_ok im" "q \<in> set (fst (draw_string FONT_6x12 im gm col s pos))"
  shows "snd q = col \<and> in_box pos (6 * int (length s)) 12 (fst q)"
proof -
  have "snd q = col \<and> in_box pos (int (length (chars_of s) * 6)) 12 (fst q)"
    using chars_in_box [OF assms(1), of FONT_6x12 gm col "chars_of s" pos] assms(2)
    by (simp add: FONT_6x12_def font_width_def font_height_def draw_string_def)
  then show ?thesis using length_chars_of [of s] by (auto simp: in_box_def)
qed

end
