(* ===== verification/Mos_Render.thy ===== *)
theory Mos_Render
  imports Mos_Lcd Mos_Font
begin

section \<open>Rendering the terminal to the panel\<close>

text \<open>
  The rest of \<open>boards/esp32c6/src/lcd.rs\<close>: the frame buffer's backend, the rendering of rows, the two
  ways to refresh the panel and the rounds of \<open>lcd_task\<close>. Colours, shapes, the text layout and the
  font's image of \<open>embedded-graphics\<close>, the coordinates of \<open>embedded-graphics-framebuf\<close> and the panel
  driver \<open>mipidsi\<close> are arguments; \<open>gfx_ok\<close> and \<open>panel_ok\<close> state what their documentation promises.
\<close>

record 'c gfx =
  to_raw :: "'c \<Rightarrow> u16"
  of_raw :: "u16 \<Rightarrow> 'c"
  BLACK :: 'c
  rgb :: "nat \<Rightarrow> nat \<Rightarrow> nat \<Rightarrow> 'c"
  fb_index :: "nat \<Rightarrow> nat \<Rightarrow> point \<Rightarrow> nat option"
  fb_all :: "nat \<Rightarrow> nat \<Rightarrow> nat list"
  rect :: "point \<Rightarrow> nat \<times> nat \<Rightarrow> point list"
  text_draw :: "(string \<Rightarrow> point \<Rightarrow> pixel list) \<Rightarrow> string \<Rightarrow> point \<Rightarrow> pixel list"
  glyph_of :: "nat \<Rightarrow> nat"
  font_image :: image

definition TERM_TEXT_COLOR :: "'c gfx \<Rightarrow> 'c" where
  "TERM_TEXT_COLOR g = rgb g 30 40 5"

subsection \<open>The frame buffer\<close>

definition heap_set :: "'c gfx \<Rightarrow> nat \<Rightarrow> 'c \<Rightarrow> u16 list \<Rightarrow> u16 list" where
  "heap_set g i c fb = (if i < LCD_BUFFER_SIZE then fb[i := to_raw g c] else fb)"

definition heap_get :: "'c gfx \<Rightarrow> u16 list \<Rightarrow> nat \<Rightarrow> 'c" where
  "heap_get g fb i = (if i < LCD_BUFFER_SIZE then of_raw g (fb ! i) else BLACK g)"

text \<open>\<open>FrameBuf\<close>: drawing sets the cell of each point that has one, clearing sets all cells.\<close>

definition draw_iter :: "'c gfx \<Rightarrow> (point \<times> 'c) list \<Rightarrow> u16 list \<Rightarrow> u16 list" where
  "draw_iter g ps fb = fold (\<lambda>(p, c) fb. case fb_index g LCD_WIDTH LCD_HEIGHT p of None \<Rightarrow> fb | Some i \<Rightarrow> heap_set g i c fb) ps fb"

definition fb_clear :: "'c gfx \<Rightarrow> 'c \<Rightarrow> u16 list \<Rightarrow> u16 list" where
  "fb_clear g c fb = fold (\<lambda>i. heap_set g i c) (fb_all g LCD_WIDTH LCD_HEIGHT) fb"

text \<open>\<open>BinaryToRgb\<close>: the pixels that are on, in the text colour.\<close>

definition binary_to_rgb :: "'c \<Rightarrow> pixel list \<Rightarrow> (point \<times> 'c) list" where
  "binary_to_rgb color ps = map (\<lambda>p. (fst p, color)) (filter snd ps)"

subsection \<open>Rows\<close>

definition draw_line :: "'c gfx \<Rightarrow> string \<Rightarrow> int \<Rightarrow> u16 list \<Rightarrow> u16 list" where
  "draw_line g line text_y fb =
     draw_iter g (binary_to_rgb (TERM_TEXT_COLOR g)
       (text_draw g (\<lambda>s p. fst (draw_string FONT_6x12 (font_image g) (glyph_of g) True s p)) line (int MARGIN_LEFT, text_y))) fb"

definition render_row :: "'c gfx \<Rightarrow> nat \<Rightarrow> terminal \<Rightarrow> u16 list \<Rightarrow> u16 list option" where
  "render_row g row t fb = do {
     let y = int MARGIN_TOP + int row * int ROW_H;
     let fb = draw_iter g (map (\<lambda>p. (p, BLACK g)) (rect g (0, y) (LCD_WIDTH, ROW_H))) fb;
     n \<leftarrow> array_get (lens t) row;
     let len = unat n;
     if 0 < len then do {
       let text_y = y + int ((ROW_H - FONT_H) div 2);
       cells \<leftarrow> array_get (screen t) row;
       bytes \<leftarrow> slice_to len cells;
       Some (case from_utf8 bytes of Some line \<Rightarrow> draw_line g line text_y fb | None \<Rightarrow> fb) }
     else Some fb }"

fun render_lines :: "'c gfx \<Rightarrow> nat list \<Rightarrow> terminal \<Rightarrow> u16 list \<Rightarrow> u16 list option" where
  "render_lines g [] t fb = Some fb"
| "render_lines g (row # rows) t fb = do {
     n \<leftarrow> array_get (lens t) row;
     let len = unat n;
     if len = 0 then render_lines g rows t fb
     else do {
       let y = int row * int ROW_H + int MARGIN_TOP;
       let text_y = y + int ((ROW_H - FONT_H) div 2);
       cells \<leftarrow> array_get (screen t) row;
       bytes \<leftarrow> slice_to len cells;
       render_lines g rows t (case from_utf8 bytes of Some line \<Rightarrow> draw_line g line text_y fb | None \<Rightarrow> fb) } }"

definition render_full :: "'c gfx \<Rightarrow> terminal \<Rightarrow> u16 list \<Rightarrow> u16 list option" where
  "render_full g t fb = render_lines g [0..<TERM_ROWS] t (fb_clear g (BLACK g) fb)"

subsection \<open>The panel\<close>

type_synonym ('c, 'd) panel = "u16 \<Rightarrow> u16 \<Rightarrow> u16 \<Rightarrow> u16 \<Rightarrow> 'c list \<Rightarrow> 'd \<Rightarrow> 'd"

definition flush_full :: "'c gfx \<Rightarrow> ('c, 'd) panel \<Rightarrow> u16 list \<Rightarrow> 'd \<Rightarrow> 'd" where
  "flush_full g set_pixels fb d =
     set_pixels (of_nat HARDWARE_X_OFFSET) (of_nat HARDWARE_Y_OFFSET)
       (of_nat LCD_WIDTH - 1 + of_nat HARDWARE_X_OFFSET) (of_nat LCD_HEIGHT - 1 + of_nat HARDWARE_Y_OFFSET)
       (map (of_raw g) fb) d"

definition flush_row :: "'c gfx \<Rightarrow> ('c, 'd) panel \<Rightarrow> nat \<Rightarrow> u16 list \<Rightarrow> 'd \<Rightarrow> 'd" where
  "flush_row g set_pixels row fb d =
     (let y_start_fb = of_nat (MARGIN_TOP + row * ROW_H) :: u16;
          y_end_fb = y_start_fb + of_nat ROW_H - 1
      in if of_nat LCD_HEIGHT \<le> y_end_fb then d
         else let y_start_lcd = y_start_fb + of_nat HARDWARE_Y_OFFSET;
                  y_end_lcd = y_end_fb + of_nat HARDWARE_Y_OFFSET;
                  start_idx = unat y_start_fb * LCD_WIDTH;
                  end_idx = (unat y_end_fb + 1) * LCD_WIDTH
              in if end_idx \<le> LCD_BUFFER_SIZE
                 then set_pixels (of_nat HARDWARE_X_OFFSET) y_start_lcd (of_nat LCD_WIDTH - 1 + of_nat HARDWARE_X_OFFSET) y_end_lcd
                        (map (of_raw g) (take (end_idx - start_idx) (drop start_idx fb))) d
                 else d)"

subsection \<open>The rendering task\<close>

record 'd lcd =
  terminal_of :: terminal
  fb_data :: "u16 list"
  display :: 'd

text \<open>The zeroed terminal with its rows filled with blanks, the first clearing of the panel.\<close>

definition zeroed_terminal :: terminal where
  "zeroed_terminal = \<lparr>screen = replicate TERM_ROWS (replicate TERM_COLS 0), lens = replicate TERM_ROWS 0,
     cursor_row = 0, cursor_col = 0, dirty = replicate TERM_ROWS False\<rparr>"

definition lcd_start :: "'c gfx \<Rightarrow> ('c, 'd) panel \<Rightarrow> 'd \<Rightarrow> 'd lcd" where
  "lcd_start g set_pixels d =
     (let fb = replicate LCD_BUFFER_SIZE 0;
          t = zeroed_terminal\<lparr>screen := map (map (\<lambda>_. 0x20)) (screen zeroed_terminal)\<rparr>;
          fb = fb_clear g (BLACK g) fb
      in \<lparr>terminal_of = t, fb_data = fb, display = flush_full g set_pixels fb d\<rparr>)"

fun refresh_rows :: "'c gfx \<Rightarrow> ('c, 'd) panel \<Rightarrow> nat list \<Rightarrow> terminal \<Rightarrow> u16 list \<Rightarrow> 'd \<Rightarrow> (u16 list \<times> 'd) option" where
  "refresh_rows g set_pixels [] t fb d = Some (fb, d)"
| "refresh_rows g set_pixels (row # rows) t fb d = do {
     b \<leftarrow> array_get (dirty t) row;
     if b then do {
       fb \<leftarrow> render_row g row t fb;
       refresh_rows g set_pixels rows t fb (flush_row g set_pixels row fb d) }
     else refresh_rows g set_pixels rows t fb d }"

text \<open>The choice between a full refresh and one of the dirty rows.\<close>

definition refresh :: "'c gfx \<Rightarrow> ('c, 'd) panel \<Rightarrow> 'd lcd \<Rightarrow> 'd lcd option" where
  "refresh g set_pixels l = do {
     let t = terminal_of l;
     (fb, d) \<leftarrow> (if TERM_ROWS div 2 < dirty_count t
        then do { fb \<leftarrow> render_full g t (fb_data l); Some (fb, flush_full g set_pixels fb (display l)) }
        else refresh_rows g set_pixels [0..<TERM_ROWS] t (fb_data l) (display l));
     Some \<lparr>terminal_of = clear_dirty t, fb_data = fb, display = d\<rparr> }"

text \<open>One round of the loop, with the ticks of the delay that ends it.\<close>

definition lcd_round :: "'c gfx \<Rightarrow> ('c, 'd) panel \<Rightarrow> char_ring \<times> 'd lcd \<Rightarrow> (u32 \<times> char_ring \<times> 'd lcd) option" where
  "lcd_round g set_pixels s = do {
     let (r, l) = s;
     (cs, r) \<leftarrow> char_ring_drain 128 r;
     if 0 < length cs then do {
       t \<leftarrow> term_feed_all cs (terminal_of l);
       l \<leftarrow> refresh g set_pixels (l\<lparr>terminal_of := t\<rparr>);
       Some (10, r, l) }
     else Some (50, r, l) }"

fun lcd_rounds :: "nat \<Rightarrow> 'c gfx \<Rightarrow> ('c, 'd) panel \<Rightarrow> char_ring \<times> 'd lcd \<Rightarrow> (char_ring \<times> 'd lcd) option" where
  "lcd_rounds 0 g set_pixels s = Some s"
| "lcd_rounds (Suc n) g set_pixels s = do { (_, s) \<leftarrow> lcd_round g set_pixels s; lcd_rounds n g set_pixels s }"

subsection \<open>The start of the task\<close>

text \<open>The driver objects that \<open>main\<close> stores for the task; \<open>expect\<close> panics when there is no display.
  The display stays in its static and is borrowed; the rounds keep it in their own state.\<close>

record ('d, 'l) lcd_statics =
  LCD_DISPLAY :: "'d option"
  LCD_BACKLIGHT :: "'l option"

definition store_display :: "'d \<Rightarrow> 'l \<Rightarrow> ('d, 'l) lcd_statics \<Rightarrow> ('d, 'l) lcd_statics" where
  "store_display d backlight s = s\<lparr>LCD_DISPLAY := Some d, LCD_BACKLIGHT := Some backlight\<rparr>"

definition lcd_task_start :: "'c gfx \<Rightarrow> ('c, 'd) panel \<Rightarrow> ('l \<Rightarrow> 'l) \<Rightarrow> ('d, 'l) lcd_statics
    \<Rightarrow> ('d lcd \<times> ('d, 'l) lcd_statics) option" where
  "lcd_task_start g set_pixels set_high s = do {
     d \<leftarrow> LCD_DISPLAY s;
     let s = (case LCD_BACKLIGHT s of Some bl \<Rightarrow> s\<lparr>LCD_BACKLIGHT := Some (set_high bl)\<rparr> | None \<Rightarrow> s);
     Some (lcd_start g set_pixels d, s) }"

subsection \<open>What the libraries promise\<close>

text \<open>Colours survive the buffer, the frame buffer is row-major and ignores points outside, clearing
  reaches every cell, a filled rectangle covers its points, a part of an image is drawn at the origin,
  and a text without line breaks and control characters is one call of its renderer.\<close>

definition gfx_ok :: "'c gfx \<Rightarrow> bool" where
  "gfx_ok g \<longleftrightarrow> (\<forall>c. of_raw g (to_raw g c) = c)
     \<and> (\<forall>x y w h. fb_index g w h (x, y) = (if 0 \<le> x \<and> x < int w \<and> 0 \<le> y \<and> y < int h then Some (nat x + nat y * w) else None))
     \<and> (\<forall>w h. set (fb_all g w h) = {..<w * h})
     \<and> (\<forall>x y w h. set (rect g (x, y) (w, h)) = {x..<x + int w} \<times> {y..<y + int h})
     \<and> image_ok (font_image g)
     \<and> (\<forall>f s p. (\<forall>b \<in> set (to_bytes s). 0x20 \<le> b) \<longrightarrow> text_draw g f s p = f s p)"

text \<open>A transfer that succeeds sets the pixels of its window, line by line, and no others.\<close>

definition panel_ok :: "('c, 'd) panel \<Rightarrow> ('d \<Rightarrow> nat \<Rightarrow> nat \<Rightarrow> 'c) \<Rightarrow> bool" where
  "panel_ok set_pixels pixel_of \<longleftrightarrow> (\<forall>x0 y0 x1 y1 cs d x y. x0 \<le> x1 \<longrightarrow> y0 \<le> y1 \<longrightarrow>
     length cs = (unat x1 - unat x0 + 1) * (unat y1 - unat y0 + 1) \<longrightarrow>
     pixel_of (set_pixels x0 y0 x1 y1 cs d) x y =
       (if unat x0 \<le> x \<and> x \<le> unat x1 \<and> unat y0 \<le> y \<and> y \<le> unat y1
        then cs ! ((y - unat y0) * (unat x1 - unat x0 + 1) + (x - unat x0)) else pixel_of d x y))"

subsection \<open>What a frame buffer shows\<close>

definition ink :: "'c gfx \<Rightarrow> u8 list \<Rightarrow> nat \<Rightarrow> nat \<Rightarrow> bool" where
  "ink g bs r i = (case from_utf8 bs of None \<Rightarrow> False
     | Some line \<Rightarrow> \<exists>q \<in> set (text_draw g (\<lambda>s p. fst (draw_string FONT_6x12 (font_image g) (glyph_of g) True s p)) line
            (10, 11 + 14 * int r)). snd q \<and> fb_index g 320 172 (fst q) = Some i)"

definition pix :: "'c gfx \<Rightarrow> terminal \<Rightarrow> nat \<Rightarrow> u16" where
  "pix g t i = to_raw g (if \<exists>r < 11. ink g (row_text t r) r i then TERM_TEXT_COLOR g else BLACK g)"

text \<open>The cells of a row: 14 lines of 320.\<close>

definition band :: "nat \<Rightarrow> nat \<Rightarrow> bool" where
  "band r i \<longleftrightarrow> 3200 + 4480 * r \<le> i \<and> i < 7680 + 4480 * r"

lemma band_unique: "band r i \<Longrightarrow> band r' i \<Longrightarrow> r = r'"
  unfolding band_def by linarith

definition printable :: "terminal \<Rightarrow> bool" where
  "printable t \<longleftrightarrow> (\<forall>row \<in> set (screen t). \<forall>b \<in> set row. 0x20 \<le> b)"

lemma gfx_okD:
  assumes "gfx_ok g"
  shows "of_raw g (to_raw g c) = c"
    "fb_index g w h (x, y) = (if 0 \<le> x \<and> x < int w \<and> 0 \<le> y \<and> y < int h then Some (nat x + nat y * w) else None)"
    "set (fb_all g w h) = {..<w * h}"
    "set (rect g (x, y) (w, h)) = {x..<x + int w} \<times> {y..<y + int h}"
    "image_ok (font_image g)"
    "(\<forall>b \<in> set (to_bytes s). 0x20 \<le> b) \<Longrightarrow> text_draw g f s p = f s p"
  using assms unfolding gfx_ok_def by blast+

lemma length_draw_iter [simp]: "length (draw_iter g ps fb) = length fb"
  unfolding draw_iter_def
  by (induction ps arbitrary: fb) (auto simp: heap_set_def split: option.splits)

lemma draw_iter_nth:
  assumes "length fb = 55040" "i < 55040"
  shows "draw_iter g (map (\<lambda>p. (p, c)) ps) fb ! i
    = (if \<exists>p \<in> set ps. fb_index g 320 172 p = Some i then to_raw g c else fb ! i)"
  using assms(1) unfolding draw_iter_def
proof (induction ps arbitrary: fb)
  case (Cons p ps)
  show ?case
  proof (cases "fb_index g 320 172 p")
    case (Some j)
    have "length (heap_set g j c fb) = 55040" using Cons.prems by (simp add: heap_set_def)
    from Cons.IH [OF this] Some show ?thesis
      using Cons.prems assms(2) by (auto simp: heap_set_def nth_list_update)
  qed (use Cons in auto)
qed simp

lemma fb_clear_spec:
  assumes "gfx_ok g" "length fb = 55040"
  shows "length (fb_clear g c fb) = 55040" "i < 55040 \<Longrightarrow> fb_clear g c fb ! i = to_raw g c"
proof -
  have gen: "length (fold (\<lambda>i. heap_set g i c) is fb) = 55040
      \<and> (\<forall>i < 55040. fold (\<lambda>i. heap_set g i c) is fb ! i = (if i \<in> set is then to_raw g c else fb ! i))" for "is"
    using assms(2) by (induction "is" arbitrary: fb) (auto simp: heap_set_def nth_list_update)
  show "length (fb_clear g c fb) = 55040" "i < 55040 \<Longrightarrow> fb_clear g c fb ! i = to_raw g c"
    using gen [of "fb_all g 320 172"] gfx_okD(3) [OF assms(1), of 320 172] by (simp_all add: fb_clear_def)
qed

lemma from_utf8_to_bytes: "from_utf8 bs = Some s \<Longrightarrow> to_bytes s = bs"
  by (auto simp: from_utf8_def split: if_splits)

lemma ink_band:
  assumes "gfx_ok g" "\<forall>b \<in> set bs. 0x20 \<le> b" "length bs \<le> 51" "r < 11" "ink g bs r i"
  shows "band r i"
proof -
  let ?pos = "(10, 11 + 14 * int r) :: point"
  obtain line q where line: "from_utf8 bs = Some line"
    and q: "q \<in> set (text_draw g (\<lambda>s p. fst (draw_string FONT_6x12 (font_image g) (glyph_of g) True s p)) line ?pos)"
    and i: "fb_index g 320 172 (fst q) = Some i"
    using assms(5) by (auto simp: ink_def split: option.splits)
  have bs: "to_bytes line = bs" by (rule from_utf8_to_bytes [OF line])
  then have len: "length line \<le> 51" using assms(3) by (metis length_to_bytes)
  have "q \<in> set (fst (draw_string FONT_6x12 (font_image g) (glyph_of g) True line ?pos))"
    using q gfx_okD(6) [OF assms(1), of line] bs assms(2) by simp
  then have "in_box ?pos (6 * int (length line)) 12 (fst q)"
    using string_in_box gfx_okD(5) [OF assms(1)] by blast
  then obtain x y where xy: "fst q = (x, y)" "10 \<le> x" "x < 320" "11 + 14 * int r \<le> y" "y < 23 + 14 * int r"
    using len by (cases "fst q") (auto simp: in_box_def)
  have "i = nat x + nat y * 320" using i xy gfx_okD(2) [OF assms(1)] assms(4) by (auto split: if_splits)
  then show ?thesis using xy by (simp add: band_def nat_less_iff) linarith
qed

lemma draw_line_nth:
  assumes "length fb = 55040" "i < 55040" "from_utf8 bs = Some line"
  shows "draw_line g line (11 + 14 * int r) fb ! i = (if ink g bs r i then to_raw g (TERM_TEXT_COLOR g) else fb ! i)"
proof -
  let ?ps = "text_draw g (\<lambda>s p. fst (draw_string FONT_6x12 (font_image g) (glyph_of g) True s p)) line (10, 11 + 14 * int r)"
  have "draw_line g line (11 + 14 * int r) fb ! i
      = draw_iter g (map (\<lambda>p. (p, TERM_TEXT_COLOR g)) (map fst (filter snd ?ps))) fb ! i"
    by (simp add: draw_line_def binary_to_rgb_def o_def)
  also have "\<dots> = (if ink g bs r i then to_raw g (TERM_TEXT_COLOR g) else fb ! i)"
    unfolding draw_iter_nth [OF assms(1,2)] using assms(3) by (auto simp: ink_def)
  finally show ?thesis .
qed

lemma length_draw_line [simp]: "length (draw_line g line y fb) = length fb"
  by (simp add: draw_line_def)

lemma ink_Nil: "gfx_ok g \<Longrightarrow> \<not> ink g [] r i"
  using gfx_okD(6) [of g "[]"]
  by (auto simp: ink_def from_utf8_def of_bytes_def to_bytes_def draw_string_def chars_of_def)

definition drawable :: "terminal \<Rightarrow> bool" where
  "drawable t \<longleftrightarrow> term_inv t \<and> printable t"

lemma drawable_row:
  assumes "drawable t" "r < 11"
  shows "\<forall>b \<in> set (row_text t r). 0x20 \<le> b" "length (row_text t r) \<le> 51"
    "array_get (lens t) r = Some (lens t ! r)" "array_get (screen t) r = Some (screen t ! r)"
    "slice_to (unat (lens t ! r)) (screen t ! r) = Some (row_text t r)"
proof -
  have i: "term_inv t" and p: "printable t" using assms(1) by (auto simp: drawable_def)
  note t = term_invD [OF i]
  have "screen t ! r \<in> set (screen t)" using t(1) assms(2) by simp
  then show "\<forall>b \<in> set (row_text t r). 0x20 \<le> b"
    using p by (auto simp: printable_def row_text_def dest: in_set_takeD)
  show "length (row_text t r) \<le> 51" using row_text_length [OF i assms(2)] t(7) [OF assms(2)] by simp
  show "array_get (lens t) r = Some (lens t ! r)" "array_get (screen t) r = Some (screen t ! r)"
    using t assms(2) by (simp_all add: array_get_def)
  show "slice_to (unat (lens t ! r)) (screen t ! r) = Some (row_text t r)"
    using t(6,7) [OF assms(2)] by (simp add: slice_to_def row_text_def)
qed

lemma pix_band:
  assumes "gfx_ok g" "drawable t" "r < 11" "band r i"
  shows "pix g t i = to_raw g (if ink g (row_text t r) r i then TERM_TEXT_COLOR g else BLACK g)"
proof -
  have u: "r' = r" if "r' < 11" "ink g (row_text t r') r' i" for r'
    using band_unique [OF ink_band [OF assms(1) drawable_row(1,2) [OF assms(2) that(1)] that] assms(4)] .
  have "(\<exists>r' < 11. ink g (row_text t r') r' i) \<longleftrightarrow> ink g (row_text t r) r i"
    using u assms(3) by blast
  then show ?thesis unfolding pix_def by (simp only:)
qed

lemma pix_outside:
  assumes "gfx_ok g" "drawable t" "\<forall>r < 11. \<not> band r i"
  shows "pix g t i = to_raw g (BLACK g)"
proof -
  have "\<not> ink g (row_text t r) r i" if "r < 11" for r
    using ink_band [OF assms(1) drawable_row(1,2) [OF assms(2) that] that] assms(3) that by blast
  then have "\<not> (\<exists>r < 11. ink g (row_text t r) r i)" by blast
  then show ?thesis unfolding pix_def by (simp only: if_False)
qed

subsection \<open>Rendering is exact\<close>

lemma band_div: "band r i \<longleftrightarrow> 10 + 14 * r \<le> i div 320 \<and> i div 320 < 24 + 14 * r"
proof -
  have "10 + 14 * r \<le> i div 320 \<longleftrightarrow> (10 + 14 * r) * 320 \<le> i" by (rule less_eq_div_iff_mult_less_eq) simp
  moreover have "i div 320 < 24 + 14 * r \<longleftrightarrow> i < (24 + 14 * r) * 320" by (rule div_less_iff_less_mult) simp
  ultimately show ?thesis by (auto simp: band_def)
qed

lemma rect_band:
  assumes "gfx_ok g" "r < 11"
  shows "(\<exists>p \<in> set (rect g (0, 10 + int r * 14) (320, 14)). fb_index g 320 172 p = Some i) \<longleftrightarrow> band r i"
proof
  assume "\<exists>p \<in> set (rect g (0, 10 + int r * 14) (320, 14)). fb_index g 320 172 p = Some i"
  then obtain x y where "0 \<le> x" "x < 320" "10 + int r * 14 \<le> y" "y < 24 + int r * 14" "i = nat x + nat y * 320"
    using gfx_okD(2,4) [OF assms(1)] by (auto split: if_splits)
  then have "i div 320 = nat y" "nat y \<ge> 10 + r * 14" "nat y < 24 + r * 14" by auto
  then show "band r i" by (simp add: band_div)
next
  assume b: "band r i"
  let ?p = "(int (i mod 320), int (i div 320))"
  have "?p \<in> set (rect g (0, 10 + int r * 14) (320, 14))"
    using b gfx_okD(4) [OF assms(1), of 0 "10 + int r * 14" 320 14] by (auto simp: band_div)
  moreover have "i div 320 < 172" using b assms(2) by (simp add: band_div)
  then have "fb_index g 320 172 ?p = Some i" using gfx_okD(2) [OF assms(1), of 320 172] by (auto simp: mult.commute)
  ultimately show "\<exists>p \<in> set (rect g (0, 10 + int r * 14) (320, 14)). fb_index g 320 172 p = Some i" by blast
qed

lemma text_y_eq: "10 + int r * 14 + 1 = 11 + 14 * int r" "int r * 14 + 10 + 1 = 11 + 14 * int r"
  by simp_all

text \<open>A row's text, drawn where it belongs or not at all, is the row's ink.\<close>

lemma draw_text_nth:
  assumes "gfx_ok g" "length fb = 55040" "i < 55040"
  shows "(case from_utf8 bs of Some line \<Rightarrow> draw_line g line (11 + 14 * int r) fb | None \<Rightarrow> fb) ! i
    = (if ink g bs r i then to_raw g (TERM_TEXT_COLOR g) else fb ! i)"
proof (cases "from_utf8 bs")
  case None
  then show ?thesis by (simp add: ink_def)
next
  case (Some line)
  then show ?thesis using draw_line_nth [OF assms(2,3) Some, of g r] by simp
qed

lemma row_text_empty: "unat (lens t ! r) = 0 \<Longrightarrow> row_text t r = []"
  by (simp add: row_text_def)

lemma render_row_spec:
  assumes "gfx_ok g" "drawable t" "r < 11" "length fb = 55040"
  shows "returns (\<lambda>fb'. length fb' = 55040 \<and> (\<forall>i < 55040. fb' ! i = (if band r i then pix g t i else fb ! i)))
    (render_row g r t fb)"
proof -
  let ?fb = "draw_iter g (map (\<lambda>p. (p, BLACK g)) (rect g (0, 10 + int r * 14) (320, 14))) fb"
  have fb: "length ?fb = 55040" "\<And>i. i < 55040 \<Longrightarrow> ?fb ! i = (if band r i then to_raw g (BLACK g) else fb ! i)"
    using assms(4) rect_band [OF assms(1,3)] by (simp_all add: draw_iter_nth)
  note row = drawable_row [OF assms(2,3)]
  let ?out = "case from_utf8 (row_text t r) of Some line \<Rightarrow> draw_line g line (11 + 14 * int r) ?fb | None \<Rightarrow> ?fb"
  have out: "length ?out = 55040" using fb(1) by (simp split: option.split)
  have eq: "?out ! i = (if band r i then pix g t i else fb ! i)" if i: "i < 55040" for i
    using draw_text_nth [OF assms(1) fb(1) i, where bs = "row_text t r" and r = r] fb(2) [OF i] pix_band [OF assms(1-3)]
      ink_band [OF assms(1) row(1,2) assms(3)] by auto
  have "render_row g r t fb = Some ?out"
  proof (cases "unat (lens t ! r) = 0")
    case True
    then have "?out = ?fb" using row_text_empty [OF True] by (simp add: from_utf8_def draw_line_def binary_to_rgb_def
      gfx_okD(6) [OF assms(1), of "[]"] of_bytes_def to_bytes_def draw_string_def chars_of_def draw_iter_def)
    then show ?thesis using True row(3) by (simp add: render_row_def)
  next
    case False
    then show ?thesis using row(3-5)
      by (cases "from_utf8 (row_text t r)") (simp_all add: render_row_def Let_def text_y_eq)
  qed
  then show ?thesis using out eq by simp
qed

lemma render_lines_spec:
  "gfx_ok g \<Longrightarrow> drawable t \<Longrightarrow> set rows \<subseteq> {..<11} \<Longrightarrow> length fb = 55040 \<Longrightarrow>
   returns (\<lambda>fb'. length fb' = 55040 \<and> (\<forall>i < 55040.
     fb' ! i = (if \<exists>r \<in> set rows. ink g (row_text t r) r i then to_raw g (TERM_TEXT_COLOR g) else fb ! i)))
     (render_lines g rows t fb)"
proof (induction rows arbitrary: fb)
  case (Cons r rows)
  have r: "r < 11" and rows: "set rows \<subseteq> {..<11}" using Cons.prems(3) by auto
  note row = drawable_row [OF Cons.prems(2) r]
  show ?case
  proof (cases "unat (lens t ! r) = 0")
    case True
    then have "\<not> ink g (row_text t r) r i" for i using ink_Nil [OF Cons.prems(1)] row_text_empty [OF True] by simp
    then show ?thesis using Cons.IH [OF Cons.prems(1,2) rows Cons.prems(4)] True row(3) by simp
  next
    case False
    let ?fb = "case from_utf8 (row_text t r) of Some line \<Rightarrow> draw_line g line (11 + 14 * int r) fb | None \<Rightarrow> fb"
    have l: "length ?fb = 55040" using Cons.prems(4) by (simp split: option.split)
    have "render_lines g (r # rows) t fb = render_lines g rows t ?fb"
      using False row(3-5) by (cases "from_utf8 (row_text t r)") (simp_all add: text_y_eq)
    with Cons.IH [OF Cons.prems(1,2) rows l] show ?thesis
      using draw_text_nth [OF Cons.prems(1,4)] by (auto elim!: returns_mono)
  qed
qed simp

lemma render_full_spec:
  assumes "gfx_ok g" "drawable t" "length fb = 55040"
  shows "returns (\<lambda>fb'. length fb' = 55040 \<and> (\<forall>i < 55040. fb' ! i = pix g t i)) (render_full g t fb)"
proof -
  have "(\<exists>r \<in> set [0..<11]. ink g (row_text t r) r i) = (\<exists>r < 11. ink g (row_text t r) r i)" for i by auto
  then have ink: "(\<exists>r \<in> set [0..<11]. ink g (row_text t r) r i) = (\<exists>r < 11. ink g (row_text t r) r i)" for i .
  have "returns (\<lambda>fb'. length fb' = 55040 \<and> (\<forall>i < 55040. fb' ! i = pix g t i))
      (render_lines g [0..<11] t (fb_clear g (BLACK g) fb))"
    using render_lines_spec [OF assms(1,2) _ fb_clear_spec(1) [OF assms(1,3)], of "[0..<11]" "BLACK g", unfolded ink]
    by (rule returns_mono) (auto simp: pix_def fb_clear_spec [OF assms(1,3)] simp del: upt_rec_numeral)
  then show ?thesis by (simp add: render_full_def del: upt_rec_numeral)
qed

subsection \<open>The panel follows the frame buffer\<close>

definition mirrors :: "'c gfx \<Rightarrow> ('d \<Rightarrow> nat \<Rightarrow> nat \<Rightarrow> 'c) \<Rightarrow> u16 list \<Rightarrow> 'd \<Rightarrow> bool" where
  "mirrors g pixel_of fb d \<longleftrightarrow> length fb = 55040
     \<and> (\<forall>x < 320. \<forall>y < 172. pixel_of d x (y + 34) = heap_get g fb (x + y * 320))"

lemma flush_full_spec:
  assumes "panel_ok set_pixels pixel_of" "length fb = 55040"
  shows "mirrors g pixel_of fb (flush_full g set_pixels fb d)"
proof -
  have "pixel_of (set_pixels 0 34 319 205 (map (of_raw g) fb) d) x (y + 34) = of_raw g (fb ! (x + y * 320))"
    if "x < 320" "y < 172" for x y
  proof -
    have "pixel_of (set_pixels 0 34 319 205 (map (of_raw g) fb) d) x (y + 34)
        = map (of_raw g) fb ! ((y + 34 - 34) * (319 - 0 + 1) + (x - 0))"
      using assms that by (subst panel_ok_def [THEN iffD1, rule_format, OF assms(1)]) auto
    moreover have "x + y * 320 < 55040" using that by simp
    ultimately show ?thesis using assms(2) by (simp add: add.commute)
  qed
  then show ?thesis using assms(2) by (simp add: mirrors_def flush_full_def heap_get_def)
qed

lemma flush_row_window:
  assumes "r < 11"
  shows "flush_row g set_pixels r fb d
    = set_pixels 0 (of_nat (44 + r * 14)) 319 (of_nat (57 + r * 14))
        (map (of_raw g) (take 4480 (drop ((10 + r * 14) * 320) fb))) d"
    "unat (of_nat (44 + r * 14) :: u16) = 44 + r * 14" "unat (of_nat (57 + r * 14) :: u16) = 57 + r * 14"
proof -
  have u: "unat (of_nat n :: u16) = n" if "n < 65536" for n
    using that by (simp add: unat_of_nat take_bit_nat_eq_self)
  show "unat (of_nat (44 + r * 14) :: u16) = 44 + r * 14" "unat (of_nat (57 + r * 14) :: u16) = 57 + r * 14"
    by (rule u, use assms in linarith)+
  have s: "unat (of_nat (10 + r * 14) :: u16) = 10 + r * 14" and e: "unat (of_nat (23 + r * 14) :: u16) = 23 + r * 14"
    by (rule u, use assms in linarith)+
  have end_: "of_nat (10 + r * 14) + of_nat 14 - 1 = (of_nat (23 + r * 14) :: u16)"
    "of_nat (10 + r * 14) + of_nat 34 = (of_nat (44 + r * 14) :: u16)"
    "of_nat (23 + r * 14) + of_nat 34 = (of_nat (57 + r * 14) :: u16)" by simp_all
  have below: "\<not> of_nat 172 \<le> (of_nat (23 + r * 14) :: u16)"
    unfolding word_le_nat_alt e using assms by (simp add: u)
  have inside: "(23 + r * 14 + 1) * 320 \<le> 55040" "(23 + r * 14 + 1) * 320 - (10 + r * 14) * 320 = 4480"
    using assms by simp_all
  have w: "of_nat 320 - 1 + of_nat 0 = (319 :: u16)" "of_nat 0 = (0 :: u16)" by simp_all
  show "flush_row g set_pixels r fb d
    = set_pixels 0 (of_nat (44 + r * 14)) 319 (of_nat (57 + r * 14))
        (map (of_raw g) (take 4480 (drop ((10 + r * 14) * 320) fb))) d"
    unfolding flush_row_def Let_def MARGIN_TOP_def ROW_H_def LCD_HEIGHT_def LCD_WIDTH_def HARDWARE_X_OFFSET_def
      HARDWARE_Y_OFFSET_def LCD_BUFFER_SIZE_def end_ w if_not_P [OF below] s e
    using inside by simp
qed

lemma flush_row_spec:
  assumes "panel_ok set_pixels pixel_of" "mirrors g pixel_of fb d" "r < 11" "length fb' = 55040"
    and same: "\<And>i. i < 55040 \<Longrightarrow> \<not> band r i \<Longrightarrow> fb' ! i = fb ! i"
  shows "mirrors g pixel_of fb' (flush_row g set_pixels r fb' d)"
proof -
  note w = flush_row_window [OF assms(3)]
  let ?cs = "map (of_raw g) (take 4480 (drop ((10 + r * 14) * 320) fb'))"
  have len: "length ?cs = 4480" using assms(3,4) by simp
  have le: "(of_nat (44 + r * 14) :: u16) \<le> of_nat (57 + r * 14)"
    unfolding word_le_nat_alt w(2,3) by simp
  have ok: "pixel_of (set_pixels 0 (of_nat (44 + r * 14)) 319 (of_nat (57 + r * 14)) ?cs d) x (y + 34)
    = (if 44 + r * 14 \<le> y + 34 \<and> y + 34 \<le> 57 + r * 14
       then ?cs ! ((y + 34 - (44 + r * 14)) * 320 + x) else pixel_of d x (y + 34))" if "x < 320" for x y
  proof -
    have "length ?cs = (unat (319 :: u16) - unat (0 :: u16) + 1)
        * (unat (of_nat (57 + r * 14) :: u16) - unat (of_nat (44 + r * 14) :: u16) + 1)"
      unfolding len w(2,3) by simp
    from panel_ok_def [THEN iffD1, rule_format, OF assms(1) _ le this, of d x "y + 34"] that
    show ?thesis unfolding w(2,3) by simp
  qed
  have "pixel_of (flush_row g set_pixels r fb' d) x (y + 34) = of_raw g (fb' ! (x + y * 320))" if xy: "x < 320" "y < 172" for x y
  proof (cases "10 + r * 14 \<le> y \<and> y \<le> 23 + r * 14")
    case True
    let ?k = "(y + 34 - (44 + r * 14)) * 320 + x"
    have "y + 34 - (44 + r * 14) \<le> 13" using True by linarith
    then have k: "?k < 4480" using xy(1) by linarith
    have e: "(10 + r * 14) * 320 + ?k = x + y * 320" using True by (simp add: algebra_simps)
    have "?cs ! ?k = of_raw g (fb' ! ((10 + r * 14) * 320 + ?k))"
      using k len assms(4) assms(3) by simp
    then show ?thesis unfolding w(1) ok [OF xy(1)] e using True by simp
  next
    case False
    have i: "x + y * 320 < 55040" "(x + y * 320) div 320 = y" using xy by simp_all
    have nb: "\<not> band r (x + y * 320)" unfolding band_div i using False by linarith
    have "pixel_of d x (y + 34) = of_raw g (fb ! (x + y * 320))"
      using assms(2) xy i by (simp add: mirrors_def heap_get_def)
    then show ?thesis unfolding w(1) ok [OF xy(1)] same [OF i(1) nb] using False by auto
  qed
  then show ?thesis using assms(4) by (simp add: mirrors_def heap_get_def)
qed

lemma refresh_rows_spec:
  assumes "gfx_ok g" "panel_ok set_pixels pixel_of" "drawable t"
  shows "set rows \<subseteq> {..<11} \<Longrightarrow> mirrors g pixel_of fb d \<Longrightarrow>
    returns (\<lambda>(fb', d'). mirrors g pixel_of fb' d'
        \<and> (\<forall>i < 55040. fb' ! i = (if \<exists>r \<in> set rows. dirty t ! r \<and> band r i then pix g t i else fb ! i)))
      (refresh_rows g set_pixels rows t fb d)"
proof (induction rows arbitrary: fb d)
  case (Cons r rows)
  have r: "r < 11" and rows: "set rows \<subseteq> {..<11}" using Cons.prems(1) by auto
  have len: "length fb = 55040" using Cons.prems(2) by (simp add: mirrors_def)
  have b: "array_get (dirty t) r = Some (dirty t ! r)"
    using assms(3) r by (simp add: drawable_def term_inv_def array_get_def)
  show ?case
  proof (cases "dirty t ! r")
    case True
    obtain fb' where fb': "render_row g r t fb = Some fb'" "length fb' = 55040"
      "\<And>i. i < 55040 \<Longrightarrow> fb' ! i = (if band r i then pix g t i else fb ! i)"
      using render_row_spec [OF assms(1,3) r len] by (auto simp: returns_iff)
    have m: "mirrors g pixel_of fb' (flush_row g set_pixels r fb' d)"
      by (rule flush_row_spec [OF assms(2) Cons.prems(2) r fb'(2)]) (simp add: fb'(3))
    have "refresh_rows g set_pixels (r # rows) t fb d = refresh_rows g set_pixels rows t fb' (flush_row g set_pixels r fb' d)"
      using b True fb'(1) by simp
    with Cons.IH [OF rows m] show ?thesis using True fb'(3) by (auto elim!: returns_mono)
  next
    case False
    then show ?thesis using Cons.IH [OF rows Cons.prems(2)] b by simp
  qed
qed simp

lemma pix_tracks:
  assumes "gfx_ok g" "drawable t" "drawable t'" "tracks t t'" "\<forall>r < 11. dirty t' ! r \<longrightarrow> \<not> band r i"
  shows "pix g t' i = pix g t i"
proof (cases "\<exists>r < 11. band r i")
  case True
  then obtain r where r: "r < 11" "band r i" by blast
  then have "row_text t' r = row_text t r" using assms(4,5) by (auto simp: tracks_def)
  then show ?thesis using pix_band [OF assms(1,2) r] pix_band [OF assms(1,3) r] by simp
next
  case False
  then show ?thesis using pix_outside [OF assms(1,2)] pix_outside [OF assms(1,3)] by simp
qed

text \<open>The frame buffer and the panel show exactly the terminal.\<close>

definition exact :: "'c gfx \<Rightarrow> ('d \<Rightarrow> nat \<Rightarrow> nat \<Rightarrow> 'c) \<Rightarrow> 'd lcd \<Rightarrow> bool" where
  "exact g pixel_of l \<longleftrightarrow> drawable (terminal_of l) \<and> mirrors g pixel_of (fb_data l) (display l)
     \<and> (\<forall>i < 55040. fb_data l ! i = pix g (terminal_of l) i)"

lemma clear_dirty_same [simp]: "pix g (clear_dirty t) = pix g t" "drawable (clear_dirty t) = drawable t" if "length (dirty t) = 11"
  using that by (simp_all add: fun_eq_iff pix_def row_text_def clear_dirty_def drawable_def term_inv_def printable_def)

lemma refresh_all_rows:
  assumes "gfx_ok g" "panel_ok set_pixels pixel_of" "exact g pixel_of l" "drawable t" "tracks (terminal_of l) t"
  shows "returns (\<lambda>(fb, d). mirrors g pixel_of fb d \<and> (\<forall>i < 55040. fb ! i = pix g t i))
    (refresh_rows g set_pixels [0..<TERM_ROWS] t (fb_data l) (display l))"
proof -
  have m: "mirrors g pixel_of (fb_data l) (display l)" and old: "drawable (terminal_of l)"
    and same: "\<And>i. i < 55040 \<Longrightarrow> fb_data l ! i = pix g (terminal_of l) i"
    using assms(3) by (auto simp: exact_def)
  have rows: "set [0..<TERM_ROWS] \<subseteq> {..<11}" by auto
  show ?thesis
    using refresh_rows_spec [OF assms(1,2,4) rows m]
  proof (rule returns_mono, unfold split_paired_all split_conv)
    fix fb d
    assume a: "mirrors g pixel_of fb d \<and> (\<forall>i < 55040. fb ! i
        = (if \<exists>r \<in> set [0..<TERM_ROWS]. dirty t ! r \<and> band r i then pix g t i else fb_data l ! i))"
    then have fb: "\<forall>i < 55040. fb ! i
        = (if \<exists>r \<in> set [0..<TERM_ROWS]. dirty t ! r \<and> band r i then pix g t i else fb_data l ! i)" by (rule conjunct2)
    have "fb ! i = pix g t i" if i: "i < 55040" for i
    proof (cases "\<exists>r \<in> set [0..<TERM_ROWS]. dirty t ! r \<and> band r i")
      case True
      then show ?thesis using fb i by simp
    next
      case clean: False
      then have "\<forall>r < 11. dirty t ! r \<longrightarrow> \<not> band r i" by auto
      from pix_tracks [OF assms(1) old assms(4,5) this] show ?thesis using clean fb i same [OF i] by simp
    qed
    then show "mirrors g pixel_of fb d \<and> (\<forall>i < 55040. fb ! i = pix g t i)" using conjunct1 [OF a] by blast
  qed
qed

lemma refresh_spec:
  assumes "gfx_ok g" "panel_ok set_pixels pixel_of" "exact g pixel_of l" "drawable t" "tracks (terminal_of l) t"
  shows "returns (\<lambda>l'. exact g pixel_of l' \<and> terminal_of l' = clear_dirty t) (refresh g set_pixels (l\<lparr>terminal_of := t\<rparr>))"
proof -
  have m: "mirrors g pixel_of (fb_data l) (display l)" and old: "drawable (terminal_of l)"
    and same: "\<And>i. i < 55040 \<Longrightarrow> fb_data l ! i = pix g (terminal_of l) i"
    using assms(3) by (auto simp: exact_def)
  then have len: "length (fb_data l) = 55040" by (simp add: mirrors_def)
  have d11: "length (dirty t) = 11" using assms(4) by (simp add: drawable_def term_inv_def)
  let ?m = "if TERM_ROWS div 2 < dirty_count t
       then do { fb \<leftarrow> render_full g t (fb_data l); Some (fb, flush_full g set_pixels fb (display l)) }
       else refresh_rows g set_pixels [0..<TERM_ROWS] t (fb_data l) (display l)"
  have "returns (\<lambda>(fb, d). mirrors g pixel_of fb d \<and> (\<forall>i < 55040. fb ! i = pix g t i)) ?m"
  proof (cases "TERM_ROWS div 2 < dirty_count t")
    case True
    from render_full_spec [OF assms(1,4) len]
    have "returns (\<lambda>(fb, d). mirrors g pixel_of fb d \<and> (\<forall>i < 55040. fb ! i = pix g t i))
      (do { fb \<leftarrow> render_full g t (fb_data l); Some (fb, flush_full g set_pixels fb (display l)) })"
      unfolding returns_bind by (rule returns_mono) (simp add: flush_full_spec [OF assms(2)])
    then show ?thesis using True by simp
  next
    case False
    then show ?thesis using refresh_all_rows [OF assms] by simp
  qed
  then obtain fb d where r: "?m = Some (fb, d)" "mirrors g pixel_of fb d" "\<forall>i < 55040. fb ! i = pix g t i"
    by (rule returns_pairE) blast
  have "refresh g set_pixels (l\<lparr>terminal_of := t\<rparr>) = do { (fb, d) \<leftarrow> ?m; Some \<lparr>terminal_of = clear_dirty t, fb_data = fb, display = d\<rparr> }"
    unfolding refresh_def Let_def by simp
  then show ?thesis unfolding r(1) using assms(4) d11 r(2,3) by (simp add: exact_def)
qed

subsection \<open>The cells hold no control characters\<close>

lemma printable_update:
  assumes "printable t" "r < length (screen t)" "0x20 \<le> c"
  shows "\<forall>row \<in> set ((screen t)[r := (screen t ! r)[k := c]]). \<forall>b \<in> set row. 0x20 \<le> b"
proof (intro ballI)
  fix row b assume row: "row \<in> set ((screen t)[r := (screen t ! r)[k := c]])" and b: "b \<in> set row"
  from row consider "row = (screen t ! r)[k := c]" | "row \<in> set (screen t)"
    by (auto dest!: set_update_subset_insert [THEN subsetD])
  then show "0x20 \<le> b"
  proof cases
    case 1
    then have "b = c \<or> b \<in> set (screen t ! r)" using b by (auto dest!: set_update_subset_insert [THEN subsetD])
    then show ?thesis using assms by (auto simp: printable_def)
  qed (use assms(1) b in \<open>auto simp: printable_def\<close>)
qed

lemma newline_printable:
  assumes "drawable t"
  shows "returns printable (term_newline t)"
proof -
  have t: "length (screen t) = 11" "length (lens t) = 11" "length (dirty t) = 11" "cursor_row t < 11" "printable t"
    using assms by (auto simp: drawable_def term_inv_def)
  show ?thesis
  proof (cases "cursor_row t < 10")
    case True
    then show ?thesis using t by (simp add: term_newline_def mark_dirty_def array_set_def printable_def)
  next
    case False
    have "\<forall>row \<in> set (tl (screen t) @ [replicate 51 0x20]). \<forall>b \<in> set row. 0x20 \<le> b"
      using t(5) by (cases "screen t") (auto simp: printable_def)
    then show ?thesis using False t scroll_up_closed [of "t\<lparr>cursor_col := 0\<rparr>"]
      by (simp add: term_newline_def mark_dirty_def array_set_def printable_def)
  qed
qed

lemma put_char_printable:
  assumes "drawable t" "cursor_col t < 51" "0x20 \<le> c"
  shows "returns printable (term_put_char c t)"
proof -
  have i: "term_inv t" and p: "printable t" using assms(1) by (auto simp: drawable_def)
  note t = term_invD [OF i]
  show ?thesis
    using t(1-4,6) assms(2,3) printable_update [OF p, of "cursor_row t" c "cursor_col t"]
    by (simp add: term_put_char_def mark_dirty_def array_get_def array_set_def printable_def Let_def)
qed

lemma backspace_printable:
  assumes "drawable t"
  shows "returns printable (term_backspace t)"
proof -
  have i: "term_inv t" and p: "printable t" using assms(1) by (auto simp: drawable_def)
  note t = term_invD [OF i]
  show ?thesis
    using t(1-6) p printable_update [OF p, of "cursor_row t" "0x20" "cursor_col t - 1"]
    by (simp add: term_backspace_def mark_dirty_def array_get_def array_set_def printable_def Let_def) arith
qed

lemma feed_printable:
  assumes "drawable t"
  shows "returns printable (term_feed c t)"
proof -
  have i: "term_inv t" and p: "printable t" using assms by (auto simp: drawable_def)
  have put: "returns printable (term_put_char c t)" if c: "0x20 \<le> c"
  proof (cases "cursor_col t < 51")
    case True
    then show ?thesis using put_char_printable assms c by simp
  next
    case False
    obtain u where u: "term_newline t = Some u" "term_inv u" "cursor_col u = 0"
      using newline_spec [OF i] by (auto simp: returns_iff)
    have "printable u" using newline_printable [OF assms] u(1) by simp
    moreover have "term_put_char c t = term_put_char c u"
      using False u(1,3) by (simp add: term_put_char_def)
    ultimately show ?thesis using put_char_printable [of u c] u c by (simp add: drawable_def)
  qed
  show ?thesis
    unfolding term_feed_def using newline_printable [OF assms] backspace_printable [OF assms] put p
    by (auto simp: printable_def)
qed

lemma feed_all_drawable:
  "drawable t \<Longrightarrow> returns (\<lambda>t'. drawable t' \<and> tracks t t') (term_feed_all cs t)"
proof (induction cs arbitrary: t)
  case (Cons c cs)
  have i: "term_inv t" using Cons.prems by (simp add: drawable_def)
  obtain u where u: "term_feed c t = Some u" "term_inv u" "tracks t u"
    using feed_step [OF i, of c] by (auto simp: returns_iff)
  moreover have "printable u" using feed_printable [OF Cons.prems, of c] u(1) by simp
  ultimately have d: "drawable u" by (simp add: drawable_def)
  from Cons.IH [OF d] show ?case using u by (auto elim!: returns_mono intro: tracks_trans)
qed simp

subsection \<open>The rounds of the task\<close>

lemma lcd_start_spec:
  assumes "gfx_ok g" "panel_ok set_pixels pixel_of"
  shows "exact g pixel_of (lcd_start g set_pixels d)" "terminal_of (lcd_start g set_pixels d) = term_new"
proof -
  show t: "terminal_of (lcd_start g set_pixels d) = term_new"
    by (simp add: lcd_start_def zeroed_terminal_def term_new_def Let_def)
  have "row_text term_new r = []" if "r < 11" for r using that by (simp add: row_text_def term_new_def)
  then have "\<not> (\<exists>r < 11. ink g (row_text term_new r) r i)" for i using ink_Nil [OF assms(1)] by auto
  then have "pix g term_new i = to_raw g (BLACK g)" for i unfolding pix_def by (simp only: if_False)
  moreover have "drawable term_new" by (simp add: drawable_def) (simp add: printable_def term_new_def)
  moreover have "length (replicate 55040 (0 :: u16)) = 55040" by simp
  note fb = fb_clear_spec [OF assms(1) this, where c = "BLACK g"]
  ultimately show "exact g pixel_of (lcd_start g set_pixels d)"
    using t fb flush_full_spec [OF assms(2) fb(1)] by (simp add: exact_def) (simp add: lcd_start_def Let_def)
qed

text \<open>A round takes the first 128 pending bytes to the terminal and keeps the picture exact.\<close>

lemma lcd_round_feeds:
  assumes "gfx_ok g" "panel_ok set_pixels pixel_of" "char_ring_inv r" "exact g pixel_of l"
  shows "returns (\<lambda>(n, r', l'). n = (if pending r = [] then 50 else 10) \<and> char_ring_inv r' \<and> pending r' = drop 128 (pending r)
      \<and> exact g pixel_of l'
      \<and> (if pending r = [] then l' = l
         else returns (\<lambda>t. terminal_of l' = clear_dirty t) (term_feed_all (take 128 (pending r)) (terminal_of l))))
    (lcd_round g set_pixels (r, l))"
proof -
  let ?cs = "take 128 (pending r)"
  obtain r' where r': "char_ring_drain 128 r = Some (?cs, r')" "char_ring_inv r'" "pending r' = drop 128 (pending r)"
    using char_ring_drain_spec [OF assms(3), of 128] by (auto simp: returns_iff)
  show ?thesis
  proof (cases "pending r = []")
    case True
    then show ?thesis using r' assms(4) by (simp add: lcd_round_def)
  next
    case False
    have d: "drawable (terminal_of l)" using assms(4) by (simp add: exact_def)
    obtain t where t: "term_feed_all ?cs (terminal_of l) = Some t" "drawable t" "tracks (terminal_of l) t"
      using feed_all_drawable [OF d, of ?cs] by (auto simp: returns_iff)
    obtain l' where "refresh g set_pixels (l\<lparr>terminal_of := t\<rparr>) = Some l'" "exact g pixel_of l'" "terminal_of l' = clear_dirty t"
      using refresh_spec [OF assms(1,2,4) t(2,3)] by (auto simp: returns_iff)
    then show ?thesis using False r' t(1) by (simp add: lcd_round_def)
  qed
qed

lemma lcd_round_spec:
  assumes "gfx_ok g" "panel_ok set_pixels pixel_of" "char_ring_inv r" "exact g pixel_of l"
    and "window_on h (terminal_of l)" "0x0D \<notin> set (pending r)"
  shows "returns (\<lambda>(n, r', l'). n = (if pending r = [] then 50 else 10) \<and> char_ring_inv r' \<and> pending r' = drop 128 (pending r)
      \<and> exact g pixel_of l' \<and> window_on (fold hfeed (take 128 (pending r)) h) (terminal_of l'))
    (lcd_round g set_pixels (r, l))"
proof -
  let ?cs = "take 128 (pending r)"
  have cr: "0x0D \<notin> set ?cs" using assms(6) by (auto dest: in_set_takeD)
  have w: "window_on (fold hfeed ?cs h) (clear_dirty t)" if "term_feed_all ?cs (terminal_of l) = Some t" for t
    using window_feed_all [OF assms(5) cr] that
    by (simp add: window_on_def clear_dirty_def term_inv_def row_text_def)
  show ?thesis
    using lcd_round_feeds [OF assms(1-4)]
    by (rule returns_mono) (use w assms(5) in \<open>auto simp: returns_iff split: if_splits\<close>)
qed

lemma lcd_rounds_spec:
  assumes "gfx_ok g" "panel_ok set_pixels pixel_of"
  shows "char_ring_inv r \<Longrightarrow> exact g pixel_of l \<Longrightarrow> window_on h (terminal_of l) \<Longrightarrow> 0x0D \<notin> set (pending r) \<Longrightarrow>
    length (pending r) \<le> 128 * n \<Longrightarrow>
    returns (\<lambda>(r', l'). pending r' = [] \<and> exact g pixel_of l' \<and> window_on (fold hfeed (pending r) h) (terminal_of l'))
      (lcd_rounds n g set_pixels (r, l))"
proof (induction n arbitrary: r l h)
  case (Suc n)
  obtain k r' l' where s: "lcd_round g set_pixels (r, l) = Some (k, r', l')" "char_ring_inv r'" "pending r' = drop 128 (pending r)"
    "exact g pixel_of l'" "window_on (fold hfeed (take 128 (pending r)) h) (terminal_of l')"
    using lcd_round_spec [OF assms Suc.prems(1-4)] by (auto simp: returns_iff)
  have cr: "0x0D \<notin> set (pending r')" using Suc.prems(4) s(3) by (auto dest: in_set_dropD)
  have le: "length (pending r') \<le> 128 * n" using Suc.prems(5) s(3) by simp
  have split: "fold hfeed (pending r) h = fold hfeed (pending r') (fold hfeed (take 128 (pending r)) h)"
    unfolding s(3) by (simp flip: fold_append [THEN fun_cong, unfolded o_apply])
  show ?case using Suc.IH [OF s(2,4,5) cr le] s(1) by (simp add: split)
qed simp

subsection \<open>What the panel shows\<close>

text \<open>Concrete primitives: 16-bit colours, points in row-major order, a font of one dot per glyph and a
  panel that is a function from positions to colours.\<close>

definition demo_gfx :: "u16 gfx" where
  "demo_gfx = \<lparr>to_raw = id, of_raw = id, BLACK = 0, rgb = (\<lambda>_ _ _. 1),
     fb_index = (\<lambda>w h (x, y). if 0 \<le> x \<and> x < int w \<and> 0 \<le> y \<and> y < int h then Some (nat x + nat y * w) else None),
     fb_all = (\<lambda>w h. [0..<w * h]),
     rect = (\<lambda>(x, y) (w, h). List.product [x..x + int w - 1] [y..y + int h - 1]),
     text_draw = (\<lambda>f. f), glyph_of = id,
     font_image = (\<lambda>_ (w, h). if 0 < w \<and> 0 < h then [((0, 0), True)] else [])\<rparr>"

definition demo_panel :: "(u16, nat \<Rightarrow> nat \<Rightarrow> u16) panel" where
  "demo_panel x0 y0 x1 y1 cs d = (\<lambda>x y. if unat x0 \<le> x \<and> x \<le> unat x1 \<and> unat y0 \<le> y \<and> y \<le> unat y1
     then cs ! ((y - unat y0) * (unat x1 - unat x0 + 1) + (x - unat x0)) else d x y)"

lemma demo_ok: "gfx_ok demo_gfx" "panel_ok demo_panel (\<lambda>d. d)"
  by (auto simp: gfx_ok_def demo_gfx_def image_ok_def in_box_def split: if_splits) (simp add: panel_ok_def demo_panel_def)

text \<open>C16. The refresh of the dirty rows is equivalent to the full one: on a panel and a frame buffer
  that show the terminal exactly, and after any bytes fed to it, rendering and transferring only the
  dirty rows gives the frame buffer that the full rendering gives and leaves the same image on the panel.\<close>

theorem refresh_strategies_agree:
  assumes "gfx_ok g" "panel_ok set_pixels pixel_of" "exact g pixel_of l"
    and "term_feed_all cs (terminal_of l) = Some t"
  shows "returns (\<lambda>fb. mirrors g pixel_of fb (flush_full g set_pixels fb (display l))
      \<and> returns (\<lambda>(fb', d). fb' = fb \<and> mirrors g pixel_of fb d)
          (refresh_rows g set_pixels [0..<TERM_ROWS] t (fb_data l) (display l)))
    (render_full g t (fb_data l))"
proof -
  have old: "drawable (terminal_of l)" and m: "mirrors g pixel_of (fb_data l) (display l)"
    and len: "length (fb_data l) = 55040"
    using assms(3) by (auto simp: exact_def mirrors_def)
  have new: "drawable t" "tracks (terminal_of l) t" using feed_all_drawable [OF old, of cs] assms(4) by simp_all
  obtain fb where fb: "render_full g t (fb_data l) = Some fb" "length fb = 55040" "\<forall>i < 55040. fb ! i = pix g t i"
    using render_full_spec [OF assms(1) new(1) len] by (auto simp: returns_iff)
  have "returns (\<lambda>(fb', d). fb' = fb \<and> mirrors g pixel_of fb d)
      (refresh_rows g set_pixels [0..<TERM_ROWS] t (fb_data l) (display l))"
    using refresh_all_rows [OF assms(1-3) new]
  proof (rule returns_mono, unfold split_paired_all split_conv)
    fix fb' d assume a: "mirrors g pixel_of fb' d \<and> (\<forall>i < 55040. fb' ! i = pix g t i)"
    then have "length fb' = 55040" by (simp add: mirrors_def)
    then have "fb' = fb" using fb(2,3) a by (intro nth_equalityI) simp_all
    then show "fb' = fb \<and> mirrors g pixel_of fb d" using a by simp
  qed
  then show ?thesis using fb(1) flush_full_spec [OF assms(2) fb(2)] by simp
qed

theorem refresh_strategies_agree_witness:
  "returns (\<lambda>fb. mirrors demo_gfx (\<lambda>d. d) fb (flush_full demo_gfx demo_panel fb (display (lcd_start demo_gfx demo_panel (\<lambda>_ _. 7))))
      \<and> returns (\<lambda>(fb', d). fb' = fb \<and> mirrors demo_gfx (\<lambda>d. d) fb d)
          (refresh_rows demo_gfx demo_panel [0..<TERM_ROWS] (the (term_feed_all [0x61] term_new)) (fb_data (lcd_start demo_gfx demo_panel (\<lambda>_ _. 7)))
            (display (lcd_start demo_gfx demo_panel (\<lambda>_ _. 7)))))
    (render_full demo_gfx (the (term_feed_all [0x61] term_new)) (fb_data (lcd_start demo_gfx demo_panel (\<lambda>_ _. 7))))"
proof -
  note s = lcd_start_spec [OF demo_ok, of "\<lambda>_ _. 7"]
  have t: "term_feed_all [0x61] (terminal_of (lcd_start demo_gfx demo_panel (\<lambda>_ _. 7))) = Some (the (term_feed_all [0x61] term_new))"
    using feed_all_step [OF term_new_inv, of "[0x61]"] s(2) by (auto simp: returns_iff)
  show ?thesis by (rule refresh_strategies_agree [OF demo_ok s(1) t])
qed

text \<open>C17. Printed text reaches the panel: text of at most 2048 bytes without carriage returns, printed
  through the character ring before the task runs, is shown after one round per 128 bytes: the ring is
  empty, the terminal is the window on the text's last lines, and the frame buffer and every pixel of
  the panel show exactly that terminal.\<close>

theorem printed_text_reaches_panel:
  assumes "gfx_ok g" "panel_ok set_pixels pixel_of" "0x0D \<notin> set cs" "length cs \<le> 2048" "length cs \<le> 128 * n"
  shows "returns (\<lambda>(r, l). pending r = [] \<and> window_on (fold hfeed cs [[]]) (terminal_of l) \<and> exact g pixel_of l)
    (do { r \<leftarrow> lcd_write cs char_ring_new; lcd_rounds n g set_pixels (r, lcd_start g set_pixels d) })"
proof -
  obtain r where r: "lcd_write cs char_ring_new = Some r" "char_ring_inv r" "pending r = cs"
    using lcd_write_spec [of char_ring_new cs] assms(4) by (auto simp: returns_iff)
  note s = lcd_start_spec [OF assms(1,2), of d]
  have "window_on [[]] (terminal_of (lcd_start g set_pixels d))" using window_new s(2) by simp
  from lcd_rounds_spec [OF assms(1,2) r(2) s(1) this, of n] show ?thesis
    using r assms(3,5) by (auto elim!: returns_mono)
qed

theorem printed_text_reaches_panel_witness:
  "returns (\<lambda>(r, l). pending r = [] \<and> window_on [[0x61], [0x62]] (terminal_of l) \<and> exact demo_gfx (\<lambda>d. d) l)
    (do { r \<leftarrow> lcd_write [0x61, 0x0A, 0x62] char_ring_new;
          lcd_rounds 1 demo_gfx demo_panel (r, lcd_start demo_gfx demo_panel (\<lambda>_ _. 7)) })"
  using printed_text_reaches_panel [OF demo_ok, of "[0x61, 0x0A, 0x62]" 1 "\<lambda>_ _. 7"]
  by (simp add: hfeed_def hput_def)

end
