(* ===== verification/Mos_Shell.thy ===== *)
theory Mos_Shell
  imports Mos_Lcd Mos_Print Mos_Task
begin

section \<open>The shell\<close>

text \<open>
  \<open>boards/esp32c6/src/shell.rs\<close>: the ring of input bytes that the BLE callback fills, the line editor,
  the command table with its matching, and the built-in commands, which read and change the kernel's
  state and print to the character ring of the LCD. The printing macros write the formatted text, here
  a concatenation of strings. A command is one step: between the critical sections inside it (the
  look-up of a name and the call on the task, say) other tasks may run on the device.
\<close>

definition MOS_USER_NAME :: string where "MOS_USER_NAME = ''neo''"
definition MOS_VERSION :: string where "MOS_VERSION = ''v0.5(esp32c6_rust)''"
definition MOS_ARCH :: string where "MOS_ARCH = ''RISC-V (rv32imac)''"
definition MOS_MCU :: string where "MOS_MCU = ''ESP32-C6''"

definition INPUT_BUF_SIZE :: nat where [simp]: "INPUT_BUF_SIZE = 256"

subsection \<open>The input ring\<close>

record input_ring =
  ir_buf :: "u8 list"
  ir_head :: nat
  ir_tail :: nat
  ir_len :: nat

definition input_ring_new :: input_ring where
  "input_ring_new = \<lparr>ir_buf = replicate INPUT_BUF_SIZE 0, ir_head = 0, ir_tail = 0, ir_len = 0\<rparr>"

definition input_ring_push :: "u8 \<Rightarrow> input_ring \<Rightarrow> input_ring option" where
  "input_ring_push c r =
     (if ir_len r < INPUT_BUF_SIZE then do {
        b \<leftarrow> array_set (ir_buf r) (ir_tail r) c;
        Some (r\<lparr>ir_buf := b, ir_tail := (ir_tail r + 1) mod INPUT_BUF_SIZE, ir_len := ir_len r + 1\<rparr>) }
      else Some r)"

definition input_ring_pop :: "input_ring \<Rightarrow> (u8 option \<times> input_ring) option" where
  "input_ring_pop r =
     (if ir_len r = 0 then Some (None, r)
      else do {
        c \<leftarrow> array_get (ir_buf r) (ir_head r);
        Some (Some c, r\<lparr>ir_head := (ir_head r + 1) mod INPUT_BUF_SIZE, ir_len := ir_len r - 1\<rparr>) })"

text \<open>The loop over the bytes and the final line feed.\<close>

definition shell_push_input :: "u8 list \<Rightarrow> input_ring \<Rightarrow> input_ring option" where
  "shell_push_input data r = do { r \<leftarrow> push_list input_ring_push data r; input_ring_push 0x0A r }"

subsection \<open>The shell's state and its output\<close>

record line_editor =
  ed_buf :: "u8 list"
  ed_len :: nat

definition line_editor_new :: line_editor where
  "line_editor_new = \<lparr>ed_buf = replicate SHELL_BUF_SIZE 0, ed_len = 0\<rparr>"

record shell =
  in_ring :: input_ring
  console :: char_ring
  editor :: line_editor
  kern :: kernel

text \<open>A command returns, or resets the board and does not return.\<close>

datatype outcome = Returned shell | Rebooted shell

abbreviation nl :: string where "nl \<equiv> [CHR 0x0A]"
abbreviation quote :: string where "quote \<equiv> [CHR 0x27]"

text \<open>\<open>LcdWriter\<close> and \<open>_lcd_print\<close>: the formatter's pieces, one after the other, into the ring.\<close>

definition lcd_write_str :: "string \<Rightarrow> char_ring \<Rightarrow> (bool \<times> char_ring) option" where
  "lcd_write_str s r = do { r \<leftarrow> lcd_write (to_bytes s) r; Some (True, r) }"

definition lcd_print :: "arguments \<Rightarrow> char_ring \<Rightarrow> char_ring option" where
  "lcd_print args r = do { (_, r) \<leftarrow> write_fmt lcd_write_str args r; Some r }"

text \<open>The macros; the text is here the concatenation of its pieces (\<open>lprint_pieces\<close> below).\<close>

definition lprint :: "string \<Rightarrow> shell \<Rightarrow> shell option" where
  "lprint s st = do { r \<leftarrow> lcd_write (to_bytes s) (console st); Some (st\<lparr>console := r\<rparr>) }"

definition lprintln :: "string \<Rightarrow> shell \<Rightarrow> shell option" where
  "lprintln s st = do { st \<leftarrow> lprint s st; lprint nl st }"

subsection \<open>Command matching\<close>

datatype callback = LsCmd | KillCmd | BlockCmd | ResumeCmd | HelpCmd | TimeCmd | UnameCmd | RebootCmd

definition try_match :: "string \<Rightarrow> string \<Rightarrow> string option" where
  "try_match cmd_text input =
     (let input = trim_start input
      in if starts_with input cmd_text
         then let rest = drop (length cmd_text) input
              in if rest = [] \<or> starts_with rest '' '' then Some (trim_start rest) else None
         else None)"

definition SYS_CMD_MAP :: "(string \<times> callback) list" where
  "SYS_CMD_MAP = [(''ls'', LsCmd), (''kill'', KillCmd), (''block'', BlockCmd), (''resume'', ResumeCmd),
     (''help'', HelpCmd), (''time'', TimeCmd), (''uname'', UnameCmd), (''reboot'', RebootCmd)]"

fun find_cmd :: "(string \<times> callback) list \<Rightarrow> string \<Rightarrow> (callback \<times> string) option" where
  "find_cmd [] line = None"
| "find_cmd ((cmd_text, cb) # cmds) line =
     (case try_match cmd_text line of Some argv \<Rightarrow> Some (cb, argv) | None \<Rightarrow> find_cmd cmds line)"

subsection \<open>Commands\<close>

definition bad_argv :: "shell \<Rightarrow> shell option" where
  "bad_argv = lprintln ''[MOS] Invalid Arguments''"

definition task_ctrl_cmd :: "string \<Rightarrow> (nat \<Rightarrow> shell \<Rightarrow> shell option) \<Rightarrow> (shell \<Rightarrow> shell option) \<Rightarrow> shell \<Rightarrow> shell option" where
  "task_ctrl_cmd argv ok err st =
     (let name = trim argv
      in if name = [] then err st
         else case task_find_tid name (kern st) of
             Some tid \<Rightarrow> ok tid st
           | None \<Rightarrow> lprintln (''[MOS] Unknown task '' @ quote @ name @ quote) st)"

definition saturating_add :: "u32 \<Rightarrow> u32 \<Rightarrow> u32" where
  "saturating_add a b = (if unat a + unat b < 2 ^ 32 then a + b else - 1)"

definition saturating_sub :: "u32 \<Rightarrow> u32 \<Rightarrow> u32" where
  "saturating_sub a b = (if b \<le> a then a - b else 0)"

definition stack_pct :: "tcb \<Rightarrow> u32" where
  "stack_pct t =
     (let stack_top = saturating_add (stack_bottom t) (of_nat PAGE_SIZE_WORDS * 4);
          used_words = saturating_sub stack_top (sp t) div 4
      in min (used_words * 100 div of_nat PAGE_SIZE_WORDS) 100)"

definition ls_line :: "nat \<Rightarrow> tcb \<Rightarrow> string" where
  "ls_line tid t = pad_left 3 (decimal tid) @ '' '' @ pad_right 10 (tname t) @ '' ''
     @ pad_left 3 (decimal (unat (priority t))) @ '' '' @ pad_left 8 (status_text (status t)) @ '' ''
     @ pad_left 4 (decimal (unat (stack_pct t))) @ ''%''"

fun ls_tasks :: "nat list \<Rightarrow> shell \<Rightarrow> shell option" where
  "ls_tasks [] st = Some st"
| "ls_tasks (tid # tids) st = do {
     t \<leftarrow> tcb_at (kern st) tid;
     if status t = Terminated then ls_tasks tids st
     else do { st \<leftarrow> lprintln (ls_line tid t) st; ls_tasks tids st } }"

definition ls_cmd :: "string \<Rightarrow> shell \<Rightarrow> shell option" where
  "ls_cmd argv st = do {
     st \<leftarrow> lprintln (pad_left 3 ''ID'' @ '' '' @ pad_right 10 ''Name'' @ '' '' @ pad_left 3 ''PRI'' @ '' ''
        @ pad_left 8 ''Status'' @ '' '' @ pad_left 5 ''Stack'') st;
     st \<leftarrow> lprintln ''--- ---------- --- -------- -----'' st;
     st \<leftarrow> ls_tasks [0..<TASK_MAX] st;
     lprintln ''----------------------------------'' st }"

definition on_task :: "string \<Rightarrow> (nat \<Rightarrow> kernel \<Rightarrow> kernel option) \<Rightarrow> nat \<Rightarrow> shell \<Rightarrow> shell option" where
  "on_task what call tid st = do {
     t \<leftarrow> tcb_at (kern st) tid;
     st \<leftarrow> lprintln (''[MOS] Task '' @ quote @ tname t @ quote @ '' '' @ what) st;
     k \<leftarrow> call tid (kern st);
     Some (st\<lparr>kern := k\<rparr>) }"

definition kill_cmd :: "string \<Rightarrow> shell \<Rightarrow> shell option" where
  "kill_cmd argv = task_ctrl_cmd argv (on_task ''terminated'' task_terminate) bad_argv"

definition block_cmd :: "string \<Rightarrow> shell \<Rightarrow> shell option" where
  "block_cmd argv = task_ctrl_cmd argv (on_task ''blocked'' task_block) bad_argv"

definition resume_cmd :: "string \<Rightarrow> shell \<Rightarrow> shell option" where
  "resume_cmd argv = task_ctrl_cmd argv (on_task ''resumed'' task_resume) bad_argv"

fun print_names :: "(string \<times> callback) list \<Rightarrow> shell \<Rightarrow> shell option" where
  "print_names [] st = Some st"
| "print_names (cmd # cmds) st = do { st \<leftarrow> lprint (fst cmd @ '', '') st; print_names cmds st }"

definition help_cmd :: "string \<Rightarrow> shell \<Rightarrow> shell option" where
  "help_cmd argv st = do { st \<leftarrow> print_names SYS_CMD_MAP st; lprint nl st }"

definition uptime :: "kernel \<Rightarrow> u32 \<times> u32 \<times> u32" where
  "uptime k = (let up_secs = os_ticks k div SYSTICK_HZ
     in (up_secs div 3600, (up_secs mod 3600) div 60, up_secs mod 60))"

definition time_cmd :: "string \<Rightarrow> shell \<Rightarrow> shell option" where
  "time_cmd argv st =
     (let (h, m, s) = uptime (kern st)
      in lprintln (''========= Uptime: '' @ zero_pad 2 (decimal (unat h)) @ '':'' @ zero_pad 2 (decimal (unat m)) @ '':''
           @ zero_pad 2 (decimal (unat s)) @ '' ========='') st)"

text \<open>The copy into \<open>USER_NAME\<close>: at most 7 bytes, the rest zeroed.\<close>

definition set_user_name :: "u8 list \<Rightarrow> kernel \<Rightarrow> kernel" where
  "set_user_name bytes k =
     (let copy_len = min (length bytes) (USER_NAME_SIZE - 1)
      in k\<lparr>USER_NAME := take copy_len bytes @ replicate (USER_NAME_SIZE - copy_len) 0\<rparr>)"

definition user_name :: "kernel \<Rightarrow> string" where
  "user_name k = trim_end_matches (CHR 0x00) (case from_utf8 (USER_NAME k) of Some s \<Rightarrow> s | None \<Rightarrow> MOS_USER_NAME)"

definition uname_cmd :: "string \<Rightarrow> shell \<Rightarrow> shell option" where
  "uname_cmd argv st = do {
     let new_name = trim argv;
     st \<leftarrow> (if new_name \<noteq> []
       then lprintln (''[MOS] User Name => '' @ new_name) (st\<lparr>kern := set_user_name (to_bytes new_name) (kern st)\<rparr>)
       else Some st);
     let name_str = user_name (kern st);
     st \<leftarrow> lprintln ('' A_A       _  ['' @ name_str @ ''] @ '' @ MOS_VERSION) st;
     st \<leftarrow> lprintln (''o'' @ quote @ quote @ '' )_____//  Arch  @ '' @ MOS_ARCH) st;
     st \<leftarrow> lprintln ('' `_/  MOS  )  Chip  @ '' @ MOS_MCU) st;
     lprintln '' (_(_/--(_/   2023-2026 Copyright by Eplankton'' st }"

definition reboot_cmd :: "string \<Rightarrow> shell \<Rightarrow> outcome option" where
  "reboot_cmd argv st = do { st \<leftarrow> lprintln ''[MOS] Reboot!'' st; Some (Rebooted st) }"

fun run_callback :: "callback \<Rightarrow> string \<Rightarrow> shell \<Rightarrow> outcome option" where
  "run_callback LsCmd argv st = map_option Returned (ls_cmd argv st)"
| "run_callback KillCmd argv st = map_option Returned (kill_cmd argv st)"
| "run_callback BlockCmd argv st = map_option Returned (block_cmd argv st)"
| "run_callback ResumeCmd argv st = map_option Returned (resume_cmd argv st)"
| "run_callback HelpCmd argv st = map_option Returned (help_cmd argv st)"
| "run_callback TimeCmd argv st = map_option Returned (time_cmd argv st)"
| "run_callback UnameCmd argv st = map_option Returned (uname_cmd argv st)"
| "run_callback RebootCmd argv st = reboot_cmd argv st"

definition parse_and_run :: "string \<Rightarrow> shell \<Rightarrow> outcome option" where
  "parse_and_run line st = do {
     st \<leftarrow> lprintln (''> '' @ line) st;
     if trim line = [] then Some (Returned st)
     else case find_cmd SYS_CMD_MAP line of
         Some (cb, argv) \<Rightarrow> run_callback cb argv st
       | None \<Rightarrow> map_option Returned (lprintln (''[MOS] Unknown command '' @ quote @ trim line @ quote) st) }"

subsection \<open>The line editor and the loop of the task\<close>

definition editor_feed :: "u8 \<Rightarrow> shell \<Rightarrow> outcome option" where
  "editor_feed c st =
     (let e = editor st
      in if c = 0x0D \<or> c = 0x0A then do {
           bytes \<leftarrow> slice_to (ed_len e) (ed_buf e);
           out \<leftarrow> (case from_utf8 bytes of Some line \<Rightarrow> parse_and_run (trim line) st | None \<Rightarrow> Some (Returned st));
           Some (case out of Returned st \<Rightarrow> Returned (st\<lparr>editor := (editor st)\<lparr>ed_len := 0\<rparr>\<rparr>) | Rebooted st \<Rightarrow> Rebooted st) }
         else if c = 0x08 \<or> c = 0x7F then
           Some (Returned (if 0 < ed_len e then st\<lparr>editor := e\<lparr>ed_len := ed_len e - 1\<rparr>\<rparr> else st))
         else if 0x20 \<le> c \<and> ed_len e < SHELL_BUF_SIZE - 1 then do {
           b \<leftarrow> array_set (ed_buf e) (ed_len e) c;
           Some (Returned (st\<lparr>editor := e\<lparr>ed_buf := b, ed_len := ed_len e + 1\<rparr>\<rparr>)) }
         else Some (Returned st))"

definition shell_start :: "shell \<Rightarrow> shell option" where
  "shell_start st = do {
     st \<leftarrow> uname_cmd '''' (st\<lparr>editor := line_editor_new\<rparr>);
     ls_cmd '''' st }"

text \<open>One round of \<open>launch\<close>: a byte for the editor, or a delay of 10 ticks.\<close>

definition shell_step :: "shell \<Rightarrow> outcome option" where
  "shell_step st = do {
     (c, r) \<leftarrow> input_ring_pop (in_ring st);
     let st = st\<lparr>in_ring := r\<rparr>;
     case c of
       Some c \<Rightarrow> editor_feed c st
     | None \<Rightarrow> do { k \<leftarrow> task_delay 10 (kern st); Some (Returned (st\<lparr>kern := k\<rparr>)) } }"

fun shell_steps :: "nat \<Rightarrow> shell \<Rightarrow> outcome option" where
  "shell_steps 0 st = Some (Returned st)"
| "shell_steps (Suc n) st = do {
     out \<leftarrow> shell_step st;
     (case out of Returned st \<Rightarrow> shell_steps n st | Rebooted st \<Rightarrow> Some (Rebooted st)) }"

subsection \<open>The input ring is a bounded queue\<close>

definition input_inv :: "input_ring \<Rightarrow> bool" where
  "input_inv r \<longleftrightarrow> length (ir_buf r) = INPUT_BUF_SIZE \<and> ir_head r < INPUT_BUF_SIZE \<and> ir_len r \<le> INPUT_BUF_SIZE
     \<and> ir_tail r = (ir_head r + ir_len r) mod INPUT_BUF_SIZE"

definition typed :: "input_ring \<Rightarrow> u8 list" where
  "typed r = ring_contents (ir_buf r) (ir_head r) (ir_len r)"

lemma input_ring_new_inv [simp]: "input_inv input_ring_new" "typed input_ring_new = []"
  by (simp_all add: input_inv_def input_ring_new_def typed_def)

interpretation inputs: bounded_fifo "\<lambda>_. INPUT_BUF_SIZE" typed input_inv input_ring_push input_ring_pop
proof
  fix r :: input_ring and x :: u8 and xs
  assume i: "input_inv r"
  show "length (typed r) \<le> INPUT_BUF_SIZE" using i by (simp add: input_inv_def typed_def)
  show "returns (\<lambda>q'. input_inv q' \<and> INPUT_BUF_SIZE = INPUT_BUF_SIZE
      \<and> typed q' = (if length (typed r) < INPUT_BUF_SIZE then typed r @ [x] else typed r)) (input_ring_push x r)"
    using i ring_contents_push [of "ir_len r" "ir_buf r" "ir_head r" x] ring_tail_push [of "ir_head r" "ir_len r" INPUT_BUF_SIZE]
    by (auto simp: input_ring_push_def array_set_def input_inv_def typed_def)
  show "typed r = [] \<Longrightarrow> input_ring_pop r = Some (None, r)"
    by (simp add: typed_def ring_contents_def input_ring_pop_def)
  show "typed r = x # xs \<Longrightarrow> returns (\<lambda>(y, q'). y = Some x \<and> input_inv q' \<and> INPUT_BUF_SIZE = INPUT_BUF_SIZE \<and> typed q' = xs) (input_ring_pop r)"
  proof -
    assume t: "typed r = x # xs"
    then have n: "0 < ir_len r" by (cases "ir_len r") (simp_all add: typed_def)
    then show ?thesis
      using i t ring_contents_pop [of "ir_len r" "ir_head r" "ir_buf r"] ring_tail_pop [OF n, of "ir_head r" INPUT_BUF_SIZE]
      by (auto simp: input_ring_pop_def array_get_def input_inv_def typed_def)
  qed
qed

lemma shell_push_input_spec:
  assumes "input_inv r" "length (typed r) + length data < 256"
  shows "returns (\<lambda>r'. input_inv r' \<and> typed r' = typed r @ data @ [0x0A]) (shell_push_input data r)"
proof -
  obtain u where u: "push_list input_ring_push data r = Some u" "input_inv u" "typed u = typed r @ data"
    using inputs.push_list_contents [OF assms(1), of data] assms(2) by (auto simp: returns_iff)
  then show ?thesis using inputs.push_law [OF u(2), of "0x0A"] assms(2) by (auto simp: shell_push_input_def elim!: returns_mono)
qed

lemma shell_push_input_keeps:
  assumes "input_inv r"
  shows "returns input_inv (shell_push_input data r)"
proof -
  obtain u where "push_list input_ring_push data r = Some u" "input_inv u"
    using inputs.push_list_contents [OF assms, of data] by (auto simp: returns_iff)
  moreover from this have "returns input_inv (input_ring_push 0x0A u)"
    using inputs.push_law [of u "0x0A"] by (auto elim!: returns_mono)
  ultimately show ?thesis by (simp add: shell_push_input_def)
qed

text \<open>The line feed is dropped when the data fills the ring: the line then waits for the next one.\<close>

lemma line_feed_lost:
  assumes "input_inv r" "256 \<le> length (typed r) + length data"
  shows "returns (\<lambda>r'. input_inv r' \<and> typed r' = typed r @ take (256 - length (typed r)) data) (shell_push_input data r)"
proof -
  obtain u where u: "push_list input_ring_push data r = Some u" "input_inv u" "typed u = typed r @ take (256 - length (typed r)) data"
    using inputs.push_list_contents [OF assms(1), of data] by (auto simp: returns_iff)
  have "length (typed r) \<le> 256" using inputs.length_le_cap [OF assms(1)] by simp
  then have "length (typed u) = 256" using u(3) assms(2) by simp
  then show ?thesis using inputs.push_law [OF u(2), of "0x0A"] u by (auto simp: shell_push_input_def elim!: returns_mono)
qed

subsection \<open>Printing\<close>

text \<open>A state after printing: only the ring has changed, by what still fitted of the text.\<close>

definition printed :: "string \<Rightarrow> shell \<Rightarrow> shell \<Rightarrow> bool" where
  "printed s st st' \<longleftrightarrow> st' = st\<lparr>console := console st'\<rparr> \<and> char_ring_inv (console st')
     \<and> pending (console st') = take 2048 (pending (console st) @ to_bytes s)"

lemma printed_fields:
  assumes "printed s st st'"
  shows "kern st' = kern st" "editor st' = editor st" "in_ring st' = in_ring st" "char_ring_inv (console st')"
proof -
  have e: "st' = st\<lparr>console := console st'\<rparr>" using assms by (simp add: printed_def)
  show "kern st' = kern st" "editor st' = editor st" "in_ring st' = in_ring st" by (subst e, simp)+
  show "char_ring_inv (console st')" using assms by (simp add: printed_def)
qed

interpretation lcd_text: text_writer lcd_write_str pending char_ring_inv 2048
proof
  fix r s assume "char_ring_inv r"
  then show "returns (\<lambda>(e, r'). e \<and> char_ring_inv r' \<and> pending r' = take 2048 (pending r @ to_bytes s)) (lcd_write_str s r)"
    using lcd_write_spec [of r "to_bytes s"] by (auto simp: lcd_write_str_def elim!: returns_mono)
qed (simp add: char_ring_inv_def pending_def)

lemma lcd_write_append: "lcd_write (xs @ ys) r = do { r \<leftarrow> lcd_write xs r; lcd_write ys r }"
proof (induction xs arbitrary: r)
  case (Cons x xs)
  then show ?case by (cases "lcd_putchar x r") simp_all
qed simp

text \<open>Formatting in pieces is printing the whole text.\<close>

lemma lcd_print_pieces: "lcd_print args r = lcd_write (to_bytes (concat args)) r"
proof -
  have "write_fmt lcd_write_str args r = map_option (Pair True) (lcd_write (to_bytes (concat args)) r)"
  proof (induction args arbitrary: r)
    case (Cons s args)
    show ?case
      using Cons.IH by (cases "lcd_write (to_bytes s) r") (simp_all add: lcd_write_str_def lcd_write_append to_bytes_def)
  qed (simp add: to_bytes_def)
  then show ?thesis by (cases "lcd_write (to_bytes (concat args)) r") (simp_all add: lcd_print_def)
qed

lemma lprint_pieces: "do { r \<leftarrow> lcd_print args (console st); Some (st\<lparr>console := r\<rparr>) } = lprint (concat args) st"
  by (simp add: lcd_print_pieces lprint_def)

lemma take_append_take: "take n (take n xs @ ys) = take n (xs @ ys)"
  by (simp add: min_def)

lemma printed_trans:
  assumes "printed s st u" "printed s' u v"
  shows "printed (s @ s') st v"
proof -
  have "v = u\<lparr>console := console v\<rparr>" "u = st\<lparr>console := console u\<rparr>" using assms by (simp_all add: printed_def)
  then have "v = st\<lparr>console := console v\<rparr>" by (metis shell.update_convs(2) shell.surjective)
  moreover have "pending (console v) = take 2048 (pending (console st) @ to_bytes (s @ s'))"
    using assms take_append_take [of 2048 "pending (console st) @ to_bytes s" "to_bytes s'"]
    by (simp add: printed_def to_bytes_def)
  ultimately show ?thesis using assms(2) by (simp add: printed_def)
qed

lemma lprint_spec: "char_ring_inv (console st) \<Longrightarrow> returns (printed s st) (lprint s st)"
  using lcd_write_spec [of "console st" "to_bytes s"]
  by (auto simp: lprint_def printed_def elim!: returns_mono)

lemma returns_printed_bind:
  assumes "returns (printed s st) m" "\<And>u. printed s st u \<Longrightarrow> returns (printed s' u) (f u)"
  shows "returns (printed (s @ s') st) (m \<bind> f)"
proof -
  obtain u where u: "m = Some u" "printed s st u" using assms(1) by (auto simp: returns_iff)
  from assms(2) [OF u(2)] show ?thesis using u by (auto elim!: returns_mono intro: printed_trans)
qed

lemma lprintln_spec: "char_ring_inv (console st) \<Longrightarrow> returns (printed (s @ nl) st) (lprintln s st)"
  unfolding lprintln_def by (rule returns_printed_bind [OF lprint_spec]) (auto intro: lprint_spec dest: printed_fields(4))

subsection \<open>What the commands print\<close>

definition ls_text :: "kernel \<Rightarrow> nat list \<Rightarrow> string" where
  "ls_text k tids = concat (map (\<lambda>tid. if status (TCBS k tid) = Terminated then [] else ls_line tid (TCBS k tid) @ nl) tids)"

lemma printed_refl: "char_ring_inv (console st) \<Longrightarrow> printed [] st st"
  by (simp add: printed_def to_bytes_def char_ring_inv_def pending_def)

lemma ls_tasks_spec:
  "char_ring_inv (console st) \<Longrightarrow> set tids \<subseteq> {..<TASK_MAX} \<Longrightarrow> returns (printed (ls_text (kern st) tids) st) (ls_tasks tids st)"
proof (induction tids arbitrary: st)
  case Nil
  then show ?case by (simp add: ls_text_def printed_refl)
next
  case (Cons tid tids)
  have t: "tcb_at (kern st) tid = Some (TCBS (kern st) tid)" using Cons.prems(2) by (simp add: tcb_at_def)
  show ?case
  proof (cases "status (TCBS (kern st) tid) = Terminated")
    case True
    then show ?thesis using Cons t by (simp add: ls_text_def)
  next
    case False
    have "returns (printed ((ls_line tid (TCBS (kern st) tid) @ nl) @ ls_text (kern st) tids) st)
        (lprintln (ls_line tid (TCBS (kern st) tid)) st \<bind> ls_tasks tids)"
    proof (rule returns_printed_bind [OF lprintln_spec [OF Cons.prems(1)]])
      fix u assume u: "printed (ls_line tid (TCBS (kern st) tid) @ nl) st u"
      show "returns (printed (ls_text (kern st) tids) u) (ls_tasks tids u)"
        using Cons.IH [of u] Cons.prems(2) printed_fields [OF u] by simp
    qed
    then show ?thesis using t False by (simp add: ls_text_def)
  qed
qed

lemma print_names_spec:
  "char_ring_inv (console st) \<Longrightarrow> returns (printed (concat (map (\<lambda>c. fst c @ '', '') cmds)) st) (print_names cmds st)"
proof (induction cmds arbitrary: st)
  case (Cons cmd cmds)
  have "returns (printed ((fst cmd @ '', '') @ concat (map (\<lambda>c. fst c @ '', '') cmds)) st) (lprint (fst cmd @ '', '') st \<bind> print_names cmds)"
    by (rule returns_printed_bind [OF lprint_spec [OF Cons.prems]]) (rule Cons.IH, rule printed_fields)
  then show ?case by simp
qed (simp add: printed_refl)

text \<open>A run of lines.\<close>

lemma lprintln_bind:
  assumes "char_ring_inv (console st)"
    and "\<And>u. printed (s @ nl) st u \<Longrightarrow> char_ring_inv (console u) \<Longrightarrow> returns (\<lambda>v. \<exists>s'. printed s' u v) (f u)"
  shows "returns (\<lambda>v. \<exists>s'. printed s' st v) (lprintln s st \<bind> f)"
proof -
  obtain u where u: "lprintln s st = Some u" "printed (s @ nl) st u"
    using lprintln_spec [OF assms(1)] by (auto simp: returns_iff)
  from assms(2) [OF u(2) printed_fields(4) [OF u(2)]] show ?thesis
    using u by (auto elim!: returns_mono intro: printed_trans)
qed

lemma lprintln_some: "char_ring_inv (console st) \<Longrightarrow> returns (\<lambda>v. \<exists>s'. printed s' st v) (lprintln s st)"
  using lprintln_spec by (rule returns_mono) auto

lemma ls_cmd_prints: "char_ring_inv (console st) \<Longrightarrow> returns (\<lambda>v. \<exists>s. printed s st v) (ls_cmd argv st)"
  unfolding ls_cmd_def
proof (intro lprintln_bind)
  fix u :: shell assume u: "char_ring_inv (console u)"
  have "returns (printed (ls_text (kern u) [0..<TASK_MAX]) u) (ls_tasks [0..<TASK_MAX] u)"
    by (rule ls_tasks_spec [OF u]) auto
  then obtain v where "ls_tasks [0..<TASK_MAX] u = Some v" "printed (ls_text (kern u) [0..<TASK_MAX]) u v"
    by (auto simp: returns_iff simp del: TASK_MAX_def)
  with lprintln_some [OF printed_fields(4)] show "returns (\<lambda>v. \<exists>s'. printed s' u v)
      (ls_tasks [0..<TASK_MAX] u \<bind> lprintln ''----------------------------------'')"
    by (fastforce elim!: returns_mono intro: printed_trans simp del: TASK_MAX_def)
qed

lemma help_cmd_prints: "char_ring_inv (console st) \<Longrightarrow> returns (\<lambda>v. \<exists>s. printed s st v) (help_cmd argv st)"
proof -
  assume c: "char_ring_inv (console st)"
  have "returns (printed (concat (map (\<lambda>c. fst c @ '', '') SYS_CMD_MAP) @ nl) st) (help_cmd argv st)"
    unfolding help_cmd_def
    by (rule returns_printed_bind [OF print_names_spec [OF c]]) (rule lprint_spec, rule printed_fields)
  then show ?thesis by (rule returns_mono) auto
qed

lemma uname_cmd_prints:
  assumes "char_ring_inv (console st)"
  shows "returns (\<lambda>v. \<exists>s. printed s (st\<lparr>kern := if trim argv = [] then kern st else set_user_name (to_bytes (trim argv)) (kern st)\<rparr>) v)
    (uname_cmd argv st)"
proof -
  let ?st = "st\<lparr>kern := if trim argv = [] then kern st else set_user_name (to_bytes (trim argv)) (kern st)\<rparr>"
  have logo: "returns (\<lambda>v. \<exists>s. printed s u v) (do {
      let name_str = user_name (kern u);
      st \<leftarrow> lprintln ('' A_A       _  ['' @ name_str @ ''] @ '' @ MOS_VERSION) u;
      st \<leftarrow> lprintln (''o'' @ quote @ quote @ '' )_____//  Arch  @ '' @ MOS_ARCH) st;
      st \<leftarrow> lprintln ('' `_/  MOS  )  Chip  @ '' @ MOS_MCU) st;
      lprintln '' (_(_/--(_/   2023-2026 Copyright by Eplankton'' st })" if "char_ring_inv (console u)" for u
    unfolding Let_def using that by (intro lprintln_bind lprintln_some)
  show ?thesis
  proof (cases "trim argv = []")
    case True
    have e: "?st = st" using True by simp
    show ?thesis unfolding e using logo [OF assms] True by (simp add: uname_cmd_def Let_def)
  next
    case False
    have "returns (\<lambda>v. \<exists>s. printed s ?st v) (lprintln (''[MOS] User Name => '' @ trim argv) ?st \<bind> (\<lambda>u. do {
      let name_str = user_name (kern u);
      st \<leftarrow> lprintln ('' A_A       _  ['' @ name_str @ ''] @ '' @ MOS_VERSION) u;
      st \<leftarrow> lprintln (''o'' @ quote @ quote @ '' )_____//  Arch  @ '' @ MOS_ARCH) st;
      st \<leftarrow> lprintln ('' `_/  MOS  )  Chip  @ '' @ MOS_MCU) st;
      lprintln '' (_(_/--(_/   2023-2026 Copyright by Eplankton'' st }))"
      by (rule lprintln_bind, simp add: assms, rule logo)
    then show ?thesis using False by (simp add: uname_cmd_def Let_def)
  qed
qed

subsection \<open>The shell's invariant\<close>

definition ed_inv :: "line_editor \<Rightarrow> bool" where
  "ed_inv e \<longleftrightarrow> length (ed_buf e) = 32 \<and> ed_len e \<le> 31"

definition shell_inv :: "nat \<Rightarrow> shell \<Rightarrow> bool" where
  "shell_inv i st \<longleftrightarrow> live_inv i (kern st) \<and> char_ring_inv (console st) \<and> input_inv (in_ring st) \<and> ed_inv (editor st)"

definition out_state :: "outcome \<Rightarrow> shell" where
  "out_state out = (case out of Returned st \<Rightarrow> st | Rebooted st \<Rightarrow> st)"

lemma out_state_simps [simp]: "out_state (Returned st) = st" "out_state (Rebooted st) = st"
  by (simp_all add: out_state_def)

lemma shell_inv_printed: "shell_inv i st \<Longrightarrow> printed s st st' \<Longrightarrow> shell_inv i st'"
  using printed_fields [of s st st'] by (simp add: shell_inv_def)

lemma shell_inv_kern: "shell_inv i st \<Longrightarrow> live_inv i k \<Longrightarrow> shell_inv i (st\<lparr>kern := k\<rparr>)"
  by (simp add: shell_inv_def)

lemma wf_user_name [simp]:
  "wf_lists (k\<lparr>USER_NAME := n\<rparr>) = wf_lists k" "wf_ids (k\<lparr>USER_NAME := n\<rparr>) = wf_ids k"
  "wf_current (k\<lparr>USER_NAME := n\<rparr>) = wf_current k"
  by (simp_all add: wf_lists_def wf_ids_def wf_current_def del: TASK_MAX_def)

lemma live_inv_user_name: "live_inv i (k\<lparr>USER_NAME := n\<rparr>) = live_inv i k"
  by (simp add: live_inv_def kernel_inv_def wf_kernel_def ready_sorted_def current_ready_def stacks_ok_def)

lemma find_tid_from_mem: "find_tid_from name tids k = Some t \<Longrightarrow> t \<in> set tids"
  by (induction tids) (auto split: if_splits)

lemma find_tid_less: "task_find_tid name k = Some t \<Longrightarrow> t < TASK_MAX"
  using find_tid_from_mem [of name "[0..<TASK_MAX]" k t] by (simp add: task_find_tid_def del: TASK_MAX_def)

lemma prints_keep:
  assumes "shell_inv i st" "returns (\<lambda>v. \<exists>s. printed s st v) m"
  shows "returns (shell_inv i) m"
  using assms(2) by (rule returns_mono) (use shell_inv_printed [OF assms(1)] in blast)

lemma task_ctrl_keeps:
  assumes inv: "shell_inv i st" and idle: "task_find_tid (trim argv) (kern st) \<noteq> Some i"
    and call: "\<And>t k. t < TASK_MAX \<Longrightarrow> t \<noteq> i \<Longrightarrow> live_inv i k \<Longrightarrow> returns (live_inv i) (call t k)"
  shows "returns (shell_inv i) (task_ctrl_cmd argv (on_task what call) bad_argv st)"
proof -
  have c: "char_ring_inv (console st)" using inv by (simp add: shell_inv_def)
  have p: "returns (shell_inv i) (lprintln s st)" for s by (rule prints_keep [OF inv lprintln_some [OF c]])
  have "returns (shell_inv i) (on_task what call t st)" if f: "task_find_tid (trim argv) (kern st) = Some t" for t
  proof -
    have t: "t < TASK_MAX" "t \<noteq> i" using f idle find_tid_less [OF f] by auto
    let ?s = "''[MOS] Task '' @ quote @ tname (TCBS (kern st) t) @ quote @ '' '' @ what"
    obtain u where u: "lprintln ?s st = Some u" "printed (?s @ nl) st u"
      using lprintln_spec [OF c, of ?s] by (auto simp: returns_iff)
    have iu: "shell_inv i u" by (rule shell_inv_printed [OF inv u(2)])
    then obtain k where k: "call t (kern u) = Some k" "live_inv i k"
      using call [OF t, of "kern u"] by (auto simp: shell_inv_def returns_iff)
    have "on_task what call t st = Some (u\<lparr>kern := k\<rparr>)"
      using t(1) u(1) k(1) by (simp add: on_task_def tcb_at_def)
    then show ?thesis using shell_inv_kern [OF iu k(2)] by simp
  qed
  then show ?thesis using p by (auto simp: task_ctrl_cmd_def bad_argv_def Let_def split: option.split)
qed

lemma callback_keeps:
  assumes inv: "shell_inv i st" and idle: "task_find_tid (trim argv) (kern st) \<noteq> Some i"
  shows "returns (\<lambda>out. shell_inv i (out_state out)) (run_callback cb argv st)"
proof -
  have c: "char_ring_inv (console st)" using inv by (simp add: shell_inv_def)
  note live = kcall_live [of i _ _ demo_addrs]
  have wrap: "returns (\<lambda>out. shell_inv i (out_state out)) (map_option Returned m)" if "returns (shell_inv i) m" for m
    using that by (cases m) simp_all
  have kill: "returns (shell_inv i) (kill_cmd argv st)"
    unfolding kill_cmd_def by (rule task_ctrl_keeps [OF inv idle]) (use live [of _ "KTerminate _"] in simp)
  have block: "returns (shell_inv i) (block_cmd argv st)"
    unfolding block_cmd_def by (rule task_ctrl_keeps [OF inv idle]) (use live [of _ "KBlock _"] in simp)
  have resume: "returns (shell_inv i) (resume_cmd argv st)"
    unfolding resume_cmd_def by (rule task_ctrl_keeps [OF inv idle]) (use live [of _ "KResume _"] in simp)
  have uname: "returns (shell_inv i) (uname_cmd argv st)"
    by (rule prints_keep [OF _ uname_cmd_prints [OF c]])
      (use inv in \<open>simp add: shell_inv_def set_user_name_def live_inv_user_name Let_def\<close>)
  have time: "returns (shell_inv i) (time_cmd argv st)"
    unfolding time_cmd_def Let_def case_prod_unfold by (rule prints_keep [OF inv lprintln_some [OF c]])
  have reboot: "returns (\<lambda>out. shell_inv i (out_state out)) (reboot_cmd argv st)"
    using prints_keep [OF inv lprintln_some [OF c, of "''[MOS] Reboot!''"]] by (auto simp: reboot_cmd_def elim!: returns_mono)
  show ?thesis
    by (cases cb) (use kill block resume uname time reboot prints_keep [OF inv ls_cmd_prints [OF c]]
      prints_keep [OF inv help_cmd_prints [OF c]] in \<open>simp_all add: wrap\<close>)
qed

text \<open>The line does not name the idle task as its argument.\<close>

definition spares :: "nat \<Rightarrow> string \<Rightarrow> kernel \<Rightarrow> bool" where
  "spares i line k \<longleftrightarrow> (case find_cmd SYS_CMD_MAP line of None \<Rightarrow> True | Some (cb, argv) \<Rightarrow> task_find_tid (trim argv) k \<noteq> Some i)"

lemma parse_and_run_keeps:
  assumes inv: "shell_inv i st" and sp: "spares i line (kern st)"
  shows "returns (\<lambda>out. shell_inv i (out_state out)) (parse_and_run line st)"
proof -
  have c: "char_ring_inv (console st)" using inv by (simp add: shell_inv_def)
  obtain u where u: "lprintln (''> '' @ line) st = Some u" "printed ((''> '' @ line) @ nl) st u"
    using lprintln_spec [OF c, of "''> '' @ line"] by (auto simp: returns_iff)
  have iu: "shell_inv i u" by (rule shell_inv_printed [OF inv u(2)])
  then have cu: "char_ring_inv (console u)" by (simp add: shell_inv_def)
  have unknown: "returns (\<lambda>out. shell_inv i (out_state out)) (map_option Returned (lprintln s u))" for s
    using prints_keep [OF iu lprintln_some [OF cu, of s]] by (cases "lprintln s u") simp_all
  have "returns (\<lambda>out. shell_inv i (out_state out)) (run_callback cb argv u)"
    if "find_cmd SYS_CMD_MAP line = Some (cb, argv)" for cb argv
    using callback_keeps [OF iu] sp that printed_fields(1) [OF u(2)] by (simp add: spares_def)
  then show ?thesis
    using u(1) iu unknown unfolding parse_and_run_def by (auto split: option.split)
qed

subsection \<open>The line editor as a list\<close>

definition edit :: "u8 \<Rightarrow> u8 list \<Rightarrow> u8 list" where
  "edit c l = (if c = 0x08 \<or> c = 0x7F then butlast l else if 0x20 \<le> c \<and> length l < 31 then l @ [c] else l)"

definition line_of :: "line_editor \<Rightarrow> u8 list" where
  "line_of e = take (ed_len e) (ed_buf e)"

lemma line_of_new [simp]: "ed_inv line_editor_new" "line_of line_editor_new = []"
  by (simp_all add: ed_inv_def line_of_def line_editor_new_def)

lemma editor_feed_char:
  assumes "ed_inv (editor st)" "c \<noteq> 0x0D" "c \<noteq> 0x0A"
  shows "returns (\<lambda>out. \<exists>e. out = Returned (st\<lparr>editor := e\<rparr>) \<and> ed_inv e \<and> line_of e = edit c (line_of (editor st))) (editor_feed c st)"
proof -
  let ?e = "editor st"
  have l: "length (ed_buf ?e) = 32" "ed_len ?e \<le> 31" "length (line_of ?e) = ed_len ?e"
    using assms(1) by (simp_all add: ed_inv_def line_of_def)
  consider (erase) "c = 0x08 \<or> c = 0x7F" | (put) "\<not> (c = 0x08 \<or> c = 0x7F)" "0x20 \<le> c" "ed_len ?e < 31"
    | (other) "\<not> (c = 0x08 \<or> c = 0x7F)" "\<not> (0x20 \<le> c \<and> ed_len ?e < 31)" by blast
  then show ?thesis
  proof cases
    case erase
    let ?b = "if 0 < ed_len ?e then ?e\<lparr>ed_len := ed_len ?e - 1\<rparr> else ?e"
    have "editor_feed c st = Some (Returned (st\<lparr>editor := ?b\<rparr>))"
      using erase assms(2,3) by (auto simp: editor_feed_def Let_def)
    moreover have "ed_inv ?b" using assms(1) by (auto simp: ed_inv_def)
    moreover have "line_of ?b = edit c (line_of ?e)"
      using erase l by (auto simp: line_of_def edit_def butlast_take)
    ultimately show ?thesis unfolding returns_iff by blast
  next
    case put
    let ?b = "?e\<lparr>ed_buf := (ed_buf ?e)[ed_len ?e := c], ed_len := ed_len ?e + 1\<rparr>"
    have "editor_feed c st = Some (Returned (st\<lparr>editor := ?b\<rparr>))"
      using put assms(2,3) l(1) by (simp add: editor_feed_def array_set_def Let_def)
    moreover have "ed_inv ?b" using put l by (simp add: ed_inv_def)
    moreover have "line_of ?b = edit c (line_of ?e)"
      using put l by (simp add: line_of_def edit_def take_Suc_conv_app_nth)
    ultimately show ?thesis unfolding returns_iff by blast
  next
    case other
    have "editor_feed c st = Some (Returned (st\<lparr>editor := ?e\<rparr>))"
      using other assms(2,3) by (auto simp: editor_feed_def Let_def)
    moreover have "line_of ?e = edit c (line_of ?e)" using other l(3) by (simp add: edit_def)
    ultimately show ?thesis using assms(1) unfolding returns_iff by blast
  qed
qed

text \<open>What the editor does with a finished line.\<close>

definition run_line :: "u8 list \<Rightarrow> shell \<Rightarrow> outcome option" where
  "run_line bs st = do {
     out \<leftarrow> (case from_utf8 bs of Some line \<Rightarrow> parse_and_run (trim line) st | None \<Rightarrow> Some (Returned st));
     Some (case out of Returned st \<Rightarrow> Returned (st\<lparr>editor := (editor st)\<lparr>ed_len := 0\<rparr>\<rparr>) | Rebooted st \<Rightarrow> Rebooted st) }"

lemma editor_feed_newline:
  assumes "ed_inv (editor st)" "c = 0x0A \<or> c = 0x0D"
  shows "editor_feed c st = run_line (line_of (editor st)) st"
  using assms by (auto simp: editor_feed_def run_line_def slice_to_def ed_inv_def line_of_def Let_def)

lemma editor_reset: "ed_inv e \<Longrightarrow> ed_inv (e\<lparr>ed_len := 0\<rparr>)"
  by (simp add: ed_inv_def)

lemma run_line_keeps:
  assumes inv: "shell_inv i st" and sp: "\<And>line. from_utf8 bs = Some line \<Longrightarrow> spares i (trim line) (kern st)"
  shows "returns (\<lambda>out. shell_inv i (out_state out)) (run_line bs st)"
proof -
  let ?m = "case from_utf8 bs of Some line \<Rightarrow> parse_and_run (trim line) st | None \<Rightarrow> Some (Returned st)"
  have "returns (\<lambda>out. shell_inv i (out_state out)) ?m"
    using parse_and_run_keeps [OF inv] sp inv by (simp split: option.split)
  then obtain out where out: "?m = Some out" "shell_inv i (out_state out)" by (rule returnsE)
  have r: "shell_inv i s \<Longrightarrow> shell_inv i (s\<lparr>editor := (editor s)\<lparr>ed_len := 0\<rparr>\<rparr>)" for s
    by (simp add: shell_inv_def editor_reset)
  show ?thesis unfolding run_line_def out(1) using out(2) r by (cases out) simp_all
qed

lemma shell_inv_editor: "shell_inv i st \<Longrightarrow> ed_inv e \<Longrightarrow> shell_inv i (st\<lparr>editor := e\<rparr>)"
  by (simp add: shell_inv_def)

lemma shell_inv_ring: "shell_inv i st \<Longrightarrow> input_inv r \<Longrightarrow> shell_inv i (st\<lparr>in_ring := r\<rparr>)"
  by (simp add: shell_inv_def)

lemma shell_step_keeps:
  assumes "shell_inv i st" and "CURRENT_TCB (kern st) \<noteq> Some i"
    and "\<And>line. from_utf8 (line_of (editor st)) = Some line \<Longrightarrow> spares i (trim line) (kern st)"
  shows "returns (\<lambda>out. shell_inv i (out_state out)) (shell_step st)"
proof (cases "typed (in_ring st)")
  case Nil
  have inv: "input_inv (in_ring st)" and live: "live_inv i (kern st)" using assms(1) by (simp_all add: shell_inv_def)
  have "returns (live_inv i) (task_delay 10 (kern st))"
    using kcall_live [OF live, of "KDelay 10" demo_addrs] assms(2) by simp
  then show ?thesis using inputs.pop_empty [OF inv Nil] assms(1)
    by (auto simp: shell_step_def shell_inv_def elim!: returns_mono)
next
  case (Cons c cs)
  have inv: "input_inv (in_ring st)" using assms(1) by (simp add: shell_inv_def)
  obtain r where r: "input_ring_pop (in_ring st) = Some (Some c, r)" "input_inv r"
    using inputs.pop_law [OF inv Cons] by (auto simp: returns_iff)
  let ?st = "st\<lparr>in_ring := r\<rparr>"
  have i: "shell_inv i ?st" by (rule shell_inv_ring [OF assms(1) r(2)])
  then have e: "ed_inv (editor ?st)" by (simp add: shell_inv_def)
  have "returns (\<lambda>out. shell_inv i (out_state out)) (editor_feed c ?st)"
  proof (cases "c = 0x0A \<or> c = 0x0D")
    case True
    show ?thesis unfolding editor_feed_newline [OF e True]
      by (rule run_line_keeps [OF i]) (use assms(3) in simp)
  next
    case False
    then have c: "c \<noteq> 0x0D" "c \<noteq> 0x0A" by simp_all
    from editor_feed_char [OF e c] show ?thesis by (rule returns_mono) (use shell_inv_editor [OF i] in auto)
  qed
  then show ?thesis using r(1) by (simp add: shell_step_def)
qed

text \<open>C18. The shell task never panics and keeps the kernel alive: in every state with the kernel's
  invariant and well-formed rings and editor, run by a task other than idle, one round of its loop
  returns in such a state, whatever byte comes in and whatever the line in the editor says, as long as
  it does not kill, block or resume the idle task by name.\<close>

theorem shell_never_panics:
  assumes "shell_inv i st" and "CURRENT_TCB (kern st) \<noteq> Some i"
    and "\<And>line. from_utf8 (line_of (editor st)) = Some line \<Longrightarrow> spares i (trim line) (kern st)"
  shows "returns (\<lambda>out. shell_inv i (out_state out)) (shell_step st)"
  by (rule shell_step_keeps [OF assms])

subsection \<open>The first word selects the command\<close>

definition first_word :: "string \<Rightarrow> string" where
  "first_word s = takeWhile (\<lambda>c. c \<noteq> CHR '' '') s"

definition after_word :: "string \<Rightarrow> string" where
  "after_word s = trim_start (dropWhile (\<lambda>c. c \<noteq> CHR '' '') s)"

lemma starts_with_append: "starts_with s p \<longleftrightarrow> (\<exists>r. s = p @ r)"
  unfolding starts_with_def by (metis append_eq_conv_conj append_take_drop_id)

lemma word_split:
  assumes "CHR '' '' \<notin> set w" "r = [] \<or> starts_with r '' ''"
  shows "takeWhile (\<lambda>c. c \<noteq> CHR '' '') (w @ r) = w" "dropWhile (\<lambda>c. c \<noteq> CHR '' '') (w @ r) = r"
  using assms by (induction w) (auto simp: starts_with_append)

lemma try_match_word:
  assumes "CHR '' '' \<notin> set w"
  shows "try_match w line = (if first_word (trim_start line) = w then Some (after_word (trim_start line)) else None)"
proof (cases "first_word (trim_start line) = w")
  case True
  have s: "trim_start line = w @ dropWhile (\<lambda>c. c \<noteq> CHR '' '') (trim_start line)"
    using True unfolding first_word_def by (metis takeWhile_dropWhile_id)
  let ?r = "dropWhile (\<lambda>c. c \<noteq> CHR '' '') (trim_start line)"
  have r: "?r = [] \<or> starts_with ?r '' ''"
    using hd_dropWhile [of "\<lambda>c. c \<noteq> CHR '' ''" "trim_start line"] by (cases ?r) (auto simp: starts_with_append)
  have sw: "starts_with (trim_start line) w" using s by (auto simp: starts_with_append)
  have d: "drop (length w) (trim_start line) = ?r" by (subst s) simp
  show ?thesis using True r sw d by (simp add: try_match_def after_word_def Let_def)
next
  case False
  have "\<not> (drop (length w) (trim_start line) = [] \<or> starts_with (drop (length w) (trim_start line)) '' '')"
    if "starts_with (trim_start line) w"
  proof
    assume r: "drop (length w) (trim_start line) = [] \<or> starts_with (drop (length w) (trim_start line)) '' ''"
    have "trim_start line = w @ drop (length w) (trim_start line)"
      using that unfolding starts_with_def by (metis append_take_drop_id)
    then have "first_word (trim_start line) = w" using word_split(1) [OF assms r] by (simp add: first_word_def)
    with False show False by simp
  qed
  then show ?thesis using False by (auto simp: try_match_def Let_def)
qed

lemma find_cmd_word:
  "\<forall>c \<in> set cmds. CHR '' '' \<notin> set (fst c) \<Longrightarrow>
   find_cmd cmds line = map_option (\<lambda>cb. (cb, after_word (trim_start line))) (map_of cmds (first_word (trim_start line)))"
  by (induction cmds line rule: find_cmd.induct) (auto simp: try_match_word)

lemma sys_cmds_plain: "\<forall>c \<in> set SYS_CMD_MAP. CHR '' '' \<notin> set (fst c)"
  by (simp add: SYS_CMD_MAP_def)

text \<open>C22. Command matching is a table look-up: trying the entries one after the other, with prefix tests,
  selects exactly the entry named by the line's first word, with the rest of the line, leading white
  space removed, as the argument; a longer word that starts like a command is no command.\<close>

theorem command_lookup:
  "find_cmd SYS_CMD_MAP line
   = map_option (\<lambda>cb. (cb, after_word (trim_start line))) (map_of SYS_CMD_MAP (first_word (trim_start line)))"
  using sys_cmds_plain by (rule find_cmd_word)

lemma find_sys_cmd:
  assumes "(w, cb) \<in> set SYS_CMD_MAP" "rest = [] \<or> starts_with rest '' ''" "plain_char (hd w)" "w \<noteq> []"
  shows "find_cmd SYS_CMD_MAP (w @ rest) = Some (cb, trim_start rest)"
proof -
  have w: "CHR '' '' \<notin> set w" using sys_cmds_plain assms(1) by auto
  have t: "trim_start (w @ rest) = w @ rest" using assms(3,4) by (cases w) auto
  have d: "distinct (map fst SYS_CMD_MAP)" by (simp add: SYS_CMD_MAP_def)
  have "map_of SYS_CMD_MAP w = Some cb" using map_of_is_SomeI [OF d assms(1)] .
  then show ?thesis
    using word_split [OF w assms(2)] find_cmd_word [OF sys_cmds_plain, of "w @ rest"]
    by (simp add: t first_word_def after_word_def)
qed

subsection \<open>A typed line\<close>

lemma shell_steps_chars:
  "ed_inv (editor st) \<Longrightarrow> input_inv (in_ring st) \<Longrightarrow> typed (in_ring st) = data @ rest \<Longrightarrow> 0x0D \<notin> set data \<Longrightarrow> 0x0A \<notin> set data \<Longrightarrow>
   \<exists>r e. input_inv r \<and> typed r = rest \<and> ed_inv e \<and> line_of e = fold edit data (line_of (editor st))
     \<and> shell_steps (length data + n) st = shell_steps n (st\<lparr>in_ring := r, editor := e\<rparr>)"
proof (induction data arbitrary: st)
  case Nil
  have "st = st\<lparr>in_ring := in_ring st, editor := editor st\<rparr>" by simp
  then show ?case using Nil by (intro exI [of _ "in_ring st"] exI [of _ "editor st"]) simp
next
  case (Cons c data)
  obtain r where r: "input_ring_pop (in_ring st) = Some (Some c, r)" "input_inv r" "typed r = data @ rest"
    using inputs.pop_law [OF Cons.prems(2), of c "data @ rest"] Cons.prems(3) by (auto simp: returns_iff)
  have c: "c \<noteq> 0x0D" "c \<noteq> 0x0A" using Cons.prems(4,5) by auto
  obtain e where e: "editor_feed c (st\<lparr>in_ring := r\<rparr>) = Some (Returned (st\<lparr>in_ring := r, editor := e\<rparr>))" "ed_inv e"
    "line_of e = edit c (line_of (editor st))"
    using editor_feed_char [of "st\<lparr>in_ring := r\<rparr>", OF _ c] Cons.prems(1) by (auto simp: returns_iff)
  let ?st = "st\<lparr>in_ring := r, editor := e\<rparr>"
  have "shell_step st = Some (Returned ?st)" using r(1) e(1) by (simp add: shell_step_def)
  then have s: "shell_steps (length (c # data) + n) st = shell_steps (length data + n) ?st" by simp
  obtain r' e' where "input_inv r'" "typed r' = rest" "ed_inv e'" "line_of e' = fold edit data (line_of e)"
    "shell_steps (length data + n) ?st = shell_steps n (?st\<lparr>in_ring := r', editor := e'\<rparr>)"
    using Cons.IH [of ?st] r(2,3) e(2) Cons.prems(4,5) by auto
  then show ?case using s e(3) by (intro exI [of _ r'] exI [of _ e']) simp
qed

lemma shell_steps_1: "shell_steps 1 st = shell_step st"
  by (cases "shell_step st") (auto split: outcome.split)

lemma ring_before_editor: "st\<lparr>editor := e, in_ring := r\<rparr> = (st :: shell)\<lparr>in_ring := r, editor := e\<rparr>"
  by simp

lemma typed_line_spec:
  assumes "input_inv (in_ring st)" "typed (in_ring st) = []" "ed_inv (editor st)" "ed_len (editor st) = 0"
    and "length data < 256" "0x0D \<notin> set data" "0x0A \<notin> set data"
  shows "\<exists>r e. input_inv r \<and> typed r = [] \<and> ed_inv e \<and> line_of e = fold edit data []
    \<and> (do { r \<leftarrow> shell_push_input data (in_ring st); shell_steps (length data + 1) (st\<lparr>in_ring := r\<rparr>) })
      = run_line (fold edit data []) (st\<lparr>in_ring := r, editor := e\<rparr>)"
proof -
  obtain r0 where r0: "shell_push_input data (in_ring st) = Some r0" "input_inv r0" "typed r0 = data @ [0x0A]"
    using shell_push_input_spec [OF assms(1)] assms(2,5) by (auto simp: returns_iff)
  have l: "line_of (editor st) = []" using assms(4) by (simp add: line_of_def)
  obtain r e where re: "input_inv r" "typed r = [0x0A]" "ed_inv e" "line_of e = fold edit data []"
    "shell_steps (length data + 1) (st\<lparr>in_ring := r0\<rparr>) = shell_steps 1 (st\<lparr>in_ring := r, editor := e\<rparr>)"
    using shell_steps_chars [of "st\<lparr>in_ring := r0\<rparr>" data "[0x0A]" 1] assms(3,6,7) r0(2,3) l by auto
  obtain r' where r': "input_ring_pop r = Some (Some 0x0A, r')" "input_inv r'" "typed r' = []"
    using inputs.pop_law [OF re(1,2)] by (auto simp: returns_iff)
  have "shell_step (st\<lparr>in_ring := r, editor := e\<rparr>) = editor_feed 0x0A (st\<lparr>in_ring := r', editor := e\<rparr>)"
    using r'(1) by (simp add: shell_step_def ring_before_editor)
  also have "\<dots> = run_line (fold edit data []) (st\<lparr>in_ring := r', editor := e\<rparr>)"
    using editor_feed_newline [of "st\<lparr>in_ring := r', editor := e\<rparr>" "0x0A"] re(3,4) by simp
  finally have step: "shell_step (st\<lparr>in_ring := r, editor := e\<rparr>) = run_line (fold edit data []) (st\<lparr>in_ring := r', editor := e\<rparr>)" .
  have "(do { r \<leftarrow> shell_push_input data (in_ring st); shell_steps (length data + 1) (st\<lparr>in_ring := r\<rparr>) })
      = shell_steps (length data + 1) (st\<lparr>in_ring := r0\<rparr>)"
    using r0(1) by (simp del: shell_steps.simps)
  also have "\<dots> = run_line (fold edit data []) (st\<lparr>in_ring := r', editor := e\<rparr>)"
    unfolding re(5) shell_steps_1 by (rule step)
  finally show ?thesis using re(3,4) r'(2,3) by blast
qed

lemma fold_edit_plain:
  "\<forall>c \<in> set cs. 0x20 \<le> c \<and> c \<noteq> 0x7F \<Longrightarrow> length l + length cs \<le> 31 \<Longrightarrow> fold edit cs l = l @ cs"
proof (induction cs arbitrary: l)
  case (Cons c cs)
  then have "edit c l = l @ [c]" by (auto simp: edit_def)
  then show ?case using Cons by simp
qed simp

lemma find_tid_from_name:
  "find_tid_from name tids k = Some t \<Longrightarrow> tname (TCBS k t) = name \<and> status (TCBS k t) \<noteq> Terminated"
  by (induction tids) (auto split: if_splits)

lemma plain_bytes:
  assumes "\<forall>c \<in> set s. plain_char c"
  shows "\<forall>b \<in> set (to_bytes s). 0x20 \<le> b \<and> b \<noteq> 0x7F \<and> b \<noteq> 0x0D \<and> b \<noteq> 0x0A \<and> b \<le> 0x7F"
proof
  fix b assume "b \<in> set (to_bytes s)"
  then obtain c where c: "b = to_byte c" "plain_char c" using assms by (auto simp: to_bytes_def)
  have "unat b = of_char c" unfolding c(1) by (rule unat_to_byte)
  then have u: "32 < unat b" "unat b < 127" using c(2) by (simp_all add: plain_char_def)
  have "b \<noteq> 0x7F" "b \<noteq> 0x0D" "b \<noteq> 0x0A" using u by auto
  then show "0x20 \<le> b \<and> b \<noteq> 0x7F \<and> b \<noteq> 0x0D \<and> b \<noteq> 0x0A \<and> b \<le> 0x7F"
    using u by (simp add: word_le_nat_alt)
qed

lemma kill_by_name:
  assumes inv: "shell_inv i st" and name: "name \<noteq> []" "\<forall>c \<in> set name. plain_char c"
    and t: "task_find_tid name (kern st) = Some t" "t \<noteq> i"
  shows "returns (\<lambda>out. \<exists>st'. out = Returned st' \<and> live_inv i (kern st') \<and> char_ring_inv (console st')
      \<and> in_ring st' = in_ring st \<and> editor st' = editor st
      \<and> status (TCBS (kern st') t) = Terminated
      \<and> t \<notin> set (READY_LIST (kern st') @ BLOCKED_LIST (kern st') @ SLEEPING_LIST (kern st'))
      \<and> pending (console st') = take 2048 (pending (console st)
          @ to_bytes (''> kill '' @ name @ nl @ ''[MOS] Task '' @ quote @ name @ quote @ '' terminated'' @ nl)))
    (parse_and_run (''kill '' @ name) st)"
proof -
  let ?line = "''kill '' @ name" and ?msg = "''[MOS] Task '' @ quote @ name @ quote @ '' '' @ ''terminated''"
  have c: "char_ring_inv (console st)" and live: "live_inv i (kern st)" using inv by (simp_all add: shell_inv_def)
  have p: "plain_char (hd name)" "plain_char (last name)" using name by auto
  have tl: "trim ?line = ?line" by (rule trim_id) (use p name(1) in \<open>simp add: plain_char_def\<close>)
  have tn: "trim name = name" by (rule trim_id) (use p in simp)
  have tsn: "trim_start name = name" using p(1) name(1) by (cases name) auto
  have "find_cmd SYS_CMD_MAP (''kill'' @ ('' '' @ name)) = Some (KillCmd, trim_start ('' '' @ name))"
    by (rule find_sys_cmd) (simp_all add: SYS_CMD_MAP_def starts_with_def plain_char_def)
  then have find: "find_cmd SYS_CMD_MAP ?line = Some (KillCmd, name)" by (simp add: tsn)
  obtain u where u: "lprintln (''> '' @ ?line) st = Some u" "printed ((''> '' @ ?line) @ nl) st u"
    using lprintln_spec [OF c, of "''> '' @ ?line"] by (auto simp: returns_iff)
  obtain v where v: "lprintln ?msg u = Some v" "printed (?msg @ nl) u v"
    using lprintln_spec [OF printed_fields(4) [OF u(2)], of ?msg] by (auto simp: returns_iff)
  have fr: "kern v = kern st" "editor v = editor st" "in_ring v = in_ring st" "kern u = kern st" "char_ring_inv (console v)"
    using printed_fields [OF u(2)] printed_fields [OF v(2)] by simp_all
  note tid = find_tid_less [OF t(1)]
  have nm: "tname (TCBS (kern st) t) = name"
    using find_tid_from_name t(1) unfolding task_find_tid_def by blast
  have k: "returns (\<lambda>k. live_inv i k \<and> status (TCBS k t) = Terminated
      \<and> t \<notin> set (READY_LIST k @ BLOCKED_LIST k @ SLEEPING_LIST k)) (task_terminate t (kern st))"
  proof -
    have "kernel_inv (kern st)" "i \<in> set (READY_LIST (kern st))" "i \<noteq> t" "stacks_ok (kern st)" "SCHED_READY (kern st)"
      using live t(2) by (auto simp: live_inv_def)
    from task_terminate_spec [OF this(1) tid this(2,3)] this(4,5) show ?thesis
      by (auto simp: live_inv_def stacks_ok_def elim!: returns_mono)
  qed
  then obtain k where k: "task_terminate t (kern st) = Some k" "live_inv i k" "status (TCBS k t) = Terminated"
    "t \<notin> set (READY_LIST k @ BLOCKED_LIST k @ SLEEPING_LIST k)" by (auto simp: returns_iff)
  have "on_task ''terminated'' task_terminate t u = Some (v\<lparr>kern := k\<rparr>)"
    using tid v(1) fr k(1) nm by (simp add: on_task_def tcb_at_def)
  then have "parse_and_run ?line st = Some (Returned (v\<lparr>kern := k\<rparr>))"
    using u(1) tl find t(1) tn name(1) fr(4)
    unfolding parse_and_run_def by (simp add: kill_cmd_def task_ctrl_cmd_def Let_def)
  moreover have "pending (console v) = take 2048 (pending (console st) @ to_bytes (((''> '' @ ?line) @ nl) @ ?msg @ nl))"
    using printed_trans [OF u(2) v(2)] by (simp add: printed_def)
  ultimately show ?thesis using k fr by simp
qed

text \<open>C21. A message from the phone becomes one command: pushed into an empty input ring with an empty line in
  the editor, up to 255 bytes without line ends are edited (backspace and delete erase, control bytes
  are ignored, bytes behind the 31st are dropped) and then run exactly once as a line, the ring and the
  editor empty again; a line that is not UTF-8 is dropped.\<close>

theorem message_runs_one_line:
  assumes "input_inv (in_ring st)" "typed (in_ring st) = []" "ed_inv (editor st)" "ed_len (editor st) = 0"
    and "length data < 256" "0x0D \<notin> set data" "0x0A \<notin> set data"
  shows "\<exists>r e. input_inv r \<and> typed r = [] \<and> ed_inv e \<and> line_of e = fold edit data []
    \<and> (do { r \<leftarrow> shell_push_input data (in_ring st); shell_steps (length data + 1) (st\<lparr>in_ring := r\<rparr>) })
      = run_line (fold edit data []) (st\<lparr>in_ring := r, editor := e\<rparr>)"
  using assms by (rule typed_line_spec)

lemma remote_kill_spec:
  assumes inv: "shell_inv i st" and "typed (in_ring st) = []" "ed_len (editor st) = 0"
    and name: "name \<noteq> []" "\<forall>c \<in> set name. plain_char c" "length name \<le> 26"
    and t: "task_find_tid name (kern st) = Some t" "t \<noteq> i"
  shows "returns (\<lambda>out. \<exists>st'. out = Returned st' \<and> shell_inv i st' \<and> typed (in_ring st') = [] \<and> ed_len (editor st') = 0
      \<and> status (TCBS (kern st') t) = Terminated
      \<and> t \<notin> set (READY_LIST (kern st') @ BLOCKED_LIST (kern st') @ SLEEPING_LIST (kern st'))
      \<and> pending (console st') = take 2048 (pending (console st)
          @ to_bytes (''> kill '' @ name @ nl @ ''[MOS] Task '' @ quote @ name @ quote @ '' terminated'' @ nl)))
    (do { r \<leftarrow> shell_push_input (to_bytes (''kill '' @ name)) (in_ring st);
          shell_steps (length name + 6) (st\<lparr>in_ring := r\<rparr>) })"
proof -
  let ?line = "''kill '' @ name" and ?data = "to_bytes (''kill '' @ name)"
  have kill: "\<forall>b \<in> set (to_bytes ''kill ''). 0x20 \<le> b \<and> b \<noteq> 0x7F \<and> b \<noteq> 0x0D \<and> b \<noteq> 0x0A \<and> b \<le> 0x7F"
    by (simp add: to_bytes_def to_byte_def)
  have d: "\<forall>b \<in> set ?data. 0x20 \<le> b \<and> b \<noteq> 0x7F \<and> b \<noteq> 0x0D \<and> b \<noteq> 0x0A \<and> b \<le> 0x7F"
    using kill plain_bytes [OF name(2)] by (auto simp: to_bytes_def)
  have len: "length ?data = length name + 5" by simp
  have ed: "fold edit ?data [] = ?data" using fold_edit_plain [of ?data "[]"] d len name(3) by simp
  have utf: "from_utf8 ?data = Some ?line" using utf8_valid_ascii [of ?data] d by (simp add: from_utf8_def)
  have tl: "trim ?line = ?line"
    by (rule trim_id) (use name in \<open>simp add: plain_char_def\<close>)
  have lt: "length ?data < 256" and cr: "0x0D \<notin> set ?data" "0x0A \<notin> set ?data" using len name(3) d by auto
  obtain r e where re: "input_inv r" "typed r = []" "ed_inv e"
    "(do { r \<leftarrow> shell_push_input ?data (in_ring st); shell_steps (length ?data + 1) (st\<lparr>in_ring := r\<rparr>) })
      = run_line ?data (st\<lparr>in_ring := r, editor := e\<rparr>)"
    using typed_line_spec [OF _ assms(2) _ assms(3) lt cr] inv ed by (auto simp: shell_inv_def)
  have inv': "shell_inv i (st\<lparr>in_ring := r, editor := e\<rparr>)" using inv re(1,3) by (simp add: shell_inv_def)
  have t': "task_find_tid name (kern (st\<lparr>in_ring := r, editor := e\<rparr>)) = Some t" using t(1) by simp
  have n6: "length ?data + 1 = length name + 6" by simp
  obtain st' where st': "parse_and_run ?line (st\<lparr>in_ring := r, editor := e\<rparr>) = Some (Returned st')"
    "live_inv i (kern st')" "char_ring_inv (console st')" "in_ring st' = r" "editor st' = e"
    "status (TCBS (kern st') t) = Terminated"
    "t \<notin> set (READY_LIST (kern st') @ BLOCKED_LIST (kern st') @ SLEEPING_LIST (kern st'))"
    "pending (console st') = take 2048 (pending (console st)
          @ to_bytes (''> kill '' @ name @ nl @ ''[MOS] Task '' @ quote @ name @ quote @ '' terminated'' @ nl))"
    using kill_by_name [OF inv' name(1,2) t' t(2)] by (auto simp: returns_iff)
  have "run_line ?data (st\<lparr>in_ring := r, editor := e\<rparr>) = Some (Returned (st'\<lparr>editor := e\<lparr>ed_len := 0\<rparr>\<rparr>))"
    using utf tl st'(1,5) by (simp add: run_line_def)
  then show ?thesis unfolding re(4) [unfolded n6]
    using st' re(1-3) by (simp add: shell_inv_def editor_reset)
qed

text \<open>C19. A task can be killed from the phone: when the message is \<open>kill\<close> and the name of a live task other
  than idle, the shell's rounds over the message print the command and the confirmation, leave the task
  dead and in no scheduler list, and keep the kernel's, the rings' and the editor's invariants.\<close>

theorem remote_kill:
  assumes inv: "shell_inv i st" and "typed (in_ring st) = []" "ed_len (editor st) = 0"
    and name: "name \<noteq> []" "\<forall>c \<in> set name. plain_char c" "length name \<le> 26"
    and t: "task_find_tid name (kern st) = Some t" "t \<noteq> i"
  shows "returns (\<lambda>out. \<exists>st'. out = Returned st' \<and> shell_inv i st' \<and> typed (in_ring st') = [] \<and> ed_len (editor st') = 0
      \<and> status (TCBS (kern st') t) = Terminated
      \<and> t \<notin> set (READY_LIST (kern st') @ BLOCKED_LIST (kern st') @ SLEEPING_LIST (kern st'))
      \<and> pending (console st') = take 2048 (pending (console st)
          @ to_bytes (''> kill '' @ name @ nl @ ''[MOS] Task '' @ quote @ name @ quote @ '' terminated'' @ nl)))
    (do { r \<leftarrow> shell_push_input (to_bytes (''kill '' @ name)) (in_ring st);
          shell_steps (length name + 6) (st\<lparr>in_ring := r\<rparr>) })"
  by (rule remote_kill_spec [OF assms])

text \<open>The demo kernel with names: the shell runs, idle is ready, \<open>led\<close> sleeps.\<close>

definition demo_shell :: shell where
  "demo_shell = \<lparr>in_ring = input_ring_new, console = char_ring_new, editor = line_editor_new,
     kern = demo_kernel\<lparr>TCBS := (\<lambda>t. (TCBS demo_kernel t)\<lparr>tname :=
        (if t = 0 then ''shell'' else if t = 1 then ''idle'' else ''led'')\<rparr>)\<rparr>\<rparr>"

lemma demo_shell_inv: "shell_inv 1 demo_shell"
proof -
  have "kernel_inv (kern demo_shell)"
    by (auto simp: kernel_inv_def wf_kernel_def wf_lists_def wf_ids_def wf_current_def ready_sorted_def
      current_ready_def demo_shell_def demo_kernel_def kernel_boot_def tl_new_def all_less_16)
  then show ?thesis
    by (simp add: shell_inv_def live_inv_def) (simp add: demo_shell_def stacks_ok_def demo_kernel_def kernel_boot_def)
qed

lemma demo_shell_simps [simp]:
  "typed (in_ring demo_shell) = []" "ed_len (editor demo_shell) = 0" "input_inv (in_ring demo_shell)" "ed_inv (editor demo_shell)"
  "line_of (editor demo_shell) = []" "CURRENT_TCB (kern demo_shell) = Some 0" "pending (console demo_shell) = []"
  by (simp_all add: demo_shell_def) (simp_all add: line_editor_new_def demo_kernel_def)

theorem remote_kill_witness:
  "returns (\<lambda>out. \<exists>st'. out = Returned st' \<and> shell_inv 1 st' \<and> status (TCBS (kern st') 2) = Terminated
      \<and> pending (console st') = to_bytes (''> kill led'' @ nl @ ''[MOS] Task '' @ quote @ ''led'' @ quote @ '' terminated'' @ nl))
    (do { r \<leftarrow> shell_push_input (to_bytes ''kill led'') (in_ring demo_shell); shell_steps 9 (demo_shell\<lparr>in_ring := r\<rparr>) })"
proof -
  have f: "task_find_tid ''led'' (kern demo_shell) = Some 2" by code_simp
  have n: "length ''led'' + 6 = 9" by simp
  show ?thesis
    using remote_kill [OF demo_shell_inv _ _ _ _ _ f, unfolded n]
    by (auto simp: plain_char_def to_bytes_def elim!: returns_mono)
qed

theorem message_runs_one_line_witness:
  "\<exists>r e. input_inv r \<and> typed r = [] \<and> ed_inv e \<and> line_of e = [0x6C, 0x73]
    \<and> (do { r \<leftarrow> shell_push_input [0x6C, 0x78, 0x08, 0x73] (in_ring demo_shell); shell_steps 5 (demo_shell\<lparr>in_ring := r\<rparr>) })
      = run_line [0x6C, 0x73] (demo_shell\<lparr>in_ring := r, editor := e\<rparr>)"
proof -
  have f: "fold edit [0x6C, 0x78, 0x08, 0x73] [] = [0x6C, 0x73 :: u8]" by (simp add: edit_def)
  have n: "length [0x6C, 0x78, 0x08, 0x73 :: u8] + 1 = 5" by simp
  show ?thesis
    by (rule message_runs_one_line [of demo_shell "[0x6C, 0x78, 0x08, 0x73]", unfolded f n]) simp_all
qed

theorem shell_never_panics_witness:
  "returns (\<lambda>out. shell_inv 1 (out_state out)) (shell_step demo_shell)"
proof (rule shell_never_panics [OF demo_shell_inv])
  show "CURRENT_TCB (kern demo_shell) \<noteq> Some 1" by simp
  fix line assume "from_utf8 (line_of (editor demo_shell)) = Some line"
  then have "line = []" by (simp add: from_utf8_def of_bytes_def)
  then show "spares 1 (trim line) (kern demo_shell)"
    by (simp add: spares_def trim_id) (simp add: SYS_CMD_MAP_def try_match_def starts_with_def)
qed

subsection \<open>Names and times\<close>

text \<open>A name of at most 7 ASCII bytes that is its own trimming is kept; a longer one is cut.\<close>

lemma trim_zeros: "s = [] \<or> last s \<noteq> c \<Longrightarrow> trim_end_matches c (s @ replicate n c) = s"
  by (cases s rule: rev_cases) (auto simp: trim_end_matches_def dropWhile_append)

lemma of_byte_0 [simp]: "of_byte 0 = CHR 0x00"
  by code_simp

lemma of_byte_eq_0 [simp]: "(of_byte b = CHR 0x00) = (b = 0)"
  by (metis of_byte_0 to_byte_of_byte)

lemma user_name_ascii:
  assumes "\<forall>b \<in> set bs. b \<le> 0x7F" "bs = [] \<or> last (take 7 bs) \<noteq> 0"
  shows "user_name (set_user_name bs k) = of_bytes (take 7 bs)"
proof -
  let ?n = "8 - min (length bs) 7"
  have u: "USER_NAME (set_user_name bs k) = take 7 bs @ replicate ?n 0"
    by (auto simp: set_user_name_def USER_NAME_SIZE_def min_def Let_def)
  have "\<forall>b \<in> set (take 7 bs @ replicate ?n 0). b \<le> 0x7F" using assms(1) by (auto dest: in_set_takeD)
  then have "from_utf8 (USER_NAME (set_user_name bs k)) = Some (of_bytes (take 7 bs) @ replicate ?n (CHR 0x00))"
    unfolding u from_utf8_def using utf8_valid_ascii by (simp add: of_bytes_def map_replicate)
  moreover have "of_bytes (take 7 bs) = [] \<or> last (of_bytes (take 7 bs)) \<noteq> CHR 0x00"
  proof (cases "bs = []")
    case False
    then have "last (of_bytes (take 7 bs)) = of_byte (last (take 7 bs))" by (simp add: of_bytes_def last_map)
    then show ?thesis using assms(2) False by simp
  qed (simp add: of_bytes_def)
  ultimately show ?thesis by (simp add: user_name_def trim_zeros)
qed

text \<open>A longer name is cut after 7 bytes, in the middle of a character if need be: the buffer is then no
  UTF-8 and the shell shows the built-in name, although it has just confirmed the new one.\<close>

theorem cut_name_is_not_shown:
  "user_name (set_user_name [0xE4, 0xBD, 0xA0, 0xE5, 0xA5, 0xBD, 0xE5, 0x95, 0x8A] k) = ''neo''"
  by (simp add: set_user_name_def user_name_def from_utf8_def MOS_USER_NAME_def cont_def trim_end_matches_def)

text \<open>The shell accepts \<open>kill idle\<close>: the idle task is found by its name and terminated, and when the shell
  then sleeps for want of input nothing is ready and the scheduler panics.\<close>

theorem kill_idle_halts:
  "find_cmd SYS_CMD_MAP ''kill idle'' = Some (KillCmd, ''idle'') \<and> task_find_tid ''idle'' (kern demo_shell) = Some 1
   \<and> map_option READY_LIST (task_terminate 1 (kern demo_shell)) = Some [0]
   \<and> (task_terminate 1 (kern demo_shell) \<bind> task_delay 10) = None"
proof (intro conjI)
  show "find_cmd SYS_CMD_MAP ''kill idle'' = Some (KillCmd, ''idle'')"
    by (simp add: SYS_CMD_MAP_def try_match_def starts_with_def plain_char_def)
qed code_simp+

text \<open>The three numbers of the uptime are the hours, minutes and seconds of the tick counter.\<close>

lemma uptime_exact:
  "case uptime k of (h, m, s) \<Rightarrow> unat h * 3600 + unat m * 60 + unat s = unat (OS_TICKS k) div 1000
     \<and> unat m < 60 \<and> unat s < 60"
proof -
  define n where "n = unat (OS_TICKS k) div 1000"
  have "n mod 3600 mod 60 = n mod 60" by (rule mod_mod_cancel) simp
  then have "n div 3600 * 3600 + n mod 3600 div 60 * 60 + n mod 60 = n"
    using div_mult_mod_eq [of n 3600] div_mult_mod_eq [of "n mod 3600" 60] by linarith
  moreover have "n mod 3600 div 60 < 60" by (rule less_mult_imp_div_less) simp
  ultimately show ?thesis
    by (simp add: uptime_def os_ticks_def Let_def SYSTICK_HZ_def unat_div unat_mod n_def)
qed

end
