(* ===== verification/Mos_Firmware.thy ===== *)
theory Mos_Firmware
  imports Mos_Render Mos_Shell Mos_Exec Mos_Riscv Mos_Bsp
begin

section \<open>The firmware: start-up and the BLE task\<close>

text \<open>
  \<open>boards/esp32c6/src/main.rs\<close> and \<open>ble.rs\<close>. Objects of the driver crates (peripherals, channels, the
  display, the wireless controller) are values of a type \<open>'h\<close> that the firmware only stores and passes
  on; constructors and calls of these crates are the fields of the records \<open>hal\<close> and \<open>ble_ext\<close>, with
  \<open>None\<close> for an \<open>Err\<close> that the code unwraps. Where a task gives up the processor in the middle of its code
  (a delay, the creation of a task of higher priority, the wireless driver's own scheduling) its body is
  cut into segments; \<open>Mos_System\<close> puts them together with everything that may happen in between.
\<close>

subsection \<open>State\<close>

record 'h ble_statics =
  TIMG0_TIMER :: "'h option"
  RNG :: "'h option"
  ESP_WIFI_CTRL :: "'h option"
  BT_PERIPH :: "'h option"

text \<open>The statics of the crates; \<open>lcd_state\<close> are the locals of the running \<open>lcd_task\<close>.\<close>

record ('h, 'f) firmware =
  hooks :: "('h, 'h) rtt print_hooks"
  channels :: "('h, 'h) rtt"
  lcd_objs :: "('h, 'h) lcd_statics"
  ble_objs :: "'h ble_statics"
  sh :: shell
  lcd_state :: "'h lcd option"
  asy :: "'f async"

definition firmware_reset :: "u32 \<Rightarrow> ('h, 'f) firmware" where
  "firmware_reset base = \<lparr>hooks = no_hooks, channels = rtt_closed,
     lcd_objs = \<lparr>LCD_DISPLAY = None, LCD_BACKLIGHT = None\<rparr>,
     ble_objs = \<lparr>TIMG0_TIMER = None, RNG = None, ESP_WIFI_CTRL = None, BT_PERIPH = None\<rparr>,
     sh = \<lparr>in_ring = input_ring_new, console = char_ring_new, editor = line_editor_new, kern = kernel_boot base\<rparr>,
     lcd_state = None, asy = async_new\<rparr>"

text \<open>The addresses that the linker gives to the entry points and closure invokers of the tasks.\<close>

record entry_addrs =
  bt_init_entry :: u32
  ble_entry :: u32
  lcd_invoker :: u32
  shell_invoker :: u32
  executor_invoker :: u32
  idle_invoker :: u32

text \<open>\<open>kprintln!\<close> of the kernel, and a kernel call on the state of the firmware.\<close>

definition say :: "arguments \<Rightarrow> ('h, 'f) firmware \<Rightarrow> ('h, 'f) firmware" where
  "say args fw = fw\<lparr>channels := kprintln (hooks fw) (Some args) (channels fw)\<rparr>"

abbreviation fkern :: "('h, 'f) firmware \<Rightarrow> kernel" where
  "fkern fw \<equiv> kern (sh fw)"

definition set_kern :: "kernel \<Rightarrow> ('h, 'f) firmware \<Rightarrow> ('h, 'f) firmware" where
  "set_kern k fw = fw\<lparr>sh := (sh fw)\<lparr>kern := k\<rparr>\<rparr>"

definition delay_current :: "u32 \<Rightarrow> ('h, 'f) firmware \<Rightarrow> ('h, 'f) firmware option" where
  "delay_current ticks fw = do { k \<leftarrow> task_delay ticks (fkern fw); Some (set_kern k fw) }"

text \<open>\<open>Task::create(...).expect(...)\<close> of a function item: no captured bytes, and a panic when the pool is full.\<close>

definition expect_create :: "code_addrs \<Rightarrow> u32 \<Rightarrow> u8 \<Rightarrow> string \<Rightarrow> ('h, 'f) firmware \<Rightarrow> ('h, 'f) firmware option" where
  "expect_create ca invoker pr name fw = do {
     (r, k) \<leftarrow> task_create ca [] invoker pr name (fkern fw);
     case r of Inl e \<Rightarrow> None | Inr tid \<Rightarrow> Some (set_kern k fw) }"

subsection \<open>Storing the peripherals\<close>

definition store_bt_peripherals :: "'h \<Rightarrow> 'h \<Rightarrow> 'h \<Rightarrow> ('h, 'f) firmware \<Rightarrow> ('h, 'f) firmware" where
  "store_bt_peripherals timer rng bt_periph fw =
     (let fw = say [''[ble] Storing peripherals for BT init task''] fw
      in fw\<lparr>ble_objs := (ble_objs fw)\<lparr>TIMG0_TIMER := Some timer, RNG := Some rng, BT_PERIPH := Some bt_periph\<rparr>\<rparr>)"

subsection \<open>The start-up\<close>

record 'h hal =
  rtt_up :: 'h
  rtt_down :: 'h
  spi_new :: "'h option"
  spi_pins :: "'h \<Rightarrow> 'h"
  dma_rx :: "'h option"
  dma_tx :: "'h option"
  spi_with_buffers :: "'h \<Rightarrow> 'h \<Rightarrow> 'h \<Rightarrow> 'h"
  spi_device :: "'h \<Rightarrow> 'h option"
  spi_interface :: "'h \<Rightarrow> 'h"
  display_init :: "nat \<Rightarrow> nat \<Rightarrow> 'h \<Rightarrow> 'h option"
  backlight_new :: 'h
  timg0 :: 'h
  rng_new :: 'h
  bt :: 'h

text \<open>The display of 206 by 320 behind an SPI bus with DMA buffers.\<close>

definition build_display :: "'h hal \<Rightarrow> 'h option" where
  "build_display hal = do {
     spi \<leftarrow> spi_new hal;
     rx \<leftarrow> dma_rx hal;
     tx \<leftarrow> dma_tx hal;
     let spi = spi_with_buffers hal (spi_pins hal spi) rx tx;
     device \<leftarrow> spi_device hal spi;
     let di = spi_interface hal device;
     display_init hal 206 320 di }"

text \<open>What \<open>main\<close> sets up below the kernel: the hart, the device registers and the register \<open>mie\<close>; and what
  the image gives it: the timer's driver, the addresses of the symbols, of the interrupt stack and of the
  trap handler.\<close>

record hardware =
  hart :: machine
  devices :: io
  hw_mie :: u32

record image_map =
  systimer_crate :: systimer_driver
  symbols :: "symbol \<Rightarrow> u32"
  isr_stack_addr :: u32
  trap_vector :: u32

text \<open>
  \<open>main\<close>, up to the jump into the first task. \<open>addr\<close> is the address of the stack that the allocator
  returns. Constructing the allocator and \<open>esp_hal::init\<close> are the crates' own work. \<open>sched_launch\<close> is the
  kernel's part of \<open>Scheduler::launch\<close>, which then installs the trap handler once more.
\<close>

definition firmware_main :: "code_addrs \<Rightarrow> entry_addrs \<Rightarrow> ('h, 'h) rtt_ops \<Rightarrow> 'h hal \<Rightarrow> image_map \<Rightarrow> u32 \<Rightarrow> hardware
    \<Rightarrow> ('h, 'f) firmware \<Rightarrow> (hardware \<times> ('h, 'f) firmware) option" where
  "firmware_main ca ea io hal im addr hw fw = do {
     let (h, r) = rtt_init io (rtt_up hal) (rtt_down hal) (hooks fw) (channels fw);
     let fw = fw\<lparr>hooks := h, channels := r\<rparr>;
     display \<leftarrow> build_display hal;
     let backlight = backlight_new hal;
     let fw = fw\<lparr>lcd_objs := store_display display backlight (lcd_objs fw)\<rparr>;
     let hw = hw\<lparr>hart := install_trap_handler (symbols im) (isr_stack_addr im) (trap_vector im) (hart hw)\<rparr>;
     let (regs, mie) = init_systimer (systimer_crate im) (devices hw) (hw_mie hw);
     let hw = hw\<lparr>devices := regs, hw_mie := mie\<rparr>;
     let fw = store_bt_peripherals (timg0 hal) (rng_new hal) (bt hal) fw;
     (_, k) \<leftarrow> task_create_raw ca addr (bt_init_entry ea) 0 3 ''bt_init'' 8192 (fkern fw);
     let fw = set_kern k fw;
     k \<leftarrow> sched_launch ca [] (idle_invoker ea) (fkern fw);
     let hw = hw\<lparr>hart := install_trap_handler (symbols im) (isr_stack_addr im) (trap_vector im) (hart hw)\<rparr>;
     Some (hw, set_kern k fw) }"

text \<open>The panic handler reports and then waits for ever.\<close>

definition panic_report :: "string \<Rightarrow> ('h, 'f) firmware \<Rightarrow> ('h, 'f) firmware" where
  "panic_report info fw = say [''PANIC: '', info] fw"

subsection \<open>The Bluetooth initialisation task\<close>

text \<open>Up to the call of \<open>esp_wifi::init\<close>, with its arguments.\<close>

definition bt_init_begin :: "('h, 'f) firmware \<Rightarrow> ('h \<times> 'h \<times> ('h, 'f) firmware) option" where
  "bt_init_begin fw = do {
     let fw = say [''[bt_init] Running esp_wifi::init()...''] fw;
     timer \<leftarrow> TIMG0_TIMER (ble_objs fw);
     let fw = fw\<lparr>ble_objs := (ble_objs fw)\<lparr>TIMG0_TIMER := None\<rparr>\<rparr>;
     rng \<leftarrow> RNG (ble_objs fw);
     let fw = fw\<lparr>ble_objs := (ble_objs fw)\<lparr>RNG := None\<rparr>\<rparr>;
     Some (timer, rng, fw) }"

text \<open>The rest, with the controller that it returned; the result of \<open>create_raw\<close>, which the code drops, is kept
  to tell whether the BLE task exists.\<close>

definition bt_init_finish :: "code_addrs \<Rightarrow> entry_addrs \<Rightarrow> u32 \<Rightarrow> 'h \<Rightarrow> ('h, 'f) firmware
    \<Rightarrow> ((string + nat) \<times> ('h, 'f) firmware) option" where
  "bt_init_finish ca ea addr init fw = do {
     let fw = say [''[bt_init] esp_wifi::init() done''] fw;
     let fw = fw\<lparr>ble_objs := (ble_objs fw)\<lparr>ESP_WIFI_CTRL := Some init\<rparr>\<rparr>;
     (r, k) \<leftarrow> task_create_raw ca addr (ble_entry ea) 0 2 ''ble'' 8192 (fkern fw);
     let fw = set_kern k fw;
     Some (r, say [''[bt_init] BLE task created, done''] fw) }"

text \<open>The body returns into \<open>task_exit_stub\<close>.\<close>

definition bt_init_exit :: "('h, 'f) firmware \<Rightarrow> ('h, 'f) firmware option" where
  "bt_init_exit fw = do { k \<leftarrow> task_exit_current (fkern fw); Some (set_kern k fw) }"

subsection \<open>The BLE task\<close>

text \<open>\<open>current_millis\<close>, the clock that the HCI driver polls, gives way to other tasks first.\<close>

definition current_millis :: "u64 \<Rightarrow> ('h, 'f) firmware \<Rightarrow> (u64 \<times> ('h, 'f) firmware) option" where
  "current_millis now fw = do { k \<leftarrow> yield_task (fkern fw); Some (now, set_kern k fw) }"

definition cmd_write :: "nat \<Rightarrow> u8 list \<Rightarrow> ('h, 'f) firmware \<Rightarrow> ('h, 'f) firmware option" where
  "cmd_write offset data fw = do {
     r \<leftarrow> shell_push_input data (in_ring (sh fw));
     Some (fw\<lparr>sh := (sh fw)\<lparr>in_ring := r\<rparr>\<rparr>) }"

record 'h ble_ext =
  connector_new :: "'h \<Rightarrow> 'h \<Rightarrow> 'h"
  ble_new :: "'h \<Rightarrow> 'h"
  ble_init :: "'h \<Rightarrow> 'h option"
  adv_parameters :: "'h \<Rightarrow> 'h option"
  advertising_data :: "string \<Rightarrow> 'h option"
  adv_data :: "'h \<Rightarrow> 'h \<Rightarrow> 'h option"
  adv_enable :: "'h \<Rightarrow> bool \<Rightarrow> 'h option"

text \<open>Up to the delay that waits for the controller.\<close>

definition ble_begin :: "'h ble_ext \<Rightarrow> ('h, 'f) firmware \<Rightarrow> ('h \<times> ('h, 'f) firmware) option" where
  "ble_begin ext fw = do {
     let fw = say [''[ble] Task started''] fw;
     ctrl_ref \<leftarrow> ESP_WIFI_CTRL (ble_objs fw);
     bt_periph \<leftarrow> BT_PERIPH (ble_objs fw);
     let fw = fw\<lparr>ble_objs := (ble_objs fw)\<lparr>BT_PERIPH := None\<rparr>\<rparr>;
     let fw = say [''[ble] Creating BleConnector...''] fw;
     let connector = connector_new ext ctrl_ref bt_periph;
     let fw = say [''[ble] BleConnector created''] fw;
     let fw = say [''[ble] Waiting for controller init...''] fw;
     fw \<leftarrow> delay_current 500 fw;
     Some (connector, fw) }"

definition ble_advertise :: "'h ble_ext \<Rightarrow> 'h \<Rightarrow> ('h, 'f) firmware \<Rightarrow> ('h \<times> ('h, 'f) firmware) option" where
  "ble_advertise ext connector fw = do {
     let ble = ble_new ext connector;
     let fw = say [''[ble] Initializing BLE stack...''] fw;
     ble \<leftarrow> ble_init ext ble;
     ble \<leftarrow> adv_parameters ext ble;
     data \<leftarrow> advertising_data ext ''MOS-ESP32C6'';
     ble \<leftarrow> adv_data ext ble data;
     ble \<leftarrow> adv_enable ext ble True;
     Some (ble, say [''[ble] Advertising started as '' @ quote @ ''MOS-ESP32C6'' @ quote] fw) }"

text \<open>The creation of the two tasks; each preempts the BLE task at once.\<close>

definition ble_create_lcd :: "code_addrs \<Rightarrow> entry_addrs \<Rightarrow> ('h, 'f) firmware \<Rightarrow> ('h, 'f) firmware option" where
  "ble_create_lcd ca ea fw = expect_create ca (lcd_invoker ea) 1 ''lcd'' fw"

definition ble_create_shell :: "code_addrs \<Rightarrow> entry_addrs \<Rightarrow> ('h, 'f) firmware \<Rightarrow> ('h, 'f) firmware option" where
  "ble_create_shell ca ea fw = expect_create ca (shell_invoker ea) 1 ''shell'' fw"

definition ble_start_async :: "code_addrs \<Rightarrow> entry_addrs \<Rightarrow> bool \<Rightarrow> (nat \<Rightarrow> 'f) \<Rightarrow> ('h, 'f) firmware
    \<Rightarrow> ('h, 'f) firmware option" where
  "ble_start_async ca ea needs_drop async_sum fw = do {
     (n, a, k) \<leftarrow> async_test ca (executor_invoker ea) needs_drop async_sum 10 (asy fw) (fkern fw);
     let fw = set_kern k (fw\<lparr>asy := a\<rparr>);
     let fw = (if n < 10 then say [''[async] spawned '', decimal n, ''/'', decimal 10, '' (pool full)''] fw else fw);
     Some (say [''[ble] LCD + Shell + Async tasks created''] fw) }"

text \<open>The loop: the outcome of \<open>do_work\<close>, during which the server may call \<open>cmd_write\<close>, is an argument; an
  error is waited out first. The counter wraps.\<close>

datatype work_result = GotDisconnected | DidWork | WorkErr string

definition ble_work :: "work_result \<Rightarrow> ('h, 'f) firmware \<Rightarrow> ('h, 'f) firmware option" where
  "ble_work w fw =
     (case w of
        GotDisconnected \<Rightarrow> Some (say [''[ble] Disconnected, re-advertising...''] fw)
      | DidWork \<Rightarrow> Some fw
      | WorkErr e \<Rightarrow> delay_current 100 (say [''[ble] Error: '', e] fw))"

definition ble_count :: "u32 \<Rightarrow> ('h, 'f) firmware \<Rightarrow> (u32 \<times> ('h, 'f) firmware) option" where
  "ble_count loop_count fw = do {
     let loop_count = loop_count + 1;
     let fw = (if loop_count mod 1000 = 0 then say [''[ble] alive ('', decimal (unat loop_count), '')''] fw else fw);
     fw \<leftarrow> delay_current 10 fw;
     Some (loop_count, fw) }"

subsection \<open>Frames\<close>

lemma say_fields [simp]:
  "hooks (say s fw) = hooks fw" "lcd_objs (say s fw) = lcd_objs fw" "ble_objs (say s fw) = ble_objs fw"
  "sh (say s fw) = sh fw" "lcd_state (say s fw) = lcd_state fw" "asy (say s fw) = asy fw"
  by (simp_all add: say_def)

lemma set_kern_fields [simp]:
  "hooks (set_kern k fw) = hooks fw" "channels (set_kern k fw) = channels fw" "lcd_objs (set_kern k fw) = lcd_objs fw"
  "ble_objs (set_kern k fw) = ble_objs fw" "sh (set_kern k fw) = (sh fw)\<lparr>kern := k\<rparr>"
  "lcd_state (set_kern k fw) = lcd_state fw" "asy (set_kern k fw) = asy fw"
  by (simp_all add: set_kern_def)

subsection \<open>The start-up succeeds\<close>

text \<open>The first identifier of an empty pool, and the next one.\<close>

lemma boot_create_raw_closed:
  assumes sz: "CONTEXT_WORDS < stack_size div 4"
  obtains stack k' where "drop (stack_size div 4 - CONTEXT_WORDS) stack
         = map (frame_word entry param (task_exit_stub_addr ca)) [0..<CONTEXT_WORDS]"
      "length stack = stack_size div 4"
      "k' = (spawned 0 (raw_tcb 0 (addr + of_nat (4 * (stack_size div 4 - CONTEXT_WORDS))) p n addr) (kernel_boot base))
              \<lparr>HEAP_STACKS := [(addr, stack)]\<rparr>"
      "kernel_inv k'"
      "task_create_raw ca addr entry param p n stack_size (kernel_boot base) = Some (Inr 0, k')"
proof (rule task_create_raw_closed [OF kernel_inv_boot sz, of base ca addr entry param p n], goal_cases)
  case 1
  then have "status (TCBS (kernel_boot base) 0) \<noteq> Terminated" by simp
  then show ?case by (simp add: kernel_boot_def)
next
  case (2 t stack k')
  have "t = 0"
  proof (rule ccontr)
    assume "t \<noteq> 0"
    with 2(4) have "status (TCBS (kernel_boot base) 0) \<noteq> Terminated" by blast
    then show False by (simp add: kernel_boot_def)
  qed
  then show ?case using 2(6,5,7,8,9) by (intro 2(1)) (simp_all add: kernel_boot_def)
qed

text \<open>The state in which the first task runs: it is the one created before \<open>launch\<close>.\<close>

lemma launch_after_raw:
  assumes k1: "k1 = (spawned 0 (raw_tcb 0 s p n addr) (kernel_boot base))\<lparr>HEAP_STACKS := hs\<rparr>"
    and inv: "kernel_inv k1" and p: "p < PRI_MIN"
  shows "returns (\<lambda>k. CURRENT_TCB k = Some 0 \<and> SCHED_READY k \<and> READY_LIST k = [0, 1]
      \<and> TCBS k 0 = (raw_tcb 0 s p n addr)\<lparr>status := Running\<rparr>
      \<and> tname (TCBS k 1) = ''idle'' \<and> pri k 1 = PRI_MIN \<and> HEAP_STACKS k = hs)
    (sched_launch ca [] i k1)"
proof -
  have st: "stacks_ok k1" by (simp add: k1 stacks_ok_def) (simp add: kernel_boot_def)
  have wf: "wf_kernel k1" using inv by (simp add: kernel_inv_def)
  have small: "length ([] :: u8 list) \<le> TASK_CLOSURE_SIZE" by simp
  have stat: "status (TCBS k1 0) = Ready" "status (TCBS k1 1) = Terminated"
    by (simp_all add: k1) (simp add: kernel_boot_def)
  have idle: "alloc_tid k1 = (Some 1, k1\<lparr>TID_BITMAP := TID_BITMAP k1 OR push_bit 1 1, TCBS := (TCBS k1)(1 := tcb_empty 1)\<rparr>)"
  proof (rule alloc_tid_cases [OF wf])
    fix t assume a: "alloc_tid k1 = (Some t, k1\<lparr>TID_BITMAP := TID_BITMAP k1 OR push_bit t 1, TCBS := (TCBS k1)(t := tcb_empty t)\<rparr>)"
      and t: "status (TCBS k1 t) = Terminated" "\<forall>s < t. status (TCBS k1 s) \<noteq> Terminated"
    have "t \<noteq> 0"
    proof
      assume "t = 0"
      with stat(1) t(1) show False by simp
    qed
    moreover have "\<not> 1 < t" using t(2) stat(2) by auto
    ultimately have "t = 1" by simp
    with a show ?thesis by simp
  qed (use stat(2) in auto)
  let ?T = "created_tcb 1 [] i PRI_MIN ''idle'' (STACKS_BASE k1 + of_nat (PAGE_SIZE * 1))"
  obtain stack k2 where k2: "k2 = (spawned 1 ?T k1)\<lparr>STACKS := (STACKS k1)(1 := stack)\<rparr>"
    "task_create ca [] i PRI_MIN ''idle'' k1 = do {
       k' \<leftarrow> (if CURRENT_TCB k1 \<noteq> None \<and> (\<forall>c. CURRENT_TCB k1 = Some c \<longrightarrow> PRI_MIN < pri k1 c)
             then yield_task k2 else Some k2); Some (Inr 1, k') }"
    by (rule task_create_closed [OF inv st small idle _ stat(2), of i PRI_MIN "''idle''" ca]) (auto simp del: TASK_MAX_def simp: TASK_MAX_def)
  have cold: "CURRENT_TCB k1 = None" by (simp add: k1) (simp add: kernel_boot_def)
  have "READY_LIST k1 = [0]" by (simp add: k1 spawned_def) (simp add: kernel_boot_def tl_new_def)
  then have rdy: "READY_LIST k2 = [0, 1]"
    using p by (simp add: k2(1) spawned_def) (simp add: k1 created_tcb_def not_less)
  have t0: "TCBS k2 0 = raw_tcb 0 s p n addr" "TCBS k2 1 = ?T" "HEAP_STACKS k2 = hs" by (simp_all add: k2(1)) (simp_all add: k1)
  show ?thesis
    using k2(2) cold rdy t0
    by (simp add: sched_launch_def tl_is_empty_def tl_front_def created_tcb_def)
qed

lemma trap_handler_installed:
  "csrs (install_trap_handler adr stack vector m) MTVEC = vector AND - 4"
  "mem (install_trap_handler adr stack vector m) (adr S_ISR_STACK_TOP) = stack + 8192"
  by (simp_all add: install_trap_handler_def set_gpr_def)

lemma init_systimer_mie: "bit (snd (init_systimer drv io mie)) 11"
  by (simp add: init_systimer_def enable_cpu_int_and_mie_def Let_def bit_simps)

lemma firmware_main_fails: "build_display hal = None \<Longrightarrow> firmware_main ca ea io hal im addr hw f0 = None"
  by (simp add: firmware_main_def rtt_init_def Let_def)

lemma firmware_main_spec:
  assumes Some: "build_display hal = Some d"
  shows "returns (\<lambda>(hw', fw).
        kreach ca 1 (fkern fw) \<and> CURRENT_TCB (fkern fw) = Some 0 \<and> READY_LIST (fkern fw) = [0, 1]
        \<and> TCBS (fkern fw) 0 = (raw_tcb 0 (addr + 8064) 3 ''bt_init'' addr)\<lparr>status := Running\<rparr>
        \<and> tname (TCBS (fkern fw) 1) = ''idle''
        \<and> (\<exists>stack. HEAP_STACKS (fkern fw) = [(addr, stack)]
             \<and> drop 2016 stack = map (frame_word (bt_init_entry ea) 0 (task_exit_stub_addr ca)) [0..<CONTEXT_WORDS])
        \<and> LCD_DISPLAY (lcd_objs fw) = Some d
        \<and> ble_objs fw = \<lparr>TIMG0_TIMER = Some (timg0 hal), RNG = Some (rng_new hal), ESP_WIFI_CTRL = None, BT_PERIPH = Some (bt hal)\<rparr>
        \<and> RTT_CHANNEL (channels fw) = Some (fold (\<lambda>p ch. snd (up_write io (to_bytes p) ch))
             [''[ble] Storing peripherals for BT init task'', [CHR 0x0A]] (rtt_up hal))
        \<and> csrs (hart hw') MTVEC = trap_vector im AND - 4 \<and> mem (hart hw') (symbols im S_ISR_STACK_TOP) = isr_stack_addr im + 8192
        \<and> bit (hw_mie hw') 11)
      (firmware_main ca ea io hal im addr hw (firmware_reset base))"
proof -
  have sz: "CONTEXT_WORDS < 8192 div 4" by simp
  obtain stack k1 where k1: "drop (8192 div 4 - CONTEXT_WORDS) stack
         = map (frame_word (bt_init_entry ea) 0 (task_exit_stub_addr ca)) [0..<CONTEXT_WORDS]"
    "k1 = (spawned 0 (raw_tcb 0 (addr + of_nat (4 * (8192 div 4 - CONTEXT_WORDS))) 3 ''bt_init'' addr) (kernel_boot base))
            \<lparr>HEAP_STACKS := [(addr, stack)]\<rparr>"
    "kernel_inv k1"
    "task_create_raw ca addr (bt_init_entry ea) 0 3 ''bt_init'' 8192 (kernel_boot base) = Some (Inr 0, k1)"
    by (rule boot_create_raw_closed [OF sz, of "bt_init_entry ea" 0 ca addr 3 "''bt_init''" base])
  obtain k where k: "sched_launch ca [] (idle_invoker ea) k1 = Some k" "CURRENT_TCB k = Some 0" "READY_LIST k = [0, 1]"
    "TCBS k 0 = (raw_tcb 0 (addr + 8064) 3 ''bt_init'' addr)\<lparr>status := Running\<rparr>" "tname (TCBS k 1) = ''idle''"
    "HEAP_STACKS k = [(addr, stack)]"
    using launch_after_raw [OF k1(2,3), of ca "idle_invoker ea"] by (auto simp: returns_iff)
  have "kboot ca k1" by (rule boot_create_raw [OF boot_start sz k1(4)])
  then have "kreach ca 1 k" by (rule reach_launch [OF _ k(1)]) (simp add: k(3))
  moreover obtain regs mie where t: "init_systimer (systimer_crate im) (devices hw) (hw_mie hw) = (regs, mie)" "bit mie 11"
    using init_systimer_mie by (metis prod.collapse)
  ultimately show ?thesis
    using Some k k1(1,4)
    by (simp add: firmware_main_def trap_handler_installed firmware_reset_def rtt_init_def store_bt_peripherals_def store_display_def Let_def
      say_def kprintln_def print_fmt_def register_print_fn_def register_getchar_fn_def rtt_print_fold set_kern_def)
qed

text \<open>C6. The firmware boots: when the drivers set up the display, \<open>main\<close> returns with a reachable state of
  the kernel in which the first task is the Bluetooth initialisation, running at priority 3 on its
  stack of 8 kB from the heap, whose top holds the frame that enters it, with only the idle task behind
  it; the display and the three peripherals are stored for the tasks that will take them, the console
  is connected and has shown the one message of the start-up; the hart's trap vector and the top of the
  interrupt stack are set and external interrupts are enabled. When a driver fails, \<open>main\<close> panics.\<close>

theorem firmware_boots:
  "case build_display hal of
     None \<Rightarrow> firmware_main ca ea io hal im addr hw (firmware_reset base) = None
   | Some d \<Rightarrow> returns (\<lambda>(hw', fw).
        kreach ca 1 (fkern fw) \<and> CURRENT_TCB (fkern fw) = Some 0 \<and> READY_LIST (fkern fw) = [0, 1]
        \<and> TCBS (fkern fw) 0 = (raw_tcb 0 (addr + 8064) 3 ''bt_init'' addr)\<lparr>status := Running\<rparr>
        \<and> tname (TCBS (fkern fw) 1) = ''idle''
        \<and> (\<exists>stack. HEAP_STACKS (fkern fw) = [(addr, stack)]
             \<and> drop 2016 stack = map (frame_word (bt_init_entry ea) 0 (task_exit_stub_addr ca)) [0..<CONTEXT_WORDS])
        \<and> LCD_DISPLAY (lcd_objs fw) = Some d
        \<and> ble_objs fw = \<lparr>TIMG0_TIMER = Some (timg0 hal), RNG = Some (rng_new hal), ESP_WIFI_CTRL = None, BT_PERIPH = Some (bt hal)\<rparr>
        \<and> RTT_CHANNEL (channels fw) = Some (fold (\<lambda>p ch. snd (up_write io (to_bytes p) ch))
             [''[ble] Storing peripherals for BT init task'', [CHR 0x0A]] (rtt_up hal))
        \<and> csrs (hart hw') MTVEC = trap_vector im AND - 4 \<and> mem (hart hw') (symbols im S_ISR_STACK_TOP) = isr_stack_addr im + 8192
        \<and> bit (hw_mie hw') 11)
      (firmware_main ca ea io hal im addr hw (firmware_reset base))"
proof (cases "build_display hal")
  case None
  then show ?thesis by (simp add: firmware_main_fails)
next
  case (Some d)
  show ?thesis unfolding Some option.case by (rule firmware_main_spec [OF Some])
qed

end
