(* ===== verification/Mos_System.thy ===== *)
theory Mos_System
  imports Mos_Firmware
begin

section \<open>The running system\<close>

text \<open>
  The tasks of the firmware together: the Bluetooth initialisation, the BLE task, the shell, the LCD task
  and the async executor, with the tick interrupt and whatever other kernel calls the wireless driver's
  tasks make. Each event is one uninterrupted stretch of the code of \<open>Mos_Firmware\<close> and the component
  theories; the two start-up tasks have a program counter, because their code runs only once. Who may
  run when is left open (every order of events that respects the program counters is possible, more
  than the priorities allow), so what is proved of all of them holds on the device.
\<close>

subsection \<open>Events\<close>

datatype bt_pc = BtStart | BtWifi | BtReturn | BtGone

datatype 'h ble_pc = BleNone | BleStart | BleConnected 'h | BleAdvertised | BleLcd | BleShell | BleTop u32 | BleTail u32

record ('h, 'f) system =
  fw :: "('h, 'f) firmware"
  bt_at :: bt_pc
  ble_at :: "'h ble_pc"
  up :: bool

text \<open>\<open>up\<close> is false once the board is being reset. What the crates and the build provide:\<close>

record ('h, 'f, 'c) platform =
  addrs :: code_addrs
  entries :: entry_addrs
  ext :: "'h ble_ext"
  gfx_of :: "'c gfx"
  panel_of :: "('c, 'h) panel"
  set_high_of :: "'h \<Rightarrow> 'h"
  poll_of :: "'f \<Rightarrow> nat \<Rightarrow> 'f async \<Rightarrow> (bool \<times> 'f \<times> 'f async) option"
  async_sum_of :: "nat \<Rightarrow> 'f"
  sum_needs_drop :: bool

datatype 'h event =
    EKernel kcall
  | ESay arguments
  | EBtBegin | EBtFinish 'h u32 | EBtExit
  | EBleBegin | EBleAdvertise | EBleLcd | EBleShell | EBleAsync | EBleWork work_result | EBleCount
  | EWrite "u8 list"
  | EShellStart | EShell | ELcdStart | ELcd | EExecutor

text \<open>The rounds of the three service tasks on the state of the firmware. The flag of the shell's tells
  that it goes on; otherwise the board is being reset.\<close>

definition shell_round :: "('h, 'f) firmware \<Rightarrow> (bool \<times> ('h, 'f) firmware) option" where
  "shell_round f = do {
     out \<leftarrow> shell_step (sh f);
     Some (case out of Returned st \<Rightarrow> (True, f\<lparr>sh := st\<rparr>) | Rebooted st \<Rightarrow> (False, f\<lparr>sh := st\<rparr>)) }"

definition lcd_task_round :: "'c gfx \<Rightarrow> ('c, 'h) panel \<Rightarrow> ('h, 'f) firmware \<Rightarrow> ('h, 'f) firmware option" where
  "lcd_task_round g set_pixels f = do {
     l \<leftarrow> lcd_state f;
     (ticks, r, l) \<leftarrow> lcd_round g set_pixels (console (sh f), l);
     delay_current ticks (f\<lparr>sh := (sh f)\<lparr>console := r\<rparr>, lcd_state := Some l\<rparr>) }"

definition executor_task_round :: "('f \<Rightarrow> nat \<Rightarrow> 'f async \<Rightarrow> (bool \<times> 'f \<times> 'f async) option) \<Rightarrow> ('h, 'f) firmware
    \<Rightarrow> ('h, 'f) firmware option" where
  "executor_task_round poll f = do {
     (a, k) \<leftarrow> executor_round poll (asy f) (fkern f);
     Some (set_kern k (f\<lparr>asy := a\<rparr>)) }"

fun run_event :: "('h, 'f, 'c) platform \<Rightarrow> 'h event \<Rightarrow> ('h, 'f) system \<Rightarrow> ('h, 'f) system option" where
  "run_event c (EKernel call) s = do {
     k \<leftarrow> kcall_run (addrs c) call (fkern (fw s)); Some (s\<lparr>fw := set_kern k (fw s)\<rparr>) }"
| "run_event c (ESay args) s = Some (s\<lparr>fw := say args (fw s)\<rparr>)"
| "run_event c EBtBegin s = do {
     (_, _, f) \<leftarrow> bt_init_begin (fw s); Some (s\<lparr>fw := f, bt_at := BtWifi\<rparr>) }"
| "run_event c (EBtFinish ctrl addr) s = do {
     (r, f) \<leftarrow> bt_init_finish (addrs c) (entries c) addr ctrl (fw s);
     Some (s\<lparr>fw := f, bt_at := BtReturn, ble_at := (case r of Inr _ \<Rightarrow> BleStart | Inl _ \<Rightarrow> BleNone)\<rparr>) }"
| "run_event c EBtExit s = do { f \<leftarrow> bt_init_exit (fw s); Some (s\<lparr>fw := f, bt_at := BtGone\<rparr>) }"
| "run_event c EBleBegin s = do {
     (connector, f) \<leftarrow> ble_begin (ext c) (fw s); Some (s\<lparr>fw := f, ble_at := BleConnected connector\<rparr>) }"
| "run_event c EBleAdvertise s =
     (case ble_at s of
        BleConnected connector \<Rightarrow> do {
          (_, f) \<leftarrow> ble_advertise (ext c) connector (fw s); Some (s\<lparr>fw := f, ble_at := BleAdvertised\<rparr>) }
      | _ \<Rightarrow> Some s)"
| "run_event c EBleLcd s = do {
     f \<leftarrow> ble_create_lcd (addrs c) (entries c) (fw s); Some (s\<lparr>fw := f, ble_at := BleLcd\<rparr>) }"
| "run_event c EBleShell s = do {
     f \<leftarrow> ble_create_shell (addrs c) (entries c) (fw s); Some (s\<lparr>fw := f, ble_at := BleShell\<rparr>) }"
| "run_event c EBleAsync s = do {
     f \<leftarrow> ble_start_async (addrs c) (entries c) (sum_needs_drop c) (async_sum_of c) (fw s);
     Some (s\<lparr>fw := f, ble_at := BleTop 0\<rparr>) }"
| "run_event c (EBleWork w) s =
     (case ble_at s of
        BleTop n \<Rightarrow> do { f \<leftarrow> ble_work w (fw s); Some (s\<lparr>fw := f, ble_at := BleTail n\<rparr>) }
      | _ \<Rightarrow> Some s)"
| "run_event c EBleCount s =
     (case ble_at s of
        BleTail n \<Rightarrow> do { (n, f) \<leftarrow> ble_count n (fw s); Some (s\<lparr>fw := f, ble_at := BleTop n\<rparr>) }
      | _ \<Rightarrow> Some s)"
| "run_event c (EWrite data) s = do { f \<leftarrow> cmd_write 0 data (fw s); Some (s\<lparr>fw := f\<rparr>) }"
| "run_event c EShellStart s = do { st \<leftarrow> shell_start (sh (fw s)); Some (s\<lparr>fw := (fw s)\<lparr>sh := st\<rparr>\<rparr>) }"
| "run_event c EShell s = do { (b, f) \<leftarrow> shell_round (fw s); Some (s\<lparr>fw := f, up := b\<rparr>) }"
| "run_event c ELcdStart s = do {
     (l, objs) \<leftarrow> lcd_task_start (gfx_of c) (panel_of c) (set_high_of c) (lcd_objs (fw s));
     Some (s\<lparr>fw := (fw s)\<lparr>lcd_objs := objs, lcd_state := Some l\<rparr>\<rparr>) }"
| "run_event c ELcd s = do { f \<leftarrow> lcd_task_round (gfx_of c) (panel_of c) (fw s); Some (s\<lparr>fw := f\<rparr>) }"
| "run_event c EExecutor s = do { f \<leftarrow> executor_task_round (poll_of c) (fw s); Some (s\<lparr>fw := f\<rparr>) }"

text \<open>
  When an event can happen: the task whose code it is has reached that point, and a task other than idle
  is running wherever the code suspends the caller. The last lines are what the firmware counts on:
  the driver's calls succeed, the pool has room for the LCD and the shell task, and no line names idle.
\<close>

definition task_runs :: "nat \<Rightarrow> ('h, 'f) system \<Rightarrow> bool" where
  "task_runs idle s \<longleftrightarrow> CURRENT_TCB (fkern (fw s)) \<noteq> Some idle"

definition pool_has_room :: "('h, 'f) system \<Rightarrow> bool" where
  "pool_has_room s \<longleftrightarrow> (\<exists>t < TASK_MAX. status (TCBS (fkern (fw s)) t) = Terminated)"

fun event_ok :: "('h, 'f, 'c) platform \<Rightarrow> nat \<Rightarrow> 'h event \<Rightarrow> ('h, 'f) system \<Rightarrow> bool" where
  "event_ok c idle (EKernel call) s = kcall_ok idle call (fkern (fw s))"
| "event_ok c idle (ESay args) s = True"
| "event_ok c idle EBtBegin s = (bt_at s = BtStart)"
| "event_ok c idle (EBtFinish ctrl addr) s = (bt_at s = BtWifi)"
| "event_ok c idle EBtExit s = (bt_at s = BtReturn \<and> task_runs idle s)"
| "event_ok c idle EBleBegin s = (ble_at s = BleStart \<and> task_runs idle s)"
| "event_ok c idle EBleAdvertise s = (case ble_at s of BleConnected connector \<Rightarrow> ble_advertise (ext c) connector (fw s) \<noteq> None | _ \<Rightarrow> False)"
| "event_ok c idle EBleLcd s = (ble_at s = BleAdvertised \<and> pool_has_room s)"
| "event_ok c idle EBleShell s = (ble_at s = BleLcd \<and> pool_has_room s)"
| "event_ok c idle EBleAsync s = (ble_at s = BleShell)"
| "event_ok c idle (EBleWork w) s = (case ble_at s of BleTop n \<Rightarrow> task_runs idle s | _ \<Rightarrow> False)"
| "event_ok c idle EBleCount s = (case ble_at s of BleTail n \<Rightarrow> task_runs idle s | _ \<Rightarrow> False)"
| "event_ok c idle (EWrite data) s = (case ble_at s of BleTop n \<Rightarrow> True | _ \<Rightarrow> False)"
| "event_ok c idle EShellStart s = True"
| "event_ok c idle EShell s = (task_runs idle s \<and> (\<forall>line. from_utf8 (line_of (editor (sh (fw s)))) = Some line
     \<longrightarrow> spares idle (trim line) (fkern (fw s))))"
| "event_ok c idle ELcdStart s = True"
| "event_ok c idle ELcd s = (lcd_state (fw s) \<noteq> None \<and> task_runs idle s)"
| "event_ok c idle EExecutor s = task_runs idle s"

text \<open>The firmware as \<open>main\<close> leaves it, and what happens then.\<close>

definition system_start :: "('h, 'f) firmware \<Rightarrow> ('h, 'f) system" where
  "system_start f = \<lparr>fw = f, bt_at = BtStart, ble_at = BleNone, up = True\<rparr>"

inductive sys_reach :: "('h, 'f, 'c) platform \<Rightarrow> nat \<Rightarrow> ('h, 'f) system \<Rightarrow> bool" for c idle where
  sys_main: "firmware_main (addrs c) (entries c) io hal im addr hw (firmware_reset base) = Some (hw', f)
     \<Longrightarrow> idle = 1 \<Longrightarrow> sys_reach c idle (system_start f)"
| sys_event: "sys_reach c idle s \<Longrightarrow> up s \<Longrightarrow> event_ok c idle e s \<Longrightarrow> run_event c e s = Some s' \<Longrightarrow> sys_reach c idle s'"

inductive_cases sys_reachE: "sys_reach c idle s"

subsection \<open>The invariant of the system\<close>

text \<open>The kernel, the rings and the editor; the pool of the executor; the picture on the panel; and what
  the two start-up tasks will still take out of the statics.\<close>

definition stored :: "('h, 'f) system \<Rightarrow> bool" where
  "stored s \<longleftrightarrow> (bt_at s = BtStart \<longrightarrow> TIMG0_TIMER (ble_objs (fw s)) \<noteq> None \<and> RNG (ble_objs (fw s)) \<noteq> None)
     \<and> (bt_at s = BtStart \<or> bt_at s = BtWifi \<longrightarrow> BT_PERIPH (ble_objs (fw s)) \<noteq> None \<and> ble_at s = BleNone)
     \<and> (ble_at s = BleStart \<longrightarrow> ESP_WIFI_CTRL (ble_objs (fw s)) \<noteq> None \<and> BT_PERIPH (ble_objs (fw s)) \<noteq> None)"

definition picture_ok :: "('h, 'f, 'c) platform \<Rightarrow> ('h \<Rightarrow> nat \<Rightarrow> nat \<Rightarrow> 'c) \<Rightarrow> ('h, 'f) firmware \<Rightarrow> bool" where
  "picture_ok c pixel_of f \<longleftrightarrow> LCD_DISPLAY (lcd_objs f) \<noteq> None
     \<and> list_all (exact (gfx_of c) pixel_of) (case lcd_state f of None \<Rightarrow> [] | Some l \<Rightarrow> [l])"

definition sys_inv :: "('h, 'f, 'c) platform \<Rightarrow> ('h \<Rightarrow> nat \<Rightarrow> nat \<Rightarrow> 'c) \<Rightarrow> nat \<Rightarrow> ('h, 'f) system \<Rightarrow> bool" where
  "sys_inv c pixel_of idle s \<longleftrightarrow> shell_inv idle (sh (fw s)) \<and> pool_shape (asy (fw s)) \<and> picture_ok c pixel_of (fw s) \<and> stored s"

text \<open>What the platform promises: the graphics crates, the panel and the futures.\<close>

definition platform_ok :: "('h, 'f, 'c) platform \<Rightarrow> ('h \<Rightarrow> nat \<Rightarrow> nat \<Rightarrow> 'c) \<Rightarrow> bool" where
  "platform_ok c pixel_of \<longleftrightarrow> gfx_ok (gfx_of c) \<and> panel_ok (panel_of c) pixel_of \<and> poll_ok (poll_of c)"

lemma shell_inv_live: "shell_inv idle st \<Longrightarrow> live_inv idle (kern st)"
  by (simp add: shell_inv_def)

lemma picture_cong: "lcd_objs f = lcd_objs f' \<Longrightarrow> lcd_state f = lcd_state f' \<Longrightarrow> picture_ok c p f = picture_ok c p f'"
  by (simp add: picture_ok_def)

lemma stored_cong:
  "ble_objs (fw s) = ble_objs (fw s') \<Longrightarrow> bt_at s = bt_at s' \<Longrightarrow> ble_at s = ble_at s' \<Longrightarrow> stored s = stored s'"
  by (simp add: stored_def)


subsection \<open>Every event keeps the invariant\<close>

text \<open>An event that leaves the stored objects and the picture alone.\<close>

lemma sys_inv_update:
  assumes "sys_inv c p idle s" "shell_inv idle (sh f)" "pool_shape (asy f)"
    "lcd_objs f = lcd_objs (fw s)" "lcd_state f = lcd_state (fw s)" "ble_objs f = ble_objs (fw s)"
  shows "sys_inv c p idle (s\<lparr>fw := f\<rparr>)"
  using assms picture_cong [OF assms(4,5), of c p] by (simp add: sys_inv_def stored_def)

lemma sys_invD:
  assumes "sys_inv c p idle s"
  shows "shell_inv idle (sh (fw s))" "live_inv idle (fkern (fw s))" "pool_shape (asy (fw s))" "picture_ok c p (fw s)" "stored s"
  using assms by (simp_all add: sys_inv_def shell_inv_live)

lemma sys_inv_kern: "sys_inv c p idle s \<Longrightarrow> live_inv idle k \<Longrightarrow> sys_inv c p idle (s\<lparr>fw := set_kern k (fw s)\<rparr>)"
  by (rule sys_inv_update) (simp_all add: sys_invD shell_inv_kern)

lemma sys_inv_say: "sys_inv c p idle s \<Longrightarrow> sys_inv c p idle (s\<lparr>fw := say args (fw s)\<rparr>)"
  by (rule sys_inv_update) (simp_all add: sys_invD)

text \<open>The kernel calls of the segments.\<close>

lemma delay_current_spec:
  assumes "live_inv idle (fkern f)" "CURRENT_TCB (fkern f) \<noteq> Some idle"
  shows "returns (\<lambda>f'. \<exists>k. f' = set_kern k f \<and> live_inv idle k) (delay_current n f)"
  using kcall_live [OF assms(1), of "KDelay n" demo_addrs] assms(2) by (auto simp: delay_current_def returns_iff)

lemma task_create_live:
  assumes "live_inv idle k"
  shows "returns (\<lambda>(r, k'). live_inv idle k'
      \<and> ((\<exists>e. r = Inl e) \<longleftrightarrow> \<not> (\<exists>t < TASK_MAX. status (TCBS k t) = Terminated))) (task_create ca [] i pr name k)"
proof -
  have a: "kernel_inv k" "stacks_ok k" "length ([] :: u8 list) \<le> TASK_CLOSURE_SIZE" "SCHED_READY k" "idle \<in> set (READY_LIST k)"
    using assms by (simp_all add: live_inv_def)
  show ?thesis
  proof (rule returns_pairE [OF task_create_spec [OF a(1-3), of ca i pr name]])
    fix r k' assume r: "task_create ca [] i pr name k = Some (r, k')"
      "kernel_inv k' \<and> stacks_ok k' \<and> SCHED_READY k' = SCHED_READY k \<and> (case r of
         Inl e \<Rightarrow> k' = k \<and> {t. t < TASK_MAX \<and> status (TCBS k t) = Terminated} = {}
       | Inr t \<Rightarrow> create_post ca [] i pr name k t k')"
    have "live_inv idle k' \<and> ((\<exists>e. r = Inl e) \<longleftrightarrow> \<not> (\<exists>t < TASK_MAX. status (TCBS k t) = Terminated))"
    proof (cases r)
      case (Inl e)
      with r(2) assms show ?thesis by auto
    next
      case (Inr t)
      with r(2) have p: "create_post ca [] i pr name k t k'" by simp
      then have "t < TASK_MAX \<and> status (TCBS k t) = Terminated" "set (READY_LIST k) \<subseteq> set (READY_LIST k')"
        unfolding create_post_def by blast+
      with Inr r(2) a show ?thesis by (auto simp: live_inv_def simp del: TASK_MAX_def)
    qed
    with r(1) show ?thesis by simp
  qed
qed

lemma expect_create_spec:
  assumes "live_inv idle (fkern f)" "\<exists>t < TASK_MAX. status (TCBS (fkern f) t) = Terminated"
  shows "returns (\<lambda>f'. \<exists>k. f' = set_kern k f \<and> live_inv idle k) (expect_create ca i pr name f)"
proof (rule returns_pairE [OF task_create_live [OF assms(1), of ca i pr name]])
  fix r k assume r: "task_create ca [] i pr name (fkern f) = Some (r, k)"
    "live_inv idle k \<and> ((\<exists>e. r = Inl e) \<longleftrightarrow> \<not> (\<exists>t < TASK_MAX. status (TCBS (fkern f) t) = Terminated))"
  then obtain t where "r = Inr t" using assms(2) by (cases r) auto
  then show ?thesis using r by (auto simp: expect_create_def)
qed

lemma task_create_raw_live:
  assumes "live_inv idle k" "CONTEXT_WORDS < sz div 4"
  shows "returns (\<lambda>(r, k'). live_inv idle k') (task_create_raw ca addr entry param pr name sz k)"
  using kcall_live [OF assms(1), of "KCreateRaw addr entry param pr name sz" ca] assms(2) by (auto simp: returns_iff)

lemma async_spawn_live:
  assumes "pool_shape a" "live_inv idle k"
  shows "returns (\<lambda>(_, a', k'). pool_shape a' \<and> live_inv idle k') (async_spawn ca i d f a k)"
proof -
  have "returns (\<lambda>(a1, k1). pool_shape a1 \<and> live_inv idle k1) (ensure_init ca i a k)"
  proof (cases "init_flag a")
    case False
    obtain r k1 where "task_create ca [] i 1 ''async/exec'' k = Some (r, k1)" "live_inv idle k1"
      by (rule returns_pairE [OF task_create_live [OF assms(2), of ca i 1 "''async/exec''"]]) blast
    with False assms(1) show ?thesis by (cases r) (simp_all add: ensure_init_def pool_shape_def)
  qed (use assms in \<open>simp add: ensure_init_def\<close>)
  then obtain a1 k1 where a1: "ensure_init ca i a k = Some (a1, k1)" "pool_shape a1" "live_inv idle k1"
    by (rule returns_pairE) blast
  then have "\<forall>j \<in> set [0..<ASYNC_POOL_MAX]. j < length (pool a1)" by (simp add: pool_shape_def)
  from spawn_from_spec [OF this, of d f] show ?thesis
    using a1 by (auto simp: async_spawn_def pool_shape_def split: option.split simp del: upt_conv_Cons_Cons upt_rec_numeral)
qed

lemma async_test_live:
  "pool_shape a \<Longrightarrow> live_inv idle k \<Longrightarrow>
   returns (\<lambda>(_, a', k'). pool_shape a' \<and> live_inv idle k') (async_test_from ca i d mk n m a k)"
proof (induction n arbitrary: m a k)
  case (Suc n)
  obtain ok a1 k1 where "async_spawn ca i d (mk (Suc n)) a k = Some (ok, a1, k1)" "pool_shape a1" "live_inv idle k1"
    using async_spawn_live [OF Suc.prems, of ca i d "mk (Suc n)"] by (auto simp: returns_iff)
  with Suc.IH show ?case by simp
qed simp


text \<open>The start-up tasks.\<close>

lemma bt_begin_keeps:
  assumes inv: "sys_inv c p idle s" and pc: "bt_at s = BtStart"
  shows "returns (sys_inv c p idle) (run_event c EBtBegin s)"
proof -
  note i = sys_invD [OF inv]
  obtain timer rng where st: "TIMG0_TIMER (ble_objs (fw s)) = Some timer" "RNG (ble_objs (fw s)) = Some rng"
    "BT_PERIPH (ble_objs (fw s)) \<noteq> None" "ble_at s = BleNone" using i(5) pc by (auto simp: stored_def)
  show ?thesis using i st by (simp add: bt_init_begin_def sys_inv_def stored_def picture_ok_def)
qed

lemma bt_finish_keeps:
  assumes inv: "sys_inv c p idle s" and pc: "bt_at s = BtWifi"
  shows "returns (sys_inv c p idle) (run_event c (EBtFinish ctrl addr) s)"
proof -
  note i = sys_invD [OF inv]
  have st: "BT_PERIPH (ble_objs (fw s)) \<noteq> None" using i(5) pc by (simp add: stored_def)
  have sz: "CONTEXT_WORDS < 8192 div 4" by simp
  obtain r k where "task_create_raw (addrs c) addr (ble_entry (entries c)) 0 2 ''ble'' 8192 (fkern (fw s)) = Some (r, k)" "live_inv idle k"
    by (rule returns_pairE [OF task_create_raw_live [OF i(2) sz]])
  then show ?thesis
    using i st by (cases r) (simp_all add: bt_init_finish_def sys_inv_def stored_def picture_ok_def shell_inv_kern)
qed

lemma bt_exit_keeps:
  assumes inv: "sys_inv c p idle s" and pc: "bt_at s = BtReturn" and run: "task_runs idle s"
  shows "returns (sys_inv c p idle) (run_event c EBtExit s)"
proof -
  note i = sys_invD [OF inv]
  obtain k where "task_exit_current (fkern (fw s)) = Some k" "live_inv idle k"
    using kcall_live [OF i(2), of KExit demo_addrs] run by (auto simp: returns_iff task_runs_def)
  then show ?thesis using i pc by (simp add: bt_init_exit_def sys_inv_def stored_def picture_ok_def shell_inv_kern)
qed

lemma ble_begin_keeps:
  assumes inv: "sys_inv c p idle s" and pc: "ble_at s = BleStart" and run: "task_runs idle s"
  shows "returns (sys_inv c p idle) (run_event c EBleBegin s)"
proof -
  note i = sys_invD [OF inv]
  obtain ctrl bt where st: "ESP_WIFI_CTRL (ble_objs (fw s)) = Some ctrl" "BT_PERIPH (ble_objs (fw s)) = Some bt"
    "bt_at s \<noteq> BtStart" "bt_at s \<noteq> BtWifi" using i(5) pc by (auto simp: stored_def)
  let ?f = "say [''[ble] Task started''] (fw s)"
  let ?f1 = "say [''[ble] Waiting for controller init...''] (say [''[ble] BleConnector created'']
      (say [''[ble] Creating BleConnector...''] (?f\<lparr>ble_objs := (ble_objs ?f)\<lparr>BT_PERIPH := None\<rparr>\<rparr>)))"
  have "live_inv idle (fkern ?f1)" "CURRENT_TCB (fkern ?f1) \<noteq> Some idle" using i(2) run by (simp_all add: task_runs_def)
  from delay_current_spec [OF this, of 500] obtain k where "delay_current 500 ?f1 = Some (set_kern k ?f1)" "live_inv idle k"
    by (auto simp: returns_iff)
  then have "run_event c EBleBegin s = Some (s\<lparr>fw := set_kern k ?f1, ble_at := BleConnected (connector_new (ext c) ctrl bt)\<rparr>)"
    using st by (simp add: ble_begin_def Let_def)
  then show ?thesis using i st \<open>live_inv idle k\<close> by (simp add: sys_inv_def stored_def picture_ok_def shell_inv_kern)
qed

text \<open>An event that moves the program counter of the BLE task past its start.\<close>

lemma sys_inv_ble_at:
  assumes "sys_inv c p idle s" "ble_at s \<noteq> BleNone" "loc \<noteq> BleStart"
  shows "sys_inv c p idle (s\<lparr>ble_at := loc\<rparr>)"
  using assms by (auto simp: sys_inv_def stored_def)

lemma sys_inv_past:
  assumes "sys_inv c p idle (s\<lparr>fw := f\<rparr>)" "ble_at s \<noteq> BleNone" "loc \<noteq> BleStart"
  shows "sys_inv c p idle (s\<lparr>fw := f, ble_at := loc\<rparr>)"
  using sys_inv_ble_at [OF assms(1)] assms(2,3) by simp

lemma ble_advertise_fw: "ble_advertise e con f = Some (b, f') \<Longrightarrow> \<exists>s1 s2. f' = say s2 (say s1 f)"
  by (auto simp: ble_advertise_def Let_def split: Option.bind_splits)

lemma ble_advertise_keeps:
  assumes inv: "sys_inv c p idle s" and ok: "event_ok c idle EBleAdvertise s"
  shows "returns (sys_inv c p idle) (run_event c EBleAdvertise s)"
proof -
  obtain con where con: "ble_at s = BleConnected con" "ble_advertise (ext c) con (fw s) \<noteq> None"
    using ok by (auto split: ble_pc.splits)
  then obtain b s1 s2 where "ble_advertise (ext c) con (fw s) = Some (b, say s2 (say s1 (fw s)))"
    using ble_advertise_fw by fastforce
  moreover have keep: "sys_inv c p idle (s\<lparr>fw := say s2 (say s1 (fw s))\<rparr>)"
    using sys_inv_say [OF sys_inv_say [OF inv, of s1], of s2] by simp
  have "sys_inv c p idle (s\<lparr>fw := say s2 (say s1 (fw s)), ble_at := BleAdvertised\<rparr>)"
    by (rule sys_inv_past [OF keep]) (simp_all add: con(1))
  ultimately show ?thesis using con(1) by simp
qed

lemma ble_create_keeps:
  assumes inv: "sys_inv c p idle s" and room: "pool_has_room s" and pc: "ble_at s \<noteq> BleNone" "loc \<noteq> BleStart"
  shows "returns (sys_inv c p idle) (do { f \<leftarrow> expect_create ca i 1 name (fw s); Some (s\<lparr>fw := f, ble_at := loc\<rparr>) })"
proof -
  note r = sys_invD(2) [OF inv] room [unfolded pool_has_room_def]
  obtain k where "expect_create ca i 1 name (fw s) = Some (set_kern k (fw s))" "live_inv idle k"
    using expect_create_spec [OF r, of ca i 1 name] by (auto simp: returns_iff)
  then show ?thesis using sys_inv_past [OF sys_inv_kern [OF inv \<open>live_inv idle k\<close>] pc] by simp
qed

lemma ble_async_keeps:
  assumes inv: "sys_inv c p idle s" and pc: "ble_at s = BleShell"
  shows "returns (sys_inv c p idle) (run_event c EBleAsync s)"
proof -
  note i = sys_invD [OF inv]
  obtain n a k where a: "async_test (addrs c) (executor_invoker (entries c)) (sum_needs_drop c) (async_sum_of c) 10 (asy (fw s)) (fkern (fw s))
      = Some (n, a, k)" "pool_shape a" "live_inv idle k"
    using async_test_live [OF i(3,2), of "addrs c" "executor_invoker (entries c)" "sum_needs_drop c" "async_sum_of c" 10 0]
    by (auto simp: returns_iff async_test_def)
  let ?f = "set_kern k ((fw s)\<lparr>asy := a\<rparr>)"
  have keep: "sys_inv c p idle (s\<lparr>fw := ?f\<rparr>)"
    by (rule sys_inv_update [OF inv]) (use i a(2,3) in \<open>simp_all add: shell_inv_kern\<close>)
  have said: "sys_inv c p idle (s\<lparr>fw := say x f\<rparr>)" if "sys_inv c p idle (s\<lparr>fw := f\<rparr>)" for x f
    using sys_inv_say [OF that, of x] by simp
  have pc': "ble_at s \<noteq> BleNone" "BleTop 0 \<noteq> BleStart" using pc by simp_all
  show ?thesis
    using a(1) sys_inv_past [OF said [OF keep] pc'] sys_inv_past [OF said [OF said [OF keep]] pc']
    by (simp add: ble_start_async_def Let_def)
qed

lemma ble_work_keeps:
  assumes inv: "sys_inv c p idle s" and pc: "ble_at s = BleTop n" and run: "task_runs idle s"
  shows "returns (sys_inv c p idle) (run_event c (EBleWork w) s)"
proof -
  have pc': "ble_at s \<noteq> BleNone" "BleTail n \<noteq> BleStart" using pc by simp_all
  have said: "sys_inv c p idle (s\<lparr>fw := say x (fw s)\<rparr>)" for x by (rule sys_inv_say [OF inv])
  have "returns (\<lambda>f. sys_inv c p idle (s\<lparr>fw := f\<rparr>)) (ble_work w (fw s))"
  proof (cases w)
    case (WorkErr e)
    let ?f = "say [''[ble] Error: '', e] (fw s)"
    have "live_inv idle (fkern ?f)" "CURRENT_TCB (fkern ?f) \<noteq> Some idle"
      using sys_invD(2) [OF inv] run by (simp_all add: task_runs_def)
    from delay_current_spec [OF this, of 100] show ?thesis
      using sys_inv_kern [OF said] by (auto simp: ble_work_def WorkErr elim!: returns_mono)
  qed (use said inv in \<open>simp_all add: ble_work_def\<close>)
  then show ?thesis using pc sys_inv_past [OF _ pc'] by (auto simp: returns_iff)
qed

lemma ble_count_keeps:
  assumes inv: "sys_inv c p idle s" and pc: "ble_at s = BleTail n" and run: "task_runs idle s"
  shows "returns (sys_inv c p idle) (run_event c EBleCount s)"
proof -
  let ?f = "if (n + 1) mod 1000 = 0 then say [''[ble] alive ('', decimal (unat (n + 1)), '')''] (fw s) else fw s"
  have pc': "ble_at s \<noteq> BleNone" "BleTop (n + 1) \<noteq> BleStart" using pc by simp_all
  have "sh ?f = sh (fw s)" by simp
  then have l: "live_inv idle (fkern ?f)" "CURRENT_TCB (fkern ?f) \<noteq> Some idle"
    using sys_invD(2) [OF inv] run by (simp_all add: task_runs_def)
  obtain k where k: "delay_current 10 ?f = Some (set_kern k ?f)" "live_inv idle k"
    using delay_current_spec [OF l, of 10] by (auto simp: returns_iff)
  have "sys_inv c p idle (s\<lparr>fw := ?f\<rparr>)" using inv sys_inv_say [OF inv] by simp
  from sys_inv_kern [OF this k(2)] have keep: "sys_inv c p idle (s\<lparr>fw := set_kern k ?f\<rparr>)"
    by (simp split del: if_split)
  have "sys_inv c p idle (s\<lparr>fw := set_kern k ?f, ble_at := BleTop (n + 1)\<rparr>)" by (rule sys_inv_past [OF keep pc'])
  moreover have "run_event c EBleCount s = Some (s\<lparr>fw := set_kern k ?f, ble_at := BleTop (n + 1)\<rparr>)"
    using k(1) pc by (simp add: ble_count_def Let_def)
  ultimately show ?thesis by simp
qed

text \<open>The service tasks.\<close>

lemma shell_start_keeps:
  assumes "shell_inv idle st"
  shows "returns (shell_inv idle) (shell_start st)"
proof -
  let ?st = "st\<lparr>editor := line_editor_new\<rparr>"
  have i: "shell_inv idle ?st" by (rule shell_inv_editor [OF assms]) simp
  have "returns (shell_inv idle) (uname_cmd '''' ?st)"
    by (rule prints_keep [OF _ uname_cmd_prints])
      (use i in \<open>simp_all add: shell_inv_def set_user_name_def live_inv_user_name Let_def\<close>)
  then obtain u where u: "uname_cmd '''' ?st = Some u" "shell_inv idle u" by (rule returnsE)
  have "returns (shell_inv idle) (ls_cmd '''' u)"
    by (rule prints_keep [OF u(2) ls_cmd_prints]) (use u(2) in \<open>simp add: shell_inv_def\<close>)
  then show ?thesis using u(1) by (simp add: shell_start_def)
qed

lemma shell_keeps:
  assumes inv: "sys_inv c p idle s" and ok: "event_ok c idle EShell s"
  shows "returns (sys_inv c p idle) (run_event c EShell s)"
proof -
  note i = sys_invD [OF inv]
  have "CURRENT_TCB (fkern (fw s)) \<noteq> Some idle" using ok by (simp add: task_runs_def)
  moreover have "spares idle (trim line) (fkern (fw s))" if "from_utf8 (line_of (editor (sh (fw s)))) = Some line" for line
    using ok that by simp
  ultimately have "returns (\<lambda>out. shell_inv idle (out_state out)) (shell_step (sh (fw s)))"
    by (rule shell_step_keeps [OF i(1)])
  then obtain out where out: "shell_step (sh (fw s)) = Some out" "shell_inv idle (out_state out)" by (rule returnsE)
  have keep: "sys_inv c p idle (s\<lparr>fw := (fw s)\<lparr>sh := st\<rparr>, up := b\<rparr>)" if "shell_inv idle st" for st b
    using i that by (simp add: sys_inv_def stored_def picture_ok_def)
  show ?thesis using out keep by (cases out) (simp_all add: shell_round_def)
qed

lemma lcd_start_keeps:
  assumes ok: "platform_ok c p" and inv: "sys_inv c p idle s"
  shows "returns (sys_inv c p idle) (run_event c ELcdStart s)"
proof -
  note i = sys_invD [OF inv]
  obtain d where d: "LCD_DISPLAY (lcd_objs (fw s)) = Some d" using i(4) by (auto simp: picture_ok_def)
  have "exact (gfx_of c) p (lcd_start (gfx_of c) (panel_of c) d)"
    by (rule lcd_start_spec(1)) (use ok in \<open>simp_all add: platform_ok_def\<close>)
  then show ?thesis
    using i d by (auto simp: lcd_task_start_def sys_inv_def stored_def picture_ok_def Let_def split: option.split)
qed

lemma lcd_keeps:
  assumes ok: "platform_ok c p" and inv: "sys_inv c p idle s" and run: "lcd_state (fw s) \<noteq> None" "task_runs idle s"
  shows "returns (sys_inv c p idle) (run_event c ELcd s)"
proof -
  note i = sys_invD [OF inv]
  obtain l where l: "lcd_state (fw s) = Some l" "exact (gfx_of c) p l"
    using i(4) run(1) by (auto simp: picture_ok_def)
  have r: "char_ring_inv (console (sh (fw s)))" using i(1) by (simp add: shell_inv_def)
  have g: "gfx_ok (gfx_of c)" "panel_ok (panel_of c) p" using ok by (simp_all add: platform_ok_def)
  obtain n r' l' where round: "lcd_round (gfx_of c) (panel_of c) (console (sh (fw s)), l) = Some (n, r', l')"
    "char_ring_inv r'" "exact (gfx_of c) p l'"
    using lcd_round_feeds [OF g r l(2)] by (auto simp: returns_iff)
  let ?f = "(fw s)\<lparr>sh := (sh (fw s))\<lparr>console := r'\<rparr>, lcd_state := Some l'\<rparr>"
  have "live_inv idle (fkern ?f)" "CURRENT_TCB (fkern ?f) \<noteq> Some idle" using i(2) run(2) by (simp_all add: task_runs_def)
  from delay_current_spec [OF this, of n] obtain k where k: "delay_current n ?f = Some (set_kern k ?f)" "live_inv idle k"
    by (auto simp: returns_iff)
  have "sys_inv c p idle (s\<lparr>fw := set_kern k ?f\<rparr>)"
    using i round(2,3) k(2) by (simp add: sys_inv_def stored_def picture_ok_def shell_inv_def)
  then show ?thesis using l(1) round(1) k(1) by (simp add: lcd_task_round_def)
qed

lemma executor_keeps:
  assumes ok: "platform_ok c p" and inv: "sys_inv c p idle s" and run: "task_runs idle s"
  shows "returns (sys_inv c p idle) (run_event c EExecutor s)"
proof -
  note i = sys_invD [OF inv]
  have pk: "poll_ok (poll_of c)" "CURRENT_TCB (fkern (fw s)) \<noteq> Some idle" using ok run by (simp_all add: platform_ok_def task_runs_def)
  obtain a k where a: "executor_round (poll_of c) (asy (fw s)) (fkern (fw s)) = Some (a, k)" "pool_shape a" "live_inv idle k"
    using executor_round_spec [OF pk(1) i(3,2) pk(2)] by (auto simp: returns_iff)
  have "sys_inv c p idle (s\<lparr>fw := set_kern k ((fw s)\<lparr>asy := a\<rparr>)\<rparr>)"
    by (rule sys_inv_update [OF inv]) (use i a(2,3) in \<open>simp_all add: shell_inv_kern\<close>)
  then show ?thesis using a(1) by (simp add: executor_task_round_def)
qed

lemma write_keeps:
  assumes inv: "sys_inv c p idle s"
  shows "returns (sys_inv c p idle) (run_event c (EWrite data) s)"
proof -
  note i = sys_invD [OF inv]
  have "input_inv (in_ring (sh (fw s)))" using i(1) by (simp add: shell_inv_def)
  then obtain r where r: "shell_push_input data (in_ring (sh (fw s))) = Some r" "input_inv r"
    using shell_push_input_keeps [of "in_ring (sh (fw s))" data] by (auto simp: returns_iff)
  have "sys_inv c p idle (s\<lparr>fw := (fw s)\<lparr>sh := (sh (fw s))\<lparr>in_ring := r\<rparr>\<rparr>\<rparr>)"
    by (rule sys_inv_update [OF inv]) (use i r(2) in \<open>simp_all add: shell_inv_ring\<close>)
  then show ?thesis using r(1) by (simp add: cmd_write_def)
qed

lemma event_keeps:
  assumes ok: "platform_ok c p" and inv: "sys_inv c p idle s" and e: "event_ok c idle e s"
  shows "returns (sys_inv c p idle) (run_event c e s)"
proof (cases e)
  case (EKernel call)
  then show ?thesis
    using kcall_live [OF sys_invD(2) [OF inv], of call "addrs c"] e sys_inv_kern [OF inv] by (auto simp: returns_iff)
next
  case EShellStart
  have "sys_inv c p idle (s\<lparr>fw := (fw s)\<lparr>sh := st\<rparr>\<rparr>)" if "shell_inv idle st" for st
    by (rule sys_inv_update [OF inv]) (use sys_invD [OF inv] that in simp_all)
  then show ?thesis using shell_start_keeps [OF sys_invD(1) [OF inv]] EShellStart by (auto simp: returns_iff)
next
  case EBleLcd
  have pc: "ble_at s \<noteq> BleNone" "BleLcd \<noteq> BleStart" "pool_has_room s" using e EBleLcd by simp_all
  from ble_create_keeps [OF inv pc(3,1,2)] show ?thesis using EBleLcd by (simp add: ble_create_lcd_def)
next
  case EBleShell
  have pc: "ble_at s \<noteq> BleNone" "BleShell \<noteq> BleStart" "pool_has_room s" using e EBleShell by simp_all
  from ble_create_keeps [OF inv pc(3,1,2)] show ?thesis using EBleShell by (simp add: ble_create_shell_def)
next
  case EBtBegin
  then show ?thesis using bt_begin_keeps [OF inv] e by simp
next
  case (EBtFinish ctrl addr)
  then show ?thesis using bt_finish_keeps [OF inv, of ctrl addr] e by simp
next
  case EBtExit
  then show ?thesis using bt_exit_keeps [OF inv] e by simp
next
  case EBleBegin
  then show ?thesis using ble_begin_keeps [OF inv] e by simp
next
  case EBleAdvertise
  show ?thesis unfolding EBleAdvertise by (rule ble_advertise_keeps [OF inv]) (use e EBleAdvertise in simp)
next
  case EBleAsync
  then show ?thesis using ble_async_keeps [OF inv] e by simp
next
  case (EBleWork w)
  show ?thesis
  proof (cases "ble_at s")
    case (BleTop n)
    show ?thesis unfolding EBleWork by (rule ble_work_keeps [OF inv BleTop]) (use e EBleWork BleTop in simp)
  qed (use e EBleWork in simp_all)
next
  case EBleCount
  show ?thesis
  proof (cases "ble_at s")
    case (BleTail n)
    show ?thesis unfolding EBleCount by (rule ble_count_keeps [OF inv BleTail]) (use e EBleCount BleTail in simp)
  qed (use e EBleCount in simp_all)
next
  case EShell
  show ?thesis unfolding EShell by (rule shell_keeps [OF inv]) (use e EShell in simp)
next
  case ELcd
  show ?thesis unfolding ELcd by (rule lcd_keeps [OF ok inv]) (use e ELcd in simp_all)
next
  case EExecutor
  show ?thesis unfolding EExecutor by (rule executor_keeps [OF ok inv]) (use e EExecutor in simp)
next
  case (EWrite data)
  show ?thesis unfolding EWrite by (rule write_keeps [OF inv])
next
  case ELcdStart
  show ?thesis unfolding ELcdStart by (rule lcd_start_keeps [OF ok inv])
next
  case (ESay args)
  then show ?thesis using sys_inv_say [OF inv] by simp
qed


subsection \<open>The firmware never panics\<close>

lemma firmware_main_frame:
  assumes "firmware_main ca ea io hal im addr hw f0 = Some (hw', f)"
  shows "\<exists>k. sh f = (sh f0)\<lparr>kern := k\<rparr>" "lcd_state f = lcd_state f0" "asy f = asy f0"
  using assms by (auto simp: firmware_main_def rtt_init_def store_bt_peripherals_def Let_def split: Option.bind_splits prod.splits)

lemma start_inv:
  fixes f :: "('h, 'f) firmware"
  assumes "firmware_main ca ea io hal im addr hw (firmware_reset base) = Some (hw', f)"
  shows "sys_inv c p 1 (system_start f)"
proof -
  have "build_display hal \<noteq> None"
  proof
    assume "build_display hal = None"
    with assms show False by (simp add: firmware_main_fails)
  qed
  then obtain d where d: "build_display hal = Some d" by blast
  have f: "kreach ca 1 (fkern f)" "LCD_DISPLAY (lcd_objs f) = Some d"
    "ble_objs f = \<lparr>TIMG0_TIMER = Some (timg0 hal), RNG = Some (rng_new hal), ESP_WIFI_CTRL = None, BT_PERIPH = Some (bt hal)\<rparr>"
    using returnsD [OF firmware_main_spec [OF d] assms] by simp_all
  note fr = firmware_main_frame [OF assms]
  obtain k where k: "sh f = (sh (firmware_reset base :: ('h, 'f) firmware))\<lparr>kern := k\<rparr>" using fr(1) by blast
  have "shell_inv 1 (sh f)"
    using kreach_live [OF f(1)] k by (simp add: shell_inv_def) (simp add: firmware_reset_def input_ring_new_inv)
  then show ?thesis using f(2,3) fr(2,3)
    by (simp add: sys_inv_def stored_def picture_ok_def system_start_def) (simp add: firmware_reset_def)
qed

lemma sys_reach_inv: "platform_ok c p \<Longrightarrow> sys_reach c idle s \<Longrightarrow> sys_inv c p idle s"
proof (rotate_tac, induction rule: sys_reach.induct)
  case (sys_main io hal im addr hw base hw' f)
  then show ?case using start_inv [OF sys_main(1)] by simp
next
  case (sys_event s e s')
  then show ?case using event_keeps [of c p idle s e] by simp
qed

text \<open>C1. The whole firmware never panics: from reset, through \<open>main\<close>, the two-phase start of Bluetooth and
  the tasks it creates, in every order of ticks, kernel calls of any task, messages from the phone and
  rounds of the shell, the LCD task, the executor and the BLE task, the kernel's invariant, the rings and
  the editor, the executor's pool and the picture on the panel stay correct, no \<open>expect\<close> on a stored
  peripheral fails, and every event that can happen returns. This rests on the crates' promises (\<open>platform_ok\<close>),
  on room for the two tasks in the pool and on no command naming the idle task.\<close>

theorem firmware_never_panics:
  assumes "platform_ok c pixel_of" and "sys_reach c idle s"
  shows "sys_inv c pixel_of idle s
    \<and> (up s \<and> event_ok c idle e s \<longrightarrow> returns (sys_reach c idle) (run_event c e s))"
proof -
  note inv = sys_reach_inv [OF assms]
  have "returns (sys_reach c idle) (run_event c e s)" if ok: "up s" "event_ok c idle e s"
    using event_keeps [OF assms(1) inv ok(2)] sys_event [OF assms(2) ok] by (auto simp: returns_iff)
  with inv show ?thesis by blast
qed

text \<open>A platform whose driver objects are all pictures, with the demo graphics.\<close>

definition demo_hal :: "(nat \<Rightarrow> nat \<Rightarrow> u16) hal" where
  "demo_hal = \<lparr>rtt_up = (\<lambda>_ _. 0), rtt_down = (\<lambda>_ _. 0), spi_new = Some (\<lambda>_ _. 0), spi_pins = id, dma_rx = Some (\<lambda>_ _. 0),
     dma_tx = Some (\<lambda>_ _. 0), spi_with_buffers = (\<lambda>s _ _. s), spi_device = Some, spi_interface = id,
     display_init = (\<lambda>_ _ d. Some d), backlight_new = (\<lambda>_ _. 0), timg0 = (\<lambda>_ _. 0), rng_new = (\<lambda>_ _. 1), bt = (\<lambda>_ _. 2)\<rparr>"

definition demo_platform :: "(nat \<Rightarrow> nat \<Rightarrow> u16, timer_fut, u16) platform" where
  "demo_platform = \<lparr>addrs = demo_addrs,
     entries = \<lparr>bt_init_entry = 0x42001000, ble_entry = 0x42001100, lcd_invoker = 0x42001200, shell_invoker = 0x42001300,
       executor_invoker = 0x42001400, idle_invoker = 0x42001500\<rparr>,
     ext = \<lparr>connector_new = (\<lambda>c _. c), ble_new = id, ble_init = Some, adv_parameters = Some,
       advertising_data = (\<lambda>_. Some (\<lambda>_ _. 0)), adv_data = (\<lambda>b _. Some b), adv_enable = (\<lambda>b _. Some b)\<rparr>,
     gfx_of = demo_gfx, panel_of = demo_panel, set_high_of = id, poll_of = timer_future 0,
     async_sum_of = (\<lambda>n. async_delay 0 (of_nat n)), sum_needs_drop = False\<rparr>"

lemma demo_platform_ok: "platform_ok demo_platform (\<lambda>d. d)"
  using demo_ok timer_poll_ok [of 0] by (simp add: platform_ok_def demo_platform_def)

definition demo_image :: image_map where
  "demo_image = \<lparr>systimer_crate = \<lparr>int_map = (\<lambda>_. id), int_set_priority = (\<lambda>_ _. id), int_set_edge = (\<lambda>_. id), int_clear = (\<lambda>_. id),
     systimer_new = id, alarm_auto_reload = (\<lambda>_. id), alarm_clear = id, alarm_load = (\<lambda>_. id), alarm_start = id,
     alarm_enable_interrupt = (\<lambda>_. id)\<rparr>, symbols = demo_adr, isr_stack_addr = 0x40810000, trap_vector = 0x40800100\<rparr>"

definition demo_hardware :: hardware where
  "demo_hardware = \<lparr>hart = demo_machine, devices = (\<lambda>_. 0), hw_mie = 0\<rparr>"

text \<open>The first events after \<open>main\<close>.\<close>

theorem firmware_never_panics_witness:
  "\<exists>s s'. sys_reach demo_platform 1 s \<and> run_event demo_platform EBtBegin s = Some s' \<and> sys_inv demo_platform (\<lambda>d. d) 1 s'"
proof -
  let ?io = "\<lparr>up_write = (\<lambda>bs u. (length bs, u)), down_read = (\<lambda>buf d. (0, buf, d))\<rparr>"
  have d: "build_display demo_hal = Some (\<lambda>_ _. 0)" by (simp add: build_display_def demo_hal_def)
  obtain hw f where f: "firmware_main (addrs demo_platform) (entries demo_platform) ?io demo_hal demo_image 0x40800000 demo_hardware (firmware_reset 0)
      = Some (hw, f :: (nat \<Rightarrow> nat \<Rightarrow> u16, timer_fut) firmware)"
    by (rule returns_pairE [OF firmware_main_spec [OF d]])
  have r: "sys_reach demo_platform 1 (system_start f)" by (rule sys_main [OF f refl])
  have e: "up (system_start f)" "event_ok demo_platform 1 EBtBegin (system_start f)" by (simp_all add: system_start_def)
  obtain s' where s': "run_event demo_platform EBtBegin (system_start f) = Some s'" "sys_reach demo_platform 1 s'"
    using firmware_never_panics [OF demo_platform_ok r, of EBtBegin] e by (auto simp: returns_iff)
  then show ?thesis using r firmware_never_panics [OF demo_platform_ok s'(2)] by blast
qed


subsection \<open>From the phone to the panel\<close>

text \<open>What the shell prints about a killed task fits into one round of the LCD task.\<close>

definition kill_text :: "string \<Rightarrow> string" where
  "kill_text name = ''> kill '' @ name @ nl @ ''[MOS] Task '' @ quote @ name @ quote @ '' terminated'' @ nl"

lemma kill_text_bytes:
  assumes "\<forall>c \<in> set name. plain_char c" "length name \<le> 26"
  shows "length (to_bytes (kill_text name)) \<le> 128" "0x0D \<notin> set (to_bytes (kill_text name))"
proof -
  show "length (to_bytes (kill_text name)) \<le> 128" using assms(2) by (simp add: kill_text_def)
  have "0x0D \<notin> set (to_bytes name)" using plain_bytes [OF assms(1)] by auto
  then show "0x0D \<notin> set (to_bytes (kill_text name))"
    by (simp add: kill_text_def to_bytes_def) (simp add: to_byte_def)
qed

text \<open>C20. From the phone to the panel: when the message \<open>kill\<close> with the name of a live task other than idle
  arrives, the shell's rounds over it and one round of the LCD task end with the task dead and in no list
  of the scheduler, and with the panel showing, pixel by pixel, the last 11 lines of the history that now
  ends with the command and its confirmation.\<close>

theorem phone_to_pixels:
  assumes "gfx_ok g" "panel_ok set_pixels pixel_of" "exact g pixel_of l" "window_on h (terminal_of l)"
    and "shell_inv i st" "pending (console st) = []" "typed (in_ring st) = []" "ed_len (editor st) = 0"
    and "name \<noteq> []" "\<forall>c \<in> set name. plain_char c" "length name \<le> 26"
    and "task_find_tid name (kern st) = Some t" "t \<noteq> i"
  shows "returns (\<lambda>(st', r', l'). status (TCBS (kern st') t) = Terminated
      \<and> t \<notin> set (READY_LIST (kern st') @ BLOCKED_LIST (kern st') @ SLEEPING_LIST (kern st'))
      \<and> pending r' = [] \<and> exact g pixel_of l'
      \<and> window_on (fold hfeed (to_bytes (kill_text name)) h) (terminal_of l'))
    (do { r \<leftarrow> shell_push_input (to_bytes (''kill '' @ name)) (in_ring st);
          out \<leftarrow> shell_steps (length name + 6) (st\<lparr>in_ring := r\<rparr>);
          (_, r', l') \<leftarrow> lcd_round g set_pixels (console (out_state out), l);
          Some (out_state out, r', l') })"
proof -
  note tx = kill_text_bytes [OF assms(10,11)]
  obtain r st' where s: "shell_push_input (to_bytes (''kill '' @ name)) (in_ring st) = Some r"
    "shell_steps (length name + 6) (st\<lparr>in_ring := r\<rparr>) = Some (Returned st')" "shell_inv i st'"
    "status (TCBS (kern st') t) = Terminated"
    "t \<notin> set (READY_LIST (kern st') @ BLOCKED_LIST (kern st') @ SLEEPING_LIST (kern st'))"
    "pending (console st') = take 2048 (pending (console st) @ to_bytes (kill_text name))"
    using remote_kill_spec [OF assms(5,7-13)] unfolding returns_bind kill_text_def by (auto simp: returns_iff)
  then have p: "pending (console st') = to_bytes (kill_text name)" using tx(1) assms(6) by simp
  have ci: "char_ring_inv (console st')" using s(3) by (simp add: shell_inv_def)
  obtain n r' l' where "lcd_round g set_pixels (console st', l) = Some (n, r', l')" "pending r' = []" "exact g pixel_of l'"
    "window_on (fold hfeed (to_bytes (kill_text name)) h) (terminal_of l')"
    using lcd_round_spec [OF assms(1,2) ci assms(3,4)] tx unfolding p by (auto simp: returns_iff)
  then show ?thesis using s by simp
qed

theorem phone_to_pixels_witness:
  "returns (\<lambda>(st', r', l'). status (TCBS (kern st') 2) = Terminated \<and> exact demo_gfx (\<lambda>d. d) l'
      \<and> window_on [to_bytes ''> kill led'', to_bytes (''[MOS] Task '' @ quote @ ''led'' @ quote @ '' terminated''), []] (terminal_of l'))
    (do { r \<leftarrow> shell_push_input (to_bytes ''kill led'') (in_ring demo_shell);
          out \<leftarrow> shell_steps 9 (demo_shell\<lparr>in_ring := r\<rparr>);
          (_, r', l') \<leftarrow> lcd_round demo_gfx demo_panel (console (out_state out), lcd_start demo_gfx demo_panel (\<lambda>_ _. 7));
          Some (out_state out, r', l') })"
proof -
  have f: "task_find_tid ''led'' (kern demo_shell) = Some 2" by code_simp
  have n: "length ''led'' + 6 = 9" by simp
  note s = lcd_start_spec [OF demo_ok, of "\<lambda>_ _. 7"]
  have w: "window_on [[]] (terminal_of (lcd_start demo_gfx demo_panel (\<lambda>_ _. 7)))" unfolding s(2) by (rule window_new)
  have h: "fold hfeed (to_bytes (kill_text ''led'')) [[]]
      = [to_bytes ''> kill led'', to_bytes (''[MOS] Task '' @ quote @ ''led'' @ quote @ '' terminated''), []]"
    by code_simp
  show ?thesis
    using phone_to_pixels [OF demo_ok s(1) w demo_shell_inv _ _ _ _ _ _ f, unfolded n h]
    by (auto simp: plain_char_def elim!: returns_mono)
qed

end
